(* ===== verification/Bebop_Prelude.thy ===== *)
theory Bebop_Prelude
  imports Main "HOL-Library.Word"
begin

text \<open>
  Shared vocabulary of the development: the widths of the C integer types, the result codes and
  the size constants of \<^verbatim>\<open>bebop/include/bebop_wire.h\<close>, the little-endian view of machine words that
  \<^verbatim>\<open>memcpy\<close> gives on the supported targets, nullable pointers, and the generic list and word lemmas
  that the component theories share.

  Conventions used by every theory:
  \<^item> a pointer that the code compares with \<^verbatim>\<open>NULL\<close> is a value of an \<open>option\<close> type, \<open>None\<close> being
    \<^verbatim>\<open>NULL\<close>; an out-parameter is the cell it points to, so a function returns the cell's new content;
  \<^item> a span \<^verbatim>\<open>(data, length)\<close> is the list of the bytes it covers;
  \<^item> \<^verbatim>\<open>size_t\<close> is 64 bits wide; a \<^verbatim>\<open>size_t\<close> value is a \<open>nat\<close> and a sum or product that can wrap
    is reduced modulo \<open>2 ^ 64\<close> where the code computes it.
\<close>

unbundle bit_operations_syntax

named_theorems wire_defs \<open>definitions of small accessors and constants, unfolded by the component proofs\<close>
named_theorems le_simps \<open>lengths and round trips of little-endian encodings\<close>

section \<open>Machine types\<close>

type_synonym byte = "8 word"
type_synonym u16 = "16 word"
type_synonym u32 = "32 word"
type_synonym u64 = "64 word"
type_synonym u128 = "128 word"

definition SIZE_MAX :: nat where
  [wire_defs]: "SIZE_MAX = 2 ^ 64 - 1"

definition UINT32_MAX :: nat where
  [wire_defs]: "UINT32_MAX = 2 ^ 32 - 1"

text \<open>The value of a \<^verbatim>\<open>size_t\<close> expression whose exact value is \<open>n\<close>.\<close>

definition size_wrap :: "nat \<Rightarrow> nat" where
  "size_wrap n = n mod 2 ^ 64"

lemma size_wrap_id [simp]: "n < 2 ^ 64 \<Longrightarrow> size_wrap n = n"
  by (simp add: size_wrap_def)

lemma size_wrap_less [simp]: "size_wrap n < 2 ^ 64" "size_wrap n < 18446744073709551616"
  by (simp_all add: size_wrap_def)

lemma size_wrap_le: "size_wrap n \<le> n"
  by (simp add: size_wrap_def)

lemma size_wrap_add [simp]:
  "size_wrap (size_wrap m + n) = size_wrap (m + n)"
  "size_wrap (m + size_wrap n) = size_wrap (m + n)"
  by (simp_all only: size_wrap_def mod_add_left_eq mod_add_right_eq)

section \<open>Result codes and wire sizes\<close>

datatype Bebop_Result =
    BEBOP_RESULT_OK
  | BEBOP_RESULT_MALFORMED
  | BEBOP_RESULT_OVERFLOW
  | BEBOP_RESULT_OOM
  | BEBOP_RESULT_NULL
  | BEBOP_RESULT_INVALID

definition BEBOP_WIRE_SIZE_LEN :: nat where
  [wire_defs]: "BEBOP_WIRE_SIZE_LEN = 4"

section \<open>Little-endian byte strings\<close>

text \<open>
  \<open>le_bytes n w\<close> is what copying the first \<open>n\<close> bytes of the object \<open>w\<close> out of memory yields on a
  little-endian machine (\<^verbatim>\<open>BEBOP_WIRE_ASSUME_LE\<close>), and \<open>le_word bs\<close> is the object whose bytes are
  \<open>bs\<close>.
\<close>

definition le_bytes :: "nat \<Rightarrow> 'a::len word \<Rightarrow> byte list" where
  "le_bytes n w = map (\<lambda>i. ucast (drop_bit (8 * i) w)) [0..<n]"

primrec le_word :: "byte list \<Rightarrow> 'a::len word" where
  "le_word [] = 0"
| "le_word (b # bs) = ucast b OR push_bit 8 (le_word bs)"

lemma length_le_bytes [simp, le_simps]: "length (le_bytes n w) = n"
  by (simp add: le_bytes_def)

lemma nth_le_bytes [simp]: "i < n \<Longrightarrow> le_bytes n w ! i = ucast (drop_bit (8 * i) w)"
  by (simp add: le_bytes_def)

lemma le_bytes_0 [simp]: "le_bytes 0 w = []"
  by (simp add: le_bytes_def)

lemma bit_le_word:
  "bit (le_word bs :: 'a::len word) n \<longleftrightarrow>
     n < LENGTH('a) \<and> n div 8 < length bs \<and> bit (bs ! (n div 8)) (n mod 8)"
proof (induction bs arbitrary: n)
  case Nil
  then show ?case by simp
next
  case (Cons b bs)
  show ?case
  proof (cases "n < 8")
    case True
    then show ?thesis
      by (auto simp: bit_or_iff bit_push_bit_iff bit_ucast_iff)
  next
    case False
    then obtain m where m: "n = m + 8"
      by (metis add.commute le_Suc_ex not_less)
    have "\<not> bit (ucast b :: 'a word) n"
      using False by (auto simp: bit_ucast_iff dest: bit_imp_le_length)
    moreover have "(m + 8) div 8 = Suc (m div 8)"
      by simp
    ultimately show ?thesis
      using m by (auto simp: bit_or_iff bit_push_bit_iff Cons.IH simp del: div_add_self2)
  qed
qed

lemma le_word_le_bytes:
  "le_word (le_bytes n (w :: 'a::len word)) = (take_bit (8 * n) w :: 'a word)"
proof (rule bit_word_eqI)
  fix i
  assume i: "i < LENGTH('a)"
  have idx: "i div 8 < n \<longleftrightarrow> i < 8 * n"
    by (simp add: div_less_iff_less_mult mult.commute)
  have "8 * (i div 8) + i mod 8 = i"
    by simp
  then show "bit (le_word (le_bytes n w) :: 'a word) i = bit (take_bit (8 * n) w) i"
    using i idx by (auto simp: bit_le_word bit_take_bit_iff bit_ucast_iff bit_drop_bit_eq)
qed

lemma le_word_le_bytes_id [simp, le_simps]:
  "LENGTH('a) \<le> 8 * n \<Longrightarrow> le_word (le_bytes n (w :: 'a::len word)) = w"
  by (simp add: le_word_le_bytes take_bit_word_eq_self)

lemma le_bytes_le_word [simp, le_simps]:
  assumes "8 * length bs \<le> LENGTH('a)" and "n = length bs"
  shows "le_bytes n (le_word bs :: 'a::len word) = bs"
proof (rule nth_equalityI)
  show "length (le_bytes n (le_word bs :: 'a word)) = length bs"
    using assms by simp
next
  fix i
  assume "i < length (le_bytes n (le_word bs :: 'a word))"
  then have i: "i < length bs"
    using assms by simp
  show "le_bytes n (le_word bs :: 'a word) ! i = bs ! i"
  proof (rule bit_word_eqI)
    fix k
    assume "k < LENGTH(8)"
    then have k: "k < 8" by simp
    then have "8 * i + k < LENGTH('a)"
      using i assms(1) by linarith
    moreover have "(8 * i + k) div 8 = i" "(8 * i + k) mod 8 = k"
      using k by simp_all
    ultimately show "bit (le_bytes n (le_word bs :: 'a word) ! i) k = bit (bs ! i) k"
      using i k assms by (auto simp: bit_ucast_iff bit_drop_bit_eq bit_le_word)
  qed
qed

lemma le_bytes_inject:
  assumes "LENGTH('a) \<le> 8 * n"
  shows "le_bytes n (v :: 'a::len word) = le_bytes n w \<longleftrightarrow> v = w"
  using le_word_le_bytes_id [OF assms, of v] le_word_le_bytes_id [OF assms, of w] by metis

section \<open>Spans\<close>

text \<open>\<open>span_at i n xs\<close>: the \<open>n\<close> elements of \<open>xs\<close> that start at index \<open>i\<close>.\<close>

definition span_at :: "nat \<Rightarrow> nat \<Rightarrow> 'a list \<Rightarrow> 'a list" where
  "span_at i n xs = take n (drop i xs)"

lemma length_span_at [simp]: "i + n \<le> length xs \<Longrightarrow> length (span_at i n xs) = n"
  by (simp add: span_at_def)

lemma span_at_0 [simp]: "span_at i 0 xs = []"
  by (simp add: span_at_def)

lemma nth_span_at [simp]: "k < n \<Longrightarrow> i + n \<le> length xs \<Longrightarrow> span_at i n xs ! k = xs ! (i + k)"
  by (simp add: span_at_def)

lemma span_at_append_left [simp]: "i + n \<le> length xs \<Longrightarrow> span_at i n (xs @ ys) = span_at i n xs"
  by (simp add: span_at_def)

lemma span_at_append_right [simp]:
  "length xs \<le> i \<Longrightarrow> span_at i n (xs @ ys) = span_at (i - length xs) n ys"
  by (simp add: span_at_def)

lemma span_at_full [simp]: "n = length xs \<Longrightarrow> span_at 0 n xs = xs"
  by (simp add: span_at_def)

lemma span_at_span_at: "j + m \<le> n \<Longrightarrow> span_at j m (span_at i n xs) = span_at (i + j) m xs"
  by (simp add: span_at_def drop_take add.commute)

lemma span_at_Cons_nth: "i < length xs \<Longrightarrow> span_at i (Suc n) xs = xs ! i # span_at (Suc i) n xs"
  by (simp add: span_at_def take_Suc_conv_app_nth Cons_nth_drop_Suc [symmetric])

lemma span_at_add: "span_at i (m + n) xs = span_at i m xs @ span_at (i + m) n xs"
  by (simp add: span_at_def take_add add.commute)

section \<open>Bits\<close>

text \<open>\<^verbatim>\<open>m & (m - 1)\<close> clears the lowest bit that is set.\<close>

lemma clear_lowest_bit:
  fixes m :: "'a::len word"
  assumes k: "bit m k" and low: "\<forall>j<k. \<not> bit m j"
  shows "bit (m AND (m - 1)) i \<longleftrightarrow> bit m i \<and> i \<noteq> k"
proof -
  have len: "k < LENGTH('a)"
    using k by (rule bit_imp_le_length)
  define h where "h = m AND NOT (2 ^ k)"
  have bh: "bit h j \<longleftrightarrow> bit m j \<and> j \<noteq> k" for j
    by (auto simp: h_def bit_and_iff bit_not_iff bit_exp_iff dest: bit_imp_le_length)
  have "h + 2 ^ k = h OR 2 ^ k"
    by (rule disjunctive_add_eq_or) (auto intro!: bit_word_eqI simp: bh bit_and_iff bit_exp_iff)
  also have "\<dots> = m"
    by (rule bit_word_eqI) (use k in \<open>auto simp: bh bit_or_iff bit_exp_iff dest: bit_imp_le_length\<close>)
  finally have m: "m = h + 2 ^ k" by simp
  have "h + mask k = h OR mask k"
    by (rule disjunctive_add_eq_or) (auto intro!: bit_word_eqI simp: bh bit_and_iff bit_mask_iff low)
  moreover have "m - 1 = h + mask k"
    by (subst m) (simp add: mask_eq_decr_exp)
  ultimately have m1: "m - 1 = h OR mask k" by simp
  show ?thesis
    unfolding m1 using low by (auto simp: bit_and_iff bit_or_iff bh bit_mask_iff dest: bit_imp_le_length)
qed

text \<open>Clearing the low bits rounds down to a multiple of a power of two.\<close>

lemma unat_and_not_mask:
  "unat ((w :: 'a::len word) AND NOT (mask n)) = 2 ^ n * (unat w div 2 ^ n)"
proof -
  have "w AND NOT (mask n) = push_bit n (drop_bit n w)"
    by (rule bit_word_eqI) (auto simp: bit_simps)
  moreover have "unat (push_bit n (drop_bit n w)) = 2 ^ n * (unat w div 2 ^ n) mod 2 ^ LENGTH('a)"
    by (simp add: unsigned_push_bit_eq unsigned_drop_bit_eq)
      (simp add: push_bit_eq_mult drop_bit_eq_div take_bit_eq_mod mult.commute)
  moreover have "2 ^ n * (unat w div 2 ^ n) < 2 ^ LENGTH('a)"
    by (rule le_less_trans [of _ "unat w"]) simp_all
  ultimately show ?thesis
    by simp
qed

end
