(* ===== verification/Wire_Bits.thy ===== *)
theory Wire_Bits
  imports Bebop_Prelude
begin

text \<open>
  The bit and byte helpers at the head of \<^verbatim>\<open>bebop/src/bebop_wire.c\<close>: population count, count of
  trailing zeros (the compiler builtin and the portable loop), and the loads and stores of 1, 2 or 4
  little-endian bytes that the message index uses.
\<close>

section \<open>Population count\<close>

text \<open>\<^verbatim>\<open>__builtin_popcount\<close>: the number of one bits.\<close>

definition bebop_wire_popcount32 :: "u32 \<Rightarrow> nat" where
  "bebop_wire_popcount32 v = length (filter (bit v) [0..<32])"

section \<open>Trailing zeros\<close>

text \<open>
  \<^verbatim>\<open>__builtin_ctz\<close> is undefined at 0, which \<open>None\<close> stands for; the portable loop does not return
  there.
\<close>

definition bebop_wire_ctz32 :: "u32 \<Rightarrow> nat option" where
  "bebop_wire_ctz32 v = find (bit v) [0..<32]"

partial_function (option) bebop_wire_ctz32_loop :: "u32 \<Rightarrow> nat \<Rightarrow> nat option" where
  "bebop_wire_ctz32_loop v count =
     (if v AND 1 = 0 then bebop_wire_ctz32_loop (drop_bit 1 v) (count + 1) else Some count)"

section \<open>Loads and stores\<close>

definition bebop_wire_load_le :: "byte list \<Rightarrow> nat \<Rightarrow> u32" where
  "bebop_wire_load_le data width =
     (let value = ucast (data ! 0) :: u32
      in if width > 1
         then let value = value OR push_bit 8 (ucast (data ! 1))
              in if width > 2
                 then let value = value OR push_bit 16 (ucast (data ! 2))
                      in value OR push_bit 24 (ucast (data ! 3))
                 else value
         else value)"

text \<open>The bytes stored at the destination, which advances by their number.\<close>

definition bebop_wire_store_le :: "u32 \<Rightarrow> nat \<Rightarrow> byte list" where
  "bebop_wire_store_le value width =
     [ucast value]
     @ (if width > 1
        then [ucast (drop_bit 8 value)]
             @ (if width > 2 then [ucast (drop_bit 16 value), ucast (drop_bit 24 value)] else [])
        else [])"

section \<open>Lemmas\<close>

lemma popcount32_card: "bebop_wire_popcount32 v = card {i. bit v i}"
proof -
  have "{i. bit v i} = {i. i < 32 \<and> bit v i}"
    using bit_imp_le_length [of v] by auto
  also have "\<dots> = set (filter (bit v) [0..<32])"
    by auto
  finally show ?thesis
    unfolding bebop_wire_popcount32_def by (metis distinct_card distinct_filter distinct_upt)
qed

lemma popcount32_0 [simp]: "bebop_wire_popcount32 0 = 0"
  by (simp add: bebop_wire_popcount32_def)

lemma finite_bits [simp]: "finite {i. bit (w :: 'a::len word) i}"
  by (rule finite_subset [of _ "{..<LENGTH('a)}"]) (auto dest: bit_imp_le_length)

lemma popcount32_eq_0 [simp]: "bebop_wire_popcount32 v = 0 \<longleftrightarrow> v = 0"
  by (auto simp: popcount32_card intro: bit_word_eqI)

lemma popcount32_le: "bebop_wire_popcount32 v \<le> 32"
  unfolding bebop_wire_popcount32_def
  using length_filter_le [of "bit v" "[0..<32]"] by simp

text \<open>The rank computations mask a word with the bits below a given one.\<close>

lemma bit_below_exp:
  assumes "k < LENGTH('a)"
  shows "bit ((w :: 'a::len word) AND (2 ^ k - 1)) i \<longleftrightarrow> i < k \<and> bit w i"
proof -
  have "(2 ^ k - 1 :: 'a word) = mask k"
    by (simp add: mask_eq_decr_exp)
  then show ?thesis
    using assms by (auto simp: bit_and_iff bit_mask_iff dest: bit_imp_le_length)
qed

lemma popcount32_below:
  "k < 32 \<Longrightarrow> bebop_wire_popcount32 (v AND (2 ^ k - 1)) = card {i. i < k \<and> bit v i}"
  by (simp add: popcount32_card bit_below_exp)

lemma bebop_wire_load_le_eq:
  assumes "width \<in> {1, 2, 4}" and "width \<le> length data"
  shows "bebop_wire_load_le data width = le_word (take width data)"
proof -
  consider (one) a r where "data = a # r" "width = 1"
    | (two) a b r where "data = a # b # r" "width = 2"
    | (four) a b c d r where "data = a # b # c # d # r" "width = 4"
    using assms by (auto simp: numeral_eq_Suc Suc_le_length_iff)
  then show ?thesis
    by cases (auto simp: bebop_wire_load_le_def push_bit_or or.assoc numeral_eq_Suc)
qed

lemma bebop_wire_store_le_eq:
  "width \<in> {1, 2, 4} \<Longrightarrow> bebop_wire_store_le value width = le_bytes width value"
  by (auto simp: bebop_wire_store_le_def le_bytes_def upt_rec numeral_eq_Suc)

lemma length_store_le [simp, le_simps]:
  "width \<in> {1, 2, 4} \<Longrightarrow> length (bebop_wire_store_le value width) = width"
  by (simp add: bebop_wire_store_le_eq)

text \<open>A value that fits the width is read back; a wider one loses its upper bytes.\<close>

lemma load_store_le [le_simps]:
  assumes "width \<in> {1, 2, 4}"
  shows "bebop_wire_load_le (bebop_wire_store_le value width @ rest) width
           = take_bit (8 * width) value"
  using assms
  by (subst bebop_wire_load_le_eq) (auto simp: bebop_wire_store_le_eq le_word_le_bytes)

section \<open>Trailing zeros by the portable loop\<close>

lemma find_append: "find P (xs @ ys) = (case find P xs of None \<Rightarrow> find P ys | Some x \<Rightarrow> Some x)"
  by (induction xs) auto

lemma find_map_Suc: "find (bit v) (map Suc xs) = map_option Suc (find (bit (drop_bit 1 v)) xs)"
  by (induction xs) (auto simp: bit_drop_bit_eq)

lemma ctz32_step:
  "bebop_wire_ctz32 v
     = (if bit v 0 then Some 0 else map_option Suc (bebop_wire_ctz32 (drop_bit 1 v)))"
proof -
  have up: "[0..<32] = 0 # map Suc [0..<31]" and top: "[0..<32] = [0..<31] @ [31::nat]"
    by (simp_all add: map_Suc_upt upt_rec)
  have "\<not> bit (drop_bit 1 v) 31"
    by (auto simp: bit_drop_bit_eq dest: bit_imp_le_length)
  then have "find (bit (drop_bit 1 v)) [0..<32] = find (bit (drop_bit 1 v)) [0..<31]"
    by (simp add: top find_append split: option.split)
  then show ?thesis
    unfolding bebop_wire_ctz32_def by (subst up) (simp add: find_map_Suc)
qed

lemma ctz32_Some_iff:
  "bebop_wire_ctz32 v = Some i \<longleftrightarrow> bit v i \<and> (\<forall>j<i. \<not> bit v j)"
  unfolding bebop_wire_ctz32_def find_Some_iff
  by (auto dest: bit_imp_le_length) (use bit_imp_le_length in fastforce)

lemma ctz32_None_iff [simp]: "bebop_wire_ctz32 v = None \<longleftrightarrow> v = 0"
  unfolding bebop_wire_ctz32_def find_None_iff
  by (auto intro: bit_word_eqI)

lemma ctz32_loop_sound:
  assumes "bebop_wire_ctz32_loop v count = Some r"
  shows "count \<le> r \<and> bebop_wire_ctz32 v = Some (r - count)"
proof (rule bebop_wire_ctz32_loop.raw_induct
    [where P = "\<lambda>v count r. count \<le> r \<and> bebop_wire_ctz32 v = Some (r - count)", OF _ assms])
  fix loop v count r
  assume IH: "\<And>v count r. loop v count = Some r \<Longrightarrow>
      count \<le> r \<and> bebop_wire_ctz32 v = Some (r - count)"
    and eq: "(if v AND 1 = 0 then loop (drop_bit 1 v) (count + 1) else Some count) = Some r"
  show "count \<le> r \<and> bebop_wire_ctz32 v = Some (r - count)"
  proof (cases "v AND 1 = 0")
    case True
    then have "\<not> bit v 0" by (simp add: bit_0 even_iff_mod_2_eq_zero and_one_eq)
    with True eq IH [of "drop_bit 1 v" "count + 1" r] show ?thesis
      by (auto simp: ctz32_step [of v])
  next
    case False
    then have "bit v 0" by (simp add: bit_0 even_iff_mod_2_eq_zero and_one_eq)
    with False eq show ?thesis
      by (simp add: ctz32_step [of v])
  qed
qed

lemma ctz32_loop_complete:
  "bebop_wire_ctz32 v = Some i \<Longrightarrow> bebop_wire_ctz32_loop v count = Some (count + i)"
proof (induction i arbitrary: v count)
  case 0
  then have "bit v 0" by (simp add: ctz32_Some_iff)
  then show ?case
    by (subst bebop_wire_ctz32_loop.simps) (simp add: bit_0 even_iff_mod_2_eq_zero and_one_eq)
next
  case (Suc i)
  then have "\<not> bit v 0" "bebop_wire_ctz32 (drop_bit 1 v) = Some i"
    by (auto simp: ctz32_step [of v] split: if_splits)
  then show ?case
    using Suc.IH [of "drop_bit 1 v" "count + 1"]
    by (subst bebop_wire_ctz32_loop.simps) (simp add: bit_0 even_iff_mod_2_eq_zero and_one_eq)
qed

end
