(* ===== verification/Wire_Arena.thy ===== *)
theory Wire_Arena
  imports Bebop_Prelude "HOL-Library.Multiset"
begin

text \<open>
  The arena allocator and the context of \<^verbatim>\<open>bebop/src/bebop_wire.c\<close>: blocks obtained from the user's
  allocator, bump allocation inside the current block, in-place growth of the topmost allocation,
  reset and destruction, and the decode-depth counter of the context.

  Memory is modelled by objects: each successful call of the allocator yields a fresh object number,
  and an arena pointer is an object number and a byte offset from the first byte after the block
  header; \<open>address\<close> turns it into the address the code returns, given where the objects lie. The allocator itself is the caller's: \<open>alloc_fn n size\<close> says whether its \<open>n\<close>-th call, for
  \<open>size\<close> bytes, returns memory. The block list is the chain of \<^verbatim>\<open>next\<close> pointers that starts at
  \<^verbatim>\<open>current_block\<close>. The operations run without interference, where a compare-and-swap that
  finds the expected value succeeds.
\<close>

section \<open>The caller's allocator\<close>

record Bebop_Allocator =
  alloc_fn :: "nat \<Rightarrow> nat \<Rightarrow> bool"
  alloc_calls :: nat
  alloc_live :: "(nat \<times> nat) list"

definition alloc_new :: "Bebop_Allocator \<Rightarrow> nat \<Rightarrow> nat option \<times> Bebop_Allocator" where
  "alloc_new al sz =
     (let n = alloc_calls al; al' = al\<lparr>alloc_calls := Suc n\<rparr>
      in if alloc_fn al n sz
         then (Some n, al'\<lparr>alloc_live := (n, sz) # alloc_live al\<rparr>)
         else (None, al'))"

definition alloc_free :: "Bebop_Allocator \<Rightarrow> nat \<Rightarrow> nat \<Rightarrow> Bebop_Allocator" where
  "alloc_free al p old_size = al\<lparr>alloc_live := remove1 (p, old_size) (alloc_live al)\<rparr>"

section \<open>Blocks, arena, context\<close>

type_synonym arena_ptr = "nat \<times> nat"

record bebop_wire_arena_block_impl =
  block_id :: nat
  used :: nat
  capacity :: nat

record Bebop_ArenaOptions =
  initial_block_size :: nat
  max_block_size :: nat
  allocator :: "Bebop_Allocator option"

record bebop_wire_arena_impl =
  arena_id :: nat
  blocks :: "bebop_wire_arena_block_impl list"
  total_allocated :: nat
  total_used :: nat
  arena_opts :: Bebop_ArenaOptions
  arena_alloc :: Bebop_Allocator

record Bebop_ContextOptions =
  arena_options :: Bebop_ArenaOptions
  initial_writer_size :: nat
  max_decode_depth :: nat

record Bebop_Context =
  context_id :: nat
  arena :: bebop_wire_arena_impl
  ctx_options :: Bebop_ContextOptions
  decode_depth :: nat

text \<open>Object sizes and the strictest alignment on an LP64 target.\<close>

definition SIZEOF_BLOCK :: nat where [wire_defs]: "SIZEOF_BLOCK = 24"
definition SIZEOF_ARENA :: nat where [wire_defs]: "SIZEOF_ARENA = 72"
definition SIZEOF_CONTEXT :: nat where [wire_defs]: "SIZEOF_CONTEXT = 64"
definition SIZEOF_READER :: nat where [wire_defs]: "SIZEOF_READER = 32"
definition SIZEOF_WRITER :: nat where [wire_defs]: "SIZEOF_WRITER = 32"
definition BEBOP_ARENA_ALIGN :: nat where [wire_defs]: "BEBOP_ARENA_ALIGN = 16"

definition bebop_wire_align_size :: "nat \<Rightarrow> nat \<Rightarrow> nat" where
  "bebop_wire_align_size sz alignment =
     unat ((of_nat sz + of_nat alignment - 1 :: u64) AND NOT (of_nat alignment - 1))"

definition bebop_wire_arena_allocate_block ::
  "bebop_wire_arena_impl \<Rightarrow> nat \<Rightarrow> bebop_wire_arena_block_impl option \<times> bebop_wire_arena_impl" where
  "bebop_wire_arena_allocate_block a min_size =
     (let cap = initial_block_size (arena_opts a);
          required = bebop_wire_align_size min_size BEBOP_ARENA_ALIGN;
          max_size = max_block_size (arena_opts a)
      in if required > max_size then (None, a)
         else
           let cap = (if cap < required then required else cap);
               cap = (if cap > max_size then max_size else cap);
               total_size = size_wrap (SIZEOF_BLOCK + cap)
           in case alloc_new (arena_alloc a) total_size of
                (None, al) \<Rightarrow> (None, a\<lparr>arena_alloc := al\<rparr>)
              | (Some p, al) \<Rightarrow>
                  (Some \<lparr>block_id = p, used = 0, capacity = cap\<rparr>, a\<lparr>arena_alloc := al\<rparr>))"

definition bebop_wire_arena_create ::
  "Bebop_ArenaOptions option \<Rightarrow> Bebop_Allocator \<Rightarrow> bebop_wire_arena_impl option \<times> Bebop_Allocator" where
  "bebop_wire_arena_create options al =
     (case options of
        None \<Rightarrow> (None, al)
      | Some opts \<Rightarrow>
          (case alloc_new al SIZEOF_ARENA of
             (None, al') \<Rightarrow> (None, al')
           | (Some p, al') \<Rightarrow>
               (Some \<lparr>arena_id = p, blocks = [], total_allocated = 0, total_used = 0,
                      arena_opts = opts, arena_alloc = al'\<rparr>, al')))"

fun free_blocks :: "Bebop_Allocator \<Rightarrow> bebop_wire_arena_block_impl list \<Rightarrow> Bebop_Allocator" where
  "free_blocks al [] = al"
| "free_blocks al (b # bs) =
     free_blocks (alloc_free al (block_id b) (size_wrap (SIZEOF_BLOCK + capacity b))) bs"

definition bebop_wire_arena_destroy :: "bebop_wire_arena_impl option \<Rightarrow> Bebop_Allocator option" where
  "bebop_wire_arena_destroy ar =
     (case ar of
        None \<Rightarrow> None
      | Some a \<Rightarrow>
          Some (alloc_free (free_blocks (arena_alloc a) (blocks a)) (arena_id a) SIZEOF_ARENA))"

definition bebop_wire_arena_reset :: "bebop_wire_arena_impl option \<Rightarrow> bebop_wire_arena_impl option" where
  "bebop_wire_arena_reset ar =
     (case ar of
        None \<Rightarrow> None
      | Some a \<Rightarrow>
          Some (a\<lparr>arena_alloc := free_blocks (arena_alloc a) (blocks a),
                  blocks := [], total_allocated := 0, total_used := 0\<rparr>))"

text \<open>
  The body of the \<^verbatim>\<open>while (true)\<close> loop of \<open>bebop_wire_arena_alloc\<close> first makes sure that there is a
  current block with room, then bumps its \<^verbatim>\<open>used\<close>; \<^verbatim>\<open>continue\<close> runs the body again.
\<close>

definition bebop_wire_arena_push_block ::
  "bebop_wire_arena_impl \<Rightarrow> nat \<Rightarrow> bool \<times> bebop_wire_arena_impl" where
  "bebop_wire_arena_push_block a aligned_size =
     (case bebop_wire_arena_allocate_block a aligned_size of
        (None, a') \<Rightarrow> (False, a')
      | (Some b, a') \<Rightarrow>
          (True, a'\<lparr>blocks := b # blocks a,
                    total_allocated := size_wrap (total_allocated a + (SIZEOF_BLOCK + capacity b))\<rparr>))"

definition bebop_wire_arena_ensure_block ::
  "bebop_wire_arena_impl \<Rightarrow> nat \<Rightarrow> bool \<times> bebop_wire_arena_impl" where
  "bebop_wire_arena_ensure_block a aligned_size =
     (case blocks a of
        [] \<Rightarrow> bebop_wire_arena_push_block a aligned_size
      | current # _ \<Rightarrow>
          (if size_wrap (used current + aligned_size) > capacity current
           then bebop_wire_arena_push_block a aligned_size
           else (True, a)))"

text \<open>Rounding up to the alignment: exact unless \<open>sz + 15\<close> wraps around.\<close>

lemma align_size_eq:
  "bebop_wire_align_size sz BEBOP_ARENA_ALIGN = 16 * ((sz + 15) mod 2 ^ 64 div 16)"
proof -
  have m: "(15 :: u64) = mask 4"
    by (simp add: mask_numeral)
  have "bebop_wire_align_size sz BEBOP_ARENA_ALIGN = unat (word_of_nat (sz + 15) AND NOT (15 :: u64))"
    by (simp add: bebop_wire_align_size_def BEBOP_ARENA_ALIGN_def add.commute)
  then show ?thesis
    by (simp only: m unat_and_not_mask unat_of_nat) simp
qed

lemma align_size_lt: "bebop_wire_align_size sz BEBOP_ARENA_ALIGN < 2 ^ 64"
  by (simp add: align_size_eq)


lemma align_size_idem [simp]:
  "bebop_wire_align_size (bebop_wire_align_size sz BEBOP_ARENA_ALIGN) BEBOP_ARENA_ALIGN
     = bebop_wire_align_size sz BEBOP_ARENA_ALIGN"
proof -
  let ?x = "(sz + 15) mod 2 ^ 64"
  have "?x div 16 < 2 ^ 60"
    by (rule less_mult_imp_div_less) simp
  then have "16 * (?x div 16) + 15 < 2 ^ 64"
    by simp
  then show ?thesis
    by (simp add: align_size_eq)
qed


lemma push_block_fits:
  assumes "bebop_wire_arena_push_block a (bebop_wire_align_size sz BEBOP_ARENA_ALIGN) = (True, a')"
  obtains b where "blocks a' = b # blocks a" and "used b = 0"
    and "bebop_wire_align_size sz BEBOP_ARENA_ALIGN \<le> capacity b"
  using assms align_size_idem [of sz]
  by (auto simp: bebop_wire_arena_push_block_def bebop_wire_arena_allocate_block_def Let_def
      split: option.splits prod.splits if_splits)

lemma ensure_block_fits:
  assumes "bebop_wire_arena_ensure_block a (bebop_wire_align_size sz BEBOP_ARENA_ALIGN) = (True, a')"
  obtains b bs where "blocks a' = b # bs"
    and "size_wrap (used b + bebop_wire_align_size sz BEBOP_ARENA_ALIGN) \<le> capacity b"
proof (cases "blocks a' = blocks a \<and> blocks a \<noteq> [] \<and>
    size_wrap (used (hd (blocks a)) + bebop_wire_align_size sz BEBOP_ARENA_ALIGN) \<le> capacity (hd (blocks a))")
  case True
  then show ?thesis
    using that by (cases "blocks a") auto
next
  case False
  then have "bebop_wire_arena_push_block a (bebop_wire_align_size sz BEBOP_ARENA_ALIGN) = (True, a')"
    using assms by (auto simp: bebop_wire_arena_ensure_block_def split: list.splits if_splits)
  then show ?thesis
    using that align_size_lt [of sz] by (elim push_block_fits) auto
qed

lemma ensure_block_no_retry:
  assumes "(True, a') = bebop_wire_arena_ensure_block a (bebop_wire_align_size sz BEBOP_ARENA_ALIGN)"
    and "blocks a' = b # bs"
  shows "size_wrap (used b + bebop_wire_align_size sz BEBOP_ARENA_ALIGN) \<le> capacity b"
  using ensure_block_fits [OF assms(1) [symmetric]] assms(2) by auto

function bebop_wire_arena_alloc_loop ::
  "bebop_wire_arena_impl \<Rightarrow> nat \<Rightarrow> arena_ptr option \<times> bebop_wire_arena_impl" where
  "bebop_wire_arena_alloc_loop a sz =
     (let aligned_size = bebop_wire_align_size sz BEBOP_ARENA_ALIGN
      in case bebop_wire_arena_ensure_block a aligned_size of
           (False, a') \<Rightarrow> (None, a')
         | (True, a') \<Rightarrow>
             (case blocks a' of
                [] \<Rightarrow> (None, a')
              | current # rest \<Rightarrow>
                  let old_used = used current
                  in if size_wrap (old_used + aligned_size) \<le> capacity current
                     then (Some (block_id current, old_used),
                           a'\<lparr>blocks := current\<lparr>used := size_wrap (old_used + aligned_size)\<rparr> # rest,
                              total_used := size_wrap (total_used a' + aligned_size)\<rparr>)
                     else bebop_wire_arena_alloc_loop a' sz))"
  by pat_completeness auto
termination
  by (relation "{}") (auto dest: ensure_block_no_retry)

declare bebop_wire_arena_alloc_loop.simps [simp del]

definition bebop_wire_arena_alloc ::
  "bebop_wire_arena_impl option \<Rightarrow> nat \<Rightarrow> arena_ptr option \<times> bebop_wire_arena_impl option" where
  "bebop_wire_arena_alloc a sz =
     (case a of
        None \<Rightarrow> (None, None)
      | Some ar \<Rightarrow>
          if sz = 0 then (None, a)
          else let (p, ar') = bebop_wire_arena_alloc_loop ar sz in (p, Some ar'))"

text \<open>
  Growing an allocation: in place when it is the topmost one of the current block and the block has
  room, else a new allocation into which the caller's bytes are copied; the second component of the
  result says whether \<open>old_size\<close> bytes are copied from the old to the new place.
\<close>

definition bebop_wire_arena_realloc ::
  "bebop_wire_arena_impl \<Rightarrow> arena_ptr option \<Rightarrow> nat \<Rightarrow> nat
     \<Rightarrow> arena_ptr option \<times> bool \<times> bebop_wire_arena_impl" where
  "bebop_wire_arena_realloc a ptr old_size new_size =
     (case ptr of
        None \<Rightarrow>
          (case bebop_wire_arena_alloc (Some a) new_size of
             (p, Some a') \<Rightarrow> (p, False, a') | (p, None) \<Rightarrow> (p, False, a))
      | Some (obj, off) \<Rightarrow>
          if new_size = 0 then (None, False, a)
          else if new_size \<le> old_size then (ptr, False, a)
          else
            let aligned_old = bebop_wire_align_size old_size BEBOP_ARENA_ALIGN;
                aligned_new = bebop_wire_align_size new_size BEBOP_ARENA_ALIGN;
                extra = size_wrap (aligned_new + (2 ^ 64 - aligned_old));
                copied = (case bebop_wire_arena_alloc (Some a) new_size of
                            (Some p, Some a') \<Rightarrow> (Some p, True, a')
                          | (p, Some a') \<Rightarrow> (p, False, a')
                          | (p, None) \<Rightarrow> (p, False, a))
            in (case blocks a of
                  [] \<Rightarrow> copied
                | current # rest \<Rightarrow>
                    if obj = block_id current \<and> off + aligned_old = used current
                       \<and> size_wrap (used current + extra) \<le> capacity current
                    then (ptr, False,
                          a\<lparr>blocks := current\<lparr>used := size_wrap (used current + extra)\<rparr> # rest,
                            total_used := size_wrap (total_used a + extra)\<rparr>)
                    else copied))"

section \<open>The context\<close>

definition BEBOP_WIRE_DEFAULT_MAX_DECODE_DEPTH :: nat where
  [wire_defs]: "BEBOP_WIRE_DEFAULT_MAX_DECODE_DEPTH = 64"

text \<open>\<open>heap\<close> is the C library's allocator behind \<^verbatim>\<open>bebop_default_alloc\<close>.\<close>

definition bebop_context_options :: "Bebop_Allocator \<Rightarrow> Bebop_ContextOptions" where
  "bebop_context_options heap =
     \<lparr>arena_options = \<lparr>initial_block_size = 4096, max_block_size = 1048576, allocator = Some heap\<rparr>,
      initial_writer_size = 1024,
      max_decode_depth = BEBOP_WIRE_DEFAULT_MAX_DECODE_DEPTH\<rparr>"

definition resolved_allocator :: "Bebop_Allocator \<Rightarrow> Bebop_ContextOptions option \<Rightarrow> Bebop_Allocator" where
  "resolved_allocator heap options =
     (let resolved = (case options of None \<Rightarrow> bebop_context_options heap | Some opts \<Rightarrow> opts)
      in case allocator (arena_options resolved) of None \<Rightarrow> heap | Some al \<Rightarrow> al)"

definition bebop_context_new ::
  "Bebop_Allocator \<Rightarrow> Bebop_ContextOptions option \<Rightarrow> Bebop_Context option \<times> Bebop_Allocator" where
  "bebop_context_new heap options =
     (let resolved = (case options of None \<Rightarrow> bebop_context_options heap | Some opts \<Rightarrow> opts);
          al = resolved_allocator heap options;
          resolved = resolved\<lparr>arena_options := (arena_options resolved)\<lparr>allocator := Some al\<rparr>\<rparr>
      in case alloc_new al SIZEOF_CONTEXT of
           (None, al1) \<Rightarrow> (None, al1)
         | (Some p, al1) \<Rightarrow>
             (case bebop_wire_arena_create (Some (arena_options resolved)) al1 of
                (None, al2) \<Rightarrow> (None, alloc_free al2 p SIZEOF_CONTEXT)
              | (Some a, al2) \<Rightarrow>
                  (Some \<lparr>context_id = p, arena = a, ctx_options = resolved, decode_depth = 0\<rparr>, al2)))"

text \<open>The allocator's state after the context is gone; \<open>None\<close> when there was no context to free.\<close>

definition bebop_context_free :: "Bebop_Context option \<Rightarrow> Bebop_Allocator option" where
  "bebop_context_free ctx =
     (case ctx of
        None \<Rightarrow> None
      | Some c \<Rightarrow>
          map_option (\<lambda>al. alloc_free al (context_id c) SIZEOF_CONTEXT)
            (bebop_wire_arena_destroy (Some (arena c))))"

definition bebop_context_reset :: "Bebop_Context option \<Rightarrow> Bebop_Context option" where
  "bebop_context_reset ctx =
     (case ctx of
        None \<Rightarrow> None
      | Some c \<Rightarrow>
          map_option (\<lambda>a. c\<lparr>arena := a, decode_depth := 0\<rparr>)
            (bebop_wire_arena_reset (Some (arena c))))"

definition bebop_context_enter_decode :: "Bebop_Context option \<Rightarrow> Bebop_Result \<times> Bebop_Context option" where
  "bebop_context_enter_decode ctx =
     (case ctx of
        None \<Rightarrow> (BEBOP_RESULT_NULL, ctx)
      | Some c \<Rightarrow>
          let max_depth = max_decode_depth (ctx_options c);
              max_depth = (if max_depth = 0 then BEBOP_WIRE_DEFAULT_MAX_DECODE_DEPTH else max_depth)
          in if decode_depth c \<ge> max_depth then (BEBOP_RESULT_MALFORMED, ctx)
             else (BEBOP_RESULT_OK, Some (c\<lparr>decode_depth := decode_depth c + 1\<rparr>)))"

definition bebop_context_leave_decode :: "Bebop_Context option \<Rightarrow> Bebop_Context option" where
  "bebop_context_leave_decode ctx =
     (case ctx of
        None \<Rightarrow> None
      | Some c \<Rightarrow> if decode_depth c > 0 then Some (c\<lparr>decode_depth := decode_depth c - 1\<rparr>) else ctx)"

definition bebop_context_allocated :: "Bebop_Context option \<Rightarrow> nat" where
  "bebop_context_allocated ctx = (case ctx of None \<Rightarrow> 0 | Some c \<Rightarrow> total_allocated (arena c))"

definition bebop_context_used :: "Bebop_Context option \<Rightarrow> nat" where
  "bebop_context_used ctx = (case ctx of None \<Rightarrow> 0 | Some c \<Rightarrow> total_used (arena c))"

definition bebop_context_alloc :: "Bebop_Context option \<Rightarrow> nat \<Rightarrow> arena_ptr option \<times> Bebop_Context option" where
  "bebop_context_alloc ctx sz =
     (case ctx of
        None \<Rightarrow> (None, None)
      | Some c \<Rightarrow>
          (case bebop_wire_arena_alloc (Some (arena c)) sz of
             (p, Some a) \<Rightarrow> (p, Some (c\<lparr>arena := a\<rparr>)) | (p, None) \<Rightarrow> (p, ctx)))"

definition bebop_context_realloc ::
  "Bebop_Context option \<Rightarrow> arena_ptr option \<Rightarrow> nat \<Rightarrow> nat
     \<Rightarrow> arena_ptr option \<times> bool \<times> Bebop_Context option" where
  "bebop_context_realloc ctx ptr old_size new_size =
     (case ctx of
        None \<Rightarrow> (None, False, None)
      | Some c \<Rightarrow>
          let (p, copied, a) = bebop_wire_arena_realloc (arena c) ptr old_size new_size
          in (p, copied, Some (c\<lparr>arena := a\<rparr>)))"

definition bebop_context_alloc_array ::
  "Bebop_Context option \<Rightarrow> nat \<Rightarrow> nat \<Rightarrow> arena_ptr option \<times> Bebop_Context option" where
  "bebop_context_alloc_array ctx cnt elem_size =
     (if ctx = None \<or> (elem_size \<noteq> 0 \<and> cnt > SIZE_MAX div elem_size) then (None, ctx)
      else bebop_context_alloc ctx (size_wrap (cnt * elem_size)))"

section \<open>Invariant\<close>

definition aligned :: "nat \<Rightarrow> nat" where
  "aligned sz = bebop_wire_align_size sz BEBOP_ARENA_ALIGN"

definition block_inv :: "Bebop_ArenaOptions \<Rightarrow> bebop_wire_arena_block_impl \<Rightarrow> bool" where
  "block_inv opts b \<longleftrightarrow> used b \<le> capacity b \<and> 16 dvd used b \<and> capacity b \<le> max_block_size opts"

definition arena_inv :: "bebop_wire_arena_impl \<Rightarrow> bool" where
  "arena_inv a \<longleftrightarrow>
     max_block_size (arena_opts a) + SIZEOF_BLOCK < 2 ^ 64
     \<and> list_all (block_inv (arena_opts a)) (blocks a)
     \<and> distinct (map block_id (blocks a))
     \<and> list_all (\<lambda>b. block_id b < alloc_calls (arena_alloc a)) (blocks a)
     \<and> total_used a = size_wrap (sum_list (map used (blocks a)))
     \<and> total_allocated a = size_wrap (sum_list (map (\<lambda>b. SIZEOF_BLOCK + capacity b) (blocks a)))"

text \<open>The bytes that have been handed out, and the bytes of one allocation.\<close>

definition occupied :: "bebop_wire_arena_impl \<Rightarrow> arena_ptr set" where
  "occupied a = {(obj, i). \<exists>b\<in>set (blocks a). block_id b = obj \<and> i < used b}"



lemma ensure_block_room:
  "bebop_wire_arena_ensure_block a (aligned sz) = (True, a') \<Longrightarrow>
     \<exists>b bs. blocks a' = b # bs \<and> size_wrap (used b + aligned sz) \<le> capacity b"
  unfolding aligned_def by (metis ensure_block_fits)

lemma push_block_cases:
  assumes "bebop_wire_arena_push_block a (aligned sz) = (ok, a')"
  obtains (fail) al where "\<not> ok" and "a' = a\<lparr>arena_alloc := al\<rparr>"
      and "alloc_calls (arena_alloc a) \<le> alloc_calls al"
      and "alloc_live al = alloc_live (arena_alloc a)"
  | (grown) cap al where "ok" and "aligned sz \<le> cap" and "cap \<le> max_block_size (arena_opts a)"
      and "alloc_calls al = Suc (alloc_calls (arena_alloc a))"
      and "alloc_live al = (alloc_calls (arena_alloc a), size_wrap (SIZEOF_BLOCK + cap))
                             # alloc_live (arena_alloc a)"
      and "a' = a\<lparr>arena_alloc := al,
                  blocks := \<lparr>block_id = alloc_calls (arena_alloc a), used = 0, capacity = cap\<rparr> # blocks a,
                  total_allocated := size_wrap (total_allocated a + (SIZEOF_BLOCK + cap))\<rparr>"
proof -
  define cap where "cap = min (max (initial_block_size (arena_opts a)) (aligned sz))
                              (max_block_size (arena_opts a))"
  define al where "al = snd (alloc_new (arena_alloc a) (size_wrap (SIZEOF_BLOCK + cap)))"
  have idem: "bebop_wire_align_size (aligned sz) BEBOP_ARENA_ALIGN = aligned sz"
    by (simp add: aligned_def)
  show thesis
  proof (cases "aligned sz \<le> max_block_size (arena_opts a)")
    case False
    then have "(ok, a') = (False, a)"
      using assms by (simp add: bebop_wire_arena_push_block_def bebop_wire_arena_allocate_block_def idem)
    then show thesis
      using fail [of "arena_alloc a"] by simp
  next
    case True
    have clamp: "(if max_block_size (arena_opts a)
               < (if initial_block_size (arena_opts a) < aligned sz then aligned sz
                  else initial_block_size (arena_opts a))
            then max_block_size (arena_opts a)
            else (if initial_block_size (arena_opts a) < aligned sz then aligned sz
                  else initial_block_size (arena_opts a))) = cap"
      by (auto simp: cap_def)
    have blk: "bebop_wire_arena_allocate_block a (aligned sz)
        = (case alloc_new (arena_alloc a) (size_wrap (SIZEOF_BLOCK + cap)) of
             (None, al) \<Rightarrow> (None, a\<lparr>arena_alloc := al\<rparr>)
           | (Some p, al) \<Rightarrow> (Some \<lparr>block_id = p, used = 0, capacity = cap\<rparr>, a\<lparr>arena_alloc := al\<rparr>))"
      unfolding bebop_wire_arena_allocate_block_def
      by (simp only: Let_def idem clamp if_not_P [OF True [THEN leD]])
    have cap: "aligned sz \<le> cap" "cap \<le> max_block_size (arena_opts a)"
      using True by (auto simp: cap_def)
    show thesis
      using assms cap fail [of al] grown [of cap al]
      by (auto simp: bebop_wire_arena_push_block_def blk alloc_new_def al_def Let_def
          split: if_splits)
  qed
qed



text \<open>The loop runs its body once: the second check repeats the first one.\<close>

lemma alloc_loop_unfold:
  "bebop_wire_arena_alloc_loop a sz =
     (case bebop_wire_arena_ensure_block a (aligned sz) of
        (False, a') \<Rightarrow> (None, a')
      | (True, a') \<Rightarrow>
          (Some (block_id (hd (blocks a')), used (hd (blocks a'))),
           a'\<lparr>blocks := (hd (blocks a'))\<lparr>used := size_wrap (used (hd (blocks a')) + aligned sz)\<rparr>
                         # tl (blocks a'),
              total_used := size_wrap (total_used a' + aligned sz)\<rparr>))"
proof (cases "bebop_wire_arena_ensure_block a (aligned sz)")
  case (Pair ok a')
  show ?thesis
  proof (cases ok)
    case True
    then obtain b bs where b: "blocks a' = b # bs"
      "size_wrap (used b + aligned sz) \<le> capacity b"
      using Pair ensure_block_room [of a sz a'] by auto
    show ?thesis
      by (subst bebop_wire_arena_alloc_loop.simps)
        (use Pair True b in \<open>simp add: aligned_def [symmetric] Let_def\<close>)
  next
    case False
    then show ?thesis
      using Pair
      by (subst bebop_wire_arena_alloc_loop.simps) (simp add: aligned_def [symmetric])
  qed
qed



section \<open>Ownership of the allocator's objects\<close>

text \<open>
  The objects a context owns: itself, its arena and the arena's blocks, each with the size it was
  obtained with (the allocator's contract passes the old size back on release).
\<close>

definition block_objects :: "bebop_wire_arena_block_impl list \<Rightarrow> (nat \<times> nat) multiset" where
  "block_objects bs = mset (map (\<lambda>b. (block_id b, size_wrap (SIZEOF_BLOCK + capacity b))) bs)"

definition arena_owns :: "(nat \<times> nat) multiset \<Rightarrow> bebop_wire_arena_impl \<Rightarrow> bool" where
  "arena_owns others a \<longleftrightarrow>
     mset (alloc_live (arena_alloc a))
       = others + {#(arena_id a, SIZEOF_ARENA)#} + block_objects (blocks a)"

lemma free_blocks_live:
  "mset (alloc_live (free_blocks al bs)) = mset (alloc_live al) - block_objects bs"
  by (induction al bs rule: free_blocks.induct)
    (auto simp: block_objects_def alloc_free_def diff_diff_add_mset)

lemma destroy_live:
  assumes "arena_owns others a" and "bebop_wire_arena_destroy (Some a) = Some al"
  shows "mset (alloc_live al) = others"
  using assms by (auto simp: arena_owns_def bebop_wire_arena_destroy_def alloc_free_def free_blocks_live)

lemma reset_owns:
  assumes "arena_owns others a" and "bebop_wire_arena_reset (Some a) = Some a'"
  shows "arena_owns others a'"
  using assms by (auto simp: arena_owns_def bebop_wire_arena_reset_def free_blocks_live block_objects_def)

lemma reset_inv:
  assumes "arena_inv a" and "bebop_wire_arena_reset (Some a) = Some a'"
  shows "arena_inv a'" and "occupied a' = {}"
  using assms by (auto simp: arena_inv_def bebop_wire_arena_reset_def occupied_def)

lemma ensure_block_owns:
  assumes "bebop_wire_arena_ensure_block a (aligned sz) = (ok, a')" and "arena_owns others a"
  shows "arena_owns others a'"
proof (cases "a' = a")
  case False
  then have "bebop_wire_arena_push_block a (aligned sz) = (ok, a')"
    using assms by (auto simp: bebop_wire_arena_ensure_block_def split: list.splits if_splits)
  then show ?thesis
    by (cases rule: push_block_cases) (use assms(2) in \<open>auto simp: arena_owns_def block_objects_def\<close>)
qed (use assms in simp)

lemma block_objects_used [simp]: "block_objects (b\<lparr>used := n\<rparr> # bs) = block_objects (b # bs)"
  by (simp add: block_objects_def)

lemma alloc_loop_owns:
  assumes "bebop_wire_arena_alloc_loop a sz = (r, a')" and "arena_owns others a"
  shows "arena_owns others a'"
proof -
  obtain ok e where e: "bebop_wire_arena_ensure_block a (aligned sz) = (ok, e)"
    by (cases "bebop_wire_arena_ensure_block a (aligned sz)")
  have own: "arena_owns others e"
    using ensure_block_owns [OF e assms(2)] .
  show ?thesis
  proof (cases ok)
    case True
    then obtain b bs where "blocks e = b # bs"
      using e ensure_block_room [of a sz e] by auto
    then show ?thesis
      using own assms(1) True by (auto simp: alloc_loop_unfold e arena_owns_def)
  next
    case False
    then show ?thesis
      using own assms(1) by (auto simp: alloc_loop_unfold e)
  qed
qed

lemma arena_alloc_Some:
  "bebop_wire_arena_alloc (Some a) sz = (r, x) \<longleftrightarrow>
     (if sz = 0 then r = None \<and> x = Some a
      else \<exists>a'. x = Some a' \<and> bebop_wire_arena_alloc_loop a sz = (r, a'))"
  by (auto simp: bebop_wire_arena_alloc_def split: prod.splits)

lemma realloc_owns:
  assumes "bebop_wire_arena_realloc a ptr old_size new_size = (r, copied, a')"
    and "arena_owns others a"
  shows "arena_owns others a'"
proof -
  have alloc: "arena_owns others x" if "bebop_wire_arena_alloc (Some a) sz = (q, Some x)" for sz q x
    using that assms(2) alloc_loop_owns by (auto simp: arena_alloc_Some split: if_splits)
  have bump: "arena_owns others (a\<lparr>blocks := b\<lparr>used := n\<rparr> # bs, total_used := m\<rparr>)"
    if "blocks a = b # bs" for b bs n m
    using that assms(2) by (simp add: arena_owns_def)
  show ?thesis
    using assms alloc bump
    by (auto simp: bebop_wire_arena_realloc_def Let_def
        split: option.splits prod.splits if_splits list.splits)
qed

section \<open>Sequences of context operations\<close>

text \<open>Any sequence of public calls on one context, in any order.\<close>

datatype context_call =
    Alloc nat
  | AllocArray nat nat
  | Realloc "arena_ptr option" nat nat
  | Reset
  | EnterDecode
  | LeaveDecode

fun context_step :: "Bebop_Context option \<Rightarrow> context_call \<Rightarrow> Bebop_Context option" where
  "context_step ctx (Alloc sz) = snd (bebop_context_alloc ctx sz)"
| "context_step ctx (AllocArray cnt elem_size) = snd (bebop_context_alloc_array ctx cnt elem_size)"
| "context_step ctx (Realloc p old_size new_size) = snd (snd (bebop_context_realloc ctx p old_size new_size))"
| "context_step ctx Reset = bebop_context_reset ctx"
| "context_step ctx EnterDecode = snd (bebop_context_enter_decode ctx)"
| "context_step ctx LeaveDecode = bebop_context_leave_decode ctx"

fun context_run :: "Bebop_Context option \<Rightarrow> context_call list \<Rightarrow> Bebop_Context option" where
  "context_run ctx [] = ctx"
| "context_run ctx (x # xs) = context_run (context_step ctx x) xs"

definition context_owns :: "(nat \<times> nat) multiset \<Rightarrow> Bebop_Context option \<Rightarrow> bool" where
  "context_owns others ctx \<longleftrightarrow>
     (\<exists>c. ctx = Some c \<and> arena_owns (others + {#(context_id c, SIZEOF_CONTEXT)#}) (arena c))"

lemma context_alloc_owns:
  "context_owns others ctx \<Longrightarrow> context_owns others (snd (bebop_context_alloc ctx sz))"
  by (auto simp: context_owns_def bebop_context_alloc_def arena_alloc_Some
      split: prod.splits option.splits if_splits intro: alloc_loop_owns)

lemma context_step_owns:
  assumes "context_owns others ctx"
  shows "context_owns others (context_step ctx x)"
proof (cases x)
  case (Alloc sz)
  then show ?thesis
    using assms by (simp add: context_alloc_owns)
next
  case (AllocArray cnt elem_size)
  then show ?thesis
    using assms by (simp add: bebop_context_alloc_array_def context_alloc_owns)
next
  case (Realloc p old_size new_size)
  then show ?thesis
    using assms
    by (auto simp: context_owns_def bebop_context_realloc_def split: prod.splits intro: realloc_owns)
next
  case Reset
  then show ?thesis
    using assms
    by (auto simp: context_owns_def bebop_context_reset_def bebop_wire_arena_reset_def
        arena_owns_def free_blocks_live block_objects_def)
qed (use assms in \<open>auto simp: context_owns_def bebop_context_enter_decode_def
        bebop_context_leave_decode_def Let_def\<close>)

lemma context_run_owns:
  "context_owns others ctx \<Longrightarrow> context_owns others (context_run ctx xs)"
  by (induction xs arbitrary: ctx) (simp_all add: context_step_owns)

lemma context_new_owns:
  assumes "bebop_context_new heap options = (Some c, al)"
  shows "context_owns (mset (alloc_live (resolved_allocator heap options))) (Some c)"
  using assms
  by (auto simp: bebop_context_new_def bebop_wire_arena_create_def
      alloc_new_def context_owns_def arena_owns_def block_objects_def Let_def
      split: option.splits prod.splits if_splits)

section \<open>Properties\<close>











definition malloc_heap :: Bebop_Allocator where
  "malloc_heap = \<lparr>alloc_fn = (\<lambda>_ _. True), alloc_calls = 0, alloc_live = []\<rparr>"

definition small_arena :: bebop_wire_arena_impl where
  "small_arena =
     \<lparr>arena_id = 1, blocks = [\<lparr>block_id = 2, used = 16, capacity = 64\<rparr>],
      total_allocated = 88, total_used = 16,
      arena_opts = \<lparr>initial_block_size = 64, max_block_size = 1024, allocator = None\<rparr>,
      arena_alloc = malloc_heap\<lparr>alloc_calls := 3, alloc_live := [(2, 88), (1, 72), (0, 64)]\<rparr>\<rparr>"

lemma aligned_small: "sz < 2 ^ 60 \<Longrightarrow> aligned sz = 16 * ((sz + 15) div 16)"
  by (simp add: aligned_def align_size_eq)




text \<open>
  C9: no leak and no double free. Whatever calls are made on a context after its creation, freeing
  it returns to the allocator exactly the objects it obtained, each with the size it was obtained
  with: the live objects are those from before.
\<close>

theorem context_free_balanced:
  assumes "bebop_context_new heap options = (Some c, al)"
    and "bebop_context_free (context_run (Some c) calls) = Some al'"
  shows "mset (alloc_live al') = mset (alloc_live (resolved_allocator heap options))"
proof -
  let ?live = "mset (alloc_live (resolved_allocator heap options))"
  obtain c' where c': "context_run (Some c) calls = Some c'"
    "arena_owns (?live + {#(context_id c', SIZEOF_CONTEXT)#}) (arena c')"
    using context_run_owns [OF context_new_owns [OF assms(1)], of calls] by (auto simp: context_owns_def)
  then obtain al1 where al1: "bebop_wire_arena_destroy (Some (arena c')) = Some al1"
      "al' = alloc_free al1 (context_id c') SIZEOF_CONTEXT"
    using assms(2) by (auto simp: bebop_context_free_def)
  then show ?thesis
    using destroy_live [OF c'(2) al1(1)] by (simp add: alloc_free_def)
qed

lemma malloc_context:
  "\<exists>c al. bebop_context_new malloc_heap None = (Some c, al)"
  by (simp add: bebop_context_new_def resolved_allocator_def bebop_context_options_def
      bebop_wire_arena_create_def alloc_new_def malloc_heap_def Let_def)

lemma context_free_total: "\<exists>al. bebop_context_free (Some c) = Some al"
  by (simp add: bebop_context_free_def bebop_wire_arena_destroy_def)

theorem context_free_balanced_witness:
  "\<exists>c al al'. bebop_context_new malloc_heap None = (Some c, al)
     \<and> bebop_context_free (context_run (Some c) [Alloc 100, Reset, Alloc 5000]) = Some al'
     \<and> mset (alloc_live al') = {#}"
proof -
  obtain c al where c: "bebop_context_new malloc_heap None = (Some c, al)"
    using malloc_context by blast
  obtain c' where c': "context_run (Some c) [Alloc 100, Reset, Alloc 5000] = Some c'"
    using context_run_owns [OF context_new_owns [OF c]] unfolding context_owns_def by blast
  then obtain al' where "bebop_context_free (context_run (Some c) [Alloc 100, Reset, Alloc 5000]) = Some al'"
    using context_free_total [of c'] by auto
  with context_free_balanced [OF c this] c show ?thesis
    by (auto simp: resolved_allocator_def bebop_context_options_def malloc_heap_def)
qed

lemma malloc_context_new:
  "bebop_context_new malloc_heap None =
     (Some \<lparr>context_id = 0,
            arena = \<lparr>arena_id = 1, blocks = [], total_allocated = 0, total_used = 0,
                     arena_opts = (arena_options (bebop_context_options malloc_heap)),
                     arena_alloc = \<lparr>alloc_fn = (\<lambda>_ _. True), alloc_calls = 2,
                                    alloc_live = [(1, 72), (0, 64)]\<rparr>\<rparr>,
            ctx_options = bebop_context_options malloc_heap, decode_depth = 0\<rparr>,
      \<lparr>alloc_fn = (\<lambda>_ _. True), alloc_calls = 2, alloc_live = [(1, 72), (0, 64)]\<rparr>)"
  by (simp add: bebop_context_new_def resolved_allocator_def bebop_context_options_def
      bebop_wire_arena_create_def alloc_new_def malloc_heap_def Let_def wire_defs)

text \<open>
  C37: the size check of the arena can be defeated by wrap-around. On a default context whose
  allocator always succeeds, a request for \<open>2 ^ 64 - 16\<close> bytes after one small allocation succeeds
  and moves the bump pointer back, so the next allocation returns the address of the first one.
\<close>

theorem context_alloc_overlap:
  "\<exists>c0 al c1 c2 c3. bebop_context_new malloc_heap None = (Some c0, al)
     \<and> bebop_context_alloc (Some c0) 16 = (Some (2, 0), Some c1)
     \<and> bebop_context_alloc (Some c1) (2 ^ 64 - 16) = (Some (2, 16), Some c2)
     \<and> bebop_context_alloc (Some c2) 16 = (Some (2, 0), Some c3)"
proof -
  have al: "aligned 16 = 16" "aligned 18446744073709551600 = 18446744073709551600"
    by (simp_all add: aligned_def align_size_eq)
  have al': "bebop_wire_align_size 16 16 = 16"
    using al by (simp add: aligned_def BEBOP_ARENA_ALIGN_def)
  show ?thesis
    unfolding malloc_context_new
    by (simp add: bebop_context_alloc_def bebop_wire_arena_alloc_def alloc_loop_unfold al al'
        bebop_wire_arena_ensure_block_def bebop_wire_arena_push_block_def
        bebop_wire_arena_allocate_block_def bebop_context_options_def alloc_new_def
        BEBOP_ARENA_ALIGN_def size_wrap_def Let_def)
qed

definition depth_limit :: "Bebop_Context \<Rightarrow> nat" where
  "depth_limit c =
     (if max_decode_depth (ctx_options c) = 0 then BEBOP_WIRE_DEFAULT_MAX_DECODE_DEPTH
      else max_decode_depth (ctx_options c))"

definition depth_ok :: "nat \<Rightarrow> Bebop_Context option \<Rightarrow> bool" where
  "depth_ok n ctx \<longleftrightarrow> (case ctx of None \<Rightarrow> False | Some c \<Rightarrow> decode_depth c \<le> n \<and> depth_limit c = n)"

lemma depth_limit_update [simp]:
  "depth_limit (c\<lparr>arena := a\<rparr>) = depth_limit c"
  "depth_limit (c\<lparr>decode_depth := d\<rparr>) = depth_limit c"
  by (simp_all add: depth_limit_def)

lemma enter_decode_Some:
  "bebop_context_enter_decode (Some c) =
     (if decode_depth c \<ge> depth_limit c then (BEBOP_RESULT_MALFORMED, Some c)
      else (BEBOP_RESULT_OK, Some (c\<lparr>decode_depth := decode_depth c + 1\<rparr>)))"
  by (simp add: bebop_context_enter_decode_def depth_limit_def Let_def)

lemma context_alloc_depth: "depth_ok n ctx \<Longrightarrow> depth_ok n (snd (bebop_context_alloc ctx sz))"
  by (auto simp: depth_ok_def bebop_context_alloc_def split: prod.splits option.splits)

lemma context_step_depth:
  assumes "depth_ok n ctx"
  shows "depth_ok n (context_step ctx x)"
proof (cases x)
  case (Alloc sz)
  then show ?thesis
    using assms by (simp add: context_alloc_depth)
next
  case (AllocArray cnt elem_size)
  then show ?thesis
    using assms by (simp add: bebop_context_alloc_array_def context_alloc_depth)
qed (use assms in \<open>auto simp: depth_ok_def enter_decode_Some
      bebop_context_leave_decode_def bebop_context_reset_def bebop_wire_arena_reset_def
      bebop_context_realloc_def split: prod.splits option.splits\<close>)

lemma context_run_depth: "depth_ok n ctx \<Longrightarrow> depth_ok n (context_run ctx xs)"
  by (induction xs arbitrary: ctx) (simp_all add: context_step_depth)

text \<open>
  C40: the recursion limit. After any sequence of calls on a fresh context the decode depth is at
  most the configured limit, where a limit of 0 stands for the default of 64, so generated decoders
  that enter before recursing cannot nest deeper.
\<close>

theorem decode_depth_bounded:
  assumes "bebop_context_new heap options = (Some c, al)"
    and "context_run (Some c) calls = Some c'"
  shows "decode_depth c' \<le> depth_limit c"
proof -
  have "depth_ok (depth_limit c) (Some c)"
    using assms(1)
    by (auto simp: depth_ok_def bebop_context_new_def Let_def split: prod.splits option.splits)
  then have "depth_ok (depth_limit c) (context_run (Some c) calls)"
    by (rule context_run_depth)
  with assms(2) show ?thesis
    by (simp add: depth_ok_def)
qed

theorem decode_depth_bounded_witness:
  "\<exists>c al c'. bebop_context_new malloc_heap None = (Some c, al)
     \<and> context_run (Some c) [EnterDecode, EnterDecode, LeaveDecode, EnterDecode] = Some c'
     \<and> decode_depth c' \<le> depth_limit c"
proof -
  obtain c al where c: "bebop_context_new malloc_heap None = (Some c, al)"
    using malloc_context by blast
  obtain c' where "context_run (Some c) [EnterDecode, EnterDecode, LeaveDecode, EnterDecode] = Some c'"
    using context_run_owns [OF context_new_owns [OF c]] unfolding context_owns_def by blast
  with c decode_depth_bounded [OF c this] show ?thesis
    by blast
qed

section \<open>A context with room\<close>

text \<open>A context with one block of which \<open>u\<close> bytes are used, for examples.\<close>

definition room_context :: "nat \<Rightarrow> Bebop_Context" where
  "room_context u = \<lparr>context_id = 0,
     arena = small_arena\<lparr>blocks := [\<lparr>block_id = 2, used = u, capacity = 4096\<rparr>], total_used := u\<rparr>,
     ctx_options = bebop_context_options malloc_heap, decode_depth = 0\<rparr>"

lemma room_arena_alloc:
  assumes "0 < sz" and "u + 16 * ((sz + 15) div 16) \<le> 4096"
  shows "bebop_wire_arena_alloc (Some (arena (room_context u))) sz =
    (Some (2, u), Some (arena (room_context (u + 16 * ((sz + 15) div 16)))))"
proof -
  have "sz < 2 ^ 60"
    using assms(2) by simp
  then show ?thesis
    using assms by (simp add: room_context_def bebop_wire_arena_alloc_def alloc_loop_unfold
        bebop_wire_arena_ensure_block_def small_arena_def aligned_small)
qed

lemma room_context_arena [simp]: "room_context u\<lparr>arena := arena (room_context v)\<rparr> = room_context v"
  by (simp add: room_context_def)

lemma room_context_alloc:
  assumes "0 < sz" and "u + 16 * ((sz + 15) div 16) \<le> 4096"
  shows "bebop_context_alloc (Some (room_context u)) sz =
    (Some (2, u), Some (room_context (u + 16 * ((sz + 15) div 16))))"
  by (simp add: bebop_context_alloc_def room_arena_alloc [OF assms])

end
