(* ===== verification/Wire_Reader.thy ===== *)
theory Wire_Reader
  imports Wire_Arena Wire_Bits
begin

text \<open>
  The reader of \<^verbatim>\<open>bebop/src/bebop_wire.c\<close>: a cursor over an encoded buffer with a movable end, one
  operation per wire type, strings and byte spans that point into the buffer, and arrays of fixed
  length. \<open>rd_buf\<close> is the memory from \<^verbatim>\<open>start\<close>; \<open>rd_current\<close> and \<open>rd_end\<close> are the offsets of
  \<^verbatim>\<open>current\<close> and \<^verbatim>\<open>end\<close> from \<^verbatim>\<open>start\<close>. The reader's context pointer is not used by any of its
  operations. Floating-point values are their bit patterns, signed integers their two's complement
  words.
\<close>

section \<open>State\<close>

record Bebop_Reader =
  rd_buf :: "byte list"
  rd_current :: nat
  rd_end :: nat

type_synonym 'a rd_result = "Bebop_Result \<times> Bebop_Reader option \<times> 'a option"

definition rd_remaining :: "Bebop_Reader \<Rightarrow> nat" where
  "rd_remaining r = rd_end r - rd_current r"

definition rd_advance :: "nat \<Rightarrow> Bebop_Reader \<Rightarrow> Bebop_Reader" where
  "rd_advance n r = r\<lparr>rd_current := rd_current r + n\<rparr>"

section \<open>Wire values\<close>

type_synonym Bebop_UUID = "byte list"

record Bebop_Timestamp =
  ts_seconds :: u64
  ts_nanos :: u32
  ts_offset_ms :: u32

record Bebop_Duration =
  dur_seconds :: u64
  dur_nanos :: u32

definition timestamp_of_bytes :: "byte list \<Rightarrow> Bebop_Timestamp" where
  "timestamp_of_bytes bs =
     \<lparr>ts_seconds = le_word (span_at 0 8 bs), ts_nanos = le_word (span_at 8 4 bs),
      ts_offset_ms = le_word (span_at 12 4 bs)\<rparr>"

definition duration_of_bytes :: "byte list \<Rightarrow> Bebop_Duration" where
  "duration_of_bytes bs =
     \<lparr>dur_seconds = le_word (span_at 0 8 bs), dur_nanos = le_word (span_at 8 4 bs)\<rparr>"

definition u128_of_bytes :: "byte list \<Rightarrow> u128" where
  "u128_of_bytes bs =
     (let low = le_word (span_at 0 8 bs) :: u64; high = le_word (span_at 8 8 bs) :: u64
      in ucast low OR push_bit 64 (ucast high))"

section \<open>Cursor operations\<close>

definition bebop_reader_init ::
  "Bebop_Reader option \<Rightarrow> byte list option \<Rightarrow> Bebop_Result \<times> Bebop_Reader option" where
  "bebop_reader_init rd source =
     (case (rd, source) of
        (Some _, Some data) \<Rightarrow>
          (BEBOP_RESULT_OK, Some \<lparr>rd_buf = data, rd_current = 0, rd_end = length data\<rparr>)
      | _ \<Rightarrow> (BEBOP_RESULT_NULL, rd))"

text \<open>The arena memory of a new reader is uninitialised; its fields are set by \<open>bebop_reader_init\<close>.\<close>

definition bebop_context_reader ::
  "Bebop_Context option \<Rightarrow> byte list option \<Rightarrow> Bebop_Reader option \<times> Bebop_Context option" where
  "bebop_context_reader ctx source =
     (if ctx = None \<or> source = None then (None, ctx)
      else case bebop_context_alloc ctx SIZEOF_READER of
             (None, ctx') \<Rightarrow> (None, ctx')
           | (Some _, ctx') \<Rightarrow>
               (case bebop_reader_init (Some \<lparr>rd_buf = [], rd_current = 0, rd_end = 0\<rparr>) source of
                  (BEBOP_RESULT_OK, rd) \<Rightarrow> (rd, ctx')
                | _ \<Rightarrow> (None, ctx')))"

definition bebop_reader_reset :: "Bebop_Reader option \<Rightarrow> byte list option \<Rightarrow> Bebop_Reader option" where
  "bebop_reader_reset rd source =
     (case (rd, source) of
        (Some r, Some data) \<Rightarrow> Some (r\<lparr>rd_buf := data, rd_current := 0, rd_end := length data\<rparr>)
      | _ \<Rightarrow> rd)"

text \<open>A position is given relative to \<^verbatim>\<open>start\<close> and may lie before it.\<close>

definition bebop_reader_seek :: "Bebop_Reader option \<Rightarrow> int \<Rightarrow> Bebop_Reader option" where
  "bebop_reader_seek rd position =
     (case rd of
        None \<Rightarrow> None
      | Some r \<Rightarrow>
          if position \<ge> 0 \<and> position \<le> int (rd_end r)
          then Some (r\<lparr>rd_current := nat position\<rparr>) else rd)"

definition bebop_reader_skip :: "Bebop_Reader option \<Rightarrow> nat \<Rightarrow> Bebop_Reader option" where
  "bebop_reader_skip rd amount =
     (case rd of
        None \<Rightarrow> None
      | Some r \<Rightarrow> if amount \<le> rd_remaining r then Some (rd_advance amount r) else rd)"

definition bebop_reader_position :: "Bebop_Reader option \<Rightarrow> nat" where
  "bebop_reader_position rd = (case rd of None \<Rightarrow> 0 | Some r \<Rightarrow> rd_current r)"

definition bebop_reader_remaining :: "Bebop_Reader option \<Rightarrow> nat" where
  "bebop_reader_remaining rd = (case rd of None \<Rightarrow> 0 | Some r \<Rightarrow> rd_remaining r)"

definition bebop_reader_push_limit :: "Bebop_Reader option \<Rightarrow> u32 \<Rightarrow> nat option \<Rightarrow> nat rd_result" where
  "bebop_reader_push_limit rd len old_end =
     (case (rd, old_end) of
        (Some r, Some _) \<Rightarrow>
          if unat len > rd_remaining r then (BEBOP_RESULT_MALFORMED, rd, old_end)
          else (BEBOP_RESULT_OK, Some (r\<lparr>rd_end := rd_current r + unat len\<rparr>), Some (rd_end r))
      | _ \<Rightarrow> (BEBOP_RESULT_NULL, rd, old_end))"

definition bebop_reader_pop_limit :: "Bebop_Reader option \<Rightarrow> nat option \<Rightarrow> Bebop_Reader option" where
  "bebop_reader_pop_limit rd old_end =
     (case (rd, old_end) of
        (Some r, Some e) \<Rightarrow> if e \<ge> rd_end r then Some (r\<lparr>rd_end := e\<rparr>) else rd
      | _ \<Rightarrow> rd)"

section \<open>Scalars\<close>

text \<open>
  The common body of the scalar reads: the \<^verbatim>\<open>NULL\<close> guard, the bounds check, the copy of \<open>n\<close> bytes
  and the advance of the cursor.
\<close>

definition reader_read_scalar ::
  "nat \<Rightarrow> (byte list \<Rightarrow> 'a) \<Rightarrow> Bebop_Reader option \<Rightarrow> 'a option \<Rightarrow> 'a rd_result" where
  "reader_read_scalar n dec rd out =
     (case (rd, out) of
        (Some r, Some _) \<Rightarrow>
          if n > rd_remaining r then (BEBOP_RESULT_MALFORMED, rd, out)
          else (BEBOP_RESULT_OK, Some (rd_advance n r),
                Some (dec (span_at (rd_current r) n (rd_buf r))))
      | _ \<Rightarrow> (BEBOP_RESULT_NULL, rd, out))"

definition bebop_reader_read_byte :: "Bebop_Reader option \<Rightarrow> byte option \<Rightarrow> byte rd_result" where
  "bebop_reader_read_byte = reader_read_scalar 1 le_word"

definition bebop_reader_read_u16 :: "Bebop_Reader option \<Rightarrow> u16 option \<Rightarrow> u16 rd_result" where
  "bebop_reader_read_u16 = reader_read_scalar 2 le_word"

definition bebop_reader_read_u32 :: "Bebop_Reader option \<Rightarrow> u32 option \<Rightarrow> u32 rd_result" where
  "bebop_reader_read_u32 = reader_read_scalar 4 le_word"

definition bebop_reader_read_u64 :: "Bebop_Reader option \<Rightarrow> u64 option \<Rightarrow> u64 rd_result" where
  "bebop_reader_read_u64 = reader_read_scalar 8 le_word"

definition bebop_reader_read_i8 :: "Bebop_Reader option \<Rightarrow> byte option \<Rightarrow> byte rd_result" where
  "bebop_reader_read_i8 rd out = bebop_reader_read_byte rd out"

definition bebop_reader_read_i16 :: "Bebop_Reader option \<Rightarrow> u16 option \<Rightarrow> u16 rd_result" where
  "bebop_reader_read_i16 rd out = bebop_reader_read_u16 rd out"

definition bebop_reader_read_i32 :: "Bebop_Reader option \<Rightarrow> u32 option \<Rightarrow> u32 rd_result" where
  "bebop_reader_read_i32 rd out = bebop_reader_read_u32 rd out"

definition bebop_reader_read_i64 :: "Bebop_Reader option \<Rightarrow> u64 option \<Rightarrow> u64 rd_result" where
  "bebop_reader_read_i64 rd out = bebop_reader_read_u64 rd out"

definition bebop_reader_read_bool :: "Bebop_Reader option \<Rightarrow> bool option \<Rightarrow> bool rd_result" where
  "bebop_reader_read_bool rd out =
     (if rd = None \<or> out = None then (BEBOP_RESULT_NULL, rd, out)
      else case bebop_reader_read_byte rd (Some 0) of
             (BEBOP_RESULT_OK, rd', Some b) \<Rightarrow> (BEBOP_RESULT_OK, rd', Some (b \<noteq> 0))
           | (result, rd', _) \<Rightarrow> (result, rd', out))"

definition bebop_reader_read_f16 :: "Bebop_Reader option \<Rightarrow> u16 option \<Rightarrow> u16 rd_result" where
  "bebop_reader_read_f16 = reader_read_scalar 2 le_word"

definition bebop_reader_read_bf16 :: "Bebop_Reader option \<Rightarrow> u16 option \<Rightarrow> u16 rd_result" where
  "bebop_reader_read_bf16 = reader_read_scalar 2 le_word"

definition bebop_reader_read_f32 :: "Bebop_Reader option \<Rightarrow> u32 option \<Rightarrow> u32 rd_result" where
  "bebop_reader_read_f32 rd out =
     (if rd = None \<or> out = None then (BEBOP_RESULT_NULL, rd, out)
      else case bebop_reader_read_u32 rd (Some 0) of
             (BEBOP_RESULT_OK, rd', Some bits) \<Rightarrow> (BEBOP_RESULT_OK, rd', Some bits)
           | (result, rd', _) \<Rightarrow> (result, rd', out))"

definition bebop_reader_read_f64 :: "Bebop_Reader option \<Rightarrow> u64 option \<Rightarrow> u64 rd_result" where
  "bebop_reader_read_f64 rd out =
     (if rd = None \<or> out = None then (BEBOP_RESULT_NULL, rd, out)
      else case bebop_reader_read_u64 rd (Some 0) of
             (BEBOP_RESULT_OK, rd', Some bits) \<Rightarrow> (BEBOP_RESULT_OK, rd', Some bits)
           | (result, rd', _) \<Rightarrow> (result, rd', out))"

definition bebop_reader_read_i128 :: "Bebop_Reader option \<Rightarrow> u128 option \<Rightarrow> u128 rd_result" where
  "bebop_reader_read_i128 = reader_read_scalar 16 u128_of_bytes"

definition bebop_reader_read_u128 :: "Bebop_Reader option \<Rightarrow> u128 option \<Rightarrow> u128 rd_result" where
  "bebop_reader_read_u128 = reader_read_scalar 16 u128_of_bytes"

definition bebop_reader_read_uuid :: "Bebop_Reader option \<Rightarrow> Bebop_UUID option \<Rightarrow> Bebop_UUID rd_result" where
  "bebop_reader_read_uuid = reader_read_scalar 16 (\<lambda>bs. bs)"

definition bebop_reader_read_timestamp ::
  "Bebop_Reader option \<Rightarrow> Bebop_Timestamp option \<Rightarrow> Bebop_Timestamp rd_result" where
  "bebop_reader_read_timestamp = reader_read_scalar 16 timestamp_of_bytes"

definition bebop_reader_read_duration ::
  "Bebop_Reader option \<Rightarrow> Bebop_Duration option \<Rightarrow> Bebop_Duration rd_result" where
  "bebop_reader_read_duration = reader_read_scalar 12 duration_of_bytes"

text \<open>The byte-by-byte bodies used where the target is not known to be little-endian.\<close>

definition read_u16_portable :: "byte list \<Rightarrow> u16" where
  "read_u16_portable bs =
     (let b0 = ucast (bs ! 0); b1 = ucast (bs ! 1) in push_bit 8 b1 OR b0)"

definition read_u32_portable :: "byte list \<Rightarrow> u32" where
  "read_u32_portable bs =
     (let b0 = ucast (bs ! 0); b1 = ucast (bs ! 1); b2 = ucast (bs ! 2); b3 = ucast (bs ! 3)
      in push_bit 24 b3 OR push_bit 16 b2 OR push_bit 8 b1 OR b0)"

definition read_u64_portable :: "byte list \<Rightarrow> u64" where
  "read_u64_portable bs =
     (let b0 = ucast (bs ! 0); b1 = ucast (bs ! 1); b2 = ucast (bs ! 2); b3 = ucast (bs ! 3);
          b4 = ucast (bs ! 4); b5 = ucast (bs ! 5); b6 = ucast (bs ! 6); b7 = ucast (bs ! 7)
      in push_bit 0x38 b7 OR push_bit 0x30 b6 OR push_bit 0x28 b5 OR push_bit 0x20 b4
         OR push_bit 0x18 b3 OR push_bit 0x10 b2 OR push_bit 0x08 b1 OR b0)"

section \<open>Lengths, strings, byte spans\<close>

definition bebop_reader_read_length :: "Bebop_Reader option \<Rightarrow> u32 option \<Rightarrow> u32 rd_result" where
  "bebop_reader_read_length rd out =
     (case bebop_reader_read_u32 rd out of
        (BEBOP_RESULT_OK, Some r, Some len) \<Rightarrow>
          if unat len > rd_remaining r then (BEBOP_RESULT_MALFORMED, Some r, Some len)
          else (BEBOP_RESULT_OK, Some r, Some len)
      | res \<Rightarrow> res)"

definition bebop_reader_read_string ::
  "Bebop_Reader option \<Rightarrow> byte list option \<Rightarrow> byte list rd_result" where
  "bebop_reader_read_string rd out =
     (if rd = None \<or> out = None then (BEBOP_RESULT_NULL, rd, out)
      else case bebop_reader_read_u32 rd (Some 0) of
             (BEBOP_RESULT_OK, Some r, Some len) \<Rightarrow>
               if unat len \<ge> rd_remaining r then (BEBOP_RESULT_MALFORMED, Some r, out)
               else if rd_buf r ! (rd_current r + unat len) \<noteq> 0
               then (BEBOP_RESULT_MALFORMED, Some r, out)
               else (BEBOP_RESULT_OK, Some (rd_advance (unat len + 1) r),
                     Some (span_at (rd_current r) (unat len) (rd_buf r)))
           | (result, rd', _) \<Rightarrow> (result, rd', out))"

definition bebop_reader_read_bytes ::
  "Bebop_Reader option \<Rightarrow> byte list option \<Rightarrow> byte list rd_result" where
  "bebop_reader_read_bytes rd out =
     (if rd = None \<or> out = None then (BEBOP_RESULT_NULL, rd, out)
      else case bebop_reader_read_length rd (Some 0) of
             (BEBOP_RESULT_OK, Some r, Some len) \<Rightarrow>
               (BEBOP_RESULT_OK, Some (rd_advance (unat len) r),
                Some (span_at (rd_current r) (unat len) (rd_buf r)))
           | (result, rd', _) \<Rightarrow> (result, rd', out))"

definition bebop_reader_read_fixed_bytes ::
  "Bebop_Reader option \<Rightarrow> nat \<Rightarrow> byte list option \<Rightarrow> byte list rd_result" where
  "bebop_reader_read_fixed_bytes rd byte_count out = reader_read_scalar byte_count (\<lambda>bs. bs) rd out"

section \<open>Arrays of fixed length\<close>

text \<open>
  The common body of the fixed-array reads: \<open>cnt\<close> elements of \<open>n\<close> bytes are copied over the first
  \<open>cnt\<close> elements of the caller's array.
\<close>

definition reader_read_fixed_array ::
  "nat \<Rightarrow> (byte list \<Rightarrow> 'a) \<Rightarrow> Bebop_Reader option \<Rightarrow> 'a list option \<Rightarrow> nat \<Rightarrow> 'a list rd_result" where
  "reader_read_fixed_array n dec rd out cnt =
     (case (rd, out) of
        (Some r, Some old) \<Rightarrow>
          if cnt = 0 then (BEBOP_RESULT_OK, rd, out)
          else if cnt > rd_remaining r div n then (BEBOP_RESULT_MALFORMED, rd, out)
          else (BEBOP_RESULT_OK, Some (rd_advance (cnt * n) r),
                Some (map (\<lambda>i. dec (span_at (rd_current r + i * n) n (rd_buf r))) [0..<cnt]
                      @ drop cnt old))
      | _ \<Rightarrow> (BEBOP_RESULT_NULL, rd, out))"

definition bebop_reader_read_fixed_u8_array ::
  "Bebop_Reader option \<Rightarrow> byte list option \<Rightarrow> nat \<Rightarrow> byte list rd_result" where
  "bebop_reader_read_fixed_u8_array = reader_read_fixed_array 1 le_word"

definition bebop_reader_read_fixed_i8_array ::
  "Bebop_Reader option \<Rightarrow> byte list option \<Rightarrow> nat \<Rightarrow> byte list rd_result" where
  "bebop_reader_read_fixed_i8_array rd out cnt = bebop_reader_read_fixed_u8_array rd out cnt"

text \<open>The elements are the object representations that \<^verbatim>\<open>memcpy\<close> stores into the \<^verbatim>\<open>bool\<close> array.\<close>

definition bebop_reader_read_fixed_bool_array ::
  "Bebop_Reader option \<Rightarrow> byte list option \<Rightarrow> nat \<Rightarrow> byte list rd_result" where
  "bebop_reader_read_fixed_bool_array = reader_read_fixed_array 1 le_word"

definition bebop_reader_read_fixed_u16_array ::
  "Bebop_Reader option \<Rightarrow> u16 list option \<Rightarrow> nat \<Rightarrow> u16 list rd_result" where
  "bebop_reader_read_fixed_u16_array = reader_read_fixed_array 2 le_word"

definition bebop_reader_read_fixed_i16_array ::
  "Bebop_Reader option \<Rightarrow> u16 list option \<Rightarrow> nat \<Rightarrow> u16 list rd_result" where
  "bebop_reader_read_fixed_i16_array rd out cnt = bebop_reader_read_fixed_u16_array rd out cnt"

definition bebop_reader_read_fixed_u32_array ::
  "Bebop_Reader option \<Rightarrow> u32 list option \<Rightarrow> nat \<Rightarrow> u32 list rd_result" where
  "bebop_reader_read_fixed_u32_array = reader_read_fixed_array 4 le_word"

definition bebop_reader_read_fixed_i32_array ::
  "Bebop_Reader option \<Rightarrow> u32 list option \<Rightarrow> nat \<Rightarrow> u32 list rd_result" where
  "bebop_reader_read_fixed_i32_array rd out cnt = bebop_reader_read_fixed_u32_array rd out cnt"

definition bebop_reader_read_fixed_u64_array ::
  "Bebop_Reader option \<Rightarrow> u64 list option \<Rightarrow> nat \<Rightarrow> u64 list rd_result" where
  "bebop_reader_read_fixed_u64_array = reader_read_fixed_array 8 le_word"

definition bebop_reader_read_fixed_i64_array ::
  "Bebop_Reader option \<Rightarrow> u64 list option \<Rightarrow> nat \<Rightarrow> u64 list rd_result" where
  "bebop_reader_read_fixed_i64_array rd out cnt = bebop_reader_read_fixed_u64_array rd out cnt"

definition bebop_reader_read_fixed_f16_array ::
  "Bebop_Reader option \<Rightarrow> u16 list option \<Rightarrow> nat \<Rightarrow> u16 list rd_result" where
  "bebop_reader_read_fixed_f16_array = reader_read_fixed_array 2 le_word"

definition bebop_reader_read_fixed_bf16_array ::
  "Bebop_Reader option \<Rightarrow> u16 list option \<Rightarrow> nat \<Rightarrow> u16 list rd_result" where
  "bebop_reader_read_fixed_bf16_array = reader_read_fixed_array 2 le_word"

definition bebop_reader_read_fixed_f32_array ::
  "Bebop_Reader option \<Rightarrow> u32 list option \<Rightarrow> nat \<Rightarrow> u32 list rd_result" where
  "bebop_reader_read_fixed_f32_array = reader_read_fixed_array 4 le_word"

definition bebop_reader_read_fixed_f64_array ::
  "Bebop_Reader option \<Rightarrow> u64 list option \<Rightarrow> nat \<Rightarrow> u64 list rd_result" where
  "bebop_reader_read_fixed_f64_array = reader_read_fixed_array 8 le_word"

definition bebop_reader_read_fixed_i128_array ::
  "Bebop_Reader option \<Rightarrow> u128 list option \<Rightarrow> nat \<Rightarrow> u128 list rd_result" where
  "bebop_reader_read_fixed_i128_array = reader_read_fixed_array 16 le_word"

definition bebop_reader_read_fixed_u128_array ::
  "Bebop_Reader option \<Rightarrow> u128 list option \<Rightarrow> nat \<Rightarrow> u128 list rd_result" where
  "bebop_reader_read_fixed_u128_array = reader_read_fixed_array 16 le_word"

definition bebop_reader_read_fixed_uuid_array ::
  "Bebop_Reader option \<Rightarrow> Bebop_UUID list option \<Rightarrow> nat \<Rightarrow> Bebop_UUID list rd_result" where
  "bebop_reader_read_fixed_uuid_array = reader_read_fixed_array 16 (\<lambda>bs. bs)"

definition bebop_reader_read_fixed_timestamp_array ::
  "Bebop_Reader option \<Rightarrow> Bebop_Timestamp list option \<Rightarrow> nat \<Rightarrow> Bebop_Timestamp list rd_result" where
  "bebop_reader_read_fixed_timestamp_array = reader_read_fixed_array 16 timestamp_of_bytes"

definition bebop_reader_read_fixed_duration_array ::
  "Bebop_Reader option \<Rightarrow> Bebop_Duration list option \<Rightarrow> nat \<Rightarrow> Bebop_Duration list rd_result" where
  "bebop_reader_read_fixed_duration_array = reader_read_fixed_array 12 duration_of_bytes"

section \<open>The big-endian-safe array loop\<close>

text \<open>
  Where the target is not known to be little-endian, the fixed-array reads loop over the scalar read
  of the element type; \<open>i\<close> is the loop counter and \<open>out\<close> the caller's array.
\<close>

function fixed_array_loop ::
  "(Bebop_Reader option \<Rightarrow> 'a option \<Rightarrow> 'a rd_result) \<Rightarrow> Bebop_Reader option \<Rightarrow> 'a list \<Rightarrow> nat \<Rightarrow> nat
     \<Rightarrow> 'a list rd_result" where
  "fixed_array_loop read rd out i cnt =
     (if i < cnt
      then case read rd (Some (out ! i)) of
             (BEBOP_RESULT_OK, rd', Some v) \<Rightarrow> fixed_array_loop read rd' (out[i := v]) (i + 1) cnt
           | (result, rd', _) \<Rightarrow> (result, rd', Some out)
      else (BEBOP_RESULT_OK, rd, Some out))"
  by pat_completeness auto
termination
  by (relation "measure (\<lambda>(_, _, _, i, cnt). cnt - i)") auto

declare fixed_array_loop.simps [simp del]

definition reader_read_fixed_array_portable ::
  "nat \<Rightarrow> (Bebop_Reader option \<Rightarrow> 'a option \<Rightarrow> 'a rd_result) \<Rightarrow> Bebop_Reader option \<Rightarrow> 'a list option
     \<Rightarrow> nat \<Rightarrow> 'a list rd_result" where
  "reader_read_fixed_array_portable n read rd out cnt =
     (case (rd, out) of
        (Some r, Some old) \<Rightarrow>
          if cnt = 0 then (BEBOP_RESULT_OK, rd, out)
          else if cnt > rd_remaining r div n then (BEBOP_RESULT_MALFORMED, rd, out)
          else fixed_array_loop read rd old 0 cnt
      | _ \<Rightarrow> (BEBOP_RESULT_NULL, rd, out))"

section \<open>The invariant of a reader\<close>

definition reader_inv :: "Bebop_Reader \<Rightarrow> bool" where
  "reader_inv r \<longleftrightarrow> rd_current r \<le> rd_end r \<and> rd_end r \<le> length (rd_buf r)"

text \<open>The bytes between \<^verbatim>\<open>current\<close> and \<^verbatim>\<open>end\<close>: all that a read may look at.\<close>

definition rd_window :: "Bebop_Reader \<Rightarrow> byte list" where
  "rd_window r = span_at (rd_current r) (rd_remaining r) (rd_buf r)"

lemma rd_advance_simps [simp]:
  "rd_buf (rd_advance n r) = rd_buf r"
  "rd_end (rd_advance n r) = rd_end r"
  "rd_current (rd_advance n r) = rd_current r + n"
  "rd_remaining (rd_advance n r) = rd_remaining r - n"
  "rd_advance 0 r = r"
  "rd_advance m (rd_advance n r) = rd_advance (n + m) r"
  by (simp_all add: rd_advance_def rd_remaining_def)

lemma reader_inv_advance [simp]:
  "reader_inv r \<Longrightarrow> n \<le> rd_remaining r \<Longrightarrow> reader_inv (rd_advance n r)"
  unfolding reader_inv_def rd_remaining_def rd_advance_def by auto

lemma length_rd_window [simp]: "reader_inv r \<Longrightarrow> length (rd_window r) = rd_remaining r"
  by (simp add: rd_window_def reader_inv_def rd_remaining_def)

lemma rd_window_advance:
  "reader_inv r \<Longrightarrow> n \<le> rd_remaining r \<Longrightarrow> rd_window (rd_advance n r) = drop n (rd_window r)"
  by (simp add: rd_window_def span_at_def rd_remaining_def drop_take add.commute)

lemma span_at_window:
  "reader_inv r \<Longrightarrow> i + n \<le> rd_remaining r
     \<Longrightarrow> span_at (rd_current r + i) n (rd_buf r) = span_at i n (rd_window r)"
  by (simp add: rd_window_def span_at_span_at)

lemma span_at_window0:
  "reader_inv r \<Longrightarrow> n \<le> rd_remaining r
     \<Longrightarrow> span_at (rd_current r) n (rd_buf r) = take n (rd_window r)"
  using span_at_window [of r 0 n] by (simp add: span_at_def)

lemma nth_window:
  "reader_inv r \<Longrightarrow> i < rd_remaining r \<Longrightarrow> rd_buf r ! (rd_current r + i) = rd_window r ! i"
  by (simp add: rd_window_def rd_remaining_def reader_inv_def)

section \<open>The contract of a read\<close>

text \<open>
  A read operation is determined by a decoder of the unread bytes: \<open>spec bs = Some (v, n)\<close> when
  \<open>bs\<close> starts with an encoding of \<open>v\<close> in \<open>n\<close> bytes.
\<close>

locale wire_reader =
  fixes read :: "Bebop_Reader option \<Rightarrow> 'a option \<Rightarrow> 'a rd_result"
    and spec :: "byte list \<Rightarrow> ('a \<times> nat) option"
  assumes read_null: "rd = None \<or> out = None \<Longrightarrow> read rd out = (BEBOP_RESULT_NULL, rd, out)"
    and read_ok: "\<lbrakk>reader_inv r; spec (rd_window r) = Some (v, n)\<rbrakk>
      \<Longrightarrow> read (Some r) (Some x) = (BEBOP_RESULT_OK, Some (rd_advance n r), Some v)"
    and read_err: "\<lbrakk>reader_inv r; spec (rd_window r) = None\<rbrakk>
      \<Longrightarrow> \<exists>k y. k \<le> rd_remaining r
            \<and> read (Some r) (Some x) = (BEBOP_RESULT_MALFORMED, Some (rd_advance k r), Some y)"
    and spec_bound: "spec bs = Some (v, n) \<Longrightarrow> n \<le> length bs"
begin

lemma read_cases:
  assumes "reader_inv r"
  obtains (ok) v n where "spec (rd_window r) = Some (v, n)" "n \<le> rd_remaining r"
      "read (Some r) (Some x) = (BEBOP_RESULT_OK, Some (rd_advance n r), Some v)"
  | (err) k y where "spec (rd_window r) = None" "k \<le> rd_remaining r"
      "read (Some r) (Some x) = (BEBOP_RESULT_MALFORMED, Some (rd_advance k r), Some y)"
proof (cases "spec (rd_window r)")
  case None
  then show ?thesis
    using read_err [OF assms None, of x] err by blast
next
  case (Some vn)
  then obtain v n where vn: "spec (rd_window r) = Some (v, n)"
    by (cases vn) auto
  then show ?thesis
    using ok read_ok [OF assms vn] spec_bound [OF vn] assms by simp
qed

text \<open>The cursor only moves forward and never past \<^verbatim>\<open>end\<close>; buffer and limit are kept.\<close>

lemma read_advances:
  assumes "reader_inv r" and "read (Some r) out = (res, rd', y)"
  shows "\<exists>k \<le> rd_remaining r. rd' = Some (rd_advance k r)"
proof (cases out)
  case None
  then show ?thesis
    using assms(2) read_null [of "Some r" out]
    by (metis Pair_inject le0 rd_advance_simps(5))
next
  case (Some x)
  then show ?thesis
    using assms(2) by (cases rule: read_cases [OF assms(1), of x]) auto
qed

lemma read_reader:
  assumes "reader_inv r"
  shows "\<exists>k \<le> rd_remaining r. fst (snd (read (Some r) out)) = Some (rd_advance k r)"
  using read_advances [OF assms, of out] by (metis prod.collapse)

lemma read_decides:
  assumes "reader_inv r"
  shows "(\<exists>r' v. read (Some r) (Some x) = (BEBOP_RESULT_OK, Some r', Some v))
       \<or> (\<exists>r' y. read (Some r) (Some x) = (BEBOP_RESULT_MALFORMED, Some r', Some y))"
  by (rule read_cases [OF assms, of x]) auto

text \<open>What is read depends on the unread bytes alone.\<close>

lemma read_window_only:
  assumes "reader_inv r" and "reader_inv r'" and "rd_window r = rd_window r'"
    and "read (Some r) (Some x) = (BEBOP_RESULT_OK, rd1, y)"
  shows "\<exists>rd2. read (Some r') (Some x) = (BEBOP_RESULT_OK, rd2, y)"
proof (rule read_cases [OF assms(1), of x])
  fix v n
  assume "spec (rd_window r) = Some (v, n)"
    "read (Some r) (Some x) = (BEBOP_RESULT_OK, Some (rd_advance n r), Some v)"
  then show ?thesis
    using assms read_ok [OF assms(2), of v n x] by simp
qed (use assms(4) in simp)

end

text \<open>
  All reads but that of a bare length prefix, which looks at how much follows, depend on no more
  bytes than they consume.
\<close>

locale framed_reader = wire_reader +
  assumes spec_prefix: "spec bs = Some (v, n) \<Longrightarrow> spec (take n bs @ ext) = Some (v, n)"
begin

text \<open>Reading an encoding leaves exactly what follows it.\<close>

lemma read_framed:
  assumes inv: "reader_inv r" and w: "rd_window r = bs @ rest" and s: "spec bs = Some (v, length bs)"
  shows "read (Some r) (Some x) = (BEBOP_RESULT_OK, Some (rd_advance (length bs) r), Some v)
       \<and> reader_inv (rd_advance (length bs) r) \<and> rd_window (rd_advance (length bs) r) = rest"
proof -
  have len: "length bs \<le> rd_remaining r"
    using arg_cong [OF w, of length] inv by simp
  have "spec (rd_window r) = Some (v, length bs)"
    using spec_prefix [OF s, of rest] w by simp
  then show ?thesis
    using read_ok inv len by (simp add: rd_window_advance w)
qed

end

section \<open>Decoders of the wire types\<close>

definition scalar_spec :: "nat \<Rightarrow> (byte list \<Rightarrow> 'a) \<Rightarrow> byte list \<Rightarrow> ('a \<times> nat) option" where
  "scalar_spec n dec bs = (if n \<le> length bs then Some (dec (take n bs), n) else None)"

definition length_spec :: "byte list \<Rightarrow> (u32 \<times> nat) option" where
  "length_spec bs =
     (if 4 \<le> length bs \<and> unat (le_word (take 4 bs) :: u32) \<le> length bs - 4
      then Some (le_word (take 4 bs), 4) else None)"

definition string_spec :: "byte list \<Rightarrow> (byte list \<times> nat) option" where
  "string_spec bs =
     (let len = unat (le_word (take 4 bs) :: u32)
      in if 4 + len < length bs \<and> bs ! (4 + len) = 0
         then Some (span_at 4 len bs, 4 + len + 1) else None)"

definition bytes_spec :: "byte list \<Rightarrow> (byte list \<times> nat) option" where
  "bytes_spec bs =
     (let len = unat (le_word (take 4 bs) :: u32)
      in if 4 \<le> length bs \<and> 4 + len \<le> length bs
         then Some (span_at 4 len bs, 4 + len) else None)"

definition array_spec ::
  "nat \<Rightarrow> (byte list \<Rightarrow> 'a) \<Rightarrow> nat \<Rightarrow> byte list \<Rightarrow> ('a list \<times> nat) option" where
  "array_spec n dec cnt bs =
     (if cnt * n \<le> length bs
      then Some (map (\<lambda>i. dec (span_at (i * n) n bs)) [0..<cnt], cnt * n) else None)"

lemma take_append_take: "n \<le> length bs \<Longrightarrow> take n (take n bs @ ext) = take n bs"
  by simp

lemma framed_reader_scalar: "framed_reader (reader_read_scalar n dec) (scalar_spec n dec)"
proof
  show "reader_read_scalar n dec rd out = (BEBOP_RESULT_NULL, rd, out)"
    if "rd = None \<or> out = None" for rd out
    using that by (auto simp: reader_read_scalar_def split: option.splits)
  show "reader_read_scalar n dec (Some r) (Some x) = (BEBOP_RESULT_OK, Some (rd_advance m r), Some v)"
    if "reader_inv r" "scalar_spec n dec (rd_window r) = Some (v, m)" for r v m x
    using that by (auto simp: reader_read_scalar_def scalar_spec_def span_at_window0 split: if_splits)
  show "\<exists>k y. k \<le> rd_remaining r
        \<and> reader_read_scalar n dec (Some r) (Some x) = (BEBOP_RESULT_MALFORMED, Some (rd_advance k r), Some y)"
    if "reader_inv r" "scalar_spec n dec (rd_window r) = None" for r x
    using that by (intro exI [of _ 0]) (auto simp: reader_read_scalar_def scalar_spec_def split: if_splits)
qed (auto simp: scalar_spec_def split: if_splits)

text \<open>A read that converts the value of another one.\<close>

lemma framed_reader_map:
  assumes "framed_reader read spec"
    and "\<And>rd out. rd = None \<or> out = None \<Longrightarrow> read' rd out = (BEBOP_RESULT_NULL, rd, out)"
    and "\<And>r x. \<exists>x0. read' (Some r) (Some x) =
           (case read (Some r) (Some x0) of
              (BEBOP_RESULT_OK, rd', Some b) \<Rightarrow> (BEBOP_RESULT_OK, rd', Some (f b))
            | (result, rd', _) \<Rightarrow> (result, rd', Some x))"
  shows "framed_reader read' (\<lambda>bs. map_option (map_prod f id) (spec bs))"
proof -
  note framed = assms(1)
  note src = framed_reader.axioms(1) [OF framed]
  show ?thesis
  proof
    show "read' (Some r) (Some x) = (BEBOP_RESULT_OK, Some (rd_advance m r), Some v)"
      if "reader_inv r" "map_option (map_prod f id) (spec (rd_window r)) = Some (v, m)" for r v m x
      using that assms(3) [of r x] wire_reader.read_ok [OF src that(1)] by fastforce
    show "\<exists>k y. k \<le> rd_remaining r
        \<and> read' (Some r) (Some x) = (BEBOP_RESULT_MALFORMED, Some (rd_advance k r), Some y)"
      if prem: "reader_inv r" "map_option (map_prod f id) (spec (rd_window r)) = None" for r x
    proof -
      obtain x0 where x0: "read' (Some r) (Some x) =
           (case read (Some r) (Some x0) of
              (BEBOP_RESULT_OK, rd', Some b) \<Rightarrow> (BEBOP_RESULT_OK, rd', Some (f b))
            | (result, rd', _) \<Rightarrow> (result, rd', Some x))"
        using assms(3) by blast
      have "spec (rd_window r) = None"
        using prem(2) by simp
      then obtain k y where "k \<le> rd_remaining r"
        "read (Some r) (Some x0) = (BEBOP_RESULT_MALFORMED, Some (rd_advance k r), Some y)"
        using wire_reader.read_err [OF src prem(1)] by blast
      with x0 show ?thesis
        by auto
    qed
    show "m \<le> length bs" if "map_option (map_prod f id) (spec bs) = Some (v, m)" for bs v m
      using that wire_reader.spec_bound [OF src] by auto
    show "map_option (map_prod f id) (spec (take m bs @ ext)) = Some (v, m)"
      if "map_option (map_prod f id) (spec bs) = Some (v, m)" for bs v m ext
      using that framed_reader.spec_prefix [OF framed] by force
  qed (rule assms(2))
qed

lemma map_scalar_spec:
  "(\<lambda>bs. map_option (map_prod f id) (scalar_spec n dec bs)) = scalar_spec n (\<lambda>bs. f (dec bs))"
  by (auto simp: scalar_spec_def)

lemmas framed_reader_map_scalar = framed_reader_map [where spec = "scalar_spec n dec" for n dec,
    unfolded map_scalar_spec]

lemma wire_reader_length: "wire_reader bebop_reader_read_length length_spec"
proof
  show "bebop_reader_read_length rd out = (BEBOP_RESULT_NULL, rd, out)"
    if "rd = None \<or> out = None" for rd out
    using that by (auto simp: bebop_reader_read_length_def bebop_reader_read_u32_def
        reader_read_scalar_def split: option.splits)
  show "bebop_reader_read_length (Some r) (Some x) = (BEBOP_RESULT_OK, Some (rd_advance m r), Some v)"
    if "reader_inv r" "length_spec (rd_window r) = Some (v, m)" for r v m x
    using that by (auto simp: bebop_reader_read_length_def bebop_reader_read_u32_def
        reader_read_scalar_def length_spec_def span_at_window0 split: if_splits)
  show "\<exists>k y. k \<le> rd_remaining r \<and>
      bebop_reader_read_length (Some r) (Some x) = (BEBOP_RESULT_MALFORMED, Some (rd_advance k r), Some y)"
    if "reader_inv r" "length_spec (rd_window r) = None" for r x
  proof (cases "4 \<le> rd_remaining r")
    case True
    then show ?thesis
      using that by (intro exI [of _ 4] exI [of _ "le_word (take 4 (rd_window r))"])
        (simp add: bebop_reader_read_length_def bebop_reader_read_u32_def reader_read_scalar_def
          length_spec_def span_at_window0 split: if_splits)
  next
    case False
    then show ?thesis
      by (intro exI [of _ 0] exI [of _ x]) (auto simp: bebop_reader_read_length_def
          bebop_reader_read_u32_def reader_read_scalar_def)
  qed
qed (auto simp: length_spec_def split: if_splits)

lemma framed_reader_string: "framed_reader bebop_reader_read_string string_spec"
proof
  show "bebop_reader_read_string rd out = (BEBOP_RESULT_NULL, rd, out)"
    if "rd = None \<or> out = None" for rd out
    using that by (auto simp: bebop_reader_read_string_def)
  show "bebop_reader_read_string (Some r) (Some x) = (BEBOP_RESULT_OK, Some (rd_advance m r), Some v)"
    if "reader_inv r" "string_spec (rd_window r) = Some (v, m)" for r v m x
    using that nth_window [of r] span_at_window [of r 4]
    by (auto simp: bebop_reader_read_string_def bebop_reader_read_u32_def add.assoc
        reader_read_scalar_def string_spec_def span_at_window0 Let_def split: if_splits)
  show "\<exists>k y. k \<le> rd_remaining r \<and>
      bebop_reader_read_string (Some r) (Some x) = (BEBOP_RESULT_MALFORMED, Some (rd_advance k r), Some y)"
    if "reader_inv r" "string_spec (rd_window r) = None" for r x
  proof (cases "4 \<le> rd_remaining r")
    case True
    then show ?thesis
      using that nth_window [of r] span_at_window [of r 4]
      by (intro exI [of _ 4]) (auto simp: bebop_reader_read_string_def add.assoc
          bebop_reader_read_u32_def reader_read_scalar_def string_spec_def span_at_window0 Let_def
          split: if_splits)
  next
    case False
    then show ?thesis
      by (intro exI [of _ 0]) (auto simp: bebop_reader_read_string_def
          bebop_reader_read_u32_def reader_read_scalar_def)
  qed
  show "m \<le> length bs" if "string_spec bs = Some (v, m)" for bs v m
    using that by (auto simp: string_spec_def Let_def split: if_splits)
  show "string_spec (take m bs @ ext) = Some (v, m)" if "string_spec bs = Some (v, m)" for bs v m ext
    using that by (auto simp: string_spec_def Let_def nth_append span_at_def drop_take split: if_splits)
qed

lemma framed_reader_bytes: "framed_reader bebop_reader_read_bytes bytes_spec"
proof
  show "bebop_reader_read_bytes rd out = (BEBOP_RESULT_NULL, rd, out)"
    if "rd = None \<or> out = None" for rd out
    using that by (auto simp: bebop_reader_read_bytes_def)
  have spec: "length_spec bs = (case bytes_spec bs of None \<Rightarrow> None | Some _ \<Rightarrow> Some (le_word (take 4 bs), 4))"
    for bs by (auto simp: length_spec_def bytes_spec_def Let_def)
  show "bebop_reader_read_bytes (Some r) (Some x) = (BEBOP_RESULT_OK, Some (rd_advance m r), Some v)"
    if "reader_inv r" "bytes_spec (rd_window r) = Some (v, m)" for r v m x
    using that wire_reader.read_ok [OF wire_reader_length that(1), of "le_word (take 4 (rd_window r))" 4 0]
      span_at_window [of r 4]
    by (auto simp: bebop_reader_read_bytes_def spec)
       (auto simp: bytes_spec_def Let_def split: if_splits)
  show "\<exists>k y. k \<le> rd_remaining r \<and>
      bebop_reader_read_bytes (Some r) (Some x) = (BEBOP_RESULT_MALFORMED, Some (rd_advance k r), Some y)"
    if "reader_inv r" "bytes_spec (rd_window r) = None" for r x
    using that wire_reader.read_err [OF wire_reader_length that(1), of 0]
    by (auto simp: bebop_reader_read_bytes_def spec)
  show "m \<le> length bs" if "bytes_spec bs = Some (v, m)" for bs v m
    using that by (auto simp: bytes_spec_def Let_def split: if_splits)
  show "bytes_spec (take m bs @ ext) = Some (v, m)" if "bytes_spec bs = Some (v, m)" for bs v m ext
    using that by (auto simp: bytes_spec_def Let_def span_at_def drop_take split: if_splits)
qed

section \<open>Every read meets the contract\<close>

lemma reader_aliases:
  "bebop_reader_read_i8 = bebop_reader_read_byte" "bebop_reader_read_i16 = bebop_reader_read_u16"
  "bebop_reader_read_i32 = bebop_reader_read_u32" "bebop_reader_read_i64 = bebop_reader_read_u64"
  by (auto simp: fun_eq_iff bebop_reader_read_i8_def bebop_reader_read_i16_def
      bebop_reader_read_i32_def bebop_reader_read_i64_def)

interpretation rd_byte: framed_reader bebop_reader_read_byte "scalar_spec 1 le_word"
  unfolding bebop_reader_read_byte_def by (rule framed_reader_scalar)

interpretation rd_u16: framed_reader bebop_reader_read_u16 "scalar_spec 2 le_word"
  unfolding bebop_reader_read_u16_def by (rule framed_reader_scalar)

interpretation rd_u32: framed_reader bebop_reader_read_u32 "scalar_spec 4 le_word"
  unfolding bebop_reader_read_u32_def by (rule framed_reader_scalar)

interpretation rd_u64: framed_reader bebop_reader_read_u64 "scalar_spec 8 le_word"
  unfolding bebop_reader_read_u64_def by (rule framed_reader_scalar)

interpretation rd_i8: framed_reader bebop_reader_read_i8 "scalar_spec 1 le_word"
  unfolding reader_aliases by (rule rd_byte.framed_reader_axioms)

interpretation rd_i16: framed_reader bebop_reader_read_i16 "scalar_spec 2 le_word"
  unfolding reader_aliases by (rule rd_u16.framed_reader_axioms)

interpretation rd_i32: framed_reader bebop_reader_read_i32 "scalar_spec 4 le_word"
  unfolding reader_aliases by (rule rd_u32.framed_reader_axioms)

interpretation rd_i64: framed_reader bebop_reader_read_i64 "scalar_spec 8 le_word"
  unfolding reader_aliases by (rule rd_u64.framed_reader_axioms)

interpretation rd_bool: framed_reader bebop_reader_read_bool "scalar_spec 1 (\<lambda>bs. (le_word bs :: byte) \<noteq> 0)"
  by (rule framed_reader_map_scalar [OF rd_byte.framed_reader_axioms]) (auto simp: bebop_reader_read_bool_def)

interpretation rd_f16: framed_reader bebop_reader_read_f16 "scalar_spec 2 le_word"
  unfolding bebop_reader_read_f16_def by (rule framed_reader_scalar)

interpretation rd_bf16: framed_reader bebop_reader_read_bf16 "scalar_spec 2 le_word"
  unfolding bebop_reader_read_bf16_def by (rule framed_reader_scalar)

interpretation rd_f32: framed_reader bebop_reader_read_f32 "scalar_spec 4 (\<lambda>bs. le_word bs)"
  by (rule framed_reader_map_scalar [OF rd_u32.framed_reader_axioms]) (auto simp: bebop_reader_read_f32_def)

interpretation rd_f64: framed_reader bebop_reader_read_f64 "scalar_spec 8 (\<lambda>bs. le_word bs)"
  by (rule framed_reader_map_scalar [OF rd_u64.framed_reader_axioms]) (auto simp: bebop_reader_read_f64_def)

interpretation rd_i128: framed_reader bebop_reader_read_i128 "scalar_spec 16 u128_of_bytes"
  unfolding bebop_reader_read_i128_def by (rule framed_reader_scalar)

interpretation rd_u128: framed_reader bebop_reader_read_u128 "scalar_spec 16 u128_of_bytes"
  unfolding bebop_reader_read_u128_def by (rule framed_reader_scalar)

interpretation rd_uuid: framed_reader bebop_reader_read_uuid "scalar_spec 16 (\<lambda>bs. bs)"
  unfolding bebop_reader_read_uuid_def by (rule framed_reader_scalar)

interpretation rd_timestamp: framed_reader bebop_reader_read_timestamp "scalar_spec 16 timestamp_of_bytes"
  unfolding bebop_reader_read_timestamp_def by (rule framed_reader_scalar)

interpretation rd_duration: framed_reader bebop_reader_read_duration "scalar_spec 12 duration_of_bytes"
  unfolding bebop_reader_read_duration_def by (rule framed_reader_scalar)

interpretation rd_length: wire_reader bebop_reader_read_length length_spec
  by (rule wire_reader_length)

interpretation rd_string: framed_reader bebop_reader_read_string string_spec
  by (rule framed_reader_string)

interpretation rd_bytes: framed_reader bebop_reader_read_bytes bytes_spec
  by (rule framed_reader_bytes)

interpretation rd_fixed_bytes:
  framed_reader "\<lambda>rd. bebop_reader_read_fixed_bytes rd byte_count" "scalar_spec byte_count (\<lambda>bs. bs)"
  for byte_count
  unfolding bebop_reader_read_fixed_bytes_def by (rule framed_reader_scalar)

section \<open>Arrays\<close>

lemma fixed_array_ok:
  assumes "reader_inv r" and "0 < n" and "array_spec n dec cnt (rd_window r) = Some (vs, m)"
  shows "reader_read_fixed_array n dec (Some r) (Some old) cnt
           = (BEBOP_RESULT_OK, Some (rd_advance m r), Some (vs @ drop cnt old))"
proof -
  have m: "m = cnt * n" "cnt * n \<le> rd_remaining r"
    and vs: "vs = map (\<lambda>i. dec (span_at (i * n) n (rd_window r))) [0..<cnt]"
    using assms by (auto simp: array_spec_def split: if_splits)
  have "cnt \<le> rd_remaining r div n"
    using m assms(2) by (simp add: less_eq_div_iff_mult_less_eq)
  moreover have "span_at (rd_current r + i * n) n (rd_buf r) = span_at (i * n) n (rd_window r)"
    if "i < cnt" for i
  proof (rule span_at_window [OF assms(1)])
    have "(i + 1) * n \<le> cnt * n"
      using that by (intro mult_le_mono1) simp
    then show "i * n + n \<le> rd_remaining r"
      using m(2) by simp
  qed
  ultimately show ?thesis
    using m vs by (auto simp: reader_read_fixed_array_def)
qed

lemma fixed_array_err:
  assumes "reader_inv r" and "0 < n" and "array_spec n dec cnt (rd_window r) = None"
  shows "reader_read_fixed_array n dec (Some r) (Some old) cnt
           = (BEBOP_RESULT_MALFORMED, Some r, Some old)"
proof -
  have "rd_remaining r < cnt * n"
    using assms by (auto simp: array_spec_def split: if_splits)
  then have "rd_remaining r div n < cnt" and "cnt \<noteq> 0"
    using assms(2) by (auto simp: div_less_iff_less_mult intro: gr0I)
  then show ?thesis
    by (simp add: reader_read_fixed_array_def)
qed

lemma fixed_array_reader:
  assumes "reader_inv r" and "0 < n"
  shows "\<exists>k \<le> rd_remaining r.
           fst (snd (reader_read_fixed_array n dec (Some r) out cnt)) = Some (rd_advance k r)"
proof (cases out)
  case None
  then show ?thesis
    by (intro exI [of _ 0]) (simp add: reader_read_fixed_array_def)
next
  case (Some old)
  show ?thesis
  proof (cases "array_spec n dec cnt (rd_window r)")
    case None
    then show ?thesis
      using fixed_array_err [OF assms None, of old] Some by (intro exI [of _ 0]) simp
  next
    case vs: (Some a)
    obtain v m where a: "a = (v, m)"
      by (cases a)
    moreover have "m \<le> rd_remaining r"
      using vs a assms(1) by (auto simp: array_spec_def split: if_splits)
    ultimately show ?thesis
      using fixed_array_ok [OF assms vs [unfolded a], of old] Some by auto
  qed
qed

lemmas fixed_array_defs =
  bebop_reader_read_fixed_u8_array_def bebop_reader_read_fixed_i8_array_def
  bebop_reader_read_fixed_bool_array_def
  bebop_reader_read_fixed_u16_array_def bebop_reader_read_fixed_i16_array_def
  bebop_reader_read_fixed_u32_array_def bebop_reader_read_fixed_i32_array_def
  bebop_reader_read_fixed_u64_array_def bebop_reader_read_fixed_i64_array_def
  bebop_reader_read_fixed_f16_array_def bebop_reader_read_fixed_bf16_array_def
  bebop_reader_read_fixed_f32_array_def bebop_reader_read_fixed_f64_array_def
  bebop_reader_read_fixed_i128_array_def bebop_reader_read_fixed_u128_array_def
  bebop_reader_read_fixed_uuid_array_def bebop_reader_read_fixed_timestamp_array_def
  bebop_reader_read_fixed_duration_array_def

text \<open>The loop over scalar reads computes what the block copy computes.\<close>

lemma fixed_array_loop_scalar:
  assumes "framed_reader read (scalar_spec n dec)" and "reader_inv r" and "k * n \<le> rd_remaining r"
    and "i + k = cnt" and "cnt \<le> length out"
  shows "fixed_array_loop read (Some r) out i cnt
           = (BEBOP_RESULT_OK, Some (rd_advance (k * n) r),
              Some (take i out @ map (\<lambda>j. dec (span_at (j * n) n (rd_window r))) [0..<k] @ drop cnt out))"
  using assms(2-)
proof (induction k arbitrary: r i out)
  case 0
  then show ?case
    by (subst fixed_array_loop.simps) simp
next
  case (Suc k)
  let ?v = "dec (take n (rd_window r))"
  have n: "n \<le> rd_remaining r" "k * n \<le> rd_remaining (rd_advance n r)"
    using Suc.prems(2) by simp_all
  have "scalar_spec n dec (rd_window r) = Some (?v, n)"
    using n(1) Suc.prems(1) by (simp add: scalar_spec_def)
  then have rd: "read (Some r) (Some (out ! i)) = (BEBOP_RESULT_OK, Some (rd_advance n r), Some ?v)"
    using wire_reader.read_ok [OF framed_reader.axioms(1) [OF assms(1)] Suc.prems(1)] by blast
  have tail: "span_at (j * n) n (rd_window (rd_advance n r)) = span_at (Suc j * n) n (rd_window r)" for j
    using Suc.prems(1) n(1) by (simp add: rd_window_advance span_at_def add.commute)
  have head: "map (\<lambda>j. dec (span_at (j * n) n (rd_window r))) [0..<Suc k]
      = ?v # map (\<lambda>j. dec (span_at (Suc j * n) n (rd_window r))) [0..<k]"
    by (simp only: upt_conv_Cons [OF zero_less_Suc] list.map map_Suc_upt [symmetric])
       (simp add: span_at_def)
  have "fixed_array_loop read (Some r) out i cnt
          = fixed_array_loop read (Some (rd_advance n r)) (out[i := ?v]) (i + 1) cnt"
    using Suc.prems by (subst fixed_array_loop.simps) (simp add: rd)
  also have "\<dots> = (BEBOP_RESULT_OK, Some (rd_advance (k * n) (rd_advance n r)),
      Some (take (i + 1) (out[i := ?v])
            @ map (\<lambda>j. dec (span_at (Suc j * n) n (rd_window r))) [0..<k] @ drop cnt out))"
    using Suc.IH [of "rd_advance n r" "i + 1" "out[i := ?v]"] Suc.prems n by (simp add: tail)
  also have "take (i + 1) (out[i := ?v]) = take i out @ [?v]"
    using Suc.prems by (simp add: take_Suc_conv_app_nth)
  finally show ?case
    unfolding head by simp
qed

lemma fixed_array_portable:
  assumes "framed_reader read (scalar_spec n dec)" and "0 < n" and "reader_inv r" and "cnt \<le> length old"
  shows "reader_read_fixed_array_portable n read (Some r) (Some old) cnt
           = reader_read_fixed_array n dec (Some r) (Some old) cnt"
proof (cases "cnt * n \<le> rd_remaining r")
  case True
  then have "array_spec n dec cnt (rd_window r)
      = Some (map (\<lambda>j. dec (span_at (j * n) n (rd_window r))) [0..<cnt], cnt * n)"
    using assms(3) by (simp add: array_spec_def)
  moreover have "cnt \<le> rd_remaining r div n"
    using True assms(2) by (simp add: less_eq_div_iff_mult_less_eq)
  ultimately show ?thesis
    using fixed_array_loop_scalar [OF assms(1,3) True, of 0 cnt old] assms(4)
    by (simp add: fixed_array_ok [OF assms(3,2)] reader_read_fixed_array_portable_def)
next
  case False
  then have "rd_remaining r div n < cnt" and "cnt \<noteq> 0"
    using assms(2) by (auto simp: div_less_iff_less_mult intro: gr0I)
  then show ?thesis
    by (simp add: reader_read_fixed_array_portable_def reader_read_fixed_array_def)
qed

section \<open>Portable bodies\<close>

lemma list_of_length:
  "length bs = 2 \<Longrightarrow> \<exists>a b. bs = [a, b]"
  "length bs = 4 \<Longrightarrow> \<exists>a b c d. bs = [a, b, c, d]"
  "length bs = 8 \<Longrightarrow> \<exists>a b c d e f g h. bs = [a, b, c, d, e, f, g, h]"
  by (auto simp: numeral_eq_Suc length_Suc_conv)

lemma read_portable:
  "length bs = 2 \<Longrightarrow> read_u16_portable bs = le_word bs"
  "length bs = 4 \<Longrightarrow> read_u32_portable bs = le_word bs"
  "length bs = 8 \<Longrightarrow> read_u64_portable bs = le_word bs"
  by (auto dest!: list_of_length simp: read_u16_portable_def read_u32_portable_def
      read_u64_portable_def Let_def push_bit_or or.assoc or.commute or.left_commute)

lemma u128_of_bytes_eq:
  assumes "length bs = 16"
  shows "u128_of_bytes bs = le_word bs"
proof (rule bit_word_eqI)
  fix i
  assume i: "i < LENGTH(128)"
  have hi: "bit (le_word (span_at 8 8 bs) :: u64) (i - 64) = bit (bs ! (i div 8)) (i mod 8)"
    if le: "64 \<le> i"
  proof -
    obtain j where j: "i = 64 + j"
      using le_Suc_ex [OF le] by blast
    then have "j < 64"
      using i by simp
    have idx: "(64 + j) div 8 = 8 + j div 8" "(64 + j) mod 8 = j mod 8"
      by (simp_all add: mod_add_eq [symmetric])
    show ?thesis
      unfolding j idx using \<open>j < 64\<close> assms by (auto simp: bit_le_word)
  qed
  show "bit (u128_of_bytes bs) i = bit (le_word bs :: u128) i"
  proof (cases "i < 64")
    case True
    then show ?thesis
      using i assms by (auto simp: u128_of_bytes_def bit_or_iff bit_push_bit_iff bit_ucast_iff bit_le_word)
  next
    case False
    then have "\<not> bit (le_word (span_at 0 8 bs) :: u64) i"
      by (auto dest: bit_imp_le_length)
    then show ?thesis
      using i False hi assms
      by (auto simp: u128_of_bytes_def bit_or_iff bit_push_bit_iff bit_ucast_iff bit_le_word [of bs])
  qed
qed

section \<open>Sequences of reader operations\<close>

text \<open>
  Any sequence of public calls on one reader. A pushed limit is popped with the value that the push
  saved, innermost first, as the generated decoders do; \<open>PopLimit\<close> without a saved limit is not a
  call. A reset gives the reader another buffer; the limits saved before it point into the old one and
  are dropped.
\<close>

datatype reader_call =
    ReadByte | ReadU16 | ReadU32 | ReadU64 | ReadI8 | ReadI16 | ReadI32 | ReadI64
  | ReadBool | ReadF16 | ReadBF16 | ReadF32 | ReadF64 | ReadI128 | ReadU128
  | ReadUuid | ReadTimestamp | ReadDuration | ReadLength | ReadString | ReadBytes
  | ReadFixedBytes nat | ReadFixedU8 nat | ReadFixedI8 nat | ReadFixedBool nat
  | ReadFixedU16 nat | ReadFixedI16 nat | ReadFixedU32 nat | ReadFixedI32 nat
  | ReadFixedU64 nat | ReadFixedI64 nat | ReadFixedF16 nat | ReadFixedBF16 nat
  | ReadFixedF32 nat | ReadFixedF64 nat | ReadFixedI128 nat | ReadFixedU128 nat
  | ReadFixedUuid nat | ReadFixedTimestamp nat | ReadFixedDuration nat
  | Seek int | Skip nat | PushLimit u32 | PopLimit | ResetTo "byte list"

text \<open>The reader after a read into a zeroed cell.\<close>

definition after_read :: "'a rd_result \<Rightarrow> Bebop_Reader option" where
  "after_read res = fst (snd res)"

definition zero_timestamp :: Bebop_Timestamp where
  "zero_timestamp = \<lparr>ts_seconds = 0, ts_nanos = 0, ts_offset_ms = 0\<rparr>"

definition zero_duration :: Bebop_Duration where
  "zero_duration = \<lparr>dur_seconds = 0, dur_nanos = 0\<rparr>"

fun reader_read_call :: "Bebop_Reader option \<Rightarrow> reader_call \<Rightarrow> Bebop_Reader option" where
  "reader_read_call rd ReadByte = after_read (bebop_reader_read_byte rd (Some 0))"
| "reader_read_call rd ReadU16 = after_read (bebop_reader_read_u16 rd (Some 0))"
| "reader_read_call rd ReadU32 = after_read (bebop_reader_read_u32 rd (Some 0))"
| "reader_read_call rd ReadU64 = after_read (bebop_reader_read_u64 rd (Some 0))"
| "reader_read_call rd ReadI8 = after_read (bebop_reader_read_i8 rd (Some 0))"
| "reader_read_call rd ReadI16 = after_read (bebop_reader_read_i16 rd (Some 0))"
| "reader_read_call rd ReadI32 = after_read (bebop_reader_read_i32 rd (Some 0))"
| "reader_read_call rd ReadI64 = after_read (bebop_reader_read_i64 rd (Some 0))"
| "reader_read_call rd ReadBool = after_read (bebop_reader_read_bool rd (Some False))"
| "reader_read_call rd ReadF16 = after_read (bebop_reader_read_f16 rd (Some 0))"
| "reader_read_call rd ReadBF16 = after_read (bebop_reader_read_bf16 rd (Some 0))"
| "reader_read_call rd ReadF32 = after_read (bebop_reader_read_f32 rd (Some 0))"
| "reader_read_call rd ReadF64 = after_read (bebop_reader_read_f64 rd (Some 0))"
| "reader_read_call rd ReadI128 = after_read (bebop_reader_read_i128 rd (Some 0))"
| "reader_read_call rd ReadU128 = after_read (bebop_reader_read_u128 rd (Some 0))"
| "reader_read_call rd ReadUuid = after_read (bebop_reader_read_uuid rd (Some (replicate 16 0)))"
| "reader_read_call rd ReadTimestamp = after_read (bebop_reader_read_timestamp rd (Some zero_timestamp))"
| "reader_read_call rd ReadDuration = after_read (bebop_reader_read_duration rd (Some zero_duration))"
| "reader_read_call rd ReadLength = after_read (bebop_reader_read_length rd (Some 0))"
| "reader_read_call rd ReadString = after_read (bebop_reader_read_string rd (Some []))"
| "reader_read_call rd ReadBytes = after_read (bebop_reader_read_bytes rd (Some []))"
| "reader_read_call rd (ReadFixedBytes n) = after_read (bebop_reader_read_fixed_bytes rd n (Some []))"
| "reader_read_call rd (ReadFixedU8 n) =
     after_read (bebop_reader_read_fixed_u8_array rd (Some (replicate n 0)) n)"
| "reader_read_call rd (ReadFixedI8 n) =
     after_read (bebop_reader_read_fixed_i8_array rd (Some (replicate n 0)) n)"
| "reader_read_call rd (ReadFixedBool n) =
     after_read (bebop_reader_read_fixed_bool_array rd (Some (replicate n 0)) n)"
| "reader_read_call rd (ReadFixedU16 n) =
     after_read (bebop_reader_read_fixed_u16_array rd (Some (replicate n 0)) n)"
| "reader_read_call rd (ReadFixedI16 n) =
     after_read (bebop_reader_read_fixed_i16_array rd (Some (replicate n 0)) n)"
| "reader_read_call rd (ReadFixedU32 n) =
     after_read (bebop_reader_read_fixed_u32_array rd (Some (replicate n 0)) n)"
| "reader_read_call rd (ReadFixedI32 n) =
     after_read (bebop_reader_read_fixed_i32_array rd (Some (replicate n 0)) n)"
| "reader_read_call rd (ReadFixedU64 n) =
     after_read (bebop_reader_read_fixed_u64_array rd (Some (replicate n 0)) n)"
| "reader_read_call rd (ReadFixedI64 n) =
     after_read (bebop_reader_read_fixed_i64_array rd (Some (replicate n 0)) n)"
| "reader_read_call rd (ReadFixedF16 n) =
     after_read (bebop_reader_read_fixed_f16_array rd (Some (replicate n 0)) n)"
| "reader_read_call rd (ReadFixedBF16 n) =
     after_read (bebop_reader_read_fixed_bf16_array rd (Some (replicate n 0)) n)"
| "reader_read_call rd (ReadFixedF32 n) =
     after_read (bebop_reader_read_fixed_f32_array rd (Some (replicate n 0)) n)"
| "reader_read_call rd (ReadFixedF64 n) =
     after_read (bebop_reader_read_fixed_f64_array rd (Some (replicate n 0)) n)"
| "reader_read_call rd (ReadFixedI128 n) =
     after_read (bebop_reader_read_fixed_i128_array rd (Some (replicate n 0)) n)"
| "reader_read_call rd (ReadFixedU128 n) =
     after_read (bebop_reader_read_fixed_u128_array rd (Some (replicate n 0)) n)"
| "reader_read_call rd (ReadFixedUuid n) =
     after_read (bebop_reader_read_fixed_uuid_array rd (Some (replicate n (replicate 16 0))) n)"
| "reader_read_call rd (ReadFixedTimestamp n) =
     after_read (bebop_reader_read_fixed_timestamp_array rd (Some (replicate n zero_timestamp)) n)"
| "reader_read_call rd (ReadFixedDuration n) =
     after_read (bebop_reader_read_fixed_duration_array rd (Some (replicate n zero_duration)) n)"
| "reader_read_call rd (Skip n) = bebop_reader_skip rd n"
| "reader_read_call rd (Seek p) = bebop_reader_seek rd p"
| "reader_read_call rd _ = rd"

type_synonym reader_state = "Bebop_Reader option \<times> nat list"

fun reader_step :: "reader_state \<Rightarrow> reader_call \<Rightarrow> reader_state" where
  "reader_step (rd, saved) (PushLimit len) =
     (case bebop_reader_push_limit rd len (Some 0) of
        (BEBOP_RESULT_OK, rd', Some old_end) \<Rightarrow> (rd', old_end # saved)
      | (_, rd', _) \<Rightarrow> (rd', saved))"
| "reader_step (rd, old_end # saved) PopLimit = (bebop_reader_pop_limit rd (Some old_end), saved)"
| "reader_step (rd, []) PopLimit = (rd, [])"
| "reader_step (rd, saved) (ResetTo data) = (bebop_reader_reset rd (Some data), [])"
| "reader_step (rd, saved) c = (reader_read_call rd c, saved)"

text \<open>The buffer that the reader works on after a call.\<close>

fun call_buffer :: "byte list \<Rightarrow> reader_call \<Rightarrow> byte list" where
  "call_buffer data (ResetTo data') = data'"
| "call_buffer data _ = data"

text \<open>The saved limits grow outwards and stay inside the buffer.\<close>

definition reader_state_inv :: "byte list \<Rightarrow> reader_state \<Rightarrow> bool" where
  "reader_state_inv data st \<longleftrightarrow>
     (\<exists>r. fst st = Some r \<and> rd_buf r = data \<and> rd_current r \<le> rd_end r
        \<and> sorted (rd_end r # snd st @ [length data]))"

lemma state_inv_reader:
  "reader_state_inv data (Some r, saved) \<Longrightarrow> reader_inv r \<and> rd_buf r = data"
  by (auto simp: reader_state_inv_def reader_inv_def)

lemma state_inv_advance:
  "\<lbrakk>reader_state_inv data (Some r, saved); k \<le> rd_remaining r\<rbrakk>
     \<Longrightarrow> reader_state_inv data (Some (rd_advance k r), saved)"
  by (auto simp: reader_state_inv_def rd_remaining_def)

lemma state_inv_read_result:
  assumes "reader_state_inv data (Some r, saved)"
    and "\<exists>k \<le> rd_remaining r. fst (snd res) = Some (rd_advance k r)"
  shows "reader_state_inv data (after_read res, saved)"
  using assms state_inv_advance unfolding after_read_def by (metis (no_types))

lemma state_inv_skip:
  "reader_state_inv data (Some r, saved) \<Longrightarrow> reader_state_inv data (bebop_reader_skip (Some r) n, saved)"
  using state_inv_advance [of data r saved n] by (simp add: bebop_reader_skip_def)

lemma state_inv_seek:
  "reader_state_inv data (Some r, saved) \<Longrightarrow> reader_state_inv data (bebop_reader_seek (Some r) p, saved)"
  by (auto simp: bebop_reader_seek_def reader_state_inv_def)

lemma reader_read_call_inv:
  assumes "reader_state_inv data (Some r, saved)"
  shows "reader_state_inv data (reader_read_call (Some r) c, saved)"
proof -
  note inv = conjunct1 [OF state_inv_reader [OF assms]]
  show ?thesis
    using assms
    by (cases c; (simp only: reader_read_call.simps))
       (rule state_inv_read_result [OF assms]
          rd_byte.read_reader rd_u16.read_reader rd_u32.read_reader rd_u64.read_reader
          rd_i8.read_reader rd_i16.read_reader rd_i32.read_reader rd_i64.read_reader
          rd_bool.read_reader rd_f16.read_reader rd_bf16.read_reader rd_f32.read_reader
          rd_f64.read_reader rd_i128.read_reader rd_u128.read_reader rd_uuid.read_reader
          rd_timestamp.read_reader rd_duration.read_reader rd_length.read_reader
          rd_string.read_reader rd_bytes.read_reader rd_fixed_bytes.read_reader
          fixed_array_reader inv state_inv_skip state_inv_seek assms
        | simp only: fixed_array_defs zero_less_numeral zero_less_one)+
qed

lemma reader_step_inv:
  assumes "reader_state_inv data st"
  shows "reader_state_inv (call_buffer data c) (reader_step st c)"
proof -
  obtain r saved where st: "st = (Some r, saved)"
    using assms by (cases st) (auto simp: reader_state_inv_def)
  show ?thesis
  proof (cases "c = PopLimit")
    case True
    then show ?thesis
      using assms unfolding st
      by (cases saved) (auto simp: bebop_reader_pop_limit_def reader_state_inv_def)
  next
    case False
    then show ?thesis
      using assms reader_read_call_inv [of data r saved c] unfolding st
      by (cases c) (auto simp: bebop_reader_push_limit_def bebop_reader_reset_def reader_state_inv_def rd_remaining_def)
  qed
qed

text \<open>The spans that the reads of strings and bytes hand out lie between the old and the new cursor.\<close>

lemma string_span:
  assumes "reader_inv r" and "bebop_reader_read_string (Some r) (Some x) = (BEBOP_RESULT_OK, rd', Some s)"
  shows "rd' = Some (rd_advance (4 + length s + 1) r) \<and> 4 + length s + 1 \<le> rd_remaining r
    \<and> s = span_at (rd_current r + 4) (length s) (rd_buf r)"
proof (cases rule: rd_string.read_cases [OF assms(1), of x])
  case (1 v n)
  then show ?thesis
    using assms span_at_window [OF assms(1), of 4] by (auto simp: string_spec_def Let_def split: if_splits)
qed (use assms(2) in auto)

lemma bytes_span:
  assumes "reader_inv r" and "bebop_reader_read_bytes (Some r) (Some x) = (BEBOP_RESULT_OK, rd', Some s)"
  shows "rd' = Some (rd_advance (4 + length s) r) \<and> 4 + length s \<le> rd_remaining r
    \<and> s = span_at (rd_current r + 4) (length s) (rd_buf r)"
proof (cases rule: rd_bytes.read_cases [OF assms(1), of x])
  case (1 v n)
  then show ?thesis
    using assms span_at_window [OF assms(1), of 4] by (auto simp: bytes_spec_def Let_def split: if_splits)
qed (use assms(2) in auto)

lemma fixed_bytes_span:
  assumes "reader_inv r" and "bebop_reader_read_fixed_bytes (Some r) n (Some x) = (BEBOP_RESULT_OK, rd', Some s)"
  shows "rd' = Some (rd_advance (length s) r) \<and> length s = n \<and> n \<le> rd_remaining r
    \<and> s = span_at (rd_current r) (length s) (rd_buf r)"
proof (cases rule: rd_fixed_bytes.read_cases [OF assms(1), of n x])
  case (1 v m)
  then show ?thesis
    using assms span_at_window0 [OF assms(1), of n] by (auto simp: scalar_spec_def split: if_splits)
qed (use assms(2) in auto)

section \<open>Properties\<close>

text \<open>
  C17: strings are accepted exactly when they are well formed. On a valid reader the read of a string
  succeeds if and only if the unread bytes hold a length, that many bytes and a zero byte; it then
  yields those bytes and moves past the terminator. Otherwise it reports malformed input, leaves the
  caller's value alone and stands after the length, if there was one.
\<close>

theorem read_string_complete:
  assumes "reader_inv r"
  shows "bebop_reader_read_string (Some r) (Some x) =
    (let w = rd_window r; len = unat (le_word (take 4 w) :: u32)
     in if 4 + len < length w \<and> w ! (4 + len) = 0
        then (BEBOP_RESULT_OK, Some (rd_advance (4 + len + 1) r), Some (span_at 4 len w))
        else (BEBOP_RESULT_MALFORMED, Some (rd_advance (if 4 \<le> length w then 4 else 0) r), Some x))"
proof (cases "string_spec (rd_window r)")
  case None
  then show ?thesis
    using assms nth_window [OF assms]
    by (auto simp: bebop_reader_read_string_def bebop_reader_read_u32_def reader_read_scalar_def
        string_spec_def span_at_window0 add.assoc Let_def split: if_splits)
next
  case (Some a)
  then show ?thesis
    using rd_string.read_ok [OF assms, of "fst a" "snd a" x]
    by (auto simp: string_spec_def Let_def split: if_splits)
qed

definition hello_reader :: Bebop_Reader where
  "hello_reader = \<lparr>rd_buf = [2, 0, 0, 0, 104, 105, 0, 7], rd_current = 0, rd_end = 8\<rparr>"

theorem read_string_complete_witness:
  "reader_inv hello_reader \<and>
   bebop_reader_read_string (Some hello_reader) (Some [])
     = (BEBOP_RESULT_OK, Some (rd_advance 7 hello_reader), Some [104, 105])"
proof -
  have inv: "reader_inv hello_reader"
    by (simp add: reader_inv_def hello_reader_def)
  have w: "rd_window hello_reader = [2, 0, 0, 0, 104, 105, 0, 7]"
    by (simp add: rd_window_def rd_remaining_def hello_reader_def span_at_def)
  show ?thesis
    using inv read_string_complete [OF inv, of "[]"]
    by (simp add: w Let_def span_at_def)
qed

text \<open>
  C19: a limit confines reads and is undone exactly. Pushing a limit of \<open>len\<close> bytes succeeds if and
  only if that many are left, the reader then sees the next \<open>len\<close> bytes and no more, and popping the
  saved end after advancing by any amount inside the limit gives the reader that had advanced
  without the limit.
\<close>

theorem push_pop_limit:
  assumes "reader_inv r" and "k \<le> unat len"
  shows "if unat len \<le> length (rd_window r)
    then \<exists>r1. bebop_reader_push_limit (Some r) len (Some e0) = (BEBOP_RESULT_OK, Some r1, Some (rd_end r))
         \<and> reader_inv r1 \<and> rd_window r1 = take (unat len) (rd_window r)
         \<and> bebop_reader_pop_limit (Some (rd_advance k r1)) (Some (rd_end r)) = Some (rd_advance k r)
    else bebop_reader_push_limit (Some r) len (Some e0) = (BEBOP_RESULT_MALFORMED, Some r, Some e0)"
proof -
  let ?r1 = "r\<lparr>rd_end := rd_current r + unat len\<rparr>"
  have "rd_window ?r1 = take (unat len) (rd_window r)" if "unat len \<le> rd_remaining r"
    using that by (simp add: rd_window_def span_at_def rd_remaining_def min_def)
  moreover have "reader_inv ?r1" if "unat len \<le> rd_remaining r"
    using that assms(1) unfolding reader_inv_def rd_remaining_def by auto
  ultimately show ?thesis
    using assms
    by (auto simp: bebop_reader_push_limit_def bebop_reader_pop_limit_def rd_advance_def
        rd_remaining_def reader_inv_def)
qed

theorem push_pop_limit_witness:
  "reader_inv hello_reader \<and>
   (\<exists>r1. bebop_reader_push_limit (Some hello_reader) 5 (Some 0) = (BEBOP_RESULT_OK, Some r1, Some 8)
       \<and> rd_window r1 = [2, 0, 0, 0, 104]
       \<and> bebop_reader_pop_limit (Some (rd_advance 3 r1)) (Some 8) = Some (rd_advance 3 hello_reader))"
proof -
  have inv: "reader_inv hello_reader"
    by (simp add: reader_inv_def hello_reader_def)
  have w: "rd_window hello_reader = [2, 0, 0, 0, 104, 105, 0, 7]" "rd_end hello_reader = 8"
    by (simp_all add: rd_window_def rd_remaining_def hello_reader_def span_at_def)
  show ?thesis
    using inv push_pop_limit [OF inv, of 3 5 0] by (auto simp: w)
qed

text \<open>
  The portable bodies agree with the little-endian ones. Assembling a 16-, 32- or 64-bit value
  byte by byte gives the word that the block copy gives, and filling an array by a loop of scalar
  reads has the same result, cursor and contents as copying the whole block, for every element type
  that has both bodies.
\<close>

theorem portable_reads_agree:
  assumes "reader_inv r"
  shows "(length bs = 2 \<longrightarrow> read_u16_portable bs = le_word bs)
    \<and> (length bs = 4 \<longrightarrow> read_u32_portable bs = le_word bs)
    \<and> (length bs = 8 \<longrightarrow> read_u64_portable bs = le_word bs)
    \<and> (cnt \<le> length us \<longrightarrow>
         reader_read_fixed_array_portable 2 bebop_reader_read_u16 (Some r) (Some us) cnt
           = bebop_reader_read_fixed_u16_array (Some r) (Some us) cnt
       \<and> reader_read_fixed_array_portable 2 bebop_reader_read_f16 (Some r) (Some us) cnt
           = bebop_reader_read_fixed_f16_array (Some r) (Some us) cnt
       \<and> reader_read_fixed_array_portable 2 bebop_reader_read_bf16 (Some r) (Some us) cnt
           = bebop_reader_read_fixed_bf16_array (Some r) (Some us) cnt)
    \<and> (cnt \<le> length vs \<longrightarrow>
         reader_read_fixed_array_portable 4 bebop_reader_read_u32 (Some r) (Some vs) cnt
           = bebop_reader_read_fixed_u32_array (Some r) (Some vs) cnt
       \<and> reader_read_fixed_array_portable 4 bebop_reader_read_f32 (Some r) (Some vs) cnt
           = bebop_reader_read_fixed_f32_array (Some r) (Some vs) cnt)
    \<and> (cnt \<le> length ws \<longrightarrow>
         reader_read_fixed_array_portable 8 bebop_reader_read_u64 (Some r) (Some ws) cnt
           = bebop_reader_read_fixed_u64_array (Some r) (Some ws) cnt
       \<and> reader_read_fixed_array_portable 8 bebop_reader_read_f64 (Some r) (Some ws) cnt
           = bebop_reader_read_fixed_f64_array (Some r) (Some ws) cnt)"
  using assms
  by (auto simp: read_portable fixed_array_defs
      fixed_array_portable [OF rd_u16.framed_reader_axioms] fixed_array_portable [OF rd_f16.framed_reader_axioms]
      fixed_array_portable [OF rd_bf16.framed_reader_axioms] fixed_array_portable [OF rd_u32.framed_reader_axioms]
      fixed_array_portable [OF rd_f32.framed_reader_axioms] fixed_array_portable [OF rd_u64.framed_reader_axioms]
      fixed_array_portable [OF rd_f64.framed_reader_axioms])

theorem portable_reads_agree_witness:
  "reader_inv hello_reader
   \<and> reader_read_fixed_array_portable 2 bebop_reader_read_u16 (Some hello_reader) (Some [0, 0]) 2
       = bebop_reader_read_fixed_u16_array (Some hello_reader) (Some [0, 0]) 2
   \<and> read_u32_portable [1, 2, 3, 4] = 0x04030201"
proof -
  have inv: "reader_inv hello_reader"
    by (simp add: reader_inv_def hello_reader_def)
  show ?thesis
    using inv portable_reads_agree [OF inv, of "[1, 2, 3, 4]" 2 "[0, 0]"] by simp
qed

end
