(* ===== verification/Wire_Writer.thy ===== *)
theory Wire_Writer
  imports Wire_Reader
begin

text \<open>
  The writer of \<^verbatim>\<open>bebop/src/bebop_wire.c\<close>: an append-only buffer in the arena of a context that grows
  by doubling, one operation per wire type, arrays with and without a count, and length prefixes that
  are patched once the body is written. \<open>wr_data\<close> holds the bytes from \<^verbatim>\<open>buffer\<close> to \<^verbatim>\<open>current\<close>, \<open>wr_cap\<close>
  is the distance from \<^verbatim>\<open>buffer\<close> to \<^verbatim>\<open>end\<close>; the bytes after \<^verbatim>\<open>current\<close> are never read. The context
  that the writer points to is threaded through the operations that allocate from it.

  The lemmas show that a successful write appends exactly the encoding of its value, that a failing
  one leaves a prefix of it, and that every value that was written is read back by the matching read.
\<close>

section \<open>State\<close>

record Bebop_Writer =
  wr_addr :: arena_ptr
  wr_data :: "byte list"
  wr_cap :: nat

type_synonym wr_result = "Bebop_Result \<times> Bebop_Writer option \<times> Bebop_Context"

definition wr_available :: "Bebop_Writer \<Rightarrow> nat" where
  "wr_available w = wr_cap w - length (wr_data w)"

definition context_arena_alloc :: "Bebop_Context \<Rightarrow> nat \<Rightarrow> arena_ptr option \<times> Bebop_Context" where
  "context_arena_alloc ctx sz =
     (case bebop_wire_arena_alloc (Some (arena ctx)) sz of
        (p, Some a) \<Rightarrow> (p, ctx\<lparr>arena := a\<rparr>)
      | (p, None) \<Rightarrow> (p, ctx))"

definition bebop_context_writer ::
  "Bebop_Context option \<Rightarrow> nat \<Rightarrow> Bebop_Writer option \<times> Bebop_Context option" where
  "bebop_context_writer context cap =
     (case context of
        None \<Rightarrow> (None, None)
      | Some ctx \<Rightarrow>
          (case context_arena_alloc ctx SIZEOF_WRITER of
             (None, ctx1) \<Rightarrow> (None, Some ctx1)
           | (Some _, ctx1) \<Rightarrow>
               let buffer_size = (if cap > initial_writer_size (ctx_options ctx) then cap
                                  else initial_writer_size (ctx_options ctx));
                   buffer_size = (if buffer_size = 0 then 1 else buffer_size)
               in (case context_arena_alloc ctx1 buffer_size of
                     (None, ctx2) \<Rightarrow> (None, Some ctx2)
                   | (Some p, ctx2) \<Rightarrow>
                       (Some \<lparr>wr_addr = p, wr_data = [], wr_cap = buffer_size\<rparr>, Some ctx2))))"

definition bebop_writer_reset :: "Bebop_Writer option \<Rightarrow> Bebop_Writer option" where
  "bebop_writer_reset wr = map_option (\<lambda>w. w\<lparr>wr_data := []\<rparr>) wr"

definition bebop_writer_length :: "Bebop_Writer option \<Rightarrow> nat" where
  "bebop_writer_length wr = (case wr of None \<Rightarrow> 0 | Some w \<Rightarrow> length (wr_data w))"

definition bebop_writer_view :: "Bebop_Writer option \<Rightarrow> byte list option" where
  "bebop_writer_view wr = map_option wr_data wr"


text \<open>
  The doubling loop of \<open>bebop_writer_reserve\<close>. It starts from a positive size; at 0 the C loop would
  not end, and the model stops.
\<close>

function writer_grow :: "nat \<Rightarrow> nat \<Rightarrow> nat" where
  "writer_grow new_size target =
     (if new_size < target \<and> 0 < new_size
      then if new_size > SIZE_MAX div 2 then target
           else writer_grow (new_size * 2) target
      else new_size)"
  by pat_completeness auto
termination
  by (relation "measure (\<lambda>(new_size, target). target - new_size)") auto

declare writer_grow.simps [simp del]

text \<open>
  \<open>memcpy dst src n\<close> is the memory \<open>dst\<close> after the first \<open>n\<close> bytes of \<open>src\<close> were copied to its start. The
  memory of a new buffer is uninitialised; the model takes it as zero bytes, and the bytes up to
  \<^verbatim>\<open>current\<close> are what \<open>memcpy\<close> put there.
\<close>

definition memcpy :: "byte list \<Rightarrow> byte list \<Rightarrow> nat \<Rightarrow> byte list" where
  "memcpy dst src n = take n src @ drop n dst"

definition new_memory :: "nat \<Rightarrow> byte list" where
  "new_memory sz = replicate sz 0"

definition bebop_writer_reserve :: "Bebop_Writer option \<Rightarrow> Bebop_Context \<Rightarrow> nat \<Rightarrow> wr_result" where
  "bebop_writer_reserve wr ctx additional_bytes =
     (case wr of
        None \<Rightarrow> (BEBOP_RESULT_NULL, wr, ctx)
      | Some w \<Rightarrow>
          if additional_bytes \<le> wr_available w then (BEBOP_RESULT_OK, wr, ctx)
          else
            let current_size = wr_cap w; used_size = length (wr_data w)
            in if additional_bytes > SIZE_MAX - used_size then (BEBOP_RESULT_OVERFLOW, wr, ctx)
               else
                 let target = used_size + additional_bytes;
                     new_size = writer_grow (if current_size > 0 then current_size else 16) target
                 in (case context_arena_alloc ctx new_size of
                       (None, ctx') \<Rightarrow> (BEBOP_RESULT_OOM, wr, ctx')
                     | (Some new_buffer, ctx') \<Rightarrow>
                         let memory = memcpy (new_memory new_size) (wr_data w) used_size
                         in (BEBOP_RESULT_OK,
                             Some (w\<lparr>wr_addr := new_buffer, wr_data := take used_size memory,
                                     wr_cap := new_size\<rparr>), ctx')))"

section \<open>Scalars\<close>

text \<open>
  The common body of the writes: the \<^verbatim>\<open>NULL\<close> guard, the check for room with a growth of the buffer,
  and the copy of the bytes.
\<close>

definition writer_put :: "Bebop_Writer option \<Rightarrow> Bebop_Context \<Rightarrow> byte list \<Rightarrow> wr_result" where
  "writer_put wr ctx bs =
     (case wr of
        None \<Rightarrow> (BEBOP_RESULT_NULL, wr, ctx)
      | Some w \<Rightarrow>
          (case (if length bs > wr_available w then bebop_writer_reserve wr ctx (length bs)
                 else (BEBOP_RESULT_OK, wr, ctx)) of
             (BEBOP_RESULT_OK, Some w', ctx') \<Rightarrow>
               (BEBOP_RESULT_OK, Some (w'\<lparr>wr_data := wr_data w' @ bs\<rparr>), ctx')
           | res \<Rightarrow> res))"

definition bebop_writer_write_byte ::
  "Bebop_Writer option \<Rightarrow> Bebop_Context \<Rightarrow> byte \<Rightarrow> wr_result" where
  "bebop_writer_write_byte wr ctx value = writer_put wr ctx [value]"

definition bebop_writer_write_u16 ::
  "Bebop_Writer option \<Rightarrow> Bebop_Context \<Rightarrow> u16 \<Rightarrow> wr_result" where
  "bebop_writer_write_u16 wr ctx value = writer_put wr ctx (le_bytes 2 value)"

definition bebop_writer_write_u32 ::
  "Bebop_Writer option \<Rightarrow> Bebop_Context \<Rightarrow> u32 \<Rightarrow> wr_result" where
  "bebop_writer_write_u32 wr ctx value = writer_put wr ctx (le_bytes 4 value)"

definition bebop_writer_write_u64 ::
  "Bebop_Writer option \<Rightarrow> Bebop_Context \<Rightarrow> u64 \<Rightarrow> wr_result" where
  "bebop_writer_write_u64 wr ctx value = writer_put wr ctx (le_bytes 8 value)"

definition bebop_writer_write_i8 ::
  "Bebop_Writer option \<Rightarrow> Bebop_Context \<Rightarrow> byte \<Rightarrow> wr_result" where
  "bebop_writer_write_i8 wr ctx value = bebop_writer_write_byte wr ctx value"

definition bebop_writer_write_i16 ::
  "Bebop_Writer option \<Rightarrow> Bebop_Context \<Rightarrow> u16 \<Rightarrow> wr_result" where
  "bebop_writer_write_i16 wr ctx value = bebop_writer_write_u16 wr ctx value"

definition bebop_writer_write_i32 ::
  "Bebop_Writer option \<Rightarrow> Bebop_Context \<Rightarrow> u32 \<Rightarrow> wr_result" where
  "bebop_writer_write_i32 wr ctx value = bebop_writer_write_u32 wr ctx value"

definition bebop_writer_write_i64 ::
  "Bebop_Writer option \<Rightarrow> Bebop_Context \<Rightarrow> u64 \<Rightarrow> wr_result" where
  "bebop_writer_write_i64 wr ctx value = bebop_writer_write_u64 wr ctx value"

definition bebop_writer_write_bool ::
  "Bebop_Writer option \<Rightarrow> Bebop_Context \<Rightarrow> bool \<Rightarrow> wr_result" where
  "bebop_writer_write_bool wr ctx value = bebop_writer_write_byte wr ctx (if value then 1 else 0)"

definition bebop_writer_write_f16 ::
  "Bebop_Writer option \<Rightarrow> Bebop_Context \<Rightarrow> u16 \<Rightarrow> wr_result" where
  "bebop_writer_write_f16 wr ctx value = writer_put wr ctx (le_bytes 2 value)"

definition bebop_writer_write_bf16 ::
  "Bebop_Writer option \<Rightarrow> Bebop_Context \<Rightarrow> u16 \<Rightarrow> wr_result" where
  "bebop_writer_write_bf16 wr ctx value = writer_put wr ctx (le_bytes 2 value)"

definition bebop_writer_write_f32 ::
  "Bebop_Writer option \<Rightarrow> Bebop_Context \<Rightarrow> u32 \<Rightarrow> wr_result" where
  "bebop_writer_write_f32 wr ctx value = bebop_writer_write_u32 wr ctx value"

definition bebop_writer_write_f64 ::
  "Bebop_Writer option \<Rightarrow> Bebop_Context \<Rightarrow> u64 \<Rightarrow> wr_result" where
  "bebop_writer_write_f64 wr ctx value = bebop_writer_write_u64 wr ctx value"

definition u128_bytes :: "u128 \<Rightarrow> byte list" where
  "u128_bytes uval =
     (let low = ucast uval :: u64; high = ucast (drop_bit 64 uval) :: u64
      in le_bytes 8 low @ le_bytes 8 high)"

definition timestamp_bytes :: "Bebop_Timestamp \<Rightarrow> byte list" where
  "timestamp_bytes t = le_bytes 8 (ts_seconds t) @ le_bytes 4 (ts_nanos t) @ le_bytes 4 (ts_offset_ms t)"

definition duration_bytes :: "Bebop_Duration \<Rightarrow> byte list" where
  "duration_bytes t = le_bytes 8 (dur_seconds t) @ le_bytes 4 (dur_nanos t)"

definition bebop_writer_write_i128 ::
  "Bebop_Writer option \<Rightarrow> Bebop_Context \<Rightarrow> u128 \<Rightarrow> wr_result" where
  "bebop_writer_write_i128 wr ctx value = writer_put wr ctx (u128_bytes value)"

definition bebop_writer_write_u128 ::
  "Bebop_Writer option \<Rightarrow> Bebop_Context \<Rightarrow> u128 \<Rightarrow> wr_result" where
  "bebop_writer_write_u128 wr ctx value = writer_put wr ctx (u128_bytes value)"

definition bebop_writer_write_uuid ::
  "Bebop_Writer option \<Rightarrow> Bebop_Context \<Rightarrow> Bebop_UUID \<Rightarrow> wr_result" where
  "bebop_writer_write_uuid wr ctx value = writer_put wr ctx value"

definition bebop_writer_write_timestamp ::
  "Bebop_Writer option \<Rightarrow> Bebop_Context \<Rightarrow> Bebop_Timestamp \<Rightarrow> wr_result" where
  "bebop_writer_write_timestamp wr ctx value = writer_put wr ctx (timestamp_bytes value)"

definition bebop_writer_write_duration ::
  "Bebop_Writer option \<Rightarrow> Bebop_Context \<Rightarrow> Bebop_Duration \<Rightarrow> wr_result" where
  "bebop_writer_write_duration wr ctx value = writer_put wr ctx (duration_bytes value)"

text \<open>The byte-by-byte bodies used where the target is not known to be little-endian.\<close>

definition write_u16_portable :: "u16 \<Rightarrow> byte list" where
  "write_u16_portable value = [ucast value, ucast (drop_bit 8 value)]"

definition write_u32_portable :: "u32 \<Rightarrow> byte list" where
  "write_u32_portable value =
     [ucast value, ucast (drop_bit 8 value), ucast (drop_bit 16 value), ucast (drop_bit 24 value)]"

definition write_u64_portable :: "u64 \<Rightarrow> byte list" where
  "write_u64_portable value =
     [ucast value, ucast (drop_bit 0x08 value), ucast (drop_bit 0x10 value),
      ucast (drop_bit 0x18 value), ucast (drop_bit 0x20 value), ucast (drop_bit 0x28 value),
      ucast (drop_bit 0x30 value), ucast (drop_bit 0x38 value)]"

section \<open>Strings and byte spans\<close>

definition bebop_writer_write_string ::
  "Bebop_Writer option \<Rightarrow> Bebop_Context \<Rightarrow> byte list option \<Rightarrow> wr_result" where
  "bebop_writer_write_string wr ctx value =
     (case (wr, value) of
        (Some _, Some bs) \<Rightarrow>
          if length bs \<ge> UINT32_MAX then (BEBOP_RESULT_OVERFLOW, wr, ctx)
          else (case bebop_writer_write_u32 wr ctx (of_nat (length bs)) of
                  (BEBOP_RESULT_OK, wr', ctx') \<Rightarrow> writer_put wr' ctx' (bs @ [0])
                | res \<Rightarrow> res)
      | _ \<Rightarrow> (BEBOP_RESULT_NULL, wr, ctx))"

definition bebop_writer_write_bytes ::
  "Bebop_Writer option \<Rightarrow> Bebop_Context \<Rightarrow> byte list option \<Rightarrow> wr_result" where
  "bebop_writer_write_bytes wr ctx value =
     (case (wr, value) of
        (Some _, Some bs) \<Rightarrow>
          if length bs > UINT32_MAX then (BEBOP_RESULT_OVERFLOW, wr, ctx)
          else (case bebop_writer_write_u32 wr ctx (of_nat (length bs)) of
                  (BEBOP_RESULT_OK, wr', ctx') \<Rightarrow>
                    if length bs > 0 then writer_put wr' ctx' bs else (BEBOP_RESULT_OK, wr', ctx')
                | res \<Rightarrow> res)
      | _ \<Rightarrow> (BEBOP_RESULT_NULL, wr, ctx))"

definition bebop_writer_write_fixed_bytes ::
  "Bebop_Writer option \<Rightarrow> Bebop_Context \<Rightarrow> byte list option \<Rightarrow> wr_result" where
  "bebop_writer_write_fixed_bytes wr ctx value =
     (case (wr, value) of
        (Some _, Some bs) \<Rightarrow>
          if length bs = 0 then (BEBOP_RESULT_OK, wr, ctx) else writer_put wr ctx bs
      | _ \<Rightarrow> (BEBOP_RESULT_NULL, wr, ctx))"

section \<open>Arrays\<close>

text \<open>
  The common bodies of the array writes. \<open>n\<close> is the size of an element, \<open>enc\<close> its bytes and
  \<open>checked\<close> says whether the function tests \<^verbatim>\<open>length * n\<close> for overflow before it multiplies.
\<close>

definition writer_write_array ::
  "bool \<Rightarrow> nat \<Rightarrow> ('a \<Rightarrow> byte list) \<Rightarrow> Bebop_Writer option \<Rightarrow> Bebop_Context \<Rightarrow> 'a list option
     \<Rightarrow> wr_result" where
  "writer_write_array checked n enc wr ctx data =
     (case (wr, data) of
        (Some _, Some xs) \<Rightarrow>
          if length xs > UINT32_MAX then (BEBOP_RESULT_OVERFLOW, wr, ctx)
          else (case bebop_writer_write_u32 wr ctx (of_nat (length xs)) of
                  (BEBOP_RESULT_OK, wr', ctx') \<Rightarrow>
                    if length xs = 0 then (BEBOP_RESULT_OK, wr', ctx')
                    else if checked \<and> length xs > SIZE_MAX div n then (BEBOP_RESULT_OVERFLOW, wr', ctx')
                    else writer_put wr' ctx' (concat (map enc xs))
                | res \<Rightarrow> res)
      | _ \<Rightarrow> (BEBOP_RESULT_NULL, wr, ctx))"

definition writer_write_fixed_array ::
  "bool \<Rightarrow> nat \<Rightarrow> ('a \<Rightarrow> byte list) \<Rightarrow> Bebop_Writer option \<Rightarrow> Bebop_Context \<Rightarrow> 'a list option
     \<Rightarrow> wr_result" where
  "writer_write_fixed_array checked n enc wr ctx data =
     (case (wr, data) of
        (Some _, Some xs) \<Rightarrow>
          if length xs = 0 then (BEBOP_RESULT_OK, wr, ctx)
          else if checked \<and> length xs > SIZE_MAX div n then (BEBOP_RESULT_OVERFLOW, wr, ctx)
          else writer_put wr ctx (concat (map enc xs))
      | _ \<Rightarrow> (BEBOP_RESULT_NULL, wr, ctx))"

definition bebop_writer_write_f32_array ::
  "Bebop_Writer option \<Rightarrow> Bebop_Context \<Rightarrow> u32 list option \<Rightarrow> wr_result" where
  "bebop_writer_write_f32_array wr ctx data =
     writer_write_array True 4 (le_bytes 4) wr ctx data"

definition bebop_writer_write_f64_array ::
  "Bebop_Writer option \<Rightarrow> Bebop_Context \<Rightarrow> u64 list option \<Rightarrow> wr_result" where
  "bebop_writer_write_f64_array wr ctx data =
     writer_write_array True 8 (le_bytes 8) wr ctx data"

definition bebop_writer_write_u16_array ::
  "Bebop_Writer option \<Rightarrow> Bebop_Context \<Rightarrow> u16 list option \<Rightarrow> wr_result" where
  "bebop_writer_write_u16_array wr ctx data =
     writer_write_array True 2 (le_bytes 2) wr ctx data"

definition bebop_writer_write_i16_array ::
  "Bebop_Writer option \<Rightarrow> Bebop_Context \<Rightarrow> u16 list option \<Rightarrow> wr_result" where
  "bebop_writer_write_i16_array wr ctx data =
     bebop_writer_write_u16_array wr ctx data"

definition bebop_writer_write_u32_array ::
  "Bebop_Writer option \<Rightarrow> Bebop_Context \<Rightarrow> u32 list option \<Rightarrow> wr_result" where
  "bebop_writer_write_u32_array wr ctx data =
     writer_write_array True 4 (le_bytes 4) wr ctx data"

definition bebop_writer_write_i32_array ::
  "Bebop_Writer option \<Rightarrow> Bebop_Context \<Rightarrow> u32 list option \<Rightarrow> wr_result" where
  "bebop_writer_write_i32_array wr ctx data =
     bebop_writer_write_u32_array wr ctx data"

definition bebop_writer_write_u64_array ::
  "Bebop_Writer option \<Rightarrow> Bebop_Context \<Rightarrow> u64 list option \<Rightarrow> wr_result" where
  "bebop_writer_write_u64_array wr ctx data =
     writer_write_array True 8 (le_bytes 8) wr ctx data"

definition bebop_writer_write_i64_array ::
  "Bebop_Writer option \<Rightarrow> Bebop_Context \<Rightarrow> u64 list option \<Rightarrow> wr_result" where
  "bebop_writer_write_i64_array wr ctx data =
     bebop_writer_write_u64_array wr ctx data"

definition bebop_writer_write_i8_array ::
  "Bebop_Writer option \<Rightarrow> Bebop_Context \<Rightarrow> byte list option \<Rightarrow> wr_result" where
  "bebop_writer_write_i8_array wr ctx data =
     bebop_writer_write_bytes wr ctx data"

definition bebop_writer_write_u8_array ::
  "Bebop_Writer option \<Rightarrow> Bebop_Context \<Rightarrow> byte list option \<Rightarrow> wr_result" where
  "bebop_writer_write_u8_array wr ctx data =
     bebop_writer_write_bytes wr ctx data"

definition bebop_writer_write_f16_array ::
  "Bebop_Writer option \<Rightarrow> Bebop_Context \<Rightarrow> u16 list option \<Rightarrow> wr_result" where
  "bebop_writer_write_f16_array wr ctx data =
     writer_write_array True 2 (le_bytes 2) wr ctx data"

definition bebop_writer_write_bf16_array ::
  "Bebop_Writer option \<Rightarrow> Bebop_Context \<Rightarrow> u16 list option \<Rightarrow> wr_result" where
  "bebop_writer_write_bf16_array wr ctx data =
     writer_write_array True 2 (le_bytes 2) wr ctx data"

definition bebop_writer_write_i128_array ::
  "Bebop_Writer option \<Rightarrow> Bebop_Context \<Rightarrow> u128 list option \<Rightarrow> wr_result" where
  "bebop_writer_write_i128_array wr ctx data =
     writer_write_array False 16 (le_bytes 16) wr ctx data"

definition bebop_writer_write_u128_array ::
  "Bebop_Writer option \<Rightarrow> Bebop_Context \<Rightarrow> u128 list option \<Rightarrow> wr_result" where
  "bebop_writer_write_u128_array wr ctx data =
     writer_write_array False 16 (le_bytes 16) wr ctx data"

definition bebop_writer_write_bool_array ::
  "Bebop_Writer option \<Rightarrow> Bebop_Context \<Rightarrow> bool list option \<Rightarrow> wr_result" where
  "bebop_writer_write_bool_array wr ctx data =
     writer_write_array False 1 (\<lambda>b. [if b then 1 else 0]) wr ctx data"

definition bebop_writer_write_uuid_array ::
  "Bebop_Writer option \<Rightarrow> Bebop_Context \<Rightarrow> Bebop_UUID list option \<Rightarrow> wr_result" where
  "bebop_writer_write_uuid_array wr ctx data =
     writer_write_array True 16 (\<lambda>bs. bs) wr ctx data"

definition bebop_writer_write_timestamp_array ::
  "Bebop_Writer option \<Rightarrow> Bebop_Context \<Rightarrow> Bebop_Timestamp list option \<Rightarrow> wr_result" where
  "bebop_writer_write_timestamp_array wr ctx data =
     writer_write_array True 16 timestamp_bytes wr ctx data"

definition bebop_writer_write_duration_array ::
  "Bebop_Writer option \<Rightarrow> Bebop_Context \<Rightarrow> Bebop_Duration list option \<Rightarrow> wr_result" where
  "bebop_writer_write_duration_array wr ctx data =
     writer_write_array True 12 duration_bytes wr ctx data"

text \<open>A \<^verbatim>\<open>bool\<close> object is copied as the byte 0 or 1 that represents it.\<close>

definition bebop_writer_write_fixed_u8_array ::
  "Bebop_Writer option \<Rightarrow> Bebop_Context \<Rightarrow> byte list option \<Rightarrow> wr_result" where
  "bebop_writer_write_fixed_u8_array wr ctx data =
     bebop_writer_write_fixed_bytes wr ctx data"

definition bebop_writer_write_fixed_i8_array ::
  "Bebop_Writer option \<Rightarrow> Bebop_Context \<Rightarrow> byte list option \<Rightarrow> wr_result" where
  "bebop_writer_write_fixed_i8_array wr ctx data =
     bebop_writer_write_fixed_bytes wr ctx data"

definition bebop_writer_write_fixed_bool_array ::
  "Bebop_Writer option \<Rightarrow> Bebop_Context \<Rightarrow> bool list option \<Rightarrow> wr_result" where
  "bebop_writer_write_fixed_bool_array wr ctx data =
     writer_write_fixed_array False 1 (\<lambda>b. [if b then 1 else 0]) wr ctx data"

definition bebop_writer_write_fixed_u16_array ::
  "Bebop_Writer option \<Rightarrow> Bebop_Context \<Rightarrow> u16 list option \<Rightarrow> wr_result" where
  "bebop_writer_write_fixed_u16_array wr ctx data =
     writer_write_fixed_array True 2 (le_bytes 2) wr ctx data"

definition bebop_writer_write_fixed_i16_array ::
  "Bebop_Writer option \<Rightarrow> Bebop_Context \<Rightarrow> u16 list option \<Rightarrow> wr_result" where
  "bebop_writer_write_fixed_i16_array wr ctx data =
     bebop_writer_write_fixed_u16_array wr ctx data"

definition bebop_writer_write_fixed_u32_array ::
  "Bebop_Writer option \<Rightarrow> Bebop_Context \<Rightarrow> u32 list option \<Rightarrow> wr_result" where
  "bebop_writer_write_fixed_u32_array wr ctx data =
     writer_write_fixed_array True 4 (le_bytes 4) wr ctx data"

definition bebop_writer_write_fixed_i32_array ::
  "Bebop_Writer option \<Rightarrow> Bebop_Context \<Rightarrow> u32 list option \<Rightarrow> wr_result" where
  "bebop_writer_write_fixed_i32_array wr ctx data =
     bebop_writer_write_fixed_u32_array wr ctx data"

definition bebop_writer_write_fixed_u64_array ::
  "Bebop_Writer option \<Rightarrow> Bebop_Context \<Rightarrow> u64 list option \<Rightarrow> wr_result" where
  "bebop_writer_write_fixed_u64_array wr ctx data =
     writer_write_fixed_array True 8 (le_bytes 8) wr ctx data"

definition bebop_writer_write_fixed_i64_array ::
  "Bebop_Writer option \<Rightarrow> Bebop_Context \<Rightarrow> u64 list option \<Rightarrow> wr_result" where
  "bebop_writer_write_fixed_i64_array wr ctx data =
     bebop_writer_write_fixed_u64_array wr ctx data"

definition bebop_writer_write_fixed_f16_array ::
  "Bebop_Writer option \<Rightarrow> Bebop_Context \<Rightarrow> u16 list option \<Rightarrow> wr_result" where
  "bebop_writer_write_fixed_f16_array wr ctx data =
     writer_write_fixed_array True 2 (le_bytes 2) wr ctx data"

definition bebop_writer_write_fixed_bf16_array ::
  "Bebop_Writer option \<Rightarrow> Bebop_Context \<Rightarrow> u16 list option \<Rightarrow> wr_result" where
  "bebop_writer_write_fixed_bf16_array wr ctx data =
     writer_write_fixed_array True 2 (le_bytes 2) wr ctx data"

definition bebop_writer_write_fixed_f32_array ::
  "Bebop_Writer option \<Rightarrow> Bebop_Context \<Rightarrow> u32 list option \<Rightarrow> wr_result" where
  "bebop_writer_write_fixed_f32_array wr ctx data =
     writer_write_fixed_array True 4 (le_bytes 4) wr ctx data"

definition bebop_writer_write_fixed_f64_array ::
  "Bebop_Writer option \<Rightarrow> Bebop_Context \<Rightarrow> u64 list option \<Rightarrow> wr_result" where
  "bebop_writer_write_fixed_f64_array wr ctx data =
     writer_write_fixed_array True 8 (le_bytes 8) wr ctx data"

definition bebop_writer_write_fixed_i128_array ::
  "Bebop_Writer option \<Rightarrow> Bebop_Context \<Rightarrow> u128 list option \<Rightarrow> wr_result" where
  "bebop_writer_write_fixed_i128_array wr ctx data =
     writer_write_fixed_array True 16 (le_bytes 16) wr ctx data"

definition bebop_writer_write_fixed_u128_array ::
  "Bebop_Writer option \<Rightarrow> Bebop_Context \<Rightarrow> u128 list option \<Rightarrow> wr_result" where
  "bebop_writer_write_fixed_u128_array wr ctx data =
     writer_write_fixed_array True 16 (le_bytes 16) wr ctx data"

definition bebop_writer_write_fixed_uuid_array ::
  "Bebop_Writer option \<Rightarrow> Bebop_Context \<Rightarrow> Bebop_UUID list option \<Rightarrow> wr_result" where
  "bebop_writer_write_fixed_uuid_array wr ctx data =
     writer_write_fixed_array True 16 (\<lambda>bs. bs) wr ctx data"

definition bebop_writer_write_fixed_timestamp_array ::
  "Bebop_Writer option \<Rightarrow> Bebop_Context \<Rightarrow> Bebop_Timestamp list option \<Rightarrow> wr_result" where
  "bebop_writer_write_fixed_timestamp_array wr ctx data =
     writer_write_fixed_array True 16 timestamp_bytes wr ctx data"

definition bebop_writer_write_fixed_duration_array ::
  "Bebop_Writer option \<Rightarrow> Bebop_Context \<Rightarrow> Bebop_Duration list option \<Rightarrow> wr_result" where
  "bebop_writer_write_fixed_duration_array wr ctx data =
     writer_write_fixed_array True 12 duration_bytes wr ctx data"

text \<open>The loop over scalar writes where the target is not known to be little-endian.\<close>

fun write_array_loop ::
  "(Bebop_Writer option \<Rightarrow> Bebop_Context \<Rightarrow> 'a \<Rightarrow> wr_result) \<Rightarrow> Bebop_Writer option \<Rightarrow> Bebop_Context
     \<Rightarrow> 'a list \<Rightarrow> wr_result" where
  "write_array_loop write wr ctx [] = (BEBOP_RESULT_OK, wr, ctx)"
| "write_array_loop write wr ctx (x # xs) =
     (case write wr ctx x of
        (BEBOP_RESULT_OK, wr', ctx') \<Rightarrow> write_array_loop write wr' ctx' xs
      | res \<Rightarrow> res)"

section \<open>Length prefixes\<close>

definition bebop_writer_begin_length ::
  "Bebop_Writer option \<Rightarrow> Bebop_Context \<Rightarrow> nat option \<Rightarrow> Bebop_Result \<times> Bebop_Writer option \<times> Bebop_Context \<times> nat option" where
  "bebop_writer_begin_length wr ctx position =
     (if wr = None \<or> position = None then (BEBOP_RESULT_NULL, wr, ctx, position)
      else case bebop_writer_write_u32 wr ctx 0 of
             (result, wr', ctx') \<Rightarrow> (result, wr', ctx', Some (bebop_writer_length wr)))"

text \<open>Storing bytes over those at an index.\<close>

definition patch_at :: "nat \<Rightarrow> 'a list \<Rightarrow> 'a list \<Rightarrow> 'a list" where
  "patch_at i ys xs = take i xs @ ys @ drop (i + length ys) xs"

definition bebop_writer_end_length ::
  "Bebop_Writer option \<Rightarrow> nat \<Rightarrow> u32 \<Rightarrow> Bebop_Result \<times> Bebop_Writer option" where
  "bebop_writer_end_length wr position len =
     (case wr of
        None \<Rightarrow> (BEBOP_RESULT_NULL, wr)
      | Some w \<Rightarrow>
          let written = length (wr_data w)
          in if written < 4 \<or> position > written - 4 then (BEBOP_RESULT_MALFORMED, wr)
             else (BEBOP_RESULT_OK, Some (w\<lparr>wr_data := patch_at position (le_bytes 4 len) (wr_data w)\<rparr>)))"

section \<open>The invariant of a writer\<close>

definition writer_inv :: "Bebop_Writer \<Rightarrow> bool" where
  "writer_inv w \<longleftrightarrow> length (wr_data w) \<le> wr_cap w"

lemma writer_grow_ge: "0 < n \<Longrightarrow> target \<le> writer_grow n target"
  by (induction n target rule: writer_grow.induct) (subst writer_grow.simps, auto)

lemma memcpy_copied [simp]: "take (length src) (memcpy dst src (length src)) = src"
  by (simp add: memcpy_def)

lemma reserve_enough: "n \<le> wr_available w \<Longrightarrow> bebop_writer_reserve (Some w) ctx n = (BEBOP_RESULT_OK, Some w, ctx)"
  by (simp add: bebop_writer_reserve_def)

lemma reserve_spec:
  assumes "writer_inv w" and "bebop_writer_reserve (Some w) ctx n = (res, wr', ctx')"
  shows "\<exists>w'. wr' = Some w' \<and> wr_data w' = wr_data w \<and> writer_inv w'
           \<and> (if res = BEBOP_RESULT_OK then length (wr_data w) + n \<le> wr_cap w' else w' = w)"
proof (cases "n \<le> wr_available w")
  case True
  then show ?thesis
    using assms by (auto simp: bebop_writer_reserve_def wr_available_def writer_inv_def)
next
  case False
  let ?new = "writer_grow (if wr_cap w > 0 then wr_cap w else 16) (length (wr_data w) + n)"
  have "length (wr_data w) + n \<le> ?new"
    by (rule writer_grow_ge) simp
  then show ?thesis
    using False assms
    by (auto simp: bebop_writer_reserve_def Let_def writer_inv_def split: if_splits prod.splits option.splits)
qed

lemma put_null [simp]: "writer_put None ctx bs = (BEBOP_RESULT_NULL, None, ctx)"
  by (simp add: writer_put_def)

lemma put_room:
  "length bs \<le> wr_available w
     \<Longrightarrow> writer_put (Some w) ctx bs = (BEBOP_RESULT_OK, Some (w\<lparr>wr_data := wr_data w @ bs\<rparr>), ctx)"
  by (simp add: writer_put_def)

lemma put_nil: "writer_put (Some w) ctx [] = (BEBOP_RESULT_OK, Some w, ctx)"
  by (simp add: writer_put_def)

lemma put_spec:
  assumes "writer_inv w" and "writer_put (Some w) ctx bs = (res, wr', ctx')"
  shows "\<exists>w'. wr' = Some w' \<and> writer_inv w'
           \<and> (if res = BEBOP_RESULT_OK then wr_data w' = wr_data w @ bs else w' = w)"
proof (cases "length bs \<le> wr_available w")
  case True
  then show ?thesis
    using assms put_room [OF True, of ctx] by (auto simp: writer_inv_def wr_available_def)
next
  case False
  obtain r x c where rs: "bebop_writer_reserve (Some w) ctx (length bs) = (r, x, c)"
    by (cases "bebop_writer_reserve (Some w) ctx (length bs)")
  from reserve_spec [OF assms(1) rs] obtain w' where w': "x = Some w'" "wr_data w' = wr_data w"
    "writer_inv w'" "if r = BEBOP_RESULT_OK then length (wr_data w) + length bs \<le> wr_cap w' else w' = w"
    by blast
  then show ?thesis
    using False assms(2) by (cases r) (auto simp: writer_put_def rs writer_inv_def)
qed

section \<open>The contract of a write\<close>

text \<open>
  \<open>enc v\<close> is the encoding that \<open>write\<close> appends for \<open>v\<close>; \<open>ok v\<close> tells the values that the wire format
  can hold.
\<close>

locale wire_writer =
  fixes emit :: "Bebop_Writer option \<Rightarrow> Bebop_Context \<Rightarrow> 'a \<Rightarrow> wr_result"
    and enc :: "'a \<Rightarrow> byte list"
    and ok :: "'a \<Rightarrow> bool"
  assumes write_null: "emit None ctx v = (BEBOP_RESULT_NULL, None, ctx)"
    and write_append: "\<lbrakk>writer_inv w; emit (Some w) ctx v = (BEBOP_RESULT_OK, wr', ctx')\<rbrakk>
      \<Longrightarrow> \<exists>w'. wr' = Some w' \<and> writer_inv w' \<and> wr_data w' = wr_data w @ enc v"
    and write_fail: "\<lbrakk>writer_inv w; emit (Some w) ctx v = (res, wr', ctx'); res \<noteq> BEBOP_RESULT_OK\<rbrakk>
      \<Longrightarrow> \<exists>w' k. wr' = Some w' \<and> writer_inv w' \<and> wr_data w' = wr_data w @ take k (enc v)"
    and write_room: "\<lbrakk>writer_inv w; ok v; length (enc v) \<le> wr_available w\<rbrakk>
      \<Longrightarrow> emit (Some w) ctx v = (BEBOP_RESULT_OK, Some (w\<lparr>wr_data := wr_data w @ enc v\<rparr>), ctx)"
begin

lemma write_grows:
  assumes "writer_inv w" and "emit (Some w) ctx v = (res, wr', ctx')"
  shows "\<exists>w' k. wr' = Some w' \<and> writer_inv w' \<and> wr_data w' = wr_data w @ take k (enc v)
           \<and> (res = BEBOP_RESULT_OK \<longrightarrow> length (enc v) \<le> k)"
proof (cases "res = BEBOP_RESULT_OK")
  case True
  then show ?thesis
    using write_append assms by (metis order_refl take_all)
next
  case False
  then show ?thesis
    using write_fail [OF assms] by blast
qed

text \<open>The portable loop of an array writes the concatenation of the encodings.\<close>

lemma write_loop_room:
  assumes "writer_inv w" and "list_all ok xs" and "length (concat (map enc xs)) \<le> wr_available w"
  shows "write_array_loop emit (Some w) ctx xs
           = (BEBOP_RESULT_OK, Some (w\<lparr>wr_data := wr_data w @ concat (map enc xs)\<rparr>), ctx)"
  using assms
proof (induction xs arbitrary: w)
  case Nil
  then show ?case by simp
next
  case (Cons x xs)
  let ?w = "w\<lparr>wr_data := wr_data w @ enc x\<rparr>"
  have "emit (Some w) ctx x = (BEBOP_RESULT_OK, Some ?w, ctx)"
    using Cons.prems by (intro write_room) auto
  moreover have "write_array_loop emit (Some ?w) ctx xs
      = (BEBOP_RESULT_OK, Some (?w\<lparr>wr_data := wr_data ?w @ concat (map enc xs)\<rparr>), ctx)"
    using Cons.prems by (intro Cons.IH) (auto simp: writer_inv_def wr_available_def)
  ultimately show ?case
    by simp
qed

end

lemma wire_writer_put: "wire_writer (\<lambda>wr ctx v. writer_put wr ctx (enc v)) enc ok"
proof
  show "\<exists>w'. wr' = Some w' \<and> writer_inv w' \<and> wr_data w' = wr_data w @ enc v"
    if "writer_inv w" "writer_put (Some w) ctx (enc v) = (BEBOP_RESULT_OK, wr', ctx')"
    for w ctx v wr' ctx'
    using put_spec [OF that] by simp
  show "\<exists>w' k. wr' = Some w' \<and> writer_inv w' \<and> wr_data w' = wr_data w @ take k (enc v)"
    if "writer_inv w" "writer_put (Some w) ctx (enc v) = (res, wr', ctx')" "res \<noteq> BEBOP_RESULT_OK"
    for w ctx v res wr' ctx'
    using put_spec [OF that(1,2)] that(3) by (auto intro: exI [of _ 0])
qed (auto simp: put_room)

text \<open>A 4-byte count followed by a body, each written by its own call.\<close>

definition prefixed :: "byte list \<Rightarrow> nat \<Rightarrow> byte list" where
  "prefixed body len = le_bytes 4 (of_nat len :: u32) @ body"

lemma length_prefixed [simp]: "length (prefixed body len) = 4 + length body"
  by (simp add: prefixed_def)

lemma wire_writer_prefixed:
  assumes "\<And>ctx v. emit None ctx v = (BEBOP_RESULT_NULL, None, ctx)"
    and bad: "\<And>w ctx v. \<not> ok v \<Longrightarrow> emit (Some w) ctx v = (BEBOP_RESULT_OVERFLOW, Some w, ctx)"
    and good: "\<And>w ctx v. ok v \<Longrightarrow> \<exists>empty. (empty \<longrightarrow> body v = []) \<and> emit (Some w) ctx v =
           (case bebop_writer_write_u32 (Some w) ctx (of_nat (len v)) of
              (BEBOP_RESULT_OK, wr', ctx') \<Rightarrow>
                if empty then (BEBOP_RESULT_OK, wr', ctx') else writer_put wr' ctx' (body v)
            | res \<Rightarrow> res)"
  shows "wire_writer emit (\<lambda>v. prefixed (body v) (len v)) ok"
proof -
  have put: "emit (Some w) ctx v =
      (case writer_put (Some w) ctx (le_bytes 4 (of_nat (len v) :: u32)) of
         (BEBOP_RESULT_OK, wr', ctx') \<Rightarrow> writer_put wr' ctx' (body v)
       | res \<Rightarrow> res)" if prem: "ok v" "writer_inv w" for w ctx v
  proof -
    obtain r1 x1 c1 where p1: "writer_put (Some w) ctx (le_bytes 4 (of_nat (len v) :: u32)) = (r1, x1, c1)"
      by (cases "writer_put (Some w) ctx (le_bytes 4 (of_nat (len v) :: u32))")
    then obtain w1 where "x1 = Some w1"
      using put_spec [OF prem(2)] by blast
    with p1 good [OF prem(1), of w ctx] show ?thesis
      by (cases r1) (auto simp: bebop_writer_write_u32_def put_nil split: if_splits)
  qed
  show ?thesis
  proof
    fix w ctx v wr' ctx' res
    assume inv: "writer_inv w"
    obtain r1 x1 c1 where p1: "writer_put (Some w) ctx (le_bytes 4 (of_nat (len v) :: u32)) = (r1, x1, c1)"
      by (cases "writer_put (Some w) ctx (le_bytes 4 (of_nat (len v) :: u32))")
    from put_spec [OF inv p1] obtain w1 where w1: "x1 = Some w1" "writer_inv w1"
      "if r1 = BEBOP_RESULT_OK then wr_data w1 = wr_data w @ le_bytes 4 (of_nat (len v) :: u32) else w1 = w"
      by blast
    obtain r2 x2 c2 where p2: "writer_put (Some w1) c1 (body v) = (r2, x2, c2)"
      by (cases "writer_put (Some w1) c1 (body v)")
    from put_spec [OF w1(2) p2] obtain w2 where w2: "x2 = Some w2" "writer_inv w2"
      "if r2 = BEBOP_RESULT_OK then wr_data w2 = wr_data w1 @ body v else w2 = w1"
      by blast
    have step: "emit (Some w) ctx v = (if r1 = BEBOP_RESULT_OK then (r2, x2, c2) else (r1, x1, c1))" if "ok v"
      unfolding put [OF that inv] p1 by (cases r1) (auto simp: w1(1) p2)
    show "\<exists>w'. wr' = Some w' \<and> writer_inv w' \<and> wr_data w' = wr_data w @ prefixed (body v) (len v)"
      if "emit (Some w) ctx v = (BEBOP_RESULT_OK, wr', ctx')"
      using that bad [of v w ctx] step w1 w2 by (cases "ok v") (auto simp: prefixed_def split: if_splits)
    show "\<exists>w' k. wr' = Some w' \<and> writer_inv w' \<and> wr_data w' = wr_data w @ take k (prefixed (body v) (len v))"
      if e: "emit (Some w) ctx v = (res, wr', ctx')" "res \<noteq> BEBOP_RESULT_OK"
    proof (cases "ok v \<and> r1 = BEBOP_RESULT_OK")
      case True
      then show ?thesis
        using e step w1 w2 by (intro exI [of _ w1] exI [of _ 4]) (auto simp: prefixed_def)
    next
      case False
      then show ?thesis
        using e bad [of v w ctx] step w1 inv
        by (intro exI [of _ w] exI [of _ 0]) (auto split: if_splits)
    qed
    show "emit (Some w) ctx v
        = (BEBOP_RESULT_OK, Some (w\<lparr>wr_data := wr_data w @ prefixed (body v) (len v)\<rparr>), ctx)"
      if "ok v" "length (prefixed (body v) (len v)) \<le> wr_available w"
      using that unfolding put [OF that(1) inv]
      by (simp add: put_room wr_available_def prefixed_def)
  qed (rule assms(1))
qed

section \<open>The contract of a codec\<close>

text \<open>A write and a read of the same wire type.\<close>

locale wire_codec = wire_writer emit enc ok + framed_reader read spec
  for emit :: "Bebop_Writer option \<Rightarrow> Bebop_Context \<Rightarrow> 'a \<Rightarrow> wr_result"
    and enc and ok
    and read :: "Bebop_Reader option \<Rightarrow> 'a option \<Rightarrow> 'a rd_result"
    and spec +
  assumes spec_enc: "ok v \<Longrightarrow> spec (enc v) = Some (v, length (enc v))"
begin

text \<open>What was written is read back, and the cursor stands after it.\<close>

lemma write_read:
  assumes "writer_inv w" and "emit (Some w) ctx v = (BEBOP_RESULT_OK, Some w', ctx')" and "ok v"
    and "reader_inv r" and "rd_window r = drop (length (wr_data w)) (wr_data w') @ rest"
  shows "\<exists>r'. read (Some r) (Some x) = (BEBOP_RESULT_OK, Some r', Some v)
            \<and> reader_inv r' \<and> rd_buf r' = rd_buf r \<and> rd_window r' = rest"
proof -
  have "wr_data w' = wr_data w @ enc v"
    using write_append [OF assms(1,2)] by auto
  then have "rd_window r = enc v @ rest"
    using assms(5) by simp
  from read_framed [OF assms(4) this spec_enc [OF assms(3)]] show ?thesis
    by simp
qed

end

lemma scalar_spec_enc:
  "\<lbrakk>length bs = n; dec bs = v\<rbrakk> \<Longrightarrow> scalar_spec n dec bs = Some (v, n)"
  by (auto simp: scalar_spec_def)

lemma le_bytes_1: "le_bytes 1 (b :: byte) = [b]"
  by (simp add: le_bytes_def)

lemma le_word_1: "le_word [b] = (b :: byte)"
  by simp

lemma u128_bytes_eq: "u128_bytes v = le_bytes 16 v"
proof (rule nth_equalityI)
  show "length (u128_bytes v) = length (le_bytes 16 v)"
    by (simp add: u128_bytes_def)
next
  fix i
  assume "i < length (u128_bytes v)"
  then have i: "i < 16"
    by (simp add: u128_bytes_def)
  show "u128_bytes v ! i = le_bytes 16 v ! i"
  proof (cases "i < 8")
    case True
    then show ?thesis
      using i by (intro bit_word_eqI)
        (auto simp: u128_bytes_def nth_append bit_ucast_iff bit_drop_bit_eq)
  next
    case False
    then obtain j where j: "i = 8 + j"
      using le_Suc_ex [of 8 i] by auto
    then show ?thesis
      using i by (intro bit_word_eqI)
        (auto simp: u128_bytes_def nth_append bit_ucast_iff bit_drop_bit_eq algebra_simps)
  qed
qed

lemma u128_roundtrip: "u128_of_bytes (u128_bytes v) = v"
  by (simp add: u128_bytes_eq u128_of_bytes_eq)

lemma timestamp_roundtrip: "timestamp_of_bytes (timestamp_bytes t) = t"
  by (simp add: timestamp_of_bytes_def timestamp_bytes_def)

lemma duration_roundtrip: "duration_of_bytes (duration_bytes t) = t"
  by (simp add: duration_of_bytes_def duration_bytes_def)

lemma struct_bytes_length [simp]:
  "length (timestamp_bytes t) = 16" "length (duration_bytes d) = 12" "length (u128_bytes v) = 16"
  by (simp_all add: timestamp_bytes_def duration_bytes_def u128_bytes_def)

lemma unat_of_nat_u32: "n < 2 ^ 32 \<Longrightarrow> unat (of_nat n :: u32) = n"
  by (simp add: unat_of_nat)

lemma string_spec_enc:
  assumes "length bs < UINT32_MAX"
  shows "string_spec (prefixed (bs @ [0]) (length bs)) = Some (bs, length (prefixed (bs @ [0]) (length bs)))"
proof -
  have "unat (of_nat (length bs) :: u32) = length bs"
    using assms by (intro unat_of_nat_u32) (simp add: UINT32_MAX_def)
  then show ?thesis
    by (simp add: string_spec_def prefixed_def nth_append span_at_def Let_def)
qed

lemma bytes_spec_enc:
  assumes "length bs \<le> UINT32_MAX"
  shows "bytes_spec (prefixed bs (length bs)) = Some (bs, length (prefixed bs (length bs)))"
proof -
  have "unat (of_nat (length bs) :: u32) = length bs"
    using assms by (intro unat_of_nat_u32) (simp add: UINT32_MAX_def)
  then show ?thesis
    by (simp add: bytes_spec_def prefixed_def span_at_def Let_def)
qed

section \<open>Every wire type has a codec\<close>

text \<open>The writes that copy a block of bytes.\<close>

lemma wire_codec_put:
  assumes "framed_reader read (scalar_spec n dec)"
    and "\<And>wr ctx v. emit wr ctx v = writer_put wr ctx (enc v)"
    and "\<And>v. ok v \<Longrightarrow> length (enc v) = n" and "\<And>v. ok v \<Longrightarrow> dec (enc v) = v"
  shows "wire_codec emit enc ok read (scalar_spec n dec)"
proof -
  have "emit = (\<lambda>wr ctx v. writer_put wr ctx (enc v))"
    using assms(2) by (intro ext)
  then have "wire_writer emit enc ok"
    using wire_writer_put by simp
  then show ?thesis
    using assms by (intro wire_codec.intro wire_codec_axioms.intro) (auto intro: scalar_spec_enc)
qed

lemmas scalar_write_defs =
  bebop_writer_write_byte_def bebop_writer_write_u16_def bebop_writer_write_u32_def
  bebop_writer_write_u64_def bebop_writer_write_i8_def bebop_writer_write_i16_def
  bebop_writer_write_i32_def bebop_writer_write_i64_def bebop_writer_write_bool_def
  bebop_writer_write_f16_def bebop_writer_write_bf16_def bebop_writer_write_f32_def
  bebop_writer_write_f64_def bebop_writer_write_i128_def bebop_writer_write_u128_def
  bebop_writer_write_uuid_def bebop_writer_write_timestamp_def bebop_writer_write_duration_def

interpretation codec_byte: wire_codec bebop_writer_write_byte "\<lambda>b. [b]" "\<lambda>_. True"
    bebop_reader_read_byte "scalar_spec 1 le_word"
  by (rule wire_codec_put [OF rd_byte.framed_reader_axioms]) (simp_all add: scalar_write_defs)

interpretation codec_i8: wire_codec bebop_writer_write_i8 "\<lambda>b. [b]" "\<lambda>_. True"
    bebop_reader_read_i8 "scalar_spec 1 le_word"
  by (rule wire_codec_put [OF rd_i8.framed_reader_axioms]) (simp_all add: scalar_write_defs)

interpretation codec_u16: wire_codec bebop_writer_write_u16 "le_bytes 2" "\<lambda>_. True"
    bebop_reader_read_u16 "scalar_spec 2 le_word"
  by (rule wire_codec_put [OF rd_u16.framed_reader_axioms]) (simp_all add: scalar_write_defs)

interpretation codec_u32: wire_codec bebop_writer_write_u32 "le_bytes 4" "\<lambda>_. True"
    bebop_reader_read_u32 "scalar_spec 4 le_word"
  by (rule wire_codec_put [OF rd_u32.framed_reader_axioms]) (simp_all add: scalar_write_defs)

interpretation codec_u64: wire_codec bebop_writer_write_u64 "le_bytes 8" "\<lambda>_. True"
    bebop_reader_read_u64 "scalar_spec 8 le_word"
  by (rule wire_codec_put [OF rd_u64.framed_reader_axioms]) (simp_all add: scalar_write_defs)

interpretation codec_i16: wire_codec bebop_writer_write_i16 "le_bytes 2" "\<lambda>_. True"
    bebop_reader_read_i16 "scalar_spec 2 le_word"
  by (rule wire_codec_put [OF rd_i16.framed_reader_axioms]) (simp_all add: scalar_write_defs)

interpretation codec_i32: wire_codec bebop_writer_write_i32 "le_bytes 4" "\<lambda>_. True"
    bebop_reader_read_i32 "scalar_spec 4 le_word"
  by (rule wire_codec_put [OF rd_i32.framed_reader_axioms]) (simp_all add: scalar_write_defs)

interpretation codec_i64: wire_codec bebop_writer_write_i64 "le_bytes 8" "\<lambda>_. True"
    bebop_reader_read_i64 "scalar_spec 8 le_word"
  by (rule wire_codec_put [OF rd_i64.framed_reader_axioms]) (simp_all add: scalar_write_defs)

interpretation codec_f16: wire_codec bebop_writer_write_f16 "le_bytes 2" "\<lambda>_. True"
    bebop_reader_read_f16 "scalar_spec 2 le_word"
  by (rule wire_codec_put [OF rd_f16.framed_reader_axioms]) (simp_all add: scalar_write_defs)

interpretation codec_bf16: wire_codec bebop_writer_write_bf16 "le_bytes 2" "\<lambda>_. True"
    bebop_reader_read_bf16 "scalar_spec 2 le_word"
  by (rule wire_codec_put [OF rd_bf16.framed_reader_axioms]) (simp_all add: scalar_write_defs)

interpretation codec_f32: wire_codec bebop_writer_write_f32 "le_bytes 4" "\<lambda>_. True"
    bebop_reader_read_f32 "scalar_spec 4 (\<lambda>bs. le_word bs)"
  by (rule wire_codec_put [OF rd_f32.framed_reader_axioms]) (simp_all add: scalar_write_defs)

interpretation codec_f64: wire_codec bebop_writer_write_f64 "le_bytes 8" "\<lambda>_. True"
    bebop_reader_read_f64 "scalar_spec 8 (\<lambda>bs. le_word bs)"
  by (rule wire_codec_put [OF rd_f64.framed_reader_axioms]) (simp_all add: scalar_write_defs)

interpretation codec_bool: wire_codec bebop_writer_write_bool "\<lambda>b. [if b then 1 else 0]" "\<lambda>_. True"
    bebop_reader_read_bool "scalar_spec 1 (\<lambda>bs. (le_word bs :: byte) \<noteq> 0)"
  by (rule wire_codec_put [OF rd_bool.framed_reader_axioms]) (simp_all add: scalar_write_defs)

interpretation codec_i128: wire_codec bebop_writer_write_i128 u128_bytes "\<lambda>_. True"
    bebop_reader_read_i128 "scalar_spec 16 u128_of_bytes"
  by (rule wire_codec_put [OF rd_i128.framed_reader_axioms]) (simp_all add: scalar_write_defs u128_roundtrip)

interpretation codec_u128: wire_codec bebop_writer_write_u128 u128_bytes "\<lambda>_. True"
    bebop_reader_read_u128 "scalar_spec 16 u128_of_bytes"
  by (rule wire_codec_put [OF rd_u128.framed_reader_axioms]) (simp_all add: scalar_write_defs u128_roundtrip)

interpretation codec_timestamp: wire_codec bebop_writer_write_timestamp timestamp_bytes "\<lambda>_. True"
    bebop_reader_read_timestamp "scalar_spec 16 timestamp_of_bytes"
  by (rule wire_codec_put [OF rd_timestamp.framed_reader_axioms]) (simp_all add: scalar_write_defs timestamp_roundtrip)

interpretation codec_duration: wire_codec bebop_writer_write_duration duration_bytes "\<lambda>_. True"
    bebop_reader_read_duration "scalar_spec 12 duration_of_bytes"
  by (rule wire_codec_put [OF rd_duration.framed_reader_axioms]) (simp_all add: scalar_write_defs duration_roundtrip)

interpretation codec_uuid: wire_codec bebop_writer_write_uuid "\<lambda>u. u" "\<lambda>u. length u = 16"
    bebop_reader_read_uuid "scalar_spec 16 (\<lambda>bs. bs)"
  by (rule wire_codec_put [OF rd_uuid.framed_reader_axioms]) (simp_all add: scalar_write_defs)

text \<open>Strings and byte spans are written from non-null pointers.\<close>

lemma wire_writer_string:
  "wire_writer (\<lambda>wr ctx bs. bebop_writer_write_string wr ctx (Some bs))
     (\<lambda>bs. prefixed (bs @ [0]) (length bs)) (\<lambda>bs. length bs < UINT32_MAX)"
  by (rule wire_writer_prefixed)
     (auto simp: bebop_writer_write_string_def split: prod.splits Bebop_Result.splits
        intro!: exI [of _ False])

lemma wire_writer_bytes:
  "wire_writer (\<lambda>wr ctx bs. bebop_writer_write_bytes wr ctx (Some bs))
     (\<lambda>bs. prefixed bs (length bs)) (\<lambda>bs. length bs \<le> UINT32_MAX)"
proof (rule wire_writer_prefixed)
  show "\<exists>empty. (empty \<longrightarrow> bs = []) \<and> bebop_writer_write_bytes (Some w) ctx (Some bs) =
      (case bebop_writer_write_u32 (Some w) ctx (of_nat (length bs)) of
         (BEBOP_RESULT_OK, wr', ctx') \<Rightarrow>
           if empty then (BEBOP_RESULT_OK, wr', ctx') else writer_put wr' ctx' bs
       | res \<Rightarrow> res)" if "length bs \<le> UINT32_MAX" for w ctx bs
    using that by (intro exI [of _ "bs = []"])
      (auto simp: bebop_writer_write_bytes_def split: prod.splits Bebop_Result.splits)
qed (auto simp: bebop_writer_write_bytes_def)

lemma wire_writer_array:
  assumes "0 < n" and "n < 2 ^ 32"
  shows "wire_writer (\<lambda>wr ctx xs. writer_write_array checked n enc wr ctx (Some xs))
     (\<lambda>xs. prefixed (concat (map enc xs)) (length xs)) (\<lambda>xs. length xs \<le> UINT32_MAX)"
proof (rule wire_writer_prefixed)
  have "UINT32_MAX * n \<le> SIZE_MAX"
    using assms(2) by (simp add: wire_defs)
  then have "UINT32_MAX \<le> SIZE_MAX div n"
    using assms(1) by (simp add: less_eq_div_iff_mult_less_eq)
  then show "\<exists>empty. (empty \<longrightarrow> concat (map enc xs) = []) \<and>
      writer_write_array checked n enc (Some w) ctx (Some xs) =
      (case bebop_writer_write_u32 (Some w) ctx (of_nat (length xs)) of
         (BEBOP_RESULT_OK, wr', ctx') \<Rightarrow>
           if empty then (BEBOP_RESULT_OK, wr', ctx') else writer_put wr' ctx' (concat (map enc xs))
       | res \<Rightarrow> res)" if "length xs \<le> UINT32_MAX" for w ctx xs
    using that by (intro exI [of _ "xs = []"])
      (auto simp: writer_write_array_def split: prod.splits Bebop_Result.splits)
qed (auto simp: writer_write_array_def)

lemma wire_writer_fixed_bytes:
  "wire_writer (\<lambda>wr ctx bs. bebop_writer_write_fixed_bytes wr ctx (Some bs))
     (\<lambda>bs. bs) (\<lambda>bs. length bs = n)"
proof -
  have "(\<lambda>wr ctx bs. bebop_writer_write_fixed_bytes wr ctx (Some bs)) = (\<lambda>wr ctx bs. writer_put wr ctx bs)"
    by (auto simp: fun_eq_iff bebop_writer_write_fixed_bytes_def put_nil split: option.splits)
  then show ?thesis
    using wire_writer_put by simp
qed

interpretation codec_string: wire_codec
    "\<lambda>wr ctx bs. bebop_writer_write_string wr ctx (Some bs)"
    "\<lambda>bs. prefixed (bs @ [0]) (length bs)" "\<lambda>bs. length bs < UINT32_MAX"
    bebop_reader_read_string string_spec
  by (intro wire_codec.intro wire_codec_axioms.intro wire_writer_string
      rd_string.framed_reader_axioms string_spec_enc)

interpretation codec_bytes: wire_codec
    "\<lambda>wr ctx bs. bebop_writer_write_bytes wr ctx (Some bs)"
    "\<lambda>bs. prefixed bs (length bs)" "\<lambda>bs. length bs \<le> UINT32_MAX"
    bebop_reader_read_bytes bytes_spec
  by (intro wire_codec.intro wire_codec_axioms.intro wire_writer_bytes
      rd_bytes.framed_reader_axioms bytes_spec_enc)

interpretation codec_fixed_bytes: wire_codec
    "\<lambda>wr ctx bs. bebop_writer_write_fixed_bytes wr ctx (Some bs)" "\<lambda>bs. bs" "\<lambda>bs. length bs = n"
    "\<lambda>rd. bebop_reader_read_fixed_bytes rd n" "scalar_spec n (\<lambda>bs. bs)" for n
  by (intro wire_codec.intro wire_codec_axioms.intro wire_writer_fixed_bytes
      rd_fixed_bytes.framed_reader_axioms scalar_spec_enc)
     (simp add: scalar_spec_def)

section \<open>Arrays round trip\<close>

lemma fixed_array_append:
  assumes "writer_inv w" and "writer_write_fixed_array checked n enc (Some w) ctx (Some xs) = (res, wr', ctx')"
  shows "\<exists>w'. wr' = Some w' \<and> writer_inv w'
     \<and> (if res = BEBOP_RESULT_OK then wr_data w' = wr_data w @ concat (map enc xs) else w' = w)"
  using assms put_spec [OF assms(1), of ctx "concat (map enc xs)" res wr' ctx']
  by (auto simp: writer_write_fixed_array_def split: if_splits)

lemma array_spec_enc:
  assumes "\<forall>x\<in>set xs. length (enc x) = n \<and> dec (enc x) = x"
  shows "array_spec n dec (length xs) (concat (map enc xs) @ rest) = Some (xs, length xs * n)"
proof -
  have len: "length (concat (map enc xs)) = length xs * n"
    using assms by (induction xs) auto
  have "map (\<lambda>i. dec (span_at (i * n) n (concat (map enc xs) @ rest))) [0..<length xs] = xs"
    using assms
  proof (induction xs)
    case Nil
    then show ?case by simp
  next
    case (Cons x xs)
    have tail: "span_at (Suc i * n) n (enc x @ ys) = span_at (i * n) n ys" for i ys
      using Cons.prems by simp
    show ?case
      using Cons
      by (simp only: length_Cons upt_conv_Cons [OF zero_less_Suc] list.map map_Suc_upt [symmetric]
          map_map o_def concat.simps append_assoc tail) simp
  qed
  then show ?thesis
    using len by (simp add: array_spec_def)
qed

text \<open>Reading the elements of an array back, from the point where they start.\<close>

lemma array_read_back:
  assumes "reader_inv r" and "rd_window r = concat (map enc xs) @ rest" and "0 < n"
    and "\<forall>x\<in>set xs. length (enc x) = n \<and> dec (enc x) = x" and "length old = length xs"
  shows "\<exists>r'. reader_read_fixed_array n dec (Some r) (Some old) (length xs) = (BEBOP_RESULT_OK, Some r', Some xs)
            \<and> reader_inv r' \<and> rd_buf r' = rd_buf r \<and> rd_window r' = rest"
proof -
  have spec: "array_spec n dec (length xs) (rd_window r) = Some (xs, length xs * n)"
    using array_spec_enc [OF assms(4)] assms(2) by simp
  have len: "length (concat (map enc xs)) = length xs * n"
    using assms(4) by (induction xs) auto
  then have le: "length xs * n \<le> rd_remaining r"
    using arg_cong [OF assms(2), of length] assms(1) by simp
  then have "rd_window (rd_advance (length xs * n) r) = rest"
    using assms(1,2) len by (simp add: rd_window_advance)
  then show ?thesis
    using fixed_array_ok [OF assms(1,3) spec, of old] assms(1,5) le by auto
qed

text \<open>An array with a count: the decoder reads the count, then that many elements.\<close>

lemma counted_array_read_back:
  assumes "writer_inv w" and "0 < n" and "n < 2 ^ 32"
    and "writer_write_array checked n enc (Some w) ctx (Some xs) = (BEBOP_RESULT_OK, Some w', ctx')"
    and "reader_inv r" and "rd_window r = drop (length (wr_data w)) (wr_data w') @ rest"
    and "\<forall>x\<in>set xs. length (enc x) = n \<and> dec (enc x) = x" and "length old = length xs"
  shows "\<exists>r1 r2. bebop_reader_read_u32 (Some r) (Some c0) = (BEBOP_RESULT_OK, Some r1, Some (of_nat (length xs)))
     \<and> unat (of_nat (length xs) :: u32) = length xs
     \<and> reader_read_fixed_array n dec (Some r1) (Some old) (length xs) = (BEBOP_RESULT_OK, Some r2, Some xs)
     \<and> rd_window r2 = rest"
proof -
  have le: "length xs \<le> UINT32_MAX"
    using assms(4) by (auto simp: writer_write_array_def split: if_splits)
  have "wr_data w' = wr_data w @ prefixed (concat (map enc xs)) (length xs)"
    using wire_writer.write_append [OF wire_writer_array [OF assms(2,3)] assms(1,4)] by auto
  then have win: "rd_window r = le_bytes 4 (of_nat (length xs) :: u32) @ (concat (map enc xs) @ rest)"
    using assms(6) by (simp add: prefixed_def)
  have "scalar_spec 4 le_word (le_bytes 4 (of_nat (length xs) :: u32)) =
      Some (of_nat (length xs) :: u32, length (le_bytes 4 (of_nat (length xs) :: u32)))"
    by (simp add: scalar_spec_def)
  from rd_u32.read_framed [OF assms(5) win this, of c0]
  obtain r1 where r1: "bebop_reader_read_u32 (Some r) (Some c0) = (BEBOP_RESULT_OK, Some r1, Some (of_nat (length xs)))"
    "reader_inv r1" "rd_window r1 = concat (map enc xs) @ rest"
    by auto
  then show ?thesis
    using array_read_back [OF r1(2,3) assms(2,7,8)] le by (auto simp: unat_of_nat_u32 UINT32_MAX_def)
qed

section \<open>Sequences of values\<close>

text \<open>
  A generated encoder of a struct writes the fields one after another and stops at the first error,
  and the decoder reads them in the same order. The fields are values of the wire types; a type is
  what the decoder knows of a field.
\<close>

datatype wire_value =
    VByte byte
  | VU16 u16
  | VU32 u32
  | VU64 u64
  | VI8 byte
  | VI16 u16
  | VI32 u32
  | VI64 u64
  | VBool bool
  | VF16 u16
  | VBF16 u16
  | VF32 u32
  | VF64 u64
  | VI128 u128
  | VU128 u128
  | VUuid Bebop_UUID
  | VTimestamp Bebop_Timestamp
  | VDuration Bebop_Duration
  | VString "byte list"
  | VBytes "byte list"
  | VFixedBytes "byte list"

datatype wire_type =
    TByte
  | TU16
  | TU32
  | TU64
  | TI8
  | TI16
  | TI32
  | TI64
  | TBool
  | TF16
  | TBF16
  | TF32
  | TF64
  | TI128
  | TU128
  | TUuid
  | TTimestamp
  | TDuration
  | TString
  | TBytes
  | TFixedBytes nat

fun type_of :: "wire_value \<Rightarrow> wire_type" where
  "type_of (VByte x) = TByte"
| "type_of (VU16 x) = TU16"
| "type_of (VU32 x) = TU32"
| "type_of (VU64 x) = TU64"
| "type_of (VI8 x) = TI8"
| "type_of (VI16 x) = TI16"
| "type_of (VI32 x) = TI32"
| "type_of (VI64 x) = TI64"
| "type_of (VBool x) = TBool"
| "type_of (VF16 x) = TF16"
| "type_of (VBF16 x) = TBF16"
| "type_of (VF32 x) = TF32"
| "type_of (VF64 x) = TF64"
| "type_of (VI128 x) = TI128"
| "type_of (VU128 x) = TU128"
| "type_of (VUuid x) = TUuid"
| "type_of (VTimestamp x) = TTimestamp"
| "type_of (VDuration x) = TDuration"
| "type_of (VString x) = TString"
| "type_of (VBytes x) = TBytes"
| "type_of (VFixedBytes x) = TFixedBytes (length x)"

fun write_value :: "Bebop_Writer option \<Rightarrow> Bebop_Context \<Rightarrow> wire_value \<Rightarrow> wr_result" where
  "write_value wr ctx (VByte x) = bebop_writer_write_byte wr ctx x"
| "write_value wr ctx (VU16 x) = bebop_writer_write_u16 wr ctx x"
| "write_value wr ctx (VU32 x) = bebop_writer_write_u32 wr ctx x"
| "write_value wr ctx (VU64 x) = bebop_writer_write_u64 wr ctx x"
| "write_value wr ctx (VI8 x) = bebop_writer_write_i8 wr ctx x"
| "write_value wr ctx (VI16 x) = bebop_writer_write_i16 wr ctx x"
| "write_value wr ctx (VI32 x) = bebop_writer_write_i32 wr ctx x"
| "write_value wr ctx (VI64 x) = bebop_writer_write_i64 wr ctx x"
| "write_value wr ctx (VBool x) = bebop_writer_write_bool wr ctx x"
| "write_value wr ctx (VF16 x) = bebop_writer_write_f16 wr ctx x"
| "write_value wr ctx (VBF16 x) = bebop_writer_write_bf16 wr ctx x"
| "write_value wr ctx (VF32 x) = bebop_writer_write_f32 wr ctx x"
| "write_value wr ctx (VF64 x) = bebop_writer_write_f64 wr ctx x"
| "write_value wr ctx (VI128 x) = bebop_writer_write_i128 wr ctx x"
| "write_value wr ctx (VU128 x) = bebop_writer_write_u128 wr ctx x"
| "write_value wr ctx (VUuid x) = bebop_writer_write_uuid wr ctx x"
| "write_value wr ctx (VTimestamp x) = bebop_writer_write_timestamp wr ctx x"
| "write_value wr ctx (VDuration x) = bebop_writer_write_duration wr ctx x"
| "write_value wr ctx (VString x) = bebop_writer_write_string wr ctx (Some x)"
| "write_value wr ctx (VBytes x) = bebop_writer_write_bytes wr ctx (Some x)"
| "write_value wr ctx (VFixedBytes x) = bebop_writer_write_fixed_bytes wr ctx (Some x)"

definition as_value :: "('a \<Rightarrow> wire_value) \<Rightarrow> 'a rd_result \<Rightarrow> wire_value rd_result" where
  "as_value f res = (case res of (result, rd, out) \<Rightarrow> (result, rd, map_option f out))"

fun read_value :: "wire_type \<Rightarrow> Bebop_Reader option \<Rightarrow> wire_value rd_result" where
  "read_value TByte rd = as_value VByte (bebop_reader_read_byte rd (Some 0))"
| "read_value TU16 rd = as_value VU16 (bebop_reader_read_u16 rd (Some 0))"
| "read_value TU32 rd = as_value VU32 (bebop_reader_read_u32 rd (Some 0))"
| "read_value TU64 rd = as_value VU64 (bebop_reader_read_u64 rd (Some 0))"
| "read_value TI8 rd = as_value VI8 (bebop_reader_read_i8 rd (Some 0))"
| "read_value TI16 rd = as_value VI16 (bebop_reader_read_i16 rd (Some 0))"
| "read_value TI32 rd = as_value VI32 (bebop_reader_read_i32 rd (Some 0))"
| "read_value TI64 rd = as_value VI64 (bebop_reader_read_i64 rd (Some 0))"
| "read_value TBool rd = as_value VBool (bebop_reader_read_bool rd (Some False))"
| "read_value TF16 rd = as_value VF16 (bebop_reader_read_f16 rd (Some 0))"
| "read_value TBF16 rd = as_value VBF16 (bebop_reader_read_bf16 rd (Some 0))"
| "read_value TF32 rd = as_value VF32 (bebop_reader_read_f32 rd (Some 0))"
| "read_value TF64 rd = as_value VF64 (bebop_reader_read_f64 rd (Some 0))"
| "read_value TI128 rd = as_value VI128 (bebop_reader_read_i128 rd (Some 0))"
| "read_value TU128 rd = as_value VU128 (bebop_reader_read_u128 rd (Some 0))"
| "read_value TUuid rd = as_value VUuid (bebop_reader_read_uuid rd (Some (replicate 16 0)))"
| "read_value TTimestamp rd = as_value VTimestamp (bebop_reader_read_timestamp rd (Some zero_timestamp))"
| "read_value TDuration rd = as_value VDuration (bebop_reader_read_duration rd (Some zero_duration))"
| "read_value TString rd = as_value VString (bebop_reader_read_string rd (Some []))"
| "read_value TBytes rd = as_value VBytes (bebop_reader_read_bytes rd (Some []))"
| "read_value (TFixedBytes n) rd = as_value VFixedBytes (bebop_reader_read_fixed_bytes rd n (Some []))"

fun write_values :: "Bebop_Writer option \<Rightarrow> Bebop_Context \<Rightarrow> wire_value list \<Rightarrow> wr_result" where
  "write_values wr ctx vs = write_array_loop write_value wr ctx vs"

fun read_values :: "wire_type list \<Rightarrow> Bebop_Reader option \<Rightarrow> Bebop_Result \<times> Bebop_Reader option \<times> wire_value list" where
  "read_values [] rd = (BEBOP_RESULT_OK, rd, [])"
| "read_values (t # ts) rd =
     (case read_value t rd of
        (BEBOP_RESULT_OK, rd', Some v) \<Rightarrow>
          (case read_values ts rd' of (result, rd'', vs) \<Rightarrow> (result, rd'', v # vs))
      | (result, rd', _) \<Rightarrow> (result, rd', []))"

text \<open>The encoding of a value and the values a C object of the type can have.\<close>

fun value_bytes :: "wire_value \<Rightarrow> byte list" where
  "value_bytes (VByte x) = [x]"
| "value_bytes (VU16 x) = le_bytes 2 x"
| "value_bytes (VU32 x) = le_bytes 4 x"
| "value_bytes (VU64 x) = le_bytes 8 x"
| "value_bytes (VI8 x) = [x]"
| "value_bytes (VI16 x) = le_bytes 2 x"
| "value_bytes (VI32 x) = le_bytes 4 x"
| "value_bytes (VI64 x) = le_bytes 8 x"
| "value_bytes (VBool x) = [if x then 1 else 0]"
| "value_bytes (VF16 x) = le_bytes 2 x"
| "value_bytes (VBF16 x) = le_bytes 2 x"
| "value_bytes (VF32 x) = le_bytes 4 x"
| "value_bytes (VF64 x) = le_bytes 8 x"
| "value_bytes (VI128 x) = u128_bytes x"
| "value_bytes (VU128 x) = u128_bytes x"
| "value_bytes (VUuid x) = x"
| "value_bytes (VTimestamp x) = timestamp_bytes x"
| "value_bytes (VDuration x) = duration_bytes x"
| "value_bytes (VString x) = prefixed (x @ [0]) (length x)"
| "value_bytes (VBytes x) = prefixed x (length x)"
| "value_bytes (VFixedBytes x) = x"

fun value_ok :: "wire_value \<Rightarrow> bool" where
  "value_ok (VUuid u) = (length u = 16)"
| "value_ok (VString bs) = (length bs < UINT32_MAX)"
| "value_ok (VBytes bs) = (length bs \<le> UINT32_MAX)"
| "value_ok _ = True"

fun value_typed :: "wire_value \<Rightarrow> bool" where
  "value_typed (VUuid u) = (length u = 16)"
| "value_typed _ = True"

lemma wire_writer_value: "wire_writer write_value value_bytes value_ok"
proof
  show "write_value None ctx v = (BEBOP_RESULT_NULL, None, ctx)" for ctx v
    by (cases v) (simp_all add: scalar_write_defs bebop_writer_write_string_def
        bebop_writer_write_bytes_def bebop_writer_write_fixed_bytes_def)
next
  fix w ctx v wr' ctx'
  assume "writer_inv w" "write_value (Some w) ctx v = (BEBOP_RESULT_OK, wr', ctx')"
  then show "\<exists>w'. wr' = Some w' \<and> writer_inv w' \<and> wr_data w' = wr_data w @ value_bytes v"
    by (cases v) (simp_all add: codec_byte.write_append
      codec_u16.write_append
      codec_u32.write_append
      codec_u64.write_append
      codec_i8.write_append
      codec_i16.write_append
      codec_i32.write_append
      codec_i64.write_append
      codec_bool.write_append
      codec_f16.write_append
      codec_bf16.write_append
      codec_f32.write_append
      codec_f64.write_append
      codec_i128.write_append
      codec_u128.write_append
      codec_uuid.write_append
      codec_timestamp.write_append
      codec_duration.write_append
      codec_string.write_append
      codec_bytes.write_append
      codec_fixed_bytes.write_append)
next
  fix w ctx v res wr' ctx'
  assume "writer_inv w" "write_value (Some w) ctx v = (res, wr', ctx')" "res \<noteq> BEBOP_RESULT_OK"
  then show "\<exists>w' k. wr' = Some w' \<and> writer_inv w' \<and> wr_data w' = wr_data w @ take k (value_bytes v)"
    by (cases v; (simp only: write_value.simps value_bytes.simps)?) (erule (2) codec_byte.write_fail
      codec_u16.write_fail
      codec_u32.write_fail
      codec_u64.write_fail
      codec_i8.write_fail
      codec_i16.write_fail
      codec_i32.write_fail
      codec_i64.write_fail
      codec_bool.write_fail
      codec_f16.write_fail
      codec_bf16.write_fail
      codec_f32.write_fail
      codec_f64.write_fail
      codec_i128.write_fail
      codec_u128.write_fail
      codec_uuid.write_fail
      codec_timestamp.write_fail
      codec_duration.write_fail
      codec_string.write_fail
      codec_bytes.write_fail
      codec_fixed_bytes.write_fail)+
next
  fix w ctx v
  assume "writer_inv w" "value_ok v" "length (value_bytes v) \<le> wr_available w"
  then show "write_value (Some w) ctx v = (BEBOP_RESULT_OK, Some (w\<lparr>wr_data := wr_data w @ value_bytes v\<rparr>), ctx)"
    by (cases v) (simp_all add: codec_byte.write_room
      codec_u16.write_room
      codec_u32.write_room
      codec_u64.write_room
      codec_i8.write_room
      codec_i16.write_room
      codec_i32.write_room
      codec_i64.write_room
      codec_bool.write_room
      codec_f16.write_room
      codec_bf16.write_room
      codec_f32.write_room
      codec_f64.write_room
      codec_i128.write_room
      codec_u128.write_room
      codec_uuid.write_room
      codec_timestamp.write_room
      codec_duration.write_room
      codec_string.write_room
      codec_bytes.write_room
      codec_fixed_bytes.write_room)
qed

lemma write_value_ok:
  "\<lbrakk>write_value (Some w) ctx v = (BEBOP_RESULT_OK, wr', ctx'); value_typed v\<rbrakk> \<Longrightarrow> value_ok v"
  by (cases v) (auto simp: bebop_writer_write_string_def bebop_writer_write_bytes_def split: if_splits)

lemma read_value_framed:
  assumes "reader_inv r" and "rd_window r = value_bytes v @ rest" and "value_ok v"
  shows "\<exists>r'. read_value (type_of v) (Some r) = (BEBOP_RESULT_OK, Some r', Some v)
           \<and> reader_inv r' \<and> rd_buf r' = rd_buf r \<and> rd_window r' = rest"
  using assms
proof (cases v)
  case (VByte x)
  then show ?thesis
    using assms rd_byte.read_framed [OF assms(1), of "value_bytes v" rest x] codec_byte.spec_enc [of x]
    by (simp add: as_value_def)
next
  case (VU16 x)
  then show ?thesis
    using assms rd_u16.read_framed [OF assms(1), of "value_bytes v" rest x] codec_u16.spec_enc [of x]
    by (simp add: as_value_def)
next
  case (VU32 x)
  then show ?thesis
    using assms rd_u32.read_framed [OF assms(1), of "value_bytes v" rest x] codec_u32.spec_enc [of x]
    by (simp add: as_value_def)
next
  case (VU64 x)
  then show ?thesis
    using assms rd_u64.read_framed [OF assms(1), of "value_bytes v" rest x] codec_u64.spec_enc [of x]
    by (simp add: as_value_def)
next
  case (VI8 x)
  then show ?thesis
    using assms rd_i8.read_framed [OF assms(1), of "value_bytes v" rest x] codec_i8.spec_enc [of x]
    by (simp add: as_value_def)
next
  case (VI16 x)
  then show ?thesis
    using assms rd_i16.read_framed [OF assms(1), of "value_bytes v" rest x] codec_i16.spec_enc [of x]
    by (simp add: as_value_def)
next
  case (VI32 x)
  then show ?thesis
    using assms rd_i32.read_framed [OF assms(1), of "value_bytes v" rest x] codec_i32.spec_enc [of x]
    by (simp add: as_value_def)
next
  case (VI64 x)
  then show ?thesis
    using assms rd_i64.read_framed [OF assms(1), of "value_bytes v" rest x] codec_i64.spec_enc [of x]
    by (simp add: as_value_def)
next
  case (VBool x)
  then show ?thesis
    using assms rd_bool.read_framed [OF assms(1), of "value_bytes v" rest x] codec_bool.spec_enc [of x]
    by (simp add: as_value_def)
next
  case (VF16 x)
  then show ?thesis
    using assms rd_f16.read_framed [OF assms(1), of "value_bytes v" rest x] codec_f16.spec_enc [of x]
    by (simp add: as_value_def)
next
  case (VBF16 x)
  then show ?thesis
    using assms rd_bf16.read_framed [OF assms(1), of "value_bytes v" rest x] codec_bf16.spec_enc [of x]
    by (simp add: as_value_def)
next
  case (VF32 x)
  then show ?thesis
    using assms rd_f32.read_framed [OF assms(1), of "value_bytes v" rest x] codec_f32.spec_enc [of x]
    by (simp add: as_value_def)
next
  case (VF64 x)
  then show ?thesis
    using assms rd_f64.read_framed [OF assms(1), of "value_bytes v" rest x] codec_f64.spec_enc [of x]
    by (simp add: as_value_def)
next
  case (VI128 x)
  then show ?thesis
    using assms rd_i128.read_framed [OF assms(1), of "value_bytes v" rest x] codec_i128.spec_enc [of x]
    by (simp add: as_value_def)
next
  case (VU128 x)
  then show ?thesis
    using assms rd_u128.read_framed [OF assms(1), of "value_bytes v" rest x] codec_u128.spec_enc [of x]
    by (simp add: as_value_def)
next
  case (VUuid x)
  then show ?thesis
    using assms rd_uuid.read_framed [OF assms(1), of "value_bytes v" rest x] codec_uuid.spec_enc [of x]
    by (simp add: as_value_def)
next
  case (VTimestamp x)
  then show ?thesis
    using assms rd_timestamp.read_framed [OF assms(1), of "value_bytes v" rest x] codec_timestamp.spec_enc [of x]
    by (simp add: as_value_def)
next
  case (VDuration x)
  then show ?thesis
    using assms rd_duration.read_framed [OF assms(1), of "value_bytes v" rest x] codec_duration.spec_enc [of x]
    by (simp add: as_value_def)
next
  case (VString x)
  then show ?thesis
    using assms rd_string.read_framed [OF assms(1), of "value_bytes v" rest x] codec_string.spec_enc [of x]
    by (simp add: as_value_def)
next
  case (VBytes x)
  then show ?thesis
    using assms rd_bytes.read_framed [OF assms(1), of "value_bytes v" rest x] codec_bytes.spec_enc [of x]
    by (simp add: as_value_def)
next
  case (VFixedBytes x)
  then show ?thesis
    using assms rd_fixed_bytes.read_framed [OF assms(1), of "value_bytes v" rest "length x" x] codec_fixed_bytes.spec_enc [of x "length x"]
    by (simp add: as_value_def)
qed

interpretation value_writer: wire_writer write_value value_bytes value_ok
  by (rule wire_writer_value)

lemma write_values_append:
  assumes "writer_inv w" and "write_values (Some w) ctx vs = (BEBOP_RESULT_OK, wr', ctx')"
    and "list_all value_typed vs"
  shows "list_all value_ok vs
    \<and> (\<exists>w'. wr' = Some w' \<and> writer_inv w' \<and> wr_data w' = wr_data w @ concat (map value_bytes vs))"
  using assms
proof (induction vs arbitrary: w ctx)
  case Nil
  then show ?case by auto
next
  case (Cons v vs)
  then obtain x c where step: "write_value (Some w) ctx v = (BEBOP_RESULT_OK, x, c)"
      "write_values x c vs = (BEBOP_RESULT_OK, wr', ctx')"
    by (auto split: prod.splits Bebop_Result.splits)
  then obtain w1 where w1: "x = Some w1" "writer_inv w1" "wr_data w1 = wr_data w @ value_bytes v"
    using value_writer.write_append [OF Cons.prems(1)] by blast
  show ?case
    using Cons.IH [of w1 c] Cons.prems w1 step write_value_ok [OF step(1)] by auto
qed

lemma read_values_framed:
  assumes "reader_inv r" and "rd_window r = concat (map value_bytes vs) @ rest" and "list_all value_ok vs"
  shows "\<exists>r'. read_values (map type_of vs) (Some r) = (BEBOP_RESULT_OK, Some r', vs)
           \<and> reader_inv r' \<and> rd_buf r' = rd_buf r \<and> rd_window r' = rest"
  using assms
proof (induction vs arbitrary: r)
  case Nil
  then show ?case by simp
next
  case (Cons v vs)
  then obtain r1 where "read_value (type_of v) (Some r) = (BEBOP_RESULT_OK, Some r1, Some v)"
      "reader_inv r1" "rd_buf r1 = rd_buf r" "rd_window r1 = concat (map value_bytes vs) @ rest"
    using read_value_framed [of r v "concat (map value_bytes vs) @ rest"] by auto
  with Cons.IH [of r1] Cons.prems show ?case
    by auto
qed

lemma context_writer_fresh:
  "bebop_context_writer (Some ctx) cap = (Some w, ctx1) \<Longrightarrow> wr_data w = [] \<and> writer_inv w"
  by (auto simp: bebop_context_writer_def writer_inv_def Let_def split: prod.splits option.splits)

lemma writer_loop_grows:
  assumes "writer_inv w" and "write_values (Some w) ctx vs = (res, wr', ctx')"
  shows "\<exists>w' k. wr' = Some w' \<and> writer_inv w' \<and> wr_data w' = wr_data w @ take k (concat (map value_bytes vs))"
  using assms
proof (induction vs arbitrary: w ctx)
  case Nil
  then show ?case by auto
next
  case (Cons v vs)
  obtain r x c where step: "write_value (Some w) ctx v = (r, x, c)"
    by (cases "write_value (Some w) ctx v")
  show ?case
  proof (cases "r = BEBOP_RESULT_OK")
    case True
    then obtain w1 where w1: "x = Some w1" "writer_inv w1" "wr_data w1 = wr_data w @ value_bytes v"
      using value_writer.write_append [OF Cons.prems(1)] step by blast
    then obtain w' k where "wr' = Some w'" "writer_inv w'"
        "wr_data w' = wr_data w1 @ take k (concat (map value_bytes vs))"
      using Cons.IH [of w1 c] Cons.prems step True by auto
    then show ?thesis
      using w1 by (intro exI [of _ w'] exI [of _ "length (value_bytes v) + k"]) simp
  next
    case False
    then obtain w1 k where "x = Some w1" "writer_inv w1" "wr_data w1 = wr_data w @ take k (value_bytes v)"
      using value_writer.write_fail [OF Cons.prems(1) step] by blast
    moreover have "wr' = x"
      using Cons.prems step False by (cases r) auto
    ultimately show ?thesis
      by (intro exI [of _ w1] exI [of _ "min k (length (value_bytes v))"]) (auto simp: min_def)
  qed
qed

section \<open>Properties\<close>

text \<open>
  C1: encoding and decoding a struct are inverse. Whatever fields are written, in whatever order, to
  a fresh writer of a context, if all writes succeed then a reader over the writer's view that reads
  the same types in the same order succeeds, returns exactly the values that were written and
  consumes every byte. The hypothesis on the values says that a UUID has 16 bytes.
\<close>

theorem struct_roundtrip:
  assumes "bebop_context_writer (Some ctx) cap = (Some w, Some ctx1)"
    and "write_values (Some w) ctx1 vs = (BEBOP_RESULT_OK, wr', ctx2)"
    and "list_all value_typed vs"
  shows "\<exists>r r'. bebop_reader_init (Some r0) (bebop_writer_view wr') = (BEBOP_RESULT_OK, Some r)
    \<and> read_values (map type_of vs) (Some r) = (BEBOP_RESULT_OK, Some r', vs)
    \<and> bebop_reader_remaining (Some r') = 0"
proof -
  have w: "wr_data w = []" "writer_inv w"
    using context_writer_fresh [OF assms(1)] by auto
  from write_values_append [OF w(2) assms(2,3)] obtain w' where
    w': "list_all value_ok vs" "wr' = Some w'" "wr_data w' = concat (map value_bytes vs)"
    by (auto simp: w(1))
  let ?data = "concat (map value_bytes vs)"
  let ?r = "\<lparr>rd_buf = ?data, rd_current = 0, rd_end = length ?data\<rparr>"
  have "reader_inv ?r" "rd_window ?r = ?data @ []"
    by (simp_all add: reader_inv_def rd_window_def rd_remaining_def)
  from read_values_framed [OF this w'(1)] obtain r' where
    r': "read_values (map type_of vs) (Some ?r) = (BEBOP_RESULT_OK, Some r', vs)"
    "reader_inv r'" "rd_window r' = []"
    by blast
  moreover have "rd_remaining r' = 0"
    using length_rd_window [OF r'(2)] r'(3) by simp
  ultimately show ?thesis
    by (simp add: bebop_reader_init_def bebop_writer_view_def bebop_reader_remaining_def w'(2,3))
qed

definition sample_context :: Bebop_Context where
  "sample_context =
     \<lparr>context_id = 0, arena = small_arena, ctx_options = (bebop_context_options malloc_heap)\<lparr>initial_writer_size := 16\<rparr>,
      decode_depth = 0\<rparr>"

lemma sample_writer:
  "\<exists>w ctx1. bebop_context_writer (Some sample_context) 32 = (Some w, Some ctx1)
     \<and> wr_cap w = 32 \<and> wr_data w = []"
proof -
  have al: "aligned 32 = 32" "bebop_wire_align_size 32 16 = 32"
    using align_size_eq [of 32] by (simp_all add: aligned_small BEBOP_ARENA_ALIGN_def)
  show ?thesis
    by (simp add: bebop_context_writer_def context_arena_alloc_def bebop_wire_arena_alloc_def
        alloc_loop_unfold bebop_wire_arena_ensure_block_def bebop_wire_arena_push_block_def
        bebop_wire_arena_allocate_block_def alloc_new_def malloc_heap_def BEBOP_ARENA_ALIGN_def
        sample_context_def small_arena_def bebop_context_options_def al SIZEOF_WRITER_def
        SIZEOF_BLOCK_def Let_def)
qed

theorem struct_roundtrip_witness:
  "\<exists>w ctx1 wr' ctx2 r r'. bebop_context_writer (Some sample_context) 32 = (Some w, Some ctx1)
     \<and> write_values (Some w) ctx1 [VU16 513, VString [104, 105], VBool True] = (BEBOP_RESULT_OK, wr', ctx2)
     \<and> bebop_writer_view wr' = Some [1, 2, 2, 0, 0, 0, 104, 105, 0, 1]
     \<and> read_values [TU16, TString, TBool] (Some r) = (BEBOP_RESULT_OK, Some r', [VU16 513, VString [104, 105], VBool True])"
proof -
  let ?vs = "[VU16 513, VString [104, 105], VBool True]"
  obtain w ctx1 where w: "bebop_context_writer (Some sample_context) 32 = (Some w, Some ctx1)"
      "wr_cap w = 32" "wr_data w = []"
    using sample_writer by blast
  have inv: "writer_inv w"
    by (simp add: writer_inv_def w)
  have room: "write_values (Some w) ctx1 ?vs
      = (BEBOP_RESULT_OK, Some (w\<lparr>wr_data := concat (map value_bytes ?vs)\<rparr>), ctx1)"
    using value_writer.write_loop_room [OF inv, of ?vs ctx1]
    by (simp add: w wr_available_def UINT32_MAX_def)
  have view: "concat (map value_bytes ?vs) = [1, 2, 2, 0, 0, 0, 104, 105, 0, 1]"
    by (simp add: prefixed_def le_bytes_def upt_rec)
  have "\<exists>r r'. bebop_reader_init (Some hello_reader) (bebop_writer_view (Some (w\<lparr>wr_data := concat (map value_bytes ?vs)\<rparr>)))
        = (BEBOP_RESULT_OK, Some r)
    \<and> read_values (map type_of ?vs) (Some r) = (BEBOP_RESULT_OK, Some r', ?vs) \<and> bebop_reader_remaining (Some r') = 0"
    by (rule struct_roundtrip [OF w(1) room]) simp
  then obtain r r' where "read_values [TU16, TString, TBool] (Some r) = (BEBOP_RESULT_OK, Some r', ?vs)"
    by auto
  with w(1) room view show ?thesis
    by (intro exI conjI) (auto simp: bebop_writer_view_def)
qed

text \<open>
  C16: writing only appends. Whatever values are written and whether the writes succeed or not, the
  bytes that were in the writer stay in place, and what follows them is a prefix of the encodings of
  the values; all of it exactly when the result is success. A failing write can leave a part of its
  own encoding behind.
\<close>

theorem write_values_appends:
  assumes "writer_inv w" and "write_values (Some w) ctx vs = (res, wr', ctx')"
    and "list_all value_typed vs"
  shows "\<exists>w' k. wr' = Some w' \<and> writer_inv w'
    \<and> wr_data w' = wr_data w @ take k (concat (map value_bytes vs))
    \<and> (res = BEBOP_RESULT_OK \<longrightarrow> length (concat (map value_bytes vs)) \<le> k)"
proof (cases "res = BEBOP_RESULT_OK")
  case True
  then show ?thesis
    using write_values_append [OF assms(1) _ assms(3)] assms(2) by (metis order_refl take_all)
next
  case False
  then show ?thesis
    using writer_loop_grows [OF assms(1,2)] by auto
qed

definition tiny_writer :: Bebop_Writer where
  "tiny_writer = \<lparr>wr_addr = (2, 0), wr_data = [9], wr_cap = 4\<rparr>"

definition full_context :: Bebop_Context where
  "full_context = sample_context\<lparr>arena := small_arena\<lparr>arena_opts := \<lparr>initial_block_size = 64, max_block_size = 0, allocator = None\<rparr>,
      blocks := []\<rparr>\<rparr>"

lemma full_context_oom:
  "bebop_wire_align_size sz BEBOP_ARENA_ALIGN > 0 \<Longrightarrow> context_arena_alloc full_context sz = (None, full_context)"
  using align_size_idem [of sz]
  by (auto simp: context_arena_alloc_def bebop_wire_arena_alloc_def alloc_loop_unfold aligned_def
      bebop_wire_arena_ensure_block_def bebop_wire_arena_push_block_def
      bebop_wire_arena_allocate_block_def full_context_def sample_context_def small_arena_def Let_def)

theorem write_values_appends_witness:
  "\<exists>w' k. write_values (Some tiny_writer) full_context [VByte 1, VU32 5] = (BEBOP_RESULT_OOM, Some w', full_context)
     \<and> wr_data w' = [9] @ take k [1, 5, 0, 0, 0] \<and> wr_data w' = [9, 1]"
proof -
  have inv: "writer_inv tiny_writer"
    by (simp add: writer_inv_def tiny_writer_def)
  have grow: "writer_grow 4 6 = 8"
    by (simp add: writer_grow.simps SIZE_MAX_def)
  have run: "write_values (Some tiny_writer) full_context [VByte 1, VU32 5]
      = (BEBOP_RESULT_OOM, Some (tiny_writer\<lparr>wr_data := [9, 1]\<rparr>), full_context)"
    using full_context_oom [of 8] align_size_eq [of 8]
    by (simp add: bebop_writer_write_byte_def bebop_writer_write_u32_def writer_put_def wr_available_def
        tiny_writer_def bebop_writer_reserve_def SIZE_MAX_def grow Let_def)
  have enc: "concat (map value_bytes [VByte 1, VU32 5]) = [1, 5, 0, 0, 0]"
    by (simp add: le_bytes_def upt_rec)
  have "list_all value_typed [VByte 1, VU32 5]"
    by simp
  from write_values_appends [OF inv run this] run show ?thesis
    unfolding enc by (auto simp: tiny_writer_def)
qed









lemma patch_at_middle: "length ys = length zs \<Longrightarrow> patch_at (length xs) ys (xs @ zs @ ts) = xs @ ys @ ts"
  by (simp add: patch_at_def)

text \<open>
  A length prefix is patched in place. Reserving a length, writing a body of any values and
  patching the length afterwards leaves the bytes before it, the four bytes of the given length and
  the body, in this order.
\<close>

theorem length_prefix_patched:
  assumes "writer_inv w"
    and "bebop_writer_begin_length (Some w) ctx (Some p0) = (BEBOP_RESULT_OK, wr1, ctx1, Some pos)"
    and "write_values wr1 ctx1 vs = (BEBOP_RESULT_OK, wr2, ctx2)" and "list_all value_typed vs"
    and "bebop_writer_end_length wr2 pos len = (res, wr3)"
  shows "res = BEBOP_RESULT_OK
    \<and> bebop_writer_view wr3 = Some (wr_data w @ le_bytes 4 len @ concat (map value_bytes vs))"
proof -
  have u32: "bebop_writer_write_u32 (Some w) ctx 0 = (BEBOP_RESULT_OK, wr1, ctx1)" and pos: "pos = length (wr_data w)"
    using assms(2) by (auto simp: bebop_writer_begin_length_def bebop_writer_length_def split: prod.splits)
  then obtain w1 where w1: "wr1 = Some w1" "writer_inv w1" "wr_data w1 = wr_data w @ le_bytes 4 (0 :: u32)"
    using codec_u32.write_append [OF assms(1) u32] by blast
  then obtain w2 where "wr2 = Some w2" "wr_data w2 = wr_data w @ le_bytes 4 (0 :: u32) @ concat (map value_bytes vs)"
    using write_values_append [OF w1(2), of ctx1 vs wr2 ctx2] assms(3,4) by auto
  then show ?thesis
    using assms(5) pos
    by (auto simp: bebop_writer_end_length_def bebop_writer_view_def patch_at_middle Let_def)
qed

theorem length_prefix_patched_witness:
  "\<exists>wr1 ctx1 wr2 ctx2 wr3. bebop_writer_begin_length (Some (tiny_writer\<lparr>wr_cap := 9\<rparr>)) full_context (Some 0)
        = (BEBOP_RESULT_OK, wr1, ctx1, Some 1)
     \<and> write_values wr1 ctx1 [VByte 7, VBool True] = (BEBOP_RESULT_OK, wr2, ctx2)
     \<and> bebop_writer_end_length wr2 1 2 = (BEBOP_RESULT_OK, wr3)
     \<and> bebop_writer_view wr3 = Some ([9] @ le_bytes 4 (2 :: u32) @ [7, 1])"
proof -
  let ?w = "tiny_writer\<lparr>wr_cap := 9\<rparr>" and ?vs = "[VByte 7, VBool True]"
  have inv: "writer_inv ?w"
    by (simp add: writer_inv_def tiny_writer_def)
  obtain wr1 ctx1 where b: "bebop_writer_begin_length (Some ?w) full_context (Some 0) = (BEBOP_RESULT_OK, wr1, ctx1, Some 1)"
      "wr1 = Some (?w\<lparr>wr_data := [9, 0, 0, 0, 0]\<rparr>)"
    by (simp add: bebop_writer_begin_length_def bebop_writer_write_u32_def writer_put_def wr_available_def
        bebop_writer_length_def tiny_writer_def le_bytes_def upt_rec)
  obtain wr2 ctx2 where v: "write_values wr1 ctx1 ?vs = (BEBOP_RESULT_OK, wr2, ctx2)"
      "wr2 = Some (?w\<lparr>wr_data := [9, 0, 0, 0, 0, 7, 1]\<rparr>)"
    by (simp add: b(2) bebop_writer_write_byte_def bebop_writer_write_bool_def writer_put_def wr_available_def
        tiny_writer_def)
  obtain res wr3 where e: "bebop_writer_end_length wr2 1 2 = (res, wr3)"
    by (cases "bebop_writer_end_length wr2 1 2")
  have "list_all value_typed ?vs"
    by simp
  from length_prefix_patched [OF inv b(1) v(1) this e] b(1) v(1) e show ?thesis
    by (auto simp: tiny_writer_def)
qed

section \<open>Arrays of every element type\<close>

text \<open>
  What is written as an array is read back by reading the count and then the elements into an array
  of that many elements; without the count for arrays of fixed length. The reader stands after it.
\<close>

definition array_roundtrip ::
  "('a \<Rightarrow> bool) \<Rightarrow> (Bebop_Writer option \<Rightarrow> Bebop_Context \<Rightarrow> 'a list option \<Rightarrow> wr_result)
     \<Rightarrow> (Bebop_Reader option \<Rightarrow> 'a list option \<Rightarrow> nat \<Rightarrow> 'a list rd_result) \<Rightarrow> bool" where
  "array_roundtrip typed wop rop \<longleftrightarrow>
     (\<forall>w ctx xs w' ctx' r rest old.
        writer_inv w \<and> list_all typed xs \<and> wop (Some w) ctx (Some xs) = (BEBOP_RESULT_OK, Some w', ctx')
        \<and> reader_inv r \<and> rd_window r = drop (length (wr_data w)) (wr_data w') @ rest \<and> length old = length xs
        \<longrightarrow> (\<exists>r1 r2. bebop_reader_read_u32 (Some r) (Some 0) = (BEBOP_RESULT_OK, Some r1, Some (of_nat (length xs)))
              \<and> unat (of_nat (length xs) :: u32) = length xs
              \<and> rop (Some r1) (Some old) (length xs) = (BEBOP_RESULT_OK, Some r2, Some xs)
              \<and> rd_window r2 = rest))"

definition fixed_array_roundtrip ::
  "('a \<Rightarrow> bool) \<Rightarrow> (Bebop_Writer option \<Rightarrow> Bebop_Context \<Rightarrow> 'a list option \<Rightarrow> wr_result)
     \<Rightarrow> (Bebop_Reader option \<Rightarrow> 'a list option \<Rightarrow> nat \<Rightarrow> 'a list rd_result) \<Rightarrow> bool" where
  "fixed_array_roundtrip typed wop rop \<longleftrightarrow>
     (\<forall>w ctx xs w' ctx' r rest old.
        writer_inv w \<and> list_all typed xs \<and> wop (Some w) ctx (Some xs) = (BEBOP_RESULT_OK, Some w', ctx')
        \<and> reader_inv r \<and> rd_window r = drop (length (wr_data w)) (wr_data w') @ rest \<and> length old = length xs
        \<longrightarrow> (\<exists>r'. rop (Some r) (Some old) (length xs) = (BEBOP_RESULT_OK, Some r', Some xs)
              \<and> rd_window r' = rest))"

lemma array_roundtripI:
  assumes "0 < n" and "n < 2 ^ 32"
    and "\<And>wr ctx xs. wop wr ctx (Some xs) = writer_write_array checked n enc wr ctx (Some xs)"
    and "\<And>rd old cnt. rop rd old cnt = reader_read_fixed_array n dec rd old cnt"
    and "\<And>x. typed x \<Longrightarrow> length (enc x) = n \<and> dec (enc x) = x"
  shows "array_roundtrip typed wop rop"
  unfolding array_roundtrip_def assms(3,4)
  by (intro allI impI, elim conjE, rule counted_array_read_back [OF _ assms(1,2)])
     (use assms(5) in \<open>auto simp: list_all_iff\<close>)

lemma fixed_array_roundtripI:
  assumes "0 < n"
    and "\<And>wr ctx xs. wop wr ctx (Some xs) = writer_write_fixed_array checked n enc wr ctx (Some xs)"
    and "\<And>rd old cnt. rop rd old cnt = reader_read_fixed_array n dec rd old cnt"
    and "\<And>x. typed x \<Longrightarrow> length (enc x) = n \<and> dec (enc x) = x"
  shows "fixed_array_roundtrip typed wop rop"
proof -
  have "\<exists>r'. reader_read_fixed_array n dec (Some r) (Some old) (length xs) = (BEBOP_RESULT_OK, Some r', Some xs)
      \<and> rd_window r' = rest"
    if "writer_inv w" "list_all typed xs"
      "writer_write_fixed_array checked n enc (Some w) ctx (Some xs) = (BEBOP_RESULT_OK, Some w', ctx')"
      "reader_inv r" "rd_window r = drop (length (wr_data w)) (wr_data w') @ rest" "length old = length xs"
    for w ctx xs w' ctx' r rest old
  proof -
    have "rd_window r = concat (map enc xs) @ rest"
      using fixed_array_append [OF that(1,3)] that(5) by simp
    then show ?thesis
      using array_read_back [OF that(4) _ assms(1) _ that(6)] that(2) assms(4)
      by (metis list_all_iff)
  qed
  then show ?thesis
    unfolding fixed_array_roundtrip_def assms(2,3) by blast
qed

lemmas array_write_defs =
  bebop_writer_write_u16_array_def bebop_writer_write_fixed_u16_array_def
  bebop_writer_write_i16_array_def bebop_writer_write_fixed_i16_array_def
  bebop_writer_write_u32_array_def bebop_writer_write_fixed_u32_array_def
  bebop_writer_write_i32_array_def bebop_writer_write_fixed_i32_array_def
  bebop_writer_write_u64_array_def bebop_writer_write_fixed_u64_array_def
  bebop_writer_write_i64_array_def bebop_writer_write_fixed_i64_array_def
  bebop_writer_write_f16_array_def bebop_writer_write_fixed_f16_array_def
  bebop_writer_write_bf16_array_def bebop_writer_write_fixed_bf16_array_def
  bebop_writer_write_f32_array_def bebop_writer_write_fixed_f32_array_def
  bebop_writer_write_f64_array_def bebop_writer_write_fixed_f64_array_def
  bebop_writer_write_i128_array_def bebop_writer_write_fixed_i128_array_def
  bebop_writer_write_u128_array_def bebop_writer_write_fixed_u128_array_def
  bebop_writer_write_timestamp_array_def bebop_writer_write_fixed_timestamp_array_def
  bebop_writer_write_duration_array_def bebop_writer_write_fixed_duration_array_def
  bebop_writer_write_uuid_array_def bebop_writer_write_fixed_uuid_array_def
  bebop_writer_write_u8_array_def bebop_writer_write_fixed_u8_array_def
  bebop_writer_write_i8_array_def bebop_writer_write_fixed_i8_array_def

text \<open>Arrays of bytes are written by the operation for byte spans.\<close>

lemma concat_singletons: "concat (map (\<lambda>b. [b]) xs) = xs"
  by (induction xs) auto

lemma write_bytes_array:
  "bebop_writer_write_bytes wr ctx (Some xs) = writer_write_array False 1 (\<lambda>b. [b]) wr ctx (Some xs)"
  by (auto simp: bebop_writer_write_bytes_def writer_write_array_def concat_singletons
      split: option.splits prod.splits Bebop_Result.splits)

lemma write_fixed_bytes_array:
  "bebop_writer_write_fixed_bytes wr ctx (Some xs) = writer_write_fixed_array False 1 (\<lambda>b. [b]) wr ctx (Some xs)"
  by (auto simp: bebop_writer_write_fixed_bytes_def writer_write_fixed_array_def concat_singletons
      split: option.splits)

text \<open>
  A \<^verbatim>\<open>bool\<close> object is stored as the byte 0 or 1. Both sides of the round trip of \<^verbatim>\<open>bool\<close> arrays are taken
  as the stored bytes, since the read copies bytes into the objects.
\<close>

definition bool_object :: "byte \<Rightarrow> bool" where
  "bool_object b \<longleftrightarrow> b \<noteq> 0"

definition write_bool_objects ::
  "(Bebop_Writer option \<Rightarrow> Bebop_Context \<Rightarrow> bool list option \<Rightarrow> wr_result)
     \<Rightarrow> Bebop_Writer option \<Rightarrow> Bebop_Context \<Rightarrow> byte list option \<Rightarrow> wr_result" where
  "write_bool_objects wop wr ctx objs = wop wr ctx (map_option (map bool_object) objs)"

lemma write_bool_array:
  shows "write_bool_objects bebop_writer_write_bool_array wr ctx (Some xs)
       = writer_write_array False 1 (\<lambda>b. [if b \<noteq> 0 then 1 else 0]) wr ctx (Some xs)"
    and "write_bool_objects bebop_writer_write_fixed_bool_array wr ctx (Some xs)
       = writer_write_fixed_array False 1 (\<lambda>b. [if b \<noteq> 0 then 1 else 0]) wr ctx (Some xs)"
  by (simp_all add: write_bool_objects_def bebop_writer_write_bool_array_def bebop_writer_write_fixed_bool_array_def
      writer_write_array_def writer_write_fixed_array_def bool_object_def comp_def
      split: option.splits prod.splits Bebop_Result.splits)

text \<open>
  C20: arrays round trip. For each of the element types (bytes and 8-bit integers, the wider signed and
  unsigned integers up to 128 bits, \<^verbatim>\<open>bool\<close>, the four floating-point formats, UUIDs, timestamps and
  durations) the elements written by a successful array write are read back by reading the count and
  then the fixed-array read, and the reader stands at what follows them.
\<close>

theorem array_roundtrips:
  "array_roundtrip (\<lambda>_. True) bebop_writer_write_u16_array bebop_reader_read_fixed_u16_array
   \<and> array_roundtrip (\<lambda>_. True) bebop_writer_write_i16_array bebop_reader_read_fixed_i16_array
   \<and> array_roundtrip (\<lambda>_. True) bebop_writer_write_u32_array bebop_reader_read_fixed_u32_array
   \<and> array_roundtrip (\<lambda>_. True) bebop_writer_write_i32_array bebop_reader_read_fixed_i32_array
   \<and> array_roundtrip (\<lambda>_. True) bebop_writer_write_u64_array bebop_reader_read_fixed_u64_array
   \<and> array_roundtrip (\<lambda>_. True) bebop_writer_write_i64_array bebop_reader_read_fixed_i64_array
   \<and> array_roundtrip (\<lambda>_. True) bebop_writer_write_f16_array bebop_reader_read_fixed_f16_array
   \<and> array_roundtrip (\<lambda>_. True) bebop_writer_write_bf16_array bebop_reader_read_fixed_bf16_array
   \<and> array_roundtrip (\<lambda>_. True) bebop_writer_write_f32_array bebop_reader_read_fixed_f32_array
   \<and> array_roundtrip (\<lambda>_. True) bebop_writer_write_f64_array bebop_reader_read_fixed_f64_array
   \<and> array_roundtrip (\<lambda>_. True) bebop_writer_write_i128_array bebop_reader_read_fixed_i128_array
   \<and> array_roundtrip (\<lambda>_. True) bebop_writer_write_u128_array bebop_reader_read_fixed_u128_array
   \<and> array_roundtrip (\<lambda>_. True) bebop_writer_write_timestamp_array bebop_reader_read_fixed_timestamp_array
   \<and> array_roundtrip (\<lambda>_. True) bebop_writer_write_duration_array bebop_reader_read_fixed_duration_array
   \<and> array_roundtrip (\<lambda>u. length u = 16) bebop_writer_write_uuid_array bebop_reader_read_fixed_uuid_array
   \<and> array_roundtrip (\<lambda>_. True) bebop_writer_write_u8_array bebop_reader_read_fixed_u8_array
   \<and> array_roundtrip (\<lambda>_. True) bebop_writer_write_i8_array bebop_reader_read_fixed_i8_array
   \<and> array_roundtrip (\<lambda>b. b = 0 \<or> b = 1) (write_bool_objects bebop_writer_write_bool_array)
       bebop_reader_read_fixed_bool_array"
  by (intro conjI; rule array_roundtripI;
      (simp add: array_write_defs write_bytes_array write_fixed_bytes_array write_bool_array fixed_array_defs; fail)?)
     (auto simp: timestamp_roundtrip duration_roundtrip)

theorem array_roundtrips_witness:
  "\<exists>r1 r2. bebop_writer_write_u16_array (Some (tiny_writer\<lparr>wr_cap := 16\<rparr>)) full_context (Some [1, 258])
       = (BEBOP_RESULT_OK, Some (tiny_writer\<lparr>wr_cap := 16, wr_data := [9, 2, 0, 0, 0, 1, 0, 2, 1]\<rparr>), full_context)
     \<and> bebop_reader_read_u32 (Some \<lparr>rd_buf = [2, 0, 0, 0, 1, 0, 2, 1, 7], rd_current = 0, rd_end = 9\<rparr>) (Some 0)
         = (BEBOP_RESULT_OK, Some r1, Some 2)
     \<and> bebop_reader_read_fixed_u16_array (Some r1) (Some [0, 0]) 2 = (BEBOP_RESULT_OK, Some r2, Some [1, 258])
     \<and> rd_window r2 = [7]"
proof -
  let ?w = "tiny_writer\<lparr>wr_cap := 16\<rparr>" and ?w' = "tiny_writer\<lparr>wr_cap := 16, wr_data := [9, 2, 0, 0, 0, 1, 0, 2, 1]\<rparr>"
  let ?r = "\<lparr>rd_buf = [2, 0, 0, 0, 1, 0, 2, 1, 7], rd_current = 0, rd_end = 9\<rparr>"
  have run: "bebop_writer_write_u16_array (Some ?w) full_context (Some [1, 258]) = (BEBOP_RESULT_OK, Some ?w', full_context)"
    by (simp add: bebop_writer_write_u16_array_def writer_write_array_def bebop_writer_write_u32_def writer_put_def
        wr_available_def tiny_writer_def le_bytes_def upt_rec SIZE_MAX_def UINT32_MAX_def)
  have hyps: "writer_inv ?w \<and> list_all (\<lambda>_. True) [1, 258 :: u16]
      \<and> bebop_writer_write_u16_array (Some ?w) full_context (Some [1, 258]) = (BEBOP_RESULT_OK, Some ?w', full_context)
      \<and> reader_inv ?r \<and> rd_window ?r = drop (length (wr_data ?w)) (wr_data ?w') @ [7]
      \<and> length [0, 0 :: u16] = length [1, 258 :: u16]"
    using run by (simp add: writer_inv_def tiny_writer_def reader_inv_def rd_window_def rd_remaining_def span_at_def)
  have "array_roundtrip (\<lambda>_. True) bebop_writer_write_u16_array bebop_reader_read_fixed_u16_array"
    using array_roundtrips by blast
  from this [unfolded array_roundtrip_def, rule_format, OF hyps] run show ?thesis
    by (simp add: numeral_2_eq_2 [symmetric])
qed

text \<open>
  Arrays of fixed length round trip. For every element type the elements written without a count
  are read back by the fixed-array read of the same number of elements.
\<close>

theorem fixed_array_roundtrips:
  "fixed_array_roundtrip (\<lambda>_. True) bebop_writer_write_fixed_u16_array bebop_reader_read_fixed_u16_array
   \<and> fixed_array_roundtrip (\<lambda>_. True) bebop_writer_write_fixed_i16_array bebop_reader_read_fixed_i16_array
   \<and> fixed_array_roundtrip (\<lambda>_. True) bebop_writer_write_fixed_u32_array bebop_reader_read_fixed_u32_array
   \<and> fixed_array_roundtrip (\<lambda>_. True) bebop_writer_write_fixed_i32_array bebop_reader_read_fixed_i32_array
   \<and> fixed_array_roundtrip (\<lambda>_. True) bebop_writer_write_fixed_u64_array bebop_reader_read_fixed_u64_array
   \<and> fixed_array_roundtrip (\<lambda>_. True) bebop_writer_write_fixed_i64_array bebop_reader_read_fixed_i64_array
   \<and> fixed_array_roundtrip (\<lambda>_. True) bebop_writer_write_fixed_f16_array bebop_reader_read_fixed_f16_array
   \<and> fixed_array_roundtrip (\<lambda>_. True) bebop_writer_write_fixed_bf16_array bebop_reader_read_fixed_bf16_array
   \<and> fixed_array_roundtrip (\<lambda>_. True) bebop_writer_write_fixed_f32_array bebop_reader_read_fixed_f32_array
   \<and> fixed_array_roundtrip (\<lambda>_. True) bebop_writer_write_fixed_f64_array bebop_reader_read_fixed_f64_array
   \<and> fixed_array_roundtrip (\<lambda>_. True) bebop_writer_write_fixed_i128_array bebop_reader_read_fixed_i128_array
   \<and> fixed_array_roundtrip (\<lambda>_. True) bebop_writer_write_fixed_u128_array bebop_reader_read_fixed_u128_array
   \<and> fixed_array_roundtrip (\<lambda>_. True) bebop_writer_write_fixed_timestamp_array bebop_reader_read_fixed_timestamp_array
   \<and> fixed_array_roundtrip (\<lambda>_. True) bebop_writer_write_fixed_duration_array bebop_reader_read_fixed_duration_array
   \<and> fixed_array_roundtrip (\<lambda>u. length u = 16) bebop_writer_write_fixed_uuid_array bebop_reader_read_fixed_uuid_array
   \<and> fixed_array_roundtrip (\<lambda>_. True) bebop_writer_write_fixed_u8_array bebop_reader_read_fixed_u8_array
   \<and> fixed_array_roundtrip (\<lambda>_. True) bebop_writer_write_fixed_i8_array bebop_reader_read_fixed_i8_array
   \<and> fixed_array_roundtrip (\<lambda>b. b = 0 \<or> b = 1) (write_bool_objects bebop_writer_write_fixed_bool_array)
       bebop_reader_read_fixed_bool_array"
  by (intro conjI; rule fixed_array_roundtripI;
      (simp add: array_write_defs write_bytes_array write_fixed_bytes_array write_bool_array fixed_array_defs; fail)?)
     (auto simp: timestamp_roundtrip duration_roundtrip)

lemma length_concat_le_bytes: "length (concat (map (le_bytes n) xs)) = n * length xs"
  by (induction xs) auto

lemma list_all_True: "list_all (\<lambda>_. True) xs"
  by (induction xs) auto

text \<open>
  The portable writes agree with the little-endian ones. Storing a 16-, 32- or 64-bit value byte
  by byte stores the bytes that the block copy stores, and writing the elements of an array one by
  one after the reservation gives the buffer, the context and the result of copying the whole block.
\<close>

theorem portable_writes_agree:
  assumes "writer_inv w"
  shows "write_u16_portable a = le_bytes 2 a \<and> write_u32_portable b = le_bytes 4 b
    \<and> write_u64_portable c = le_bytes 8 c
    \<and> (2 * length us \<le> wr_available w \<longrightarrow>
         write_array_loop bebop_writer_write_u16 (Some w) ctx us
           = writer_put (Some w) ctx (concat (map (le_bytes 2) us))
       \<and> write_array_loop bebop_writer_write_f16 (Some w) ctx us
           = writer_put (Some w) ctx (concat (map (le_bytes 2) us))
       \<and> write_array_loop bebop_writer_write_bf16 (Some w) ctx us
           = writer_put (Some w) ctx (concat (map (le_bytes 2) us)))
    \<and> (4 * length vs \<le> wr_available w \<longrightarrow>
         write_array_loop bebop_writer_write_u32 (Some w) ctx vs
           = writer_put (Some w) ctx (concat (map (le_bytes 4) vs))
       \<and> write_array_loop bebop_writer_write_f32 (Some w) ctx vs
           = writer_put (Some w) ctx (concat (map (le_bytes 4) vs)))
    \<and> (8 * length ws \<le> wr_available w \<longrightarrow>
         write_array_loop bebop_writer_write_u64 (Some w) ctx ws
           = writer_put (Some w) ctx (concat (map (le_bytes 8) ws))
       \<and> write_array_loop bebop_writer_write_f64 (Some w) ctx ws
           = writer_put (Some w) ctx (concat (map (le_bytes 8) ws)))
    \<and> (16 * length xs \<le> wr_available w \<longrightarrow>
         write_array_loop bebop_writer_write_i128 (Some w) ctx xs
           = writer_put (Some w) ctx (concat (map (le_bytes 16) xs))
       \<and> write_array_loop bebop_writer_write_u128 (Some w) ctx xs
           = writer_put (Some w) ctx (concat (map (le_bytes 16) xs)))"
proof -
  have u128: "u128_bytes = le_bytes 16"
    by (rule ext) (rule u128_bytes_eq)
  show ?thesis
    using assms
    by (simp add: length_concat_le_bytes put_room list_all_True u128
        write_u16_portable_def write_u32_portable_def write_u64_portable_def le_bytes_def [of 2 a]
        le_bytes_def [of 4 b] le_bytes_def [of 8 c] upt_rec
        codec_u16.write_loop_room codec_f16.write_loop_room codec_bf16.write_loop_room
        codec_u32.write_loop_room codec_f32.write_loop_room
        codec_u64.write_loop_room codec_f64.write_loop_room
        codec_i128.write_loop_room [unfolded u128] codec_u128.write_loop_room [unfolded u128])
qed

theorem portable_writes_agree_witness:
  "write_u32_portable 0x04030201 = [1, 2, 3, 4]
   \<and> write_array_loop bebop_writer_write_u16 (Some (tiny_writer\<lparr>wr_cap := 9\<rparr>)) full_context [1, 2]
       = writer_put (Some (tiny_writer\<lparr>wr_cap := 9\<rparr>)) full_context [1, 0, 2, 0]"
proof -
  let ?w = "tiny_writer\<lparr>wr_cap := 9\<rparr>"
  have enc: "concat (map (le_bytes 2) [1, 2 :: u16]) = [1, 0, 2, 0]" "le_bytes 4 (0x04030201 :: u32) = [1, 2, 3, 4]"
    by (simp_all add: le_bytes_def upt_rec)
  have inv: "writer_inv ?w" and av: "wr_available ?w = 8"
    by (simp_all add: writer_inv_def tiny_writer_def wr_available_def)
  show ?thesis
    using portable_writes_agree [OF inv, of 0 "0x04030201" 0 "[1, 2]" full_context "[]" "[]" "[]"]
    unfolding enc by (simp add: av)
qed

end
