(* ===== verification/Wire_Message.thy ===== *)
theory Wire_Message
  imports Wire_Bits Wire_Writer
begin

text \<open>
  Indexed messages (\<^verbatim>\<open>bebop/src/bebop_wire.c\<close>, \<^verbatim>\<open>bebop/include/bebop_wire_codegen.h\<close>, format in
  \<^verbatim>\<open>docs/WIRE.md\<close>): a length, the concatenated fields, the boundaries between them, a directory of
  the present tags in one of eight representations, and a control byte. This theory holds the
  encoder, the validating and the lazy parser, field lookup and the field iterator.

  A pointer into the encoded message is its offset from \<^verbatim>\<open>encoded.data\<close>; a field view is the offset
  and the length of the field, \<open>None\<close> for \<^verbatim>\<open>{NULL, 0}\<close>. Tags are bytes, counts and sizes natural
  numbers.
\<close>

section \<open>Data\<close>

abbreviation (input) BEBOP_MESSAGE_DIRECTORY_EMPTY :: nat where "BEBOP_MESSAGE_DIRECTORY_EMPTY \<equiv> 0"
abbreviation (input) BEBOP_MESSAGE_DIRECTORY_TINY1 :: nat where "BEBOP_MESSAGE_DIRECTORY_TINY1 \<equiv> 1"
abbreviation (input) BEBOP_MESSAGE_DIRECTORY_TINY2 :: nat where "BEBOP_MESSAGE_DIRECTORY_TINY2 \<equiv> 2"
abbreviation (input) BEBOP_MESSAGE_DIRECTORY_TINY3 :: nat where "BEBOP_MESSAGE_DIRECTORY_TINY3 \<equiv> 3"
abbreviation (input) BEBOP_MESSAGE_DIRECTORY_MASK8 :: nat where "BEBOP_MESSAGE_DIRECTORY_MASK8 \<equiv> 4"
abbreviation (input) BEBOP_MESSAGE_DIRECTORY_MASK16 :: nat where "BEBOP_MESSAGE_DIRECTORY_MASK16 \<equiv> 5"
abbreviation (input) BEBOP_MESSAGE_DIRECTORY_MASK32 :: nat where "BEBOP_MESSAGE_DIRECTORY_MASK32 \<equiv> 6"
abbreviation (input) BEBOP_MESSAGE_DIRECTORY_BLOCKS :: nat where "BEBOP_MESSAGE_DIRECTORY_BLOCKS \<equiv> 7"

record bebop_message_directory_layout_t =
  dl_kind :: nat
  dl_size :: nat
  dl_block_mask :: byte

record Bebop_MessageIndex =
  mi_encoded :: "byte list"
  mi_boundaries :: nat
  mi_directory :: nat
  mi_field_count :: nat
  mi_offset_width :: nat
  mi_directory_kind :: nat

record Bebop_MessageFieldIterator =
  it_index :: "Bebop_MessageIndex option"
  it_block_entry :: nat
  it_pending_tags :: u32
  it_rank :: nat
  it_block :: nat
  it_tag_base :: nat

type_synonym Bebop_View = "(nat \<times> nat) option"

section \<open>Layout of the directory\<close>

definition bebop_message_tags_valid :: "byte list option \<Rightarrow> nat \<Rightarrow> bool" where
  "bebop_message_tags_valid tags cnt =
     (if cnt = 0 then True
      else case tags of
             None \<Rightarrow> False
           | Some ts \<Rightarrow> ts ! 0 \<noteq> 0 \<and> list_all (\<lambda>i. \<not> ts ! i \<le> ts ! (i - 1)) [1..<cnt])"

definition message_block_mask :: "byte list \<Rightarrow> nat \<Rightarrow> byte" where
  "message_block_mask tags cnt =
     fold (\<lambda>i block_mask. block_mask OR push_bit (drop_bit 5 (unat (tags ! i) - 1)) 1) [0..<cnt] 0"

text \<open>The choice between blocks and a mask, and then between that and a tiny directory.\<close>

definition message_mask_layout :: "byte list \<Rightarrow> nat \<Rightarrow> bebop_message_directory_layout_t" where
  "message_mask_layout tags cnt =
     (let block_mask = message_block_mask tags cnt;
          block_size = 1 + 5 * bebop_wire_popcount32 (ucast block_mask);
          max_tag = tags ! (cnt - 1)
      in if max_tag \<le> 8 \<and> 1 \<le> block_size
         then \<lparr>dl_kind = BEBOP_MESSAGE_DIRECTORY_MASK8, dl_size = 1, dl_block_mask = block_mask\<rparr>
         else if max_tag \<le> 16 \<and> 2 \<le> block_size
         then \<lparr>dl_kind = BEBOP_MESSAGE_DIRECTORY_MASK16, dl_size = 2, dl_block_mask = block_mask\<rparr>
         else if max_tag \<le> 32 \<and> 4 \<le> block_size
         then \<lparr>dl_kind = BEBOP_MESSAGE_DIRECTORY_MASK32, dl_size = 4, dl_block_mask = block_mask\<rparr>
         else \<lparr>dl_kind = BEBOP_MESSAGE_DIRECTORY_BLOCKS, dl_size = block_size, dl_block_mask = block_mask\<rparr>)"

definition bebop_message_directory_layout :: "byte list \<Rightarrow> nat \<Rightarrow> bebop_message_directory_layout_t" where
  "bebop_message_directory_layout tags cnt =
     (if cnt = 0 then \<lparr>dl_kind = BEBOP_MESSAGE_DIRECTORY_EMPTY, dl_size = 0, dl_block_mask = 0\<rparr>
      else
        let layout = message_mask_layout tags cnt
        in if cnt \<le> 3 \<and> cnt < dl_size layout then layout\<lparr>dl_kind := cnt, dl_size := cnt\<rparr>
           else layout)"

section \<open>Parsing\<close>

text \<open>The \<^verbatim>\<open>switch\<close> on the directory kind: the size of the directory, or \<open>None\<close> where it rejects.\<close>

definition message_directory_size :: "byte list \<Rightarrow> nat \<Rightarrow> nat \<Rightarrow> nat option" where
  "message_directory_size enc body_length kind =
     (if kind = BEBOP_MESSAGE_DIRECTORY_EMPTY then Some 0
      else if kind = BEBOP_MESSAGE_DIRECTORY_TINY1 \<or> kind = BEBOP_MESSAGE_DIRECTORY_TINY2
              \<or> kind = BEBOP_MESSAGE_DIRECTORY_TINY3 then Some kind
      else if kind = BEBOP_MESSAGE_DIRECTORY_MASK8 then Some 1
      else if kind = BEBOP_MESSAGE_DIRECTORY_MASK16 then Some 2
      else if kind = BEBOP_MESSAGE_DIRECTORY_MASK32 then Some 4
      else if kind = BEBOP_MESSAGE_DIRECTORY_BLOCKS
      then if body_length < 2 then None
           else Some (1 + 5 * bebop_wire_popcount32 (ucast (enc ! (length enc - 2))))
      else None)"

text \<open>The loop over the block entries: the number of fields, or \<open>None\<close> where it rejects.\<close>

fun message_blocks_loop :: "byte list \<Rightarrow> byte \<Rightarrow> nat list \<Rightarrow> nat \<Rightarrow> nat \<Rightarrow> nat option" where
  "message_blocks_loop enc block_mask [] entry rank = Some rank"
| "message_blocks_loop enc block_mask (block # bs) entry rank =
     (if block_mask AND push_bit block 1 = 0 then message_blocks_loop enc block_mask bs entry rank
      else if unat (enc ! entry) \<noteq> rank then None
      else let mask = bebop_wire_load_le (drop (entry + 1) enc) 4
           in if mask = 0 \<or> (block = 7 \<and> mask AND 0x80000000 \<noteq> 0) then None
              else message_blocks_loop enc block_mask bs (entry + 5) (rank + bebop_wire_popcount32 mask))"

definition message_field_count :: "byte list \<Rightarrow> nat \<Rightarrow> nat \<Rightarrow> nat \<Rightarrow> nat option" where
  "message_field_count enc kind directory directory_size =
     (if kind \<ge> BEBOP_MESSAGE_DIRECTORY_MASK8 \<and> kind \<le> BEBOP_MESSAGE_DIRECTORY_MASK32
      then Some (bebop_wire_popcount32 (bebop_wire_load_le (drop directory enc) directory_size))
      else if kind = BEBOP_MESSAGE_DIRECTORY_BLOCKS
      then message_blocks_loop enc (enc ! (directory + directory_size - 1)) [0..<8] directory 0
      else if kind \<ge> BEBOP_MESSAGE_DIRECTORY_TINY1 \<and> kind \<le> BEBOP_MESSAGE_DIRECTORY_TINY3 then Some kind
      else Some 0)"

definition message_tiny_valid :: "byte list \<Rightarrow> nat \<Rightarrow> nat \<Rightarrow> bool" where
  "message_tiny_valid enc directory field_count \<longleftrightarrow>
     enc ! directory \<noteq> 0
     \<and> list_all (\<lambda>i. \<not> enc ! (directory + i) \<le> enc ! (directory + i - 1)) [1..<field_count]"

fun message_boundaries_loop :: "byte list \<Rightarrow> nat \<Rightarrow> nat \<Rightarrow> nat \<Rightarrow> u32 \<Rightarrow> nat list \<Rightarrow> bool" where
  "message_boundaries_loop enc boundaries width payload_size previous [] = True"
| "message_boundaries_loop enc boundaries width payload_size previous (i # is) =
     (let boundary = bebop_wire_load_le (drop (boundaries + i * width) enc) width
      in if boundary < previous \<or> unat boundary > payload_size then False
         else message_boundaries_loop enc boundaries width payload_size boundary is)"

definition bebop_message_index_parse ::
  "Bebop_MessageIndex option \<Rightarrow> byte list option \<Rightarrow> Bebop_Result \<times> Bebop_MessageIndex option" where
  "bebop_message_index_parse out encoded =
     (case (out, encoded) of
        (Some _, Some enc) \<Rightarrow>
          if length enc < BEBOP_WIRE_SIZE_LEN + 1 then (BEBOP_RESULT_MALFORMED, out)
          else
            let body_length = unat (bebop_wire_load_le enc 4)
            in if body_length \<noteq> length enc - BEBOP_WIRE_SIZE_LEN \<or> body_length = 0
               then (BEBOP_RESULT_MALFORMED, out)
               else
                 let control = enc ! (length enc - 1);
                     width_code = control AND 3;
                     kind = unat (drop_bit 2 control AND 7)
                 in if control AND 0xe0 \<noteq> 0 \<or> width_code = 3 then (BEBOP_RESULT_MALFORMED, out)
                    else
                      let width = 2 ^ unat width_code
                      in case message_directory_size enc body_length kind of
                           None \<Rightarrow> (BEBOP_RESULT_MALFORMED, out)
                         | Some directory_size \<Rightarrow>
                             if directory_size + 1 > body_length then (BEBOP_RESULT_MALFORMED, out)
                             else
                               let directory = length enc - 1 - directory_size
                               in if kind = BEBOP_MESSAGE_DIRECTORY_BLOCKS
                                     \<and> enc ! (directory + directory_size - 1) = 0
                                  then (BEBOP_RESULT_MALFORMED, out)
                                  else case message_field_count enc kind directory directory_size of
                                         None \<Rightarrow> (BEBOP_RESULT_MALFORMED, out)
                                       | Some field_count \<Rightarrow>
                                           if field_count = 0 \<and> kind \<noteq> BEBOP_MESSAGE_DIRECTORY_EMPTY
                                              \<or> field_count \<noteq> 0 \<and> kind = BEBOP_MESSAGE_DIRECTORY_EMPTY
                                              \<or> (kind \<ge> BEBOP_MESSAGE_DIRECTORY_TINY1
                                                 \<and> kind \<le> BEBOP_MESSAGE_DIRECTORY_TINY3
                                                 \<and> \<not> message_tiny_valid enc directory field_count)
                                           then (BEBOP_RESULT_MALFORMED, out)
                                           else
                                             let boundary_count = (if field_count = 0 then 0 else field_count - 1)
                                             in if boundary_count > (SIZE_MAX - directory_size - 1) div width
                                                then (BEBOP_RESULT_MALFORMED, out)
                                                else
                                                  let boundary_size = boundary_count * width
                                                  in if boundary_size + directory_size + 1 > body_length
                                                     then (BEBOP_RESULT_MALFORMED, out)
                                                     else
                                                       let boundaries = directory - boundary_size;
                                                           payload_size = boundaries - BEBOP_WIRE_SIZE_LEN
                                                       in if \<not> message_boundaries_loop enc boundaries width payload_size 0
                                                               [0..<boundary_count]
                                                             \<or> field_count = 0 \<and> payload_size \<noteq> 0
                                                          then (BEBOP_RESULT_MALFORMED, out)
                                                          else (BEBOP_RESULT_OK,
                                                                Some \<lparr>mi_encoded = enc, mi_boundaries = boundaries,
                                                                      mi_directory = directory,
                                                                      mi_field_count = field_count mod 256,
                                                                      mi_offset_width = width,
                                                                      mi_directory_kind = kind\<rparr>)
      | _ \<Rightarrow> (BEBOP_RESULT_NULL, out))"

definition bebop_message_index_init ::
  "Bebop_MessageIndex option \<Rightarrow> byte list option \<Rightarrow> Bebop_Result \<times> Bebop_MessageIndex option" where
  "bebop_message_index_init out encoded = bebop_message_index_parse out encoded"

text \<open>The index that the parse in \<open>bebop_message_index_validate\<close> fills is a local variable.\<close>

definition blank_index :: Bebop_MessageIndex where
  "blank_index = \<lparr>mi_encoded = [], mi_boundaries = 0, mi_directory = 0, mi_field_count = 0,
     mi_offset_width = 0, mi_directory_kind = 0\<rparr>"

definition bebop_message_index_validate :: "Bebop_MessageIndex option \<Rightarrow> Bebop_Result" where
  "bebop_message_index_validate index =
     (case index of
        None \<Rightarrow> BEBOP_RESULT_NULL
      | Some idx \<Rightarrow> fst (bebop_message_index_parse (Some blank_index) (Some (mi_encoded idx))))"

definition bebop_message_index_begin ::
  "Bebop_MessageIndex option \<Rightarrow> byte list option \<Rightarrow> Bebop_Result \<times> Bebop_MessageIndex option" where
  "bebop_message_index_begin out encoded =
     (case (out, encoded) of
        (Some _, Some enc) \<Rightarrow>
          if length enc < BEBOP_WIRE_SIZE_LEN + 1 then (BEBOP_RESULT_MALFORMED, out)
          else
            let body_length = unat (bebop_wire_load_le enc 4)
            in if body_length \<noteq> length enc - BEBOP_WIRE_SIZE_LEN \<or> body_length = 0
               then (BEBOP_RESULT_MALFORMED, out)
               else
                 let control = enc ! (length enc - 1);
                     width_code = control AND 3;
                     kind = unat (drop_bit 2 control AND 7)
                 in if control AND 0xe0 \<noteq> 0 \<or> width_code = 3 then (BEBOP_RESULT_MALFORMED, out)
                    else if kind = BEBOP_MESSAGE_DIRECTORY_BLOCKS
                            \<and> (body_length < 2 \<or> enc ! (length enc - 2) = 0)
                    then (BEBOP_RESULT_MALFORMED, out)
                    else
                      let width = 2 ^ unat width_code
                      in case message_directory_size enc body_length kind of
                           None \<Rightarrow> (BEBOP_RESULT_MALFORMED, out)
                         | Some directory_size \<Rightarrow>
                             if directory_size + 1 > body_length then (BEBOP_RESULT_MALFORMED, out)
                             else
                               let directory = length enc - 1 - directory_size
                               in case message_field_count enc kind directory directory_size of
                                    None \<Rightarrow> (BEBOP_RESULT_MALFORMED, out)
                                  | Some field_count \<Rightarrow>
                                      if field_count = 0 \<and> kind \<noteq> BEBOP_MESSAGE_DIRECTORY_EMPTY
                                         \<or> (kind \<ge> BEBOP_MESSAGE_DIRECTORY_TINY1
                                            \<and> kind \<le> BEBOP_MESSAGE_DIRECTORY_TINY3
                                            \<and> \<not> message_tiny_valid enc directory field_count)
                                      then (BEBOP_RESULT_MALFORMED, out)
                                      else
                                        let boundary_size = (if field_count = 0 then 0 else (field_count - 1) * width)
                                        in if (if field_count = 0 then body_length \<noteq> 1
                                               else boundary_size + directory_size + 1 > body_length)
                                           then (BEBOP_RESULT_MALFORMED, out)
                                           else (BEBOP_RESULT_OK,
                                                 Some \<lparr>mi_encoded = enc, mi_boundaries = directory - boundary_size,
                                                       mi_directory = directory,
                                                       mi_field_count = field_count mod 256,
                                                       mi_offset_width = width,
                                                       mi_directory_kind = kind\<rparr>)
      | _ \<Rightarrow> (BEBOP_RESULT_NULL, out))"

text \<open>
  Reading an index from a reader: the cursor is put back when the length is bad, and left after the
  length when the index itself is rejected.
\<close>

definition reader_message_index ::
  "(Bebop_MessageIndex option \<Rightarrow> byte list option \<Rightarrow> Bebop_Result \<times> Bebop_MessageIndex option)
     \<Rightarrow> Bebop_Reader option \<Rightarrow> Bebop_MessageIndex option \<Rightarrow> Bebop_MessageIndex rd_result" where
  "reader_message_index parse rd out =
     (case (rd, out) of
        (Some r, Some _) \<Rightarrow>
          (case bebop_reader_read_length rd (Some 0) of
             (BEBOP_RESULT_OK, Some r', Some body_length) \<Rightarrow>
               if unat body_length > rd_remaining r' then (BEBOP_RESULT_MALFORMED, rd, out)
               else
                 let encoded = span_at (rd_current r) (unat body_length + BEBOP_WIRE_SIZE_LEN) (rd_buf r)
                 in (case parse out (Some encoded) of
                       (BEBOP_RESULT_OK, out') \<Rightarrow>
                         (BEBOP_RESULT_OK,
                          Some (r\<lparr>rd_current := rd_current r + (unat body_length + BEBOP_WIRE_SIZE_LEN)\<rparr>), out')
                     | (result, out') \<Rightarrow> (result, Some r', out'))
           | (result, _, _) \<Rightarrow> (result, rd, out))
      | _ \<Rightarrow> (BEBOP_RESULT_NULL, rd, out))"

definition bebop_reader_read_message_index ::
  "Bebop_Reader option \<Rightarrow> Bebop_MessageIndex option \<Rightarrow> Bebop_MessageIndex rd_result" where
  "bebop_reader_read_message_index = reader_message_index bebop_message_index_parse"

definition bebop_reader_begin_message_index ::
  "Bebop_Reader option \<Rightarrow> Bebop_MessageIndex option \<Rightarrow> Bebop_MessageIndex rd_result" where
  "bebop_reader_begin_message_index = reader_message_index bebop_message_index_begin"

section \<open>Field lookup\<close>

definition bebop_message_field_at_rank ::
  "Bebop_MessageIndex \<Rightarrow> nat \<Rightarrow> Bebop_View \<Rightarrow> Bebop_Result \<times> Bebop_View" where
  "bebop_message_field_at_rank index rank field =
     (if rank \<ge> mi_field_count index then (BEBOP_RESULT_INVALID, field)
      else
        let enc = mi_encoded index; width = mi_offset_width index; boundaries = mi_boundaries index;
            payload = boundaries - BEBOP_WIRE_SIZE_LEN;
            start = (if rank = 0 then 0
                     else unat (bebop_wire_load_le (drop (boundaries + (rank - 1) * width) enc) width));
            stop = (if rank + 1 = mi_field_count index then payload
                    else unat (bebop_wire_load_le (drop (boundaries + rank * width) enc) width))
        in if stop < start \<or> stop > payload then (BEBOP_RESULT_MALFORMED, field)
           else (BEBOP_RESULT_OK, Some (BEBOP_WIRE_SIZE_LEN + start, stop - start)))"

definition bebop_message_index_field_at ::
  "Bebop_MessageIndex option \<Rightarrow> nat \<Rightarrow> Bebop_View option \<Rightarrow> Bebop_Result \<times> Bebop_View option" where
  "bebop_message_index_field_at index rank field =
     (case (index, field) of
        (Some idx, Some f) \<Rightarrow>
          (case bebop_message_field_at_rank idx rank f of (result, f') \<Rightarrow> (result, Some f'))
      | _ \<Rightarrow> (BEBOP_RESULT_NULL, field))"

text \<open>
  The rank of a tag in the directory: \<open>Some None\<close> when the tag is absent, \<open>None\<close> in the
  \<^verbatim>\<open>default\<close> case of the \<^verbatim>\<open>switch\<close>. The loop over a tiny directory stops at the first tag that is
  equal or larger.
\<close>

fun message_tiny_rank :: "byte list \<Rightarrow> nat \<Rightarrow> byte \<Rightarrow> nat list \<Rightarrow> nat option" where
  "message_tiny_rank enc directory tag [] = None"
| "message_tiny_rank enc directory tag (rank # ranks) =
     (if enc ! (directory + rank) = tag then Some rank
      else if enc ! (directory + rank) > tag then None
      else message_tiny_rank enc directory tag ranks)"

definition message_mask_rank :: "byte list \<Rightarrow> nat \<Rightarrow> nat \<Rightarrow> byte \<Rightarrow> nat option" where
  "message_mask_rank enc directory mask_width tag =
     (if unat tag > mask_width * 8 then None
      else
        let mask = bebop_wire_load_le (drop directory enc) mask_width;
            b = push_bit (unat tag - 1) 1
        in if mask AND b = 0 then None
           else Some (bebop_wire_popcount32 (mask AND (b - 1))))"

definition message_block_rank :: "byte list \<Rightarrow> nat \<Rightarrow> byte \<Rightarrow> nat option" where
  "message_block_rank enc directory tag =
     (let block = drop_bit 5 (unat tag - 1);
          block_bit = push_bit block 1 :: byte;
          top_mask = enc ! (length enc - 2)
      in if top_mask AND block_bit = 0 then None
         else
           let entry = directory + 5 * bebop_wire_popcount32 (ucast (top_mask AND (block_bit - 1)));
               mask = bebop_wire_load_le (drop (entry + 1) enc) 4;
               b = push_bit ((unat tag - 1) mod 32) 1
           in if mask AND b = 0 then None
              else Some (unat (enc ! entry) + bebop_wire_popcount32 (mask AND (b - 1))))"

definition message_tag_rank :: "Bebop_MessageIndex \<Rightarrow> byte \<Rightarrow> nat option option" where
  "message_tag_rank index tag =
     (let kind = mi_directory_kind index; enc = mi_encoded index; directory = mi_directory index
      in if kind = BEBOP_MESSAGE_DIRECTORY_TINY1 \<or> kind = BEBOP_MESSAGE_DIRECTORY_TINY2
            \<or> kind = BEBOP_MESSAGE_DIRECTORY_TINY3
         then Some (message_tiny_rank enc directory tag [0..<mi_field_count index])
         else if kind = BEBOP_MESSAGE_DIRECTORY_MASK8 \<or> kind = BEBOP_MESSAGE_DIRECTORY_MASK16
                 \<or> kind = BEBOP_MESSAGE_DIRECTORY_MASK32
         then Some (message_mask_rank enc directory (2 ^ (kind - BEBOP_MESSAGE_DIRECTORY_MASK8)) tag)
         else if kind = BEBOP_MESSAGE_DIRECTORY_BLOCKS then Some (message_block_rank enc directory tag)
         else None)"

definition bebop_message_index_field ::
  "Bebop_MessageIndex option \<Rightarrow> byte \<Rightarrow> Bebop_View option \<Rightarrow> bool option
     \<Rightarrow> Bebop_Result \<times> Bebop_View option \<times> bool option" where
  "bebop_message_index_field index tag field present =
     (case (index, field, present) of
        (Some idx, Some _, Some _) \<Rightarrow>
          if tag = 0 \<or> mi_field_count idx = 0 then (BEBOP_RESULT_OK, Some None, Some False)
          else
            (case message_tag_rank idx tag of
               None \<Rightarrow> (BEBOP_RESULT_MALFORMED, Some None, Some False)
             | Some None \<Rightarrow> (BEBOP_RESULT_OK, Some None, Some False)
             | Some (Some rank) \<Rightarrow>
                 (case bebop_message_field_at_rank idx (rank mod 256) None of
                    (BEBOP_RESULT_OK, f) \<Rightarrow> (BEBOP_RESULT_OK, Some f, Some True)
                  | (result, f) \<Rightarrow> (result, Some f, Some False)))
      | _ \<Rightarrow> (BEBOP_RESULT_NULL, field, present))"

fun block_masks_loop :: "byte list \<Rightarrow> byte \<Rightarrow> nat list \<Rightarrow> nat \<Rightarrow> u32 list \<Rightarrow> u32 list" where
  "block_masks_loop enc top_mask [] entry masks = masks"
| "block_masks_loop enc top_mask (block # bs) entry masks =
     (if top_mask AND push_bit block 1 \<noteq> 0
      then block_masks_loop enc top_mask bs (entry + 5)
             (masks[block := bebop_wire_load_le (drop (entry + 1) enc) 4])
      else block_masks_loop enc top_mask bs entry masks)"

definition bebop_message_index_block_masks ::
  "Bebop_MessageIndex option \<Rightarrow> u32 list option \<Rightarrow> Bebop_Result \<times> u32 list option" where
  "bebop_message_index_block_masks index masks =
     (case (index, masks) of
        (Some idx, Some _) \<Rightarrow>
          if mi_directory_kind idx \<noteq> BEBOP_MESSAGE_DIRECTORY_BLOCKS then (BEBOP_RESULT_INVALID, masks)
          else (BEBOP_RESULT_OK,
                Some (block_masks_loop (mi_encoded idx) (mi_encoded idx ! (length (mi_encoded idx) - 2))
                        [0..<8] (mi_directory idx) (replicate 8 0)))
      | _ \<Rightarrow> (BEBOP_RESULT_NULL, masks))"

section \<open>Iteration\<close>

definition bebop_message_field_iterator_init ::
  "Bebop_MessageFieldIterator option \<Rightarrow> Bebop_MessageIndex option \<Rightarrow> Bebop_MessageFieldIterator option" where
  "bebop_message_field_iterator_init iterator index =
     (case iterator of
        None \<Rightarrow> None
      | Some _ \<Rightarrow>
          let it = \<lparr>it_index = index, it_block_entry = (case index of None \<Rightarrow> 0 | Some idx \<Rightarrow> mi_directory idx),
                    it_pending_tags = 0, it_rank = 0, it_block = 0, it_tag_base = 0\<rparr>
          in case index of
               None \<Rightarrow> Some it
             | Some idx \<Rightarrow>
                 if mi_directory_kind idx \<ge> BEBOP_MESSAGE_DIRECTORY_MASK8
                    \<and> mi_directory_kind idx \<le> BEBOP_MESSAGE_DIRECTORY_MASK32
                 then Some (it\<lparr>it_pending_tags :=
                        bebop_wire_load_le (drop (mi_directory idx) (mi_encoded idx))
                          (2 ^ (mi_directory_kind idx - BEBOP_MESSAGE_DIRECTORY_MASK8))\<rparr>)
                 else Some it)"

text \<open>
  The two nested loops that refill the pending tags from the next non-empty block; \<open>False\<close> when no
  block is left. The block number grows in every iteration.
\<close>

function message_skip_blocks :: "byte \<Rightarrow> nat \<Rightarrow> nat" where
  "message_skip_blocks top_mask block =
     (if block < 8 \<and> top_mask AND push_bit block 1 = 0 then message_skip_blocks top_mask (block + 1)
      else block)"
  by pat_completeness auto
termination
  by (relation "measure (\<lambda>(_, block). 8 - block)") auto

declare message_skip_blocks.simps [simp del]

lemma message_skip_blocks_ge: "block \<le> message_skip_blocks top_mask block"
  by (induction top_mask block rule: message_skip_blocks.induct)
     (subst message_skip_blocks.simps, auto)

lemma message_skip_blocks_le: "block \<le> 8 \<Longrightarrow> message_skip_blocks top_mask block \<le> 8"
  by (induction top_mask block rule: message_skip_blocks.induct)
     (subst message_skip_blocks.simps, auto)

function message_refill ::
  "byte list \<Rightarrow> Bebop_MessageFieldIterator \<Rightarrow> bool \<times> Bebop_MessageFieldIterator" where
  "message_refill enc it =
     (if it_pending_tags it \<noteq> 0 then (True, it)
      else
        let block = message_skip_blocks (enc ! (length enc - 2)) (it_block it)
        in if block \<ge> 8 then (False, it\<lparr>it_block := block\<rparr>)
           else message_refill enc
                  (it\<lparr>it_tag_base := block * 32,
                      it_pending_tags := bebop_wire_load_le (drop (it_block_entry it + 1) enc) 4,
                      it_block_entry := it_block_entry it + 5,
                      it_block := block + 1\<rparr>))"
  by pat_completeness auto
termination
proof (relation "measure (\<lambda>(_, it). 8 - it_block it)")
  fix enc :: "byte list" and it :: Bebop_MessageFieldIterator and block
  assume "block = message_skip_blocks (enc ! (length enc - 2)) (it_block it)" and "\<not> 8 \<le> block"
  then have "it_block it \<le> block" "block < 8"
    using message_skip_blocks_ge by auto
  then show "((enc, it\<lparr>it_tag_base := block * 32,
                      it_pending_tags := bebop_wire_load_le (drop (it_block_entry it + 1) enc) 4,
                      it_block_entry := it_block_entry it + 5,
                      it_block := block + 1\<rparr>), enc, it) \<in> measure (\<lambda>(_, it). 8 - it_block it)"
    by simp
qed simp

declare message_refill.simps [simp del]

text \<open>
  The next tag of an iterator. The outer \<open>None\<close> stands for the undefined count of trailing zeros of
  an empty mask.
\<close>

definition message_take_tag ::
  "Bebop_MessageFieldIterator \<Rightarrow> (byte \<times> Bebop_MessageFieldIterator) option" where
  "message_take_tag it =
     (case bebop_wire_ctz32 (it_pending_tags it) of
        None \<Rightarrow> None
      | Some b \<Rightarrow> Some (of_nat (it_tag_base it + b + 1),
                        it\<lparr>it_pending_tags := it_pending_tags it AND (it_pending_tags it - 1)\<rparr>))"

definition bebop_message_field_iterator_next_tag ::
  "Bebop_MessageFieldIterator option \<Rightarrow> byte option \<Rightarrow> bool option
     \<Rightarrow> (Bebop_Result \<times> Bebop_MessageFieldIterator option \<times> byte option \<times> bool option) option" where
  "bebop_message_field_iterator_next_tag iterator tag present =
     (case (iterator, tag, present) of
        (Some it, Some _, Some _) \<Rightarrow>
          (case it_index it of
             None \<Rightarrow> Some (BEBOP_RESULT_NULL, iterator, tag, present)
           | Some index \<Rightarrow>
               if it_rank it = mi_field_count index then Some (BEBOP_RESULT_OK, iterator, tag, Some False)
               else if mi_directory_kind index \<ge> BEBOP_MESSAGE_DIRECTORY_TINY1
                       \<and> mi_directory_kind index \<le> BEBOP_MESSAGE_DIRECTORY_TINY3
               then Some (BEBOP_RESULT_OK, Some (it\<lparr>it_rank := (it_rank it + 1) mod 256\<rparr>),
                          Some (mi_encoded index ! (mi_directory index + it_rank it)), Some True)
               else if mi_directory_kind index \<ge> BEBOP_MESSAGE_DIRECTORY_MASK8
                       \<and> mi_directory_kind index \<le> BEBOP_MESSAGE_DIRECTORY_MASK32
               then (case message_take_tag (it\<lparr>it_tag_base := 0\<rparr>) of
                       None \<Rightarrow> None
                     | Some (t, it') \<Rightarrow>
                         Some (BEBOP_RESULT_OK,
                               Some (it'\<lparr>it_tag_base := it_tag_base it, it_rank := (it_rank it + 1) mod 256\<rparr>),
                               Some t, Some True))
               else if mi_directory_kind index = BEBOP_MESSAGE_DIRECTORY_BLOCKS
               then (case message_refill (mi_encoded index) it of
                       (False, it1) \<Rightarrow> Some (BEBOP_RESULT_MALFORMED, Some it1, tag, Some False)
                     | (True, it1) \<Rightarrow>
                         (case message_take_tag it1 of
                            None \<Rightarrow> None
                          | Some (t, it') \<Rightarrow>
                              Some (BEBOP_RESULT_OK, Some (it'\<lparr>it_rank := (it_rank it + 1) mod 256\<rparr>),
                                    Some t, Some True)))
               else Some (BEBOP_RESULT_MALFORMED, iterator, tag, Some False))
      | _ \<Rightarrow> Some (BEBOP_RESULT_NULL, iterator, tag, present))"

definition bebop_message_field_iterator_next ::
  "Bebop_MessageFieldIterator option \<Rightarrow> byte option \<Rightarrow> Bebop_View option \<Rightarrow> bool option
     \<Rightarrow> (Bebop_Result \<times> Bebop_MessageFieldIterator option \<times> byte option \<times> Bebop_View option \<times> bool option) option" where
  "bebop_message_field_iterator_next iterator tag field present =
     (if iterator = None \<or> tag = None \<or> field = None \<or> present = None
      then Some (BEBOP_RESULT_NULL, iterator, tag, field, present)
      else
        (case bebop_message_field_iterator_next_tag iterator tag present of
           None \<Rightarrow> None
         | Some (result, iterator', tag', present') \<Rightarrow>
             if result \<noteq> BEBOP_RESULT_OK \<or> present' \<noteq> Some True
             then Some (result, iterator', tag', Some None, present')
             else (case iterator' of
                     Some it \<Rightarrow>
                       (case it_index it of
                          Some index \<Rightarrow>
                            (case bebop_message_field_at_rank index ((it_rank it + 255) mod 256) None of
                               (result', f) \<Rightarrow> Some (result', iterator', tag', Some f, present'))
                        | None \<Rightarrow> Some (result, iterator', tag', Some None, present'))
                   | None \<Rightarrow> Some (result, iterator', tag', Some None, present'))))"

section \<open>Encoding\<close>

definition message_offset_width :: "nat \<Rightarrow> nat" where
  "message_offset_width payload_size =
     (if payload_size \<le> 255 then 1 else if payload_size \<le> 65535 then 2 else 4)"

definition tag_array :: "byte list option \<Rightarrow> byte list" where
  "tag_array tags = (case tags of None \<Rightarrow> [] | Some ts \<Rightarrow> ts)"

definition bebop_indexed_message_size :: "nat \<Rightarrow> byte list option \<Rightarrow> nat \<Rightarrow> nat" where
  "bebop_indexed_message_size payload_size sorted_tags field_count =
     (if \<not> bebop_message_tags_valid sorted_tags field_count \<or> payload_size > UINT32_MAX then SIZE_MAX
      else
        let width = message_offset_width payload_size;
            directory = bebop_message_directory_layout (tag_array sorted_tags) field_count;
            boundary_count = (if field_count = 0 then 0 else field_count - 1);
            metadata_size = 1 + dl_size directory + boundary_count * width
        in if payload_size > UINT32_MAX - metadata_size
              \<or> payload_size > SIZE_MAX - BEBOP_WIRE_SIZE_LEN - metadata_size
           then SIZE_MAX
           else BEBOP_WIRE_SIZE_LEN + payload_size + metadata_size)"

text \<open>The check of the offsets: the first is 0, they do not decrease and none exceeds the payload.\<close>

definition message_offsets_valid :: "u32 list \<Rightarrow> nat \<Rightarrow> nat \<Rightarrow> bool" where
  "message_offsets_valid offsets field_count payload_size \<longleftrightarrow>
     (field_count \<noteq> 0 \<longrightarrow> offsets ! 0 = 0)
     \<and> list_all (\<lambda>i. \<not> (unat (offsets ! i) > payload_size \<or> (i \<noteq> 0 \<and> offsets ! i < offsets ! (i - 1))))
         [0..<field_count]"

definition message_tag_mask :: "byte list \<Rightarrow> nat \<Rightarrow> u32" where
  "message_tag_mask tags cnt = fold (\<lambda>i mask. mask OR push_bit (unat (tags ! i) - 1) 1) [0..<cnt] 0"

text \<open>
  The \<^verbatim>\<open>while\<close> loop over the tags of one block: the mask and the tags from \<^verbatim>\<open>next\<close> on; and the loop
  over the blocks: the bytes of the entries.
\<close>

fun message_collect_block :: "nat \<Rightarrow> nat \<Rightarrow> u32 \<Rightarrow> byte list \<Rightarrow> u32 \<times> byte list" where
  "message_collect_block first_tag block_limit msk [] = (msk, [])"
| "message_collect_block first_tag block_limit msk (t # ts) =
     (if unat t < block_limit
      then message_collect_block first_tag block_limit (msk OR push_bit (unat t - first_tag) 1) ts
      else (msk, t # ts))"

fun message_store_blocks :: "byte \<Rightarrow> nat list \<Rightarrow> byte list \<Rightarrow> byte \<Rightarrow> byte list" where
  "message_store_blocks block_mask [] tags rank = []"
| "message_store_blocks block_mask (block # bs) tags rank =
     (if block_mask AND push_bit block 1 = 0 then message_store_blocks block_mask bs tags rank
      else
        let first_tag = block * 32 + 1; block_limit = first_tag + 32;
            (mask, tags') = message_collect_block first_tag block_limit 0 tags
        in rank # bebop_wire_store_le mask 4
           @ message_store_blocks block_mask bs tags' (rank + of_nat (bebop_wire_popcount32 mask)))"

definition message_directory_bytes :: "bebop_message_directory_layout_t \<Rightarrow> byte list \<Rightarrow> nat \<Rightarrow> byte list option" where
  "message_directory_bytes directory sorted_tags field_count =
     (let kind = dl_kind directory
      in if kind = BEBOP_MESSAGE_DIRECTORY_EMPTY then Some []
         else if kind = BEBOP_MESSAGE_DIRECTORY_TINY1 \<or> kind = BEBOP_MESSAGE_DIRECTORY_TINY2
                 \<or> kind = BEBOP_MESSAGE_DIRECTORY_TINY3 then Some (take field_count sorted_tags)
         else if kind = BEBOP_MESSAGE_DIRECTORY_MASK8 \<or> kind = BEBOP_MESSAGE_DIRECTORY_MASK16
                 \<or> kind = BEBOP_MESSAGE_DIRECTORY_MASK32
         then Some (bebop_wire_store_le (message_tag_mask sorted_tags field_count) (dl_size directory))
         else if kind = BEBOP_MESSAGE_DIRECTORY_BLOCKS
         then Some (message_store_blocks (dl_block_mask directory) [0..<8] (take field_count sorted_tags) 0
                    @ [dl_block_mask directory])
         else None)"

definition bebop_writer_end_indexed_message ::
  "Bebop_Writer option \<Rightarrow> Bebop_Context \<Rightarrow> nat \<Rightarrow> nat \<Rightarrow> byte list option \<Rightarrow> u32 list option \<Rightarrow> nat
     \<Rightarrow> wr_result" where
  "bebop_writer_end_indexed_message wr ctx length_position payload_start sorted_tags payload_offsets field_count =
     (case wr of
        None \<Rightarrow> (BEBOP_RESULT_NULL, wr, ctx)
      | Some w \<Rightarrow>
          if field_count \<noteq> 0 \<and> (sorted_tags = None \<or> payload_offsets = None) then (BEBOP_RESULT_NULL, wr, ctx)
          else if \<not> bebop_message_tags_valid sorted_tags field_count then (BEBOP_RESULT_INVALID, wr, ctx)
          else
            let written = bebop_writer_length wr; tags = tag_array sorted_tags;
                offsets = (case payload_offsets of None \<Rightarrow> [] | Some os \<Rightarrow> os)
            in if length_position > SIZE_MAX - BEBOP_WIRE_SIZE_LEN
                  \<or> length_position + BEBOP_WIRE_SIZE_LEN \<noteq> payload_start \<or> payload_start > written
               then (BEBOP_RESULT_INVALID, wr, ctx)
               else
                 let payload_size = written - payload_start
                 in if payload_size > UINT32_MAX then (BEBOP_RESULT_OVERFLOW, wr, ctx)
                    else if field_count = 0 \<and> payload_size \<noteq> 0
                            \<or> \<not> message_offsets_valid offsets field_count payload_size
                    then (BEBOP_RESULT_INVALID, wr, ctx)
                    else
                      let width = message_offset_width payload_size;
                          width_code = (if width = 1 then 0 else if width = 2 then 1 else 2);
                          directory = bebop_message_directory_layout tags field_count;
                          boundary_count = (if field_count = 0 then 0 else field_count - 1);
                          metadata_size = 1 + dl_size directory + boundary_count * width
                      in if payload_size > UINT32_MAX - metadata_size then (BEBOP_RESULT_OVERFLOW, wr, ctx)
                         else
                           (case bebop_writer_reserve wr ctx metadata_size of
                              (BEBOP_RESULT_OK, Some w', ctx') \<Rightarrow>
                                (case message_directory_bytes directory tags field_count of
                                   None \<Rightarrow> (BEBOP_RESULT_INVALID, Some w', ctx')
                                 | Some dir \<Rightarrow>
                                     let output = concat (map (\<lambda>i. bebop_wire_store_le (offsets ! i) width) [1..<field_count])
                                                  @ dir @ [push_bit 2 (of_nat (dl_kind directory)) OR width_code]
                                     in (case bebop_writer_end_length (Some (w'\<lparr>wr_data := wr_data w' @ output\<rparr>))
                                                length_position (of_nat (payload_size + metadata_size)) of
                                           (result, wr'') \<Rightarrow> (result, wr'', ctx')))
                            | res \<Rightarrow> res))"

end
