(* ===== verification/Wire_Message_Index.thy ===== *)
theory Wire_Message_Index
  imports Wire_Message
begin

text \<open>
  What the message index means. \<open>index_tags\<close> is the list of tags that a directory holds, whatever its
  representation; the lemmas show that a parsed index has a strictly ascending list of tags, that the
  rank computed by lookup is the position in that list, that the iterator enumerates it, and that the
  encoder produces an index that parses to the tags it was given.
\<close>

section \<open>Ranks in ascending lists\<close>

text \<open>The rank of \<open>x\<close>: how many elements are smaller.\<close>

definition rank_in :: "nat list \<Rightarrow> nat \<Rightarrow> nat" where
  "rank_in xs x = length (filter (\<lambda>y. y < x) xs)"

lemma rank_in_append [simp]: "rank_in (xs @ ys) x = rank_in xs x + rank_in ys x"
  by (simp add: rank_in_def)

lemma rank_in_all: "\<forall>y\<in>set xs. y < x \<Longrightarrow> rank_in xs x = length xs"
  by (induction xs) (auto simp: rank_in_def)

lemma rank_in_none: "\<forall>y\<in>set xs. x \<le> y \<Longrightarrow> rank_in xs x = 0"
  by (induction xs) (auto simp: rank_in_def)

lemma nth_rank_in:
  assumes "sorted_wrt (<) xs" and "x \<in> set xs"
  shows "rank_in xs x < length xs \<and> xs ! rank_in xs x = x"
  using assms
proof (induction xs)
  case Nil
  then show ?case by simp
next
  case (Cons y ys)
  show ?case
  proof (cases "x = y")
    case True
    then have "rank_in (y # ys) x = 0"
      using Cons.prems by (auto simp: rank_in_def filter_empty_conv)
    then show ?thesis
      using True by simp
  next
    case False
    then have "rank_in (y # ys) x = Suc (rank_in ys x)"
      using Cons.prems by (auto simp: rank_in_def)
    then show ?thesis
      using Cons False by auto
  qed
qed

lemma rank_in_nth: "sorted_wrt (<) xs \<Longrightarrow> i < length xs \<Longrightarrow> rank_in xs (xs ! i) = i"
  using nth_rank_in [of xs "xs ! i"] nth_eq_iff_index_eq [of xs "rank_in xs (xs ! i)" i]
  by (simp add: strict_sorted_iff)

section \<open>Tags of a mask\<close>

definition mask_tags :: "nat \<Rightarrow> u32 \<Rightarrow> nat list" where
  "mask_tags base m = map (\<lambda>i. base + i + 1) (filter (bit m) [0..<32])"

lemma length_mask_tags [simp]: "length (mask_tags base m) = bebop_wire_popcount32 m"
  by (simp add: mask_tags_def bebop_wire_popcount32_def)

lemma mask_tags_0 [simp]: "mask_tags base 0 = []"
  by (simp add: mask_tags_def)

lemma bit32_less: "bit (m :: u32) i \<Longrightarrow> i < 32"
  using bit_imp_le_length [of m i] by simp

lemma set_mask_tags: "set (mask_tags base m) = {base + i + 1 | i. bit m i}"
  by (auto simp: mask_tags_def image_iff intro: bit32_less)

lemma mask_tags_bounds: "x \<in> set (mask_tags base m) \<Longrightarrow> base < x \<and> x \<le> base + 32"
  by (auto simp: set_mask_tags dest: bit_imp_le_length)

lemma sorted_mask_tags: "sorted_wrt (<) (mask_tags base m)"
  by (simp add: mask_tags_def sorted_wrt_map sorted_wrt_filter strict_sorted_iff)

lemma mem_mask_tags: "base < x \<Longrightarrow> x \<in> set (mask_tags base m) \<longleftrightarrow> bit m (x - base - 1)"
proof -
  assume "base < x"
  then have "x = base + i + 1 \<longleftrightarrow> i = x - base - 1" for i
    by auto
  then show ?thesis
    by (auto simp: set_mask_tags)
qed

lemma rank_mask_tags:
  assumes "base < x" and "x \<le> base + 32"
  shows "rank_in (mask_tags base m) x = bebop_wire_popcount32 (m AND (2 ^ (x - base - 1) - 1))"
proof -
  let ?k = "x - base - 1"
  have k: "?k < LENGTH(32)"
    using assms by simp
  have lt: "base + i + 1 < x \<longleftrightarrow> i < ?k" for i
    using assms by auto
  have bits: "bit (m AND (2 ^ ?k - 1)) = (\<lambda>i. i < ?k \<and> bit m i)"
    using bit_below_exp [OF k, of m] by (intro ext) blast
  show ?thesis
    unfolding rank_in_def mask_tags_def filter_map length_map bebop_wire_popcount32_def bits o_def lt
    by (simp add: conj_commute)
qed

lemma strict_sorted_eqI:
  "\<lbrakk>sorted_wrt (<) xs; sorted_wrt (<) ys; set xs = set ys\<rbrakk> \<Longrightarrow> xs = (ys :: nat list)"
  by (simp add: strict_sorted_iff sorted_distinct_set_unique)

text \<open>Clearing the lowest bit takes the first tag away.\<close>

lemma mask_tags_take:
  assumes "bebop_wire_ctz32 m = Some k"
  shows "mask_tags base m = (base + k + 1) # mask_tags base (m AND (m - 1))"
proof (rule strict_sorted_eqI)
  have k: "bit m k" "\<forall>j<k. \<not> bit m j"
    using assms by (auto simp: ctz32_Some_iff)
  note cl = clear_lowest_bit [OF k]
  have above: "k < i" if "bit (m AND (m - 1)) i" for i
    using that cl k(2) by (metis linorder_neqE_nat)
  show "sorted_wrt (<) ((base + k + 1) # mask_tags base (m AND (m - 1)))"
    using above by (auto simp: sorted_mask_tags set_mask_tags)
  show "set (mask_tags base m) = set ((base + k + 1) # mask_tags base (m AND (m - 1)))"
    using cl k by (auto simp: set_mask_tags)
qed (rule sorted_mask_tags)

section \<open>Tags of a block directory\<close>

abbreviation block_entry_mask :: "byte list \<Rightarrow> nat \<Rightarrow> u32" where
  "block_entry_mask enc entry \<equiv> bebop_wire_load_le (drop (entry + 1) enc) 4"

fun block_tags :: "byte list \<Rightarrow> byte \<Rightarrow> nat list \<Rightarrow> nat \<Rightarrow> nat list" where
  "block_tags enc bm [] entry = []"
| "block_tags enc bm (b # bs) entry =
     (if bit bm b then mask_tags (32 * b) (block_entry_mask enc entry) @ block_tags enc bm bs (entry + 5)
      else block_tags enc bm bs entry)"

lemma blocks_loop_Cons:
  "message_blocks_loop enc bm (b # bs) entry rank =
     (if bit bm b
      then if unat (enc ! entry) \<noteq> rank \<or> block_entry_mask enc entry = 0
              \<or> (b = 7 \<and> bit (block_entry_mask enc entry) 31) then None
           else message_blocks_loop enc bm bs (entry + 5) (rank + bebop_wire_popcount32 (block_entry_mask enc entry))
      else message_blocks_loop enc bm bs entry rank)"
  using and_exp_eq_0_iff_not_bit [of "block_entry_mask enc entry" 31]
  by (simp add: and_exp_eq_0_iff_not_bit Let_def)

declare message_blocks_loop.simps(2) [simp del]
declare blocks_loop_Cons [simp]

lemma blocks_loop_count:
  "message_blocks_loop enc bm bs entry rank = Some n \<Longrightarrow> n = rank + length (block_tags enc bm bs entry)"
  by (induction bs arbitrary: entry rank) (force split: if_splits)+

lemma block_tags_bounds:
  "x \<in> set (block_tags enc bm bs entry) \<Longrightarrow> \<exists>b\<in>set bs. bit bm b \<and> 32 * b < x \<and> x \<le> 32 * b + 32"
  by (induction bs arbitrary: entry) (auto split: if_splits dest!: mask_tags_bounds)

lemma sorted_block_tags:
  "sorted_wrt (<) bs \<Longrightarrow> sorted_wrt (<) (block_tags enc bm bs entry)"
proof (induction bs arbitrary: entry)
  case Nil
  then show ?case by simp
next
  case (Cons b bs)
  have "x < y" if "x \<in> set (mask_tags (32 * b) m)" "y \<in> set (block_tags enc bm bs (entry + 5))" for x y m
    using mask_tags_bounds [OF that(1)] block_tags_bounds [OF that(2)] Cons.prems by fastforce
  with Cons show ?case
    by (auto simp: sorted_wrt_append sorted_mask_tags)
qed

lemma blocks_loop_max:
  assumes "message_blocks_loop enc bm bs entry rank = Some n" and "\<forall>b\<in>set bs. b < 8"
  shows "\<forall>x\<in>set (block_tags enc bm bs entry). 1 \<le> x \<and> x \<le> 255"
  using assms
proof (induction bs arbitrary: entry rank)
  case Nil
  then show ?case by simp
next
  case (Cons b bs)
  show ?case
  proof (cases "bit bm b")
    case True
    let ?m = "block_entry_mask enc entry"
    have top: "\<not> (b = 7 \<and> bit ?m 31)"
      using Cons.prems(1) True by (auto split: if_splits)
    have "1 \<le> x \<and> x \<le> 255" if "x \<in> set (mask_tags (32 * b) ?m)" for x
    proof -
      obtain i where i: "x = 32 * b + i + 1" "bit ?m i" "i < 32"
        using \<open>x \<in> _\<close> bit32_less by (auto simp: set_mask_tags)
      then show ?thesis
        using top Cons.prems(2) by (cases "b = 7"; cases "i = 31") auto
    qed
    moreover obtain r where "message_blocks_loop enc bm bs (entry + 5) r = Some n"
      using Cons.prems(1) True by (auto split: if_splits)
    ultimately show ?thesis
      using Cons.IH Cons.prems(2) True by auto
  next
    case False
    then show ?thesis
      using Cons by auto
  qed
qed

text \<open>Where the entry of a block stands and what it holds.\<close>

lemma blocks_loop_entry:
  assumes "message_blocks_loop enc bm bs entry rank = Some n" and "sorted_wrt (<) bs"
    and "b \<in> set bs" and "bit bm b"
  shows "\<exists>pre post. let e = entry + 5 * length (filter (\<lambda>j. j < b \<and> bit bm j) bs) in
     block_tags enc bm bs entry = pre @ mask_tags (32 * b) (block_entry_mask enc e) @ post
     \<and> (\<forall>x\<in>set pre. x \<le> 32 * b) \<and> (\<forall>x\<in>set post. 32 * b + 32 < x)
     \<and> unat (enc ! e) = rank + length pre"
  using assms
proof (induction bs arbitrary: entry rank)
  case Nil
  then show ?case by simp
next
  case (Cons c bs)
  show ?case
  proof (cases "c = b")
    case True
    then have none: "filter (\<lambda>j. j < b \<and> bit bm j) (c # bs) = []"
      using Cons.prems(2) by (auto simp: filter_empty_conv)
    have "\<forall>x\<in>set (block_tags enc bm bs (entry + 5)). 32 * b + 32 < x"
      using block_tags_bounds Cons.prems(2) True by fastforce
    moreover have "unat (enc ! entry) = rank"
      using Cons.prems(1,4) True by (auto split: if_splits)
    ultimately show ?thesis
      using True Cons.prems(4) unfolding none
      by - (rule exI [of _ "[]"], rule exI [of _ "block_tags enc bm bs (entry + 5)"], simp)
  next
    case False
    then have c: "c < b" "b \<in> set bs"
      using Cons.prems(2,3) by auto
    show ?thesis
    proof (cases "bit bm c")
      case True
      then have "message_blocks_loop enc bm bs (entry + 5)
          (rank + bebop_wire_popcount32 (block_entry_mask enc entry)) = Some n"
        using Cons.prems(1) by (auto split: if_splits)
      from Cons.IH [OF this _ c(2) Cons.prems(4)] Cons.prems(2) obtain pre post where
        "let e = entry + 5 + 5 * length (filter (\<lambda>j. j < b \<and> bit bm j) bs) in
         block_tags enc bm bs (entry + 5) = pre @ mask_tags (32 * b) (block_entry_mask enc e) @ post
         \<and> (\<forall>x\<in>set pre. x \<le> 32 * b) \<and> (\<forall>x\<in>set post. 32 * b + 32 < x)
         \<and> unat (enc ! e) = rank + bebop_wire_popcount32 (block_entry_mask enc entry) + length pre"
        by auto
      moreover have "\<forall>x\<in>set (mask_tags (32 * c) (block_entry_mask enc entry)). x \<le> 32 * b"
        using mask_tags_bounds [of _ "32 * c"] c(1) by fastforce
      moreover have "length (filter (\<lambda>j. j < b \<and> bit bm j) (c # bs)) = Suc (length (filter (\<lambda>j. j < b \<and> bit bm j) bs))"
        using True c(1) by simp
      ultimately show ?thesis
        using True
        by - (rule exI [of _ "mask_tags (32 * c) (block_entry_mask enc entry) @ pre"],
              rule exI [of _ post], auto simp: Let_def add.assoc)
    next
      case False
      then have "message_blocks_loop enc bm bs entry rank = Some n"
        using Cons.prems(1) by auto
      then show ?thesis
        using Cons.IH [OF _ _ c(2) Cons.prems(4)] Cons.prems(2) False by auto
    qed
  qed
qed

section \<open>Tags of an index\<close>

definition index_tags :: "Bebop_MessageIndex \<Rightarrow> nat list" where
  "index_tags idx =
     (let enc = mi_encoded idx; kind = mi_directory_kind idx; directory = mi_directory idx
      in if kind \<in> {1, 2, 3} then map unat (span_at directory (mi_field_count idx) enc)
         else if kind \<in> {4, 5, 6} then mask_tags 0 (bebop_wire_load_le (drop directory enc) (2 ^ (kind - 4)))
         else if kind = 7 then block_tags enc (enc ! (length enc - 2)) [0..<8] directory
         else [])"

text \<open>What the parsers establish of the directory.\<close>

definition directory_wf :: "Bebop_MessageIndex \<Rightarrow> bool" where
  "directory_wf idx \<longleftrightarrow>
     (let enc = mi_encoded idx; kind = mi_directory_kind idx; directory = mi_directory idx; n = mi_field_count idx
      in n \<le> 255 \<and> kind \<le> 7 \<and> (kind = 0 \<longleftrightarrow> n = 0)
       \<and> (kind \<in> {1, 2, 3} \<longrightarrow> n = kind \<and> directory + n \<le> length enc \<and> message_tiny_valid enc directory n)
       \<and> (kind \<in> {4, 5, 6} \<longrightarrow> directory + 2 ^ (kind - 4) \<le> length enc
            \<and> n = bebop_wire_popcount32 (bebop_wire_load_le (drop directory enc) (2 ^ (kind - 4))))
       \<and> (kind = 7 \<longrightarrow> message_blocks_loop enc (enc ! (length enc - 2)) [0..<8] directory 0 = Some n))"

lemma directory_cases:
  assumes "directory_wf idx"
  obtains (empty) "mi_directory_kind idx = 0" "mi_field_count idx = 0" "index_tags idx = []"
  | (tiny) "mi_directory_kind idx \<in> {1, 2, 3}" "mi_field_count idx = mi_directory_kind idx"
      "mi_directory idx + mi_field_count idx \<le> length (mi_encoded idx)"
      "index_tags idx = map unat (span_at (mi_directory idx) (mi_field_count idx) (mi_encoded idx))"
      "message_tiny_valid (mi_encoded idx) (mi_directory idx) (mi_field_count idx)"
  | (mask) w where "mi_directory_kind idx \<in> {4, 5, 6}" "w = 2 ^ (mi_directory_kind idx - 4)" "w \<in> {1, 2, 4}"
      "mi_directory idx + w \<le> length (mi_encoded idx)"
      "mi_field_count idx = bebop_wire_popcount32 (bebop_wire_load_le (drop (mi_directory idx) (mi_encoded idx)) w)"
      "index_tags idx = mask_tags 0 (bebop_wire_load_le (drop (mi_directory idx) (mi_encoded idx)) w)"
  | (blocks) "mi_directory_kind idx = 7"
      "message_blocks_loop (mi_encoded idx) (mi_encoded idx ! (length (mi_encoded idx) - 2)) [0..<8] (mi_directory idx) 0
         = Some (mi_field_count idx)"
      "index_tags idx = block_tags (mi_encoded idx) (mi_encoded idx ! (length (mi_encoded idx) - 2)) [0..<8] (mi_directory idx)"
proof -
  let ?enc = "mi_encoded idx" and ?d = "mi_directory idx" and ?k = "mi_directory_kind idx" and ?n = "mi_field_count idx"
  note wf = assms [unfolded directory_wf_def Let_def]
  then have "?k \<le> 7"
    by blast
  then consider "?k = 0" | "?k \<in> {1, 2, 3}" | "?k \<in> {4, 5, 6}" | "?k = 7"
    unfolding insert_iff empty_iff by linarith
  then show ?thesis
  proof cases
    case 1
    moreover from this have "?n = 0" "index_tags idx = []"
      using wf by (simp_all add: index_tags_def)
    ultimately show ?thesis
      by (rule empty)
  next
    case 2
    moreover from this have "?n = ?k" "?d + ?n \<le> length ?enc" "message_tiny_valid ?enc ?d ?n"
      using wf by blast+
    moreover have "index_tags idx = map unat (span_at ?d ?n ?enc)"
      unfolding index_tags_def Let_def if_P [OF 2] ..
    ultimately show ?thesis
      using tiny by blast
  next
    case 3
    moreover from this have "?d + 2 ^ (?k - 4) \<le> length ?enc"
        "?n = bebop_wire_popcount32 (bebop_wire_load_le (drop ?d ?enc) (2 ^ (?k - 4)))"
      using wf by blast+
    moreover have "?k \<notin> {1, 2, 3}" "2 ^ (?k - 4) \<in> {1, 2, 4 :: nat}"
      using 3 by auto
    ultimately show ?thesis
      using mask [of "2 ^ (?k - 4)"] unfolding index_tags_def Let_def by simp
  next
    case 4
    moreover from this have "message_blocks_loop ?enc (?enc ! (length ?enc - 2)) [0..<8] ?d 0 = Some ?n"
      using wf by blast
    moreover have "index_tags idx = block_tags ?enc (?enc ! (length ?enc - 2)) [0..<8] ?d"
      using 4 by (simp add: index_tags_def Let_def)
    ultimately show ?thesis
      by (rule blocks)
  qed
qed

lemma tiny_valid_sorted:
  assumes "message_tiny_valid enc d n" and "d + n \<le> length enc" and "0 < n"
  shows "sorted_wrt (<) (map unat (span_at d n enc)) \<and> (\<forall>x\<in>set (map unat (span_at d n enc)). 1 \<le> x)"
proof -
  let ?t = "\<lambda>i. unat (enc ! (d + i))"
  have step: "?t i < ?t (Suc i)" if "Suc i < n" for i
  proof -
    have "\<forall>i\<in>{1..<n}. \<not> enc ! (d + i) \<le> enc ! (d + i - 1)"
      using assms(1) unfolding message_tiny_valid_def list_all_iff set_upt by blast
    from bspec [OF this, of "Suc i"] have "\<not> enc ! (d + Suc i) \<le> enc ! (d + Suc i - 1)"
      using that by simp
    then show ?thesis
      by (simp add: word_less_nat_alt not_le)
  qed
  have sorted: "sorted_wrt (<) (map unat (span_at d n enc))"
    using step assms(2) by (intro sorted_wrt_iff_nth_Suc_transp [THEN iffD2]) (auto simp: transp_def)
  have "map unat (span_at d n enc) ! 0 \<ge> 1"
    using assms by (simp add: message_tiny_valid_def unat_gt_0 [unfolded One_nat_def] Suc_le_eq)
  moreover have "map unat (span_at d n enc) ! 0 \<le> map unat (span_at d n enc) ! i" if "i < n" for i
    using sorted_wrt_nth_less [OF sorted, of 0 i] that assms(2) by (cases "i = 0") auto
  ultimately have "1 \<le> map unat (span_at d n enc) ! i" if "i < n" for i
    using that by (meson order_trans)
  then show ?thesis
    using sorted assms(2) by (auto simp: in_set_conv_nth)
qed

lemma unat_byte_less: "unat (b :: byte) < 256"
  using unsigned_less [of b] by simp

lemma load_le_bit_bound:
  assumes "width \<in> {1, 2, 4}" and "width \<le> length data" and "bit (bebop_wire_load_le data width) i"
  shows "i < 8 * width"
proof -
  have "bit (le_word (take width data) :: u32) i"
    using assms bebop_wire_load_le_eq [OF assms(1,2)] by simp
  then have "i div 8 < width"
    using assms(2) by (auto simp: bit_le_word)
  then show ?thesis
    by (simp add: div_less_iff_less_mult mult.commute)
qed

lemma index_tags_wf:
  assumes "directory_wf idx"
  shows "length (index_tags idx) = mi_field_count idx" and "sorted_wrt (<) (index_tags idx)"
    and "\<forall>x\<in>set (index_tags idx). 1 \<le> x \<and> x \<le> 255"
proof -
  have "length (index_tags idx) = mi_field_count idx \<and> sorted_wrt (<) (index_tags idx)
      \<and> (\<forall>x\<in>set (index_tags idx). 1 \<le> x \<and> x \<le> 255)"
    using assms
  proof (cases rule: directory_cases)
    case empty
    then show ?thesis by simp
  next
    case tiny
    have "0 < mi_field_count idx"
      using tiny(1,2) by auto
    moreover have "x \<le> 255" if "x \<in> set (index_tags idx)" for x
      using that unat_byte_less unfolding tiny(4) by (auto simp: less_Suc_eq_le [symmetric])
    ultimately show ?thesis
      using tiny_valid_sorted [OF tiny(5,3)] tiny(3,4) by auto
  next
    case (mask w)
    show ?thesis
      unfolding mask(6) using mask(5) mask_tags_bounds [of _ 0] by (fastforce simp: sorted_mask_tags)
  next
    case blocks
    then show ?thesis
      using blocks_loop_count [OF blocks(2)] blocks_loop_max [OF blocks(2)] sorted_block_tags [of "[0..<8]"]
      by (simp add: strict_sorted_iff)
  qed
  then show "length (index_tags idx) = mi_field_count idx" "sorted_wrt (<) (index_tags idx)"
    "\<forall>x\<in>set (index_tags idx). 1 \<le> x \<and> x \<le> 255"
    by auto
qed

section \<open>Lookup computes the position\<close>

lemma tiny_rank_correct:
  assumes "sorted_wrt (<) (map (\<lambda>i. unat (enc ! (d + i))) is)"
  shows "message_tiny_rank enc d tag is =
     (if unat tag \<in> set (map (\<lambda>i. unat (enc ! (d + i))) is)
      then Some (is ! rank_in (map (\<lambda>i. unat (enc ! (d + i))) is) (unat tag)) else None)"
  using assms
proof (induction "is")
  case Nil
  then show ?case by simp
next
  case (Cons i "is")
  let ?t = "unat (enc ! (d + i))"
  consider "?t = unat tag" | "?t > unat tag" | "?t < unat tag"
    by linarith
  then show ?case
  proof cases
    case 1
    then have "rank_in (map (\<lambda>i. unat (enc ! (d + i))) (i # is)) (unat tag) = 0"
      using Cons.prems by (intro rank_in_none) auto
    then show ?thesis
      using 1 by (auto simp: word_unat_eq_iff)
  next
    case 2
    then have "unat tag \<notin> set (map (\<lambda>i. unat (enc ! (d + i))) (i # is))"
      using Cons.prems by auto
    then show ?thesis
      using 2 by (auto simp: word_less_nat_alt)
  next
    case 3
    then have "enc ! (d + i) \<noteq> tag" "\<not> enc ! (d + i) > tag"
      by (auto simp: word_less_nat_alt)
    moreover have "rank_in (map (\<lambda>i. unat (enc ! (d + i))) (i # is)) (unat tag)
        = Suc (rank_in (map (\<lambda>i. unat (enc ! (d + i))) is) (unat tag))"
      using 3 by (simp add: rank_in_def)
    moreover have "unat tag \<in> set (map (\<lambda>i. unat (enc ! (d + i))) (i # is))
        \<longleftrightarrow> unat tag \<in> set (map (\<lambda>i. unat (enc ! (d + i))) is)"
      using 3 by auto
    ultimately show ?thesis
      using Cons by simp
  qed
qed

lemma mask_rank_correct:
  assumes "width \<in> {1, 2, 4}" and "d + width \<le> length enc" and "tag \<noteq> 0"
  shows "message_mask_rank enc d width tag =
     (let tags = mask_tags 0 (bebop_wire_load_le (drop d enc) width)
      in if unat tag \<in> set tags then Some (rank_in tags (unat tag)) else None)"
proof -
  let ?m = "bebop_wire_load_le (drop d enc) width"
  have pos: "0 < unat tag"
    using assms(3) by (simp add: unat_gt_0)
  have "unat tag \<le> 8 * width" if "bit ?m (unat tag - 1)"
  proof -
    have "unat tag - 1 < 8 * width"
      using load_le_bit_bound [OF assms(1) _ that] assms(2) by simp
    then show ?thesis
      using pos by linarith
  qed
  moreover have "unat tag \<le> 0 + 32" if "unat tag \<le> 8 * width"
    using that assms(1) by auto
  ultimately show ?thesis
    using pos rank_mask_tags [of 0 "unat tag" ?m]
    by (auto simp: message_mask_rank_def mem_mask_tags and_exp_eq_0_iff_not_bit Let_def mult.commute)
qed

lemma popcount_below_byte:
  assumes "b < 8"
  shows "bebop_wire_popcount32 (ucast ((bm :: byte) AND (2 ^ b - 1))) = length (filter (\<lambda>j. j < b \<and> bit bm j) [0..<8])"
proof -
  have bits: "bit (ucast (bm AND (2 ^ b - 1)) :: u32) j \<longleftrightarrow> j < 32 \<and> j < b \<and> bit bm j" for j
    using bit_below_exp [of b bm j] assms by (simp add: bit_ucast_iff)
  have up: "[0..<32] = [0..<8] @ [8..<32]"
    using upt_add_eq_append [of 0 8 24] by simp
  have "filter (bit (ucast (bm AND (2 ^ b - 1)) :: u32)) [0..<32] = filter (\<lambda>j. j < b \<and> bit bm j) [0..<8]"
    unfolding up filter_append using assms
    by (auto simp: bits filter_empty_conv intro!: filter_cong)
  then show ?thesis
    by (simp add: bebop_wire_popcount32_def)
qed

lemma block_rank_correct:
  assumes "message_blocks_loop enc (enc ! (length enc - 2)) [0..<8] d 0 = Some n" and "tag \<noteq> 0"
  shows "message_block_rank enc d tag =
     (let tags = block_tags enc (enc ! (length enc - 2)) [0..<8] d
      in if unat tag \<in> set tags then Some (rank_in tags (unat tag)) else None)"
proof -
  let ?bm = "enc ! (length enc - 2)"
  define b where "b = (unat tag - 1) div 32"
  define k where "k = (unat tag - 1) mod 32"
  let ?tags = "block_tags enc ?bm [0..<8] d"
  have pos: "0 < unat tag"
    using assms(2) by (simp add: unat_gt_0)
  then have tag: "unat tag = 32 * b + k + 1"
    using mult_div_mod_eq [of 32 "unat tag - 1"] unfolding b_def k_def by linarith
  have b8: "b < 8"
    using unat_byte_less [of tag] by (simp add: b_def div_less_iff_less_mult)
  have blk: "drop_bit 5 (unat tag - 1) = b"
    by (simp add: b_def drop_bit_eq_div)
  show ?thesis
  proof (cases "bit ?bm b")
    case False
    have "unat tag \<notin> set ?tags"
    proof
      assume "unat tag \<in> set ?tags"
      then obtain c where c: "bit ?bm c" "32 * c < unat tag" "unat tag \<le> 32 * c + 32"
        using block_tags_bounds by blast
      then have "b = c"
        unfolding b_def by (intro div_nat_eqI) auto
      with False c show False by simp
    qed
    then show ?thesis
      using False unfolding message_block_rank_def Let_def blk k_def [symmetric] by (simp add: and_exp_eq_0_iff_not_bit)
  next
    case True
    define e where "e = d + 5 * length (filter (\<lambda>j. j < b \<and> bit ?bm j) [0..<8])"
    have e: "d + 5 * bebop_wire_popcount32 (ucast (?bm AND (2 ^ b - 1))) = e"
      using popcount_below_byte [OF b8] by (simp add: e_def)
    obtain pre post where split:
      "?tags = pre @ mask_tags (32 * b) (block_entry_mask enc e) @ post"
      "\<forall>x\<in>set pre. x \<le> 32 * b" "\<forall>x\<in>set post. 32 * b + 32 < x" "unat (enc ! e) = length pre"
      using blocks_loop_entry [OF assms(1) _ _ True] b8
      by (auto simp: e_def Let_def strict_sorted_iff)
    have k: "k < 32"
      by (simp add: k_def)
    have mem: "unat tag \<in> set ?tags \<longleftrightarrow> bit (block_entry_mask enc e) k"
    proof -
      have "unat tag \<notin> set pre" "unat tag \<notin> set post"
        using split(2,3) tag k by fastforce+
      then show ?thesis
        using mem_mask_tags [of "32 * b" "unat tag" "block_entry_mask enc e"] tag unfolding split(1)
        by simp
    qed
    have "rank_in pre (unat tag) = length pre"
      using split(2) tag by (intro rank_in_all) fastforce
    moreover have "rank_in post (unat tag) = 0"
      using split(3) tag k by (intro rank_in_none) fastforce
    moreover have "rank_in (mask_tags (32 * b) (block_entry_mask enc e)) (unat tag)
        = bebop_wire_popcount32 (block_entry_mask enc e AND (2 ^ k - 1))"
      using rank_mask_tags [of "32 * b" "unat tag" "block_entry_mask enc e"] tag k by simp
    ultimately have "rank_in ?tags (unat tag)
        = unat (enc ! e) + bebop_wire_popcount32 (block_entry_mask enc e AND (2 ^ k - 1))"
      unfolding split(1) using split(4) by simp
    then show ?thesis
      using True mem e unfolding message_block_rank_def Let_def blk k_def [symmetric] by (simp add: and_exp_eq_0_iff_not_bit)
  qed
qed

lemma tag_rank_correct:
  assumes wf: "directory_wf idx" and "tag \<noteq> 0" and n0: "mi_field_count idx \<noteq> 0"
  shows "message_tag_rank idx tag =
     Some (if unat tag \<in> set (index_tags idx) then Some (rank_in (index_tags idx) (unat tag)) else None)"
  using wf
proof (cases rule: directory_cases)
  case empty
  then show ?thesis
    using n0 by simp
next
  case tiny
  let ?enc = "mi_encoded idx" and ?d = "mi_directory idx" and ?n = "mi_field_count idx"
  have tags: "index_tags idx = map (\<lambda>i. unat (?enc ! (?d + i))) [0..<?n]"
    unfolding tiny(4) using tiny(3) by (intro nth_equalityI) auto
  have "[0..<?n] ! rank_in (index_tags idx) (unat tag) = rank_in (index_tags idx) (unat tag)"
    if "unat tag \<in> set (index_tags idx)"
    using nth_rank_in [OF index_tags_wf(2) [OF wf] that] index_tags_wf(1) [OF wf] by simp
  moreover have "message_tag_rank idx tag = Some (message_tiny_rank ?enc ?d tag [0..<?n])"
    using tiny(1) unfolding message_tag_rank_def Let_def by auto
  ultimately show ?thesis
    using tiny_rank_correct [OF index_tags_wf(2) [OF wf, unfolded tags], of tag] unfolding tags by presburger
next
  case (mask w)
  have "message_tag_rank idx tag = Some (message_mask_rank (mi_encoded idx) (mi_directory idx) w tag)"
    using mask(1,2) unfolding message_tag_rank_def Let_def by auto
  then show ?thesis
    using mask_rank_correct [OF mask(3,4) assms(2)] mask(6) unfolding Let_def by simp
next
  case blocks
  have "message_tag_rank idx tag = Some (message_block_rank (mi_encoded idx) (mi_directory idx) tag)"
    using blocks(1) unfolding message_tag_rank_def Let_def by auto
  then show ?thesis
    using block_rank_correct [OF blocks(2) assms(2)] blocks(3) unfolding Let_def by simp
qed

section \<open>Views of the fields\<close>

text \<open>The start of the field of a rank, counted from the start of the payload; the end of the payload for the last.\<close>

definition field_offset :: "Bebop_MessageIndex \<Rightarrow> nat \<Rightarrow> nat" where
  "field_offset idx i =
     (if i = 0 then 0
      else if i \<ge> mi_field_count idx then mi_boundaries idx - 4
      else unat (bebop_wire_load_le (drop (mi_boundaries idx + (i - 1) * mi_offset_width idx) (mi_encoded idx))
                   (mi_offset_width idx)))"

definition boundaries_wf :: "Bebop_MessageIndex \<Rightarrow> bool" where
  "boundaries_wf idx \<longleftrightarrow>
     4 \<le> mi_boundaries idx \<and> mi_boundaries idx \<le> length (mi_encoded idx)
     \<and> (\<forall>i<mi_field_count idx. field_offset idx i \<le> field_offset idx (Suc i))"

definition index_wf :: "Bebop_MessageIndex \<Rightarrow> bool" where
  "index_wf idx \<longleftrightarrow> directory_wf idx \<and> boundaries_wf idx"

definition field_view :: "Bebop_MessageIndex \<Rightarrow> nat \<Rightarrow> nat \<times> nat" where
  "field_view idx i = (4 + field_offset idx i, field_offset idx (Suc i) - field_offset idx i)"

lemma field_offset_last: "mi_field_count idx \<noteq> 0 \<Longrightarrow> field_offset idx (mi_field_count idx) = mi_boundaries idx - 4"
  by (simp add: field_offset_def)

lemma field_offset_le:
  assumes "boundaries_wf idx" and "i \<le> mi_field_count idx" and "mi_field_count idx \<noteq> 0"
  shows "field_offset idx i \<le> mi_boundaries idx - 4"
proof -
  have "field_offset idx i \<le> field_offset idx (mi_field_count idx)"
    using assms(1,2)
  proof (induction "mi_field_count idx - i" arbitrary: i)
    case 0
    then show ?case by simp
  next
    case (Suc k)
    have "field_offset idx i \<le> field_offset idx (Suc i)"
      using Suc by (simp add: boundaries_wf_def)
    also have "\<dots> \<le> field_offset idx (mi_field_count idx)"
      using Suc by simp
    finally show ?case .
  qed
  then show ?thesis
    using field_offset_last [OF assms(3)] by simp
qed

lemma field_at_rank_ok:
  assumes "boundaries_wf idx" and "i < mi_field_count idx"
  shows "bebop_message_field_at_rank idx i f = (BEBOP_RESULT_OK, Some (field_view idx i))"
proof -
  have "field_offset idx i \<le> field_offset idx (Suc i)" "field_offset idx (Suc i) \<le> mi_boundaries idx - 4"
    using assms field_offset_le [of idx "Suc i"] by (auto simp: boundaries_wf_def)
  moreover have "field_offset idx (Suc i) =
      (if i + 1 = mi_field_count idx then mi_boundaries idx - 4
       else unat (bebop_wire_load_le (drop (mi_boundaries idx + i * mi_offset_width idx) (mi_encoded idx))
                    (mi_offset_width idx)))"
    using assms(2) by (auto simp: field_offset_def)
  moreover have "field_offset idx i = (if i = 0 then 0
       else unat (bebop_wire_load_le (drop (mi_boundaries idx + (i - 1) * mi_offset_width idx) (mi_encoded idx))
                    (mi_offset_width idx)))"
    using assms(2) by (simp add: field_offset_def)
  ultimately show ?thesis
    using assms(2) unfolding bebop_message_field_at_rank_def
    by (simp add: Let_def BEBOP_WIRE_SIZE_LEN_def field_view_def)
qed

lemma index_field_wf:
  assumes wf: "index_wf idx"
  shows "bebop_message_index_field (Some idx) tag (Some f) (Some p) =
     (if unat tag \<in> set (index_tags idx)
      then (BEBOP_RESULT_OK, Some (Some (field_view idx (rank_in (index_tags idx) (unat tag)))), Some True)
      else (BEBOP_RESULT_OK, Some None, Some False))"
proof -
  have dwf: "directory_wf idx" and bwf: "boundaries_wf idx"
    using wf by (auto simp: index_wf_def)
  note tags = index_tags_wf [OF dwf]
  show ?thesis
  proof (cases "tag = 0 \<or> mi_field_count idx = 0")
    case True
    then have "unat tag \<notin> set (index_tags idx)"
      using tags(1,3) by fastforce
    then show ?thesis
      using True by (auto simp: bebop_message_index_field_def)
  next
    case False
    then have rank: "message_tag_rank idx tag =
        Some (if unat tag \<in> set (index_tags idx) then Some (rank_in (index_tags idx) (unat tag)) else None)"
      using tag_rank_correct [OF dwf] by blast
    show ?thesis
    proof (cases "unat tag \<in> set (index_tags idx)")
      case True
      then have lt: "rank_in (index_tags idx) (unat tag) < mi_field_count idx"
        using nth_rank_in [OF tags(2) True] tags(1) by simp
      moreover have "mi_field_count idx \<le> 255"
        using dwf by (simp add: directory_wf_def Let_def)
      ultimately show ?thesis
        using False True rank field_at_rank_ok [OF bwf lt]
        by (simp add: bebop_message_index_field_def)
    next
      case absent: False
      then show ?thesis
        using False rank by (auto simp: bebop_message_index_field_def)
    qed
  qed
qed

section \<open>Parsing establishes the invariant\<close>

lemma blocks_loop_255:
  assumes "message_blocks_loop enc bm [0..<8] d 0 = Some n"
  shows "n \<le> 255"
proof -
  let ?ts = "block_tags enc bm [0..<8] d"
  have "distinct ?ts"
    using sorted_block_tags [of "[0..<8]"] by (simp add: strict_sorted_iff)
  then have "length ?ts = card (set ?ts)"
    by (simp add: distinct_card)
  also have "\<dots> \<le> card {1..255 :: nat}"
    using blocks_loop_max [OF assms] by (intro card_mono) auto
  finally show ?thesis
    using blocks_loop_count [OF assms] by simp
qed

lemma field_count_wf:
  assumes size: "message_directory_size enc (length enc - 4) kind = Some ds" and room: "ds + 1 \<le> length enc - 4"
    and count: "message_field_count enc kind (length enc - 1 - ds) ds = Some n"
    and kind: "kind \<le> 7" "kind = 0 \<longleftrightarrow> n = 0"
    and tiny: "1 \<le> kind \<and> kind \<le> 3 \<longrightarrow> message_tiny_valid enc (length enc - 1 - ds) n"
  shows "n \<le> 255 \<and> directory_wf \<lparr>mi_encoded = enc, mi_boundaries = b, mi_directory = length enc - 1 - ds,
           mi_field_count = n, mi_offset_width = w, mi_directory_kind = kind\<rparr>"
proof -
  consider "kind = 0" | "kind = 1 \<or> kind = 2 \<or> kind = 3" | "kind = 4 \<or> kind = 5 \<or> kind = 6" | "kind = 7"
    using kind(1) by linarith
  then show ?thesis
  proof cases
    case 1
    then show ?thesis
      using kind by (simp add: directory_wf_def)
  next
    case 2
    then have "ds = kind" "n = kind"
      using size count by (auto simp: message_directory_size_def message_field_count_def)
    then show ?thesis
      using 2 room tiny kind by (auto simp: directory_wf_def)
  next
    case 3
    then have "ds = 2 ^ (kind - 4)" "n = bebop_wire_popcount32 (bebop_wire_load_le (drop (length enc - 1 - ds) enc) ds)"
      using size count by (auto simp: message_directory_size_def message_field_count_def)
    then show ?thesis
      using 3 room kind popcount32_le [of "bebop_wire_load_le (drop (length enc - 1 - ds) enc) ds"]
      by (simp add: directory_wf_def) auto
  next
    case 4
    then have ds: "ds = 1 + 5 * bebop_wire_popcount32 (ucast (enc ! (length enc - 2)))"
      using size by (simp add: message_directory_size_def split: if_splits)
    then have "length enc - 1 - ds + ds - 1 = length enc - 2"
      using room by linarith
    then have loop: "message_blocks_loop enc (enc ! (length enc - 2)) [0..<8] (length enc - 1 - ds) 0 = Some n"
      using count 4 by (simp add: message_field_count_def)
    then show ?thesis
      using 4 kind blocks_loop_255 [OF loop] by (simp add: directory_wf_def)
  qed
qed

lemma boundaries_loop_mono:
  assumes "message_boundaries_loop enc b w p prev is"
  shows "(\<forall>i\<in>set is. unat prev \<le> unat (bebop_wire_load_le (drop (b + i * w) enc) w)
            \<and> unat (bebop_wire_load_le (drop (b + i * w) enc) w) \<le> p)
       \<and> (\<forall>k. Suc k < length is \<longrightarrow> unat (bebop_wire_load_le (drop (b + is ! k * w) enc) w)
            \<le> unat (bebop_wire_load_le (drop (b + is ! Suc k * w) enc) w))"
  using assms
proof (induction "is" arbitrary: prev)
  case Nil
  then show ?case by simp
next
  case (Cons i "is")
  let ?v = "\<lambda>i. bebop_wire_load_le (drop (b + i * w) enc) w"
  have hd: "unat prev \<le> unat (?v i)" "unat (?v i) \<le> p" and rest: "message_boundaries_loop enc b w p (?v i) is"
    using Cons.prems by (auto simp: Let_def word_less_nat_alt split: if_splits)
  note IH = Cons.IH [OF rest]
  have "unat (?v ((i # is) ! k)) \<le> unat (?v ((i # is) ! Suc k))" if "Suc k < length (i # is)" for k
    using that IH by (cases k) auto
  then show ?case
    using IH hd by fastforce
qed

lemma boundaries_loop_wf:
  assumes "message_boundaries_loop (mi_encoded idx) (mi_boundaries idx) (mi_offset_width idx)
      (mi_boundaries idx - 4) 0 [0..<mi_field_count idx - 1]"
    and "4 \<le> mi_boundaries idx" and "mi_boundaries idx \<le> length (mi_encoded idx)"
  shows "boundaries_wf idx"
proof -
  let ?v = "\<lambda>i. unat (bebop_wire_load_le (drop (mi_boundaries idx + i * mi_offset_width idx) (mi_encoded idx)) (mi_offset_width idx))"
  have le: "?v i \<le> mi_boundaries idx - 4" if "i < mi_field_count idx - 1" for i
    using boundaries_loop_mono [OF assms(1)] that by simp
  have mono: "?v i \<le> ?v (Suc i)" if "Suc i < mi_field_count idx - 1" for i
    using boundaries_loop_mono [OF assms(1)] that by (metis (no_types, lifting) Suc_lessD add_0 diff_zero length_upt nth_upt)
  have "field_offset idx i \<le> field_offset idx (Suc i)" if i: "i < mi_field_count idx" for i
  proof (cases i)
    case 0
    then show ?thesis by (simp add: field_offset_def)
  next
    case (Suc j)
    then have "field_offset idx i = ?v j"
      using i by (simp add: field_offset_def)
    then show ?thesis
      using le [of j] mono [of j] Suc i by (auto simp: field_offset_def)
  qed
  then show ?thesis
    using assms by (simp add: boundaries_wf_def)
qed

text \<open>The checks of the two parsers, as one predicate on the fields of the index.\<close>

definition parse_conditions :: "byte list \<Rightarrow> Bebop_MessageIndex \<Rightarrow> bool" where
  "parse_conditions enc idx \<longleftrightarrow>
     (\<exists>ds. let n = mi_field_count idx; kind = mi_directory_kind idx; w = mi_offset_width idx;
               control = enc ! (length enc - 1)
       in mi_encoded idx = enc \<and> 5 \<le> length enc \<and> unat (bebop_wire_load_le enc 4) = length enc - 4
        \<and> control AND 0xe0 = 0 \<and> control AND 3 \<noteq> 3 \<and> w = 2 ^ unat (control AND 3)
        \<and> kind = unat (drop_bit 2 control AND 7)
        \<and> message_directory_size enc (length enc - 4) kind = Some ds \<and> ds + 1 \<le> length enc - 4
        \<and> mi_directory idx = length enc - 1 - ds
        \<and> (kind = 7 \<longrightarrow> enc ! (length enc - 2) \<noteq> 0)
        \<and> message_field_count enc kind (length enc - 1 - ds) ds = Some n
        \<and> (kind = 0 \<longleftrightarrow> n = 0)
        \<and> (1 \<le> kind \<and> kind \<le> 3 \<longrightarrow> message_tiny_valid enc (length enc - 1 - ds) n)
        \<and> (n - 1) * w + ds + 1 \<le> length enc - 4
        \<and> mi_boundaries idx = length enc - 1 - ds - (n - 1) * w
        \<and> (n = 0 \<longrightarrow> mi_boundaries idx = 4))"

lemma and7_le: "unat ((w :: byte) AND 7) \<le> 7"
proof -
  have "w AND 7 \<le> 7"
    by (rule word_and_le1)
  then show ?thesis
    by (simp add: word_le_nat_alt)
qed

lemma index_eqI:
  "\<lbrakk>mi_encoded a = mi_encoded b; mi_boundaries a = mi_boundaries b; mi_directory a = mi_directory b;
    mi_field_count a = mi_field_count b; mi_offset_width a = mi_offset_width b;
    mi_directory_kind a = mi_directory_kind b\<rbrakk> \<Longrightarrow> a = (b :: Bebop_MessageIndex)"
  by simp

lemma conditionsE:
  assumes "parse_conditions enc idx"
  obtains ds n kind w where
    "idx = \<lparr>mi_encoded = enc, mi_boundaries = length enc - 1 - ds - (n - 1) * w, mi_directory = length enc - 1 - ds,
            mi_field_count = n, mi_offset_width = w, mi_directory_kind = kind\<rparr>"
    "kind = unat (drop_bit 2 (enc ! (length enc - 1)) AND 7)" "w = 2 ^ unat (enc ! (length enc - 1) AND 3)"
    "5 \<le> length enc" "unat (bebop_wire_load_le enc 4) = length enc - 4"
    "enc ! (length enc - 1) AND 0xe0 = 0" "enc ! (length enc - 1) AND 3 \<noteq> 3"
    "message_directory_size enc (length enc - 4) kind = Some ds" "ds + 1 \<le> length enc - 4"
    "kind = 7 \<longrightarrow> enc ! (length enc - 2) \<noteq> 0"
    "message_field_count enc kind (length enc - 1 - ds) ds = Some n" "kind = 0 \<longleftrightarrow> n = 0"
    "1 \<le> kind \<and> kind \<le> 3 \<longrightarrow> message_tiny_valid enc (length enc - 1 - ds) n"
    "(n - 1) * w + ds + 1 \<le> length enc - 4" "n = 0 \<longrightarrow> length enc - 4 = 1" "kind \<le> 7" "n \<le> 255"
proof -
  let ?n = "mi_field_count idx" and ?k = "mi_directory_kind idx" and ?control = "enc ! (length enc - 1)"
  obtain ds where c: "mi_encoded idx = enc" "5 \<le> length enc" "unat (bebop_wire_load_le enc 4) = length enc - 4"
    "?control AND 0xe0 = 0" "?control AND 3 \<noteq> 3" "mi_offset_width idx = 2 ^ unat (?control AND 3)"
    "?k = unat (drop_bit 2 ?control AND 7)"
    "message_directory_size enc (length enc - 4) ?k = Some ds" "ds + 1 \<le> length enc - 4"
    "mi_directory idx = length enc - 1 - ds" "?k = 7 \<longrightarrow> enc ! (length enc - 2) \<noteq> 0"
    "message_field_count enc ?k (length enc - 1 - ds) ds = Some ?n"
    "?k = 0 \<longleftrightarrow> ?n = 0"
    "1 \<le> ?k \<and> ?k \<le> 3 \<longrightarrow> message_tiny_valid enc (length enc - 1 - ds) ?n"
    "(?n - 1) * mi_offset_width idx + ds + 1 \<le> length enc - 4"
    "mi_boundaries idx = length enc - 1 - ds - (?n - 1) * mi_offset_width idx"
    "?n = 0 \<longrightarrow> mi_boundaries idx = 4"
    using assms unfolding parse_conditions_def Let_def by (elim exE conjE) (rule that; assumption)
  have k: "?k \<le> 7"
    unfolding c(7) by (rule and7_le)
  have one: "?n = 0 \<longrightarrow> length enc - 4 = 1"
  proof
    assume n0: "?n = 0"
    then have "?k = 0"
      using c(13) by blast
    then have "ds = 0"
      using c(8) by (simp add: message_directory_size_def)
    then have "4 = length enc - 1 - 0 - (0 - 1) * mi_offset_width idx"
      using c(16) c(17) n0 by simp
    then show "length enc - 4 = 1"
      by simp
  qed
  have eq: "idx = \<lparr>mi_encoded = enc, mi_boundaries = length enc - 1 - ds - (?n - 1) * mi_offset_width idx,
      mi_directory = length enc - 1 - ds, mi_field_count = ?n, mi_offset_width = mi_offset_width idx,
      mi_directory_kind = ?k\<rparr>"
    by (rule index_eqI) (simp_all only: c(1,10,16) Bebop_MessageIndex.simps)
  have "?n \<le> 255"
    using field_count_wf [OF c(8,9,12) k c(13,14)] by blast
  from that [OF eq c(7,6,2,3,4,5,8,9,11,12,13,14,15) one k this] show ?thesis .
qed

lemma conditions_count:
  assumes "parse_conditions enc idx"
  shows "mi_field_count idx \<le> 255 \<and> directory_wf idx \<and> mi_encoded idx = enc
    \<and> 4 \<le> mi_boundaries idx \<and> mi_boundaries idx \<le> length enc"
  using assms
proof (cases rule: conditionsE)
  case (1 ds n kind w)
  have "4 \<le> length enc - 1 - ds - (n - 1) * w" "length enc - 1 - ds - (n - 1) * w \<le> length enc"
    using 1(14) by linarith+
  then show ?thesis
    using field_count_wf [OF 1(8,9,11,16,12,13), of "length enc - 1 - ds - (n - 1) * w" w] unfolding 1(1)
    by simp
qed

lemma begin_sound:
  assumes "bebop_message_index_begin (Some x) (Some enc) = (BEBOP_RESULT_OK, y)"
  shows "\<exists>idx. y = Some idx \<and> parse_conditions enc idx"
proof -
  let ?control = "enc ! (length enc - 1)"
  let ?kind = "unat (drop_bit 2 ?control AND 7)" and ?w = "2 ^ unat (?control AND 3) :: nat"
  have g: "5 \<le> length enc" "unat (bebop_wire_load_le enc 4) = length enc - 4"
      "?control AND 0xe0 = 0" "?control AND 3 \<noteq> 3" "?kind = 7 \<longrightarrow> enc ! (length enc - 2) \<noteq> 0"
    using assms by (auto simp: bebop_message_index_begin_def BEBOP_WIRE_SIZE_LEN_def Let_def split: if_splits)
  obtain ds n where d: "message_directory_size enc (length enc - 4) ?kind = Some ds" "ds + 1 \<le> length enc - 4"
      "message_field_count enc ?kind (length enc - 1 - ds) ds = Some n"
      "\<not> (n = 0 \<and> ?kind \<noteq> 0)" "1 \<le> ?kind \<and> ?kind \<le> 3 \<longrightarrow> message_tiny_valid enc (length enc - 1 - ds) n"
      "if n = 0 then length enc - 4 = 1 else (n - 1) * ?w + ds + 1 \<le> length enc - 4"
      "y = Some \<lparr>mi_encoded = enc, mi_boundaries = length enc - 1 - ds - (if n = 0 then 0 else (n - 1) * ?w),
             mi_directory = length enc - 1 - ds, mi_field_count = n mod 256, mi_offset_width = ?w,
             mi_directory_kind = ?kind\<rparr>"
    using assms g unfolding bebop_message_index_begin_def BEBOP_WIRE_SIZE_LEN_def Let_def
    by (auto split: if_splits option.splits)
  have k0: "?kind = 0 \<longleftrightarrow> n = 0"
    using d(3,4) by (auto simp: message_field_count_def)
  have "n \<le> 255"
    using field_count_wf [OF d(1,2,3) and7_le k0 d(5)] by simp
  then show ?thesis
    using g d k0 unfolding parse_conditions_def Let_def
    by (auto split: if_splits)
qed

lemma conditions_begin:
  assumes "parse_conditions enc idx"
  shows "bebop_message_index_begin (Some x) (Some enc) = (BEBOP_RESULT_OK, Some idx)"
  using assms
proof (cases rule: conditionsE)
  case (1 ds n kind w)
  have two: "\<not> length enc - 4 < 2" if "kind = 7"
    using that 1(8) by (auto simp: message_directory_size_def)
  have bc: "(if n = 0 then 0 else (n - 1) * w) = (n - 1) * w" "n mod 256 = n"
    using 1(17) by simp_all
  note eqs = 1(2) [symmetric] 1(3) [symmetric]
  show ?thesis
    unfolding bebop_message_index_begin_def BEBOP_WIRE_SIZE_LEN_def Let_def 1(5) eqs 1(1)
    using 1(4-15) two by (auto simp: bc eqs simp del: One_nat_def)
qed

definition boundaries_accepted :: "Bebop_MessageIndex \<Rightarrow> bool" where
  "boundaries_accepted idx \<longleftrightarrow>
     message_boundaries_loop (mi_encoded idx) (mi_boundaries idx) (mi_offset_width idx)
       (mi_boundaries idx - 4) 0 [0..<mi_field_count idx - 1]"

text \<open>
  What the loop stands for: the boundaries are the little-endian numbers of \<open>mi_offset_width\<close> bytes
  that start at \<open>mi_boundaries\<close>, one fewer than there are fields; they ascend and none exceeds the size
  of the payload, which lies between the length and the first boundary.
\<close>

definition index_boundaries :: "Bebop_MessageIndex \<Rightarrow> nat list" where
  "index_boundaries idx =
     map (\<lambda>i. unat (le_word (span_at (mi_boundaries idx + i * mi_offset_width idx) (mi_offset_width idx)
            (mi_encoded idx)) :: u32)) [0..<mi_field_count idx - 1]"

definition boundaries_ascend :: "Bebop_MessageIndex \<Rightarrow> bool" where
  "boundaries_ascend idx \<longleftrightarrow>
     sorted (index_boundaries idx) \<and> (\<forall>v\<in>set (index_boundaries idx). v \<le> mi_boundaries idx - 4)"

lemma boundaries_loop_iff:
  "message_boundaries_loop enc b w p prev is \<longleftrightarrow>
     sorted (unat prev # map (\<lambda>i. unat (bebop_wire_load_le (drop (b + i * w) enc) w)) is)
     \<and> (\<forall>i\<in>set is. unat (bebop_wire_load_le (drop (b + i * w) enc) w) \<le> p)"
proof (induction "is" arbitrary: prev)
  case (Cons i "is")
  then show ?case
    by (auto simp: Let_def word_less_nat_alt not_less intro: order_trans)
qed simp

lemma width_cases: "(c :: byte) AND 3 \<noteq> 3 \<Longrightarrow> 2 ^ unat (c AND 3) \<in> {1, 2, 4 :: nat}"
proof -
  assume "c AND 3 \<noteq> 3"
  moreover have "c AND 3 \<le> 3"
    by (rule word_and_le1)
  ultimately have "unat (c AND 3) < 3"
    by (simp add: word_le_nat_alt word_unat_eq_iff)
  then have "unat (c AND 3) \<in> {0, 1, 2}"
    by auto
  then show ?thesis
    by auto
qed

lemma conditions_boundary:
  assumes "parse_conditions enc idx" and "i < mi_field_count idx - 1"
  shows "bebop_wire_load_le (drop (mi_boundaries idx + i * mi_offset_width idx) (mi_encoded idx)) (mi_offset_width idx)
       = le_word (span_at (mi_boundaries idx + i * mi_offset_width idx) (mi_offset_width idx) (mi_encoded idx))"
  using assms(1)
proof (cases rule: conditionsE)
  case (1 ds n kind w)
  have "i * w + w \<le> (n - 1) * w"
    using assms(2) mult_le_mono1 [of "Suc i" "n - 1" w] unfolding 1(1) by simp
  then have "length enc - 1 - ds - (n - 1) * w + i * w + w \<le> length enc"
    using 1(14) by linarith
  moreover have "w \<in> {1, 2, 4}"
    unfolding 1(3) by (rule width_cases [OF 1(7)])
  ultimately show ?thesis
    using bebop_wire_load_le_eq [of w "drop (length enc - 1 - ds - (n - 1) * w + i * w) enc"]
    unfolding 1(1) span_at_def by simp
qed

lemma accepted_iff_ascend:
  assumes "parse_conditions enc idx"
  shows "boundaries_accepted idx \<longleftrightarrow> boundaries_ascend idx"
proof -
  have "map (\<lambda>i. unat (bebop_wire_load_le (drop (mi_boundaries idx + i * mi_offset_width idx) (mi_encoded idx))
      (mi_offset_width idx))) [0..<mi_field_count idx - 1] = index_boundaries idx"
    using conditions_boundary [OF assms] by (auto simp: index_boundaries_def)
  then show ?thesis
    unfolding boundaries_accepted_def boundaries_ascend_def boundaries_loop_iff
    by (simp flip: \<open>_ = index_boundaries idx\<close>)
qed

lemma parse_sound:
  assumes "bebop_message_index_parse (Some x) (Some enc) = (BEBOP_RESULT_OK, y)"
  shows "\<exists>idx. y = Some idx \<and> parse_conditions enc idx \<and> boundaries_accepted idx"
proof -
  let ?control = "enc ! (length enc - 1)"
  let ?kind = "unat (drop_bit 2 ?control AND 7)" and ?w = "2 ^ unat (?control AND 3) :: nat"
  have g: "5 \<le> length enc" "unat (bebop_wire_load_le enc 4) = length enc - 4"
      "?control AND 0xe0 = 0" "?control AND 3 \<noteq> 3"
    using assms by (auto simp: bebop_message_index_parse_def BEBOP_WIRE_SIZE_LEN_def Let_def split: if_splits)
  obtain ds n where d: "message_directory_size enc (length enc - 4) ?kind = Some ds" "ds + 1 \<le> length enc - 4"
      "message_field_count enc ?kind (length enc - 1 - ds) ds = Some n"
      "?kind = 0 \<longleftrightarrow> n = 0" "1 \<le> ?kind \<and> ?kind \<le> 3 \<longrightarrow> message_tiny_valid enc (length enc - 1 - ds) n"
      "(n - 1) * ?w + ds + 1 \<le> length enc - 4"
      "message_boundaries_loop enc (length enc - 1 - ds - (n - 1) * ?w) ?w
         (length enc - 1 - ds - (n - 1) * ?w - 4) 0 [0..<n - 1]"
      "n = 0 \<longrightarrow> length enc - 1 - ds - (n - 1) * ?w - 4 = 0"
      "?kind = 7 \<longrightarrow> enc ! (length enc - 1 - ds + ds - 1) \<noteq> 0"
      "y = Some \<lparr>mi_encoded = enc, mi_boundaries = length enc - 1 - ds - (n - 1) * ?w,
             mi_directory = length enc - 1 - ds, mi_field_count = n mod 256, mi_offset_width = ?w,
             mi_directory_kind = ?kind\<rparr>"
    using assms g unfolding bebop_message_index_parse_def BEBOP_WIRE_SIZE_LEN_def Let_def
    by (auto split: if_splits option.splits)
  have n: "n \<le> 255"
    using field_count_wf [OF d(1,2,3) and7_le d(4,5)] by simp
  have "?kind = 7 \<longrightarrow> enc ! (length enc - 2) \<noteq> 0"
  proof
    assume k: "?kind = 7"
    then have "1 \<le> ds"
      using d(1) by (simp add: message_directory_size_def split: if_splits)
    then have "length enc - 1 - ds + ds - 1 = length enc - 2"
      using d(2) by linarith
    then show "enc ! (length enc - 2) \<noteq> 0"
      using d(9) k by simp
  qed
  moreover have "4 \<le> length enc - 1 - ds - (n - 1) * ?w"
    using d(6) by linarith
  ultimately show ?thesis
    using g d n unfolding parse_conditions_def boundaries_accepted_def Let_def by auto
qed

lemma conditions_parse:
  assumes "parse_conditions enc idx" and "boundaries_accepted idx"
  shows "bebop_message_index_parse (Some x) (Some enc) = (BEBOP_RESULT_OK, Some idx)"
  using assms(1)
proof (cases rule: conditionsE)
  case (1 ds n kind w)
  have top: "kind = 7 \<longrightarrow> enc ! (length enc - 1 - ds + ds - 1) \<noteq> 0"
  proof
    assume k: "kind = 7"
    then have "1 \<le> ds"
      using 1(8) by (simp add: message_directory_size_def split: if_splits)
    then have "length enc - 1 - ds + ds - 1 = length enc - 2"
      using 1(9) by linarith
    then show "enc ! (length enc - 1 - ds + ds - 1) \<noteq> 0"
      using 1(10) k by simp
  qed
  have "unat (bebop_wire_load_le enc 4) < 2 ^ 32" "0 < w"
    using unsigned_less [of "bebop_wire_load_le enc 4"] 1(3) by simp_all
  then have width: "\<not> n - 1 > (SIZE_MAX - ds - 1) div w"
    using 1(5,14) by (simp add: not_less less_eq_div_iff_mult_less_eq SIZE_MAX_def)
  have bc: "(if n = 0 then 0 else n - 1) = n - 1" "n mod 256 = n"
    using 1(17) by simp_all
  have loop: "message_boundaries_loop enc (length enc - 1 - ds - (n - 1) * w) w
      (length enc - 1 - ds - (n - 1) * w - 4) 0 [0..<n - 1]"
    using assms(2) unfolding boundaries_accepted_def 1(1) by simp
  have zero: "n = 0 \<longrightarrow> length enc - 1 - ds - (n - 1) * w - 4 = 0"
    using 1(15) by auto
  note eqs = 1(2) [symmetric] 1(3) [symmetric]
  show ?thesis
    unfolding bebop_message_index_parse_def BEBOP_WIRE_SIZE_LEN_def Let_def 1(5) eqs 1(1)
    using 1(4-9,11-14) top width loop zero by (auto simp: bc eqs simp del: One_nat_def)
qed

lemma parse_wf:
  assumes "bebop_message_index_parse (Some x) (Some enc) = (BEBOP_RESULT_OK, Some idx)"
  shows "index_wf idx \<and> mi_encoded idx = enc"
proof -
  have c: "parse_conditions enc idx" "boundaries_accepted idx"
    using parse_sound [OF assms] by auto
  then show ?thesis
    using boundaries_loop_wf conditions_count [OF c(1)] by (auto simp: boundaries_accepted_def index_wf_def)
qed

end
