(* ===== verification/Wire_Message_Codec.thy ===== *)
theory Wire_Message_Codec
  imports Wire_Message_Index
begin

text \<open>
  The iterator enumerates the tags and fields of a parsed index, and the encoder and the parser of
  indexed messages are inverse: every field written under a tag is found under that tag and under no
  other.
\<close>

section \<open>The iterator\<close>

definition iterator_inv :: "Bebop_MessageIndex \<Rightarrow> Bebop_MessageFieldIterator \<Rightarrow> bool" where
  "iterator_inv idx it \<longleftrightarrow>
     it_index it = Some idx \<and> it_rank it \<le> mi_field_count idx
     \<and> (mi_directory_kind idx \<in> {4, 5, 6} \<longrightarrow> mask_tags 0 (it_pending_tags it) = drop (it_rank it) (index_tags idx))
     \<and> (mi_directory_kind idx = 7 \<longrightarrow>
          it_block it \<le> 8
          \<and> mask_tags (it_tag_base it) (it_pending_tags it)
              @ block_tags (mi_encoded idx) (mi_encoded idx ! (length (mi_encoded idx) - 2)) [it_block it..<8] (it_block_entry it)
            = drop (it_rank it) (index_tags idx)
          \<and> message_blocks_loop (mi_encoded idx) (mi_encoded idx ! (length (mi_encoded idx) - 2)) [it_block it..<8]
              (it_block_entry it) (it_rank it + bebop_wire_popcount32 (it_pending_tags it)) = Some (mi_field_count idx))"

lemma skip_blocks_spec:
  assumes "block \<le> 8"
  shows "message_skip_blocks tm block \<le> 8
    \<and> block_tags enc tm [block..<8] e = block_tags enc tm [message_skip_blocks tm block..<8] e
    \<and> message_blocks_loop enc tm [block..<8] e r = message_blocks_loop enc tm [message_skip_blocks tm block..<8] e r
    \<and> (message_skip_blocks tm block < 8 \<longrightarrow> bit tm (message_skip_blocks tm block))"
  using assms
proof (induction tm block rule: message_skip_blocks.induct)
  case (1 tm block)
  show ?case
  proof (cases "block < 8 \<and> \<not> bit tm block")
    case True
    then have "message_skip_blocks tm block = message_skip_blocks tm (block + 1)"
      by (subst message_skip_blocks.simps) (simp add: and_exp_eq_0_iff_not_bit)
    moreover have "[block..<8] = block # [block + 1..<8]"
      using True by (simp add: upt_conv_Cons)
    ultimately show ?thesis
      using 1 True by (simp add: and_exp_eq_0_iff_not_bit)
  next
    case False
    then have "message_skip_blocks tm block = block"
      by (subst message_skip_blocks.simps) (auto simp: and_exp_eq_0_iff_not_bit)
    then show ?thesis
      using 1(2) False by auto
  qed
qed

lemma refill_spec:
  assumes inv: "iterator_inv idx it" and kind: "mi_directory_kind idx = 7"
    and len: "length (index_tags idx) = mi_field_count idx" and lt: "it_rank it < mi_field_count idx"
  shows "\<exists>it'. message_refill (mi_encoded idx) it = (True, it') \<and> it_pending_tags it' \<noteq> 0
            \<and> iterator_inv idx it' \<and> it_rank it' = it_rank it"
proof (cases "it_pending_tags it = 0")
  case False
  then show ?thesis
    using inv by (auto simp: message_refill.simps [of _ it])
next
  case True
  let ?enc = "mi_encoded idx" and ?e = "it_block_entry it"
  let ?top = "?enc ! (length ?enc - 2)"
  define b where "b = message_skip_blocks ?top (it_block it)"
  have i: "it_block it \<le> 8" "block_tags ?enc ?top [it_block it..<8] ?e = drop (it_rank it) (index_tags idx)"
      "message_blocks_loop ?enc ?top [it_block it..<8] ?e (it_rank it) = Some (mi_field_count idx)"
    using inv kind True by (auto simp: iterator_inv_def)
  have b: "b \<le> 8" "block_tags ?enc ?top [b..<8] ?e = drop (it_rank it) (index_tags idx)"
      "message_blocks_loop ?enc ?top [b..<8] ?e (it_rank it) = Some (mi_field_count idx)" "b < 8 \<longrightarrow> bit ?top b"
    using skip_blocks_spec [OF i(1), of ?top ?enc ?e "it_rank it"] i unfolding b_def by auto
  have b8: "b < 8"
  proof (rule ccontr)
    assume "\<not> b < 8"
    then have "drop (it_rank it) (index_tags idx) = []"
      using b(1,2) by simp
    then show False
      using lt len by simp
  qed
  have up: "[b..<8] = b # [b + 1..<8]"
    using b8 by (simp add: upt_conv_Cons)
  let ?m = "block_entry_mask ?enc ?e"
  have m: "?m \<noteq> 0" "message_blocks_loop ?enc ?top [b + 1..<8] (?e + 5) (it_rank it + bebop_wire_popcount32 ?m)
        = Some (mi_field_count idx)"
    using b(3,4) b8 unfolding up by (auto split: if_splits)
  let ?it = "it\<lparr>it_tag_base := b * 32, it_pending_tags := ?m, it_block_entry := ?e + 5, it_block := b + 1\<rparr>"
  have "message_refill ?enc it = message_refill ?enc ?it"
    using True b8 by (subst message_refill.simps) (simp add: b_def Let_def)
  also have "\<dots> = (True, ?it)"
    using m(1) by (subst message_refill.simps) simp
  finally have "message_refill ?enc it = (True, ?it)" .
  moreover have "iterator_inv idx ?it"
    using inv kind b(2,4) b8 m(2) unfolding up by (auto simp: iterator_inv_def mult.commute)
  ultimately show ?thesis
    using m(1) by auto
qed

lemma drop_eq_Cons: "drop n xs = y # ys \<Longrightarrow> n < length xs \<and> xs ! n = y \<and> drop (Suc n) xs = ys"
  by (metis drop_Suc drop_eq_Nil hd_drop_conv_nth linorder_not_le list.discI list.sel(1,3) tl_drop)

lemma take_tag_spec:
  assumes "it_pending_tags it \<noteq> 0"
    and "mask_tags (it_tag_base it) (it_pending_tags it) @ rest = drop (it_rank it) tags"
  shows "\<exists>m. message_take_tag it = Some (of_nat (tags ! it_rank it), it\<lparr>it_pending_tags := m\<rparr>)
           \<and> mask_tags (it_tag_base it) m @ rest = drop (Suc (it_rank it)) tags
           \<and> bebop_wire_popcount32 (it_pending_tags it) = Suc (bebop_wire_popcount32 m)"
proof -
  let ?p = "it_pending_tags it" and ?base = "it_tag_base it"
  obtain k where k: "bebop_wire_ctz32 ?p = Some k"
    using assms(1) by (metis ctz32_None_iff option.exhaust)
  note mt = mask_tags_take [OF k, of ?base]
  have "drop (it_rank it) tags = (?base + k + 1) # mask_tags ?base (?p AND (?p - 1)) @ rest"
    using assms(2) mt by simp
  note d = drop_eq_Cons [OF this]
  have "bebop_wire_popcount32 ?p = Suc (bebop_wire_popcount32 (?p AND (?p - 1)))"
    using arg_cong [OF mt, of length] by simp
  then show ?thesis
    using k d by (intro exI [of _ "?p AND (?p - 1)"]) (simp add: message_take_tag_def)
qed

lemma next_tag_spec:
  assumes wf: "directory_wf idx" and inv: "iterator_inv idx it"
  shows "if it_rank it < mi_field_count idx
    then \<exists>it'. bebop_message_field_iterator_next_tag (Some it) (Some t) (Some p)
           = Some (BEBOP_RESULT_OK, Some it', Some (of_nat (index_tags idx ! it_rank it)), Some True)
         \<and> iterator_inv idx it' \<and> it_rank it' = Suc (it_rank it)
    else bebop_message_field_iterator_next_tag (Some it) (Some t) (Some p)
           = Some (BEBOP_RESULT_OK, Some it, Some t, Some False)"
proof (cases "it_rank it < mi_field_count idx")
  case False
  then have "it_rank it = mi_field_count idx" "it_index it = Some idx"
    using inv by (auto simp: iterator_inv_def)
  then show ?thesis
    by (simp add: bebop_message_field_iterator_next_tag_def)
next
  case lt: True
  have ix: "it_index it = Some idx" and n: "mi_field_count idx \<le> 255"
    using inv wf by (auto simp: iterator_inv_def directory_wf_def Let_def)
  note tags = index_tags_wf [OF wf]
  have rank: "(it_rank it + 1) mod 256 = Suc (it_rank it)"
    using lt n by simp
  from wf have "\<exists>it'. bebop_message_field_iterator_next_tag (Some it) (Some t) (Some p)
           = Some (BEBOP_RESULT_OK, Some it', Some (of_nat (index_tags idx ! it_rank it)), Some True)
         \<and> iterator_inv idx it' \<and> it_rank it' = Suc (it_rank it)"
  proof (cases rule: directory_cases)
    case empty
    then show ?thesis
      using lt by simp
  next
    case tiny
    have "of_nat (index_tags idx ! it_rank it) = mi_encoded idx ! (mi_directory idx + it_rank it)"
      using lt tiny(3) unfolding tiny(4) by simp
    then show ?thesis
      using tiny(1) lt ix inv rank
      by (auto simp: bebop_message_field_iterator_next_tag_def iterator_inv_def)
  next
    case (mask w)
    have pend: "mask_tags 0 (it_pending_tags it) = drop (it_rank it) (index_tags idx)"
      using inv mask(1) unfolding iterator_inv_def by blast
    then have "mask_tags 0 (it_pending_tags it) \<noteq> []"
      using lt tags(1) by simp
    then have nz: "it_pending_tags (it\<lparr>it_tag_base := 0\<rparr>) \<noteq> 0"
      by auto
    obtain m where m: "message_take_tag (it\<lparr>it_tag_base := 0\<rparr>)
        = Some (of_nat (index_tags idx ! it_rank it), it\<lparr>it_tag_base := 0, it_pending_tags := m\<rparr>)"
        "mask_tags 0 m = drop (Suc (it_rank it)) (index_tags idx)"
      using take_tag_spec [OF nz, of "[]" "index_tags idx"] pend by auto
    have "7 \<noteq> mi_directory_kind idx"
      using mask(1) by auto
    then show ?thesis
      using mask(1) lt ix inv rank m
      by (auto simp: bebop_message_field_iterator_next_tag_def iterator_inv_def)
  next
    case blocks
    obtain it1 where it1: "message_refill (mi_encoded idx) it = (True, it1)" "it_pending_tags it1 \<noteq> 0"
        "iterator_inv idx it1" "it_rank it1 = it_rank it"
      using refill_spec [OF inv blocks(1) tags(1) lt] by blast
    from it1(3) blocks(1) have rem: "mask_tags (it_tag_base it1) (it_pending_tags it1)
        @ block_tags (mi_encoded idx) (mi_encoded idx ! (length (mi_encoded idx) - 2)) [it_block it1..<8] (it_block_entry it1)
        = drop (it_rank it1) (index_tags idx)"
      by (simp add: iterator_inv_def)
    from take_tag_spec [OF it1(2) rem] obtain m where
      m: "message_take_tag it1 = Some (of_nat (index_tags idx ! it_rank it1), it1\<lparr>it_pending_tags := m\<rparr>)"
      "mask_tags (it_tag_base it1) m
        @ block_tags (mi_encoded idx) (mi_encoded idx ! (length (mi_encoded idx) - 2)) [it_block it1..<8] (it_block_entry it1)
        = drop (Suc (it_rank it1)) (index_tags idx)"
      "bebop_wire_popcount32 (it_pending_tags it1) = Suc (bebop_wire_popcount32 m)"
      by blast
    have "iterator_inv idx (it1\<lparr>it_pending_tags := m, it_rank := Suc (it_rank it)\<rparr>)"
      using it1(3,4) m(2,3) lt blocks(1) by (auto simp: iterator_inv_def)
    then show ?thesis
      using blocks(1) lt ix rank it1(1,4) m(1)
      by (simp add: bebop_message_field_iterator_next_tag_def)
  qed
  with lt show ?thesis
    by simp
qed

lemma iterator_init_inv:
  assumes wf: "directory_wf idx"
  shows "\<exists>it. bebop_message_field_iterator_init (Some x) (Some idx) = Some it \<and> iterator_inv idx it \<and> it_rank it = 0"
  using wf
proof (cases rule: directory_cases)
  case empty
  then show ?thesis
    by (simp add: bebop_message_field_iterator_init_def iterator_inv_def)
next
  case tiny
  then show ?thesis
    by (auto simp: bebop_message_field_iterator_init_def iterator_inv_def)
next
  case (mask w)
  then show ?thesis
    by (auto simp: bebop_message_field_iterator_init_def iterator_inv_def)
next
  case blocks
  then show ?thesis
    by (simp add: bebop_message_field_iterator_init_def iterator_inv_def)
qed

lemma next_field_spec:
  assumes wf: "index_wf idx" and inv: "iterator_inv idx it"
  shows "if it_rank it < mi_field_count idx
    then \<exists>it'. bebop_message_field_iterator_next (Some it) (Some t) (Some f) (Some p)
           = Some (BEBOP_RESULT_OK, Some it', Some (of_nat (index_tags idx ! it_rank it)),
                   Some (Some (field_view idx (it_rank it))), Some True)
         \<and> iterator_inv idx it' \<and> it_rank it' = Suc (it_rank it)
    else bebop_message_field_iterator_next (Some it) (Some t) (Some f) (Some p)
           = Some (BEBOP_RESULT_OK, Some it, Some t, Some None, Some False)"
proof (cases "it_rank it < mi_field_count idx")
  case True
  have dwf: "directory_wf idx" and bwf: "boundaries_wf idx"
    using wf by (auto simp: index_wf_def)
  from next_tag_spec [OF dwf inv, of t p] True obtain it' where
    it': "bebop_message_field_iterator_next_tag (Some it) (Some t) (Some p)
           = Some (BEBOP_RESULT_OK, Some it', Some (of_nat (index_tags idx ! it_rank it)), Some True)"
    "iterator_inv idx it'" "it_rank it' = Suc (it_rank it)"
    by auto
  have "it_index it' = Some idx"
    using it'(2) by (simp add: iterator_inv_def)
  moreover have "mi_field_count idx \<le> 255"
    using dwf by (simp add: directory_wf_def Let_def)
  then have "(it_rank it' + 255) mod 256 = it_rank it"
    using it'(3) True by simp
  ultimately show ?thesis
    using it' True field_at_rank_ok [OF bwf True]
    by (simp add: bebop_message_field_iterator_next_def)
next
  case False
  then show ?thesis
    using next_tag_spec [of idx it t p] wf inv
    by (simp add: bebop_message_field_iterator_next_def index_wf_def)
qed

text \<open>
  The loop that walks a message: it calls \<open>bebop_message_field_iterator_next\<close> until no field is
  present. \<open>None\<close> when a call fails or the fuel runs out.
\<close>

fun message_iterate :: "nat \<Rightarrow> Bebop_MessageFieldIterator option \<Rightarrow> (byte \<times> nat \<times> nat) list option" where
  "message_iterate 0 it = None"
| "message_iterate (Suc fuel) it =
     (case bebop_message_field_iterator_next it (Some 0) (Some None) (Some False) of
        Some (BEBOP_RESULT_OK, it', Some tag, Some (Some view), Some True) \<Rightarrow>
          map_option ((#) (tag, view)) (message_iterate fuel it')
      | Some (BEBOP_RESULT_OK, it', Some tag, Some None, Some False) \<Rightarrow> Some []
      | _ \<Rightarrow> None)"

lemma iterate_from:
  assumes "index_wf idx" and "iterator_inv idx it" and "mi_field_count idx - it_rank it < fuel"
  shows "message_iterate fuel (Some it)
           = Some (map (\<lambda>i. (of_nat (index_tags idx ! i), field_view idx i)) [it_rank it..<mi_field_count idx])"
  using assms(2,3)
proof (induction fuel arbitrary: it)
  case 0
  then show ?case by simp
next
  case (Suc fuel)
  show ?case
  proof (cases "it_rank it < mi_field_count idx")
    case True
    then obtain it' where it': "bebop_message_field_iterator_next (Some it) (Some 0) (Some None) (Some False)
           = Some (BEBOP_RESULT_OK, Some it', Some (of_nat (index_tags idx ! it_rank it)),
                   Some (Some (field_view idx (it_rank it))), Some True)"
        "iterator_inv idx it'" "it_rank it' = Suc (it_rank it)"
      using next_field_spec [OF assms(1) Suc.prems(1), of 0 None False] by auto
    have "message_iterate fuel (Some it')
        = Some (map (\<lambda>i. (of_nat (index_tags idx ! i), field_view idx i)) [Suc (it_rank it)..<mi_field_count idx])"
      using Suc.IH [OF it'(2)] Suc.prems(2) it'(3) True by simp
    then show ?thesis
      using it'(1) True by (simp add: upt_conv_Cons)
  next
    case False
    then show ?thesis
      using next_field_spec [OF assms(1) Suc.prems(1), of 0 None False] by simp
  qed
qed

lemma iterate_all:
  assumes "index_wf idx"
  shows "message_iterate 256 (bebop_message_field_iterator_init (Some x) (Some idx))
           = Some (map (\<lambda>i. (of_nat (index_tags idx ! i), field_view idx i)) [0..<mi_field_count idx])"
proof -
  have dwf: "directory_wf idx"
    using assms by (simp add: index_wf_def)
  obtain it where it: "bebop_message_field_iterator_init (Some x) (Some idx) = Some it" "iterator_inv idx it" "it_rank it = 0"
    using iterator_init_inv [OF dwf] by blast
  have "mi_field_count idx \<le> 255"
    using dwf by (simp add: directory_wf_def Let_def)
  then show ?thesis
    using iterate_from [OF assms it(2), of 256] it by simp
qed

section \<open>Encoding\<close>

lemma tags_valid_sorted:
  assumes "bebop_message_tags_valid (Some tags) (length tags)"
  shows "sorted_wrt (<) (map unat tags) \<and> (\<forall>t\<in>set tags. 1 \<le> unat t)"
proof (cases "tags = []")
  case True
  then show ?thesis by simp
next
  case False
  have "message_tiny_valid tags 0 (length tags)"
    using assms False by (simp add: bebop_message_tags_valid_def message_tiny_valid_def)
  from tiny_valid_sorted [OF this] False show ?thesis
    by simp
qed

lemma fold_or_bit:
  "bit (fold (\<lambda>x m. m OR push_bit (f x) 1) xs (m0 :: 'a::len word)) i
     \<longleftrightarrow> bit m0 i \<or> i < LENGTH('a) \<and> (\<exists>x\<in>set xs. f x = i)"
  by (induction xs arbitrary: m0) (auto simp: bit_or_iff bit_exp_iff dest: bit_imp_le_length)

lemma fold_upt_nth: "fold (\<lambda>i. g (xs ! i)) [0..<length xs] m = fold g xs m"
proof -
  have "fold g (map ((!) xs) [0..<length xs]) m = fold (\<lambda>i. g (xs ! i)) [0..<length xs] m"
    by (simp add: fold_map o_def)
  then show ?thesis
    by (simp add: map_nth)
qed

lemma bit_tag_mask:
  "bit (message_tag_mask tags (length tags)) i \<longleftrightarrow> i < 32 \<and> (\<exists>t\<in>set tags. unat t - 1 = i)"
  unfolding message_tag_mask_def
  by (subst fold_upt_nth [of "\<lambda>t m. m OR push_bit (unat t - 1) 1"]) (simp only: fold_or_bit, simp)

lemma bit_block_mask:
  "bit (message_block_mask tags (length tags)) b \<longleftrightarrow> b < 8 \<and> (\<exists>t\<in>set tags. (unat t - 1) div 32 = b)"
  unfolding message_block_mask_def
  by (subst fold_upt_nth [of "\<lambda>t m. m OR push_bit (drop_bit 5 (unat t - 1)) 1"])
     (simp only: fold_or_bit, simp add: drop_bit_eq_div)

lemma collect_block_spec:
  "message_collect_block first limit m tags =
     (fold (\<lambda>t m. m OR push_bit (unat t - first) 1) (takeWhile (\<lambda>t. unat t < limit) tags) m,
      dropWhile (\<lambda>t. unat t < limit) tags)"
  by (induction first limit m tags rule: message_collect_block.induct) auto

lemma collect_block_tags:
  assumes "sorted_wrt (<) (map unat here)" and "\<forall>t\<in>set here. 32 * b < unat t \<and> unat t \<le> 32 * b + 32"
  shows "mask_tags (32 * b) (fold (\<lambda>t m. m OR push_bit (unat t - (b * 32 + 1)) 1) here 0) = map unat here"
proof (rule strict_sorted_eqI)
  let ?m = "fold (\<lambda>t m. m OR push_bit (unat t - (b * 32 + 1)) 1) here (0 :: u32)"
  have bits: "bit ?m i \<longleftrightarrow> i < 32 \<and> (\<exists>t\<in>set here. unat t - (b * 32 + 1) = i)" for i
    using fold_or_bit [of "\<lambda>t. unat t - (b * 32 + 1)" here "0 :: u32" i] by simp
  show "set (mask_tags (32 * b) ?m) = set (map unat here)"
  proof (rule set_eqI, rule iffI)
    fix x
    assume "x \<in> set (mask_tags (32 * b) ?m)"
    then obtain i t where "x = 32 * b + i + 1" "t \<in> set here" "unat t - (b * 32 + 1) = i"
      unfolding set_mask_tags bits by blast
    moreover from this(2) have "32 * b < unat t"
      using assms(2) by blast
    ultimately have "x = unat t"
      by linarith
    then show "x \<in> set (map unat here)"
      using \<open>t \<in> set here\<close> by simp
  next
    fix x
    assume "x \<in> set (map unat here)"
    then obtain t where t: "t \<in> set here" "x = unat t"
      by auto
    then have "32 * b < x" "x \<le> 32 * b + 32"
      using assms(2) by auto
    then have "x = 32 * b + (x - (b * 32 + 1)) + 1" "x - (b * 32 + 1) < 32"
      by linarith+
    then show "x \<in> set (mask_tags (32 * b) ?m)"
      unfolding set_mask_tags bits using t by blast
  qed
qed (use assms in \<open>simp_all add: sorted_mask_tags\<close>)

lemma mask_tags_tag_mask:
  assumes "sorted_wrt (<) (map unat tags)" and "\<forall>t\<in>set tags. 1 \<le> unat t \<and> unat t \<le> 32"
  shows "mask_tags 0 (message_tag_mask tags (length tags)) = map unat tags"
proof -
  have "message_tag_mask tags (length tags) = fold (\<lambda>t m. m OR push_bit (unat t - (0 * 32 + 1)) 1) tags 0"
    unfolding message_tag_mask_def
    by (subst fold_upt_nth [of "\<lambda>t m. m OR push_bit (unat t - 1) 1"]) simp
  then show ?thesis
    using collect_block_tags [OF assms(1), of 0] assms(2) by (simp add: Suc_le_eq)
qed

text \<open>The entries of a block directory hold the tags, at whatever offset they stand.\<close>

lemma store_blocks_spec:
  assumes "sorted_wrt (<) bs" and "\<forall>b\<in>set bs. b < 8" and "sorted_wrt (<) (map unat tags)"
    and "\<forall>t\<in>set tags. 1 \<le> unat t \<and> (unat t - 1) div 32 \<in> set bs"
    and "\<forall>b\<in>set bs. bit bm b \<longleftrightarrow> (\<exists>t\<in>set tags. (unat t - 1) div 32 = b)"
    and "unat rank + length tags \<le> 255"
  shows "message_blocks_loop (pre @ message_store_blocks bm bs tags rank @ post) bm bs (length pre) (unat rank)
           = Some (unat rank + length tags)
       \<and> block_tags (pre @ message_store_blocks bm bs tags rank @ post) bm bs (length pre) = map unat tags
       \<and> length (message_store_blocks bm bs tags rank) = 5 * length (filter (bit bm) bs)"
  using assms
proof (induction bs arbitrary: tags rank pre)
  case Nil
  then have "tags = []"
    by (cases tags) auto
  then show ?case by simp
next
  case (Cons b bs)
  have blk: "unat t \<le> 32 * c + 32 \<and> 32 * c < unat t" if "t \<in> set tags" "(unat t - 1) div 32 = c" for t c
  proof -
    have "1 \<le> unat t"
      using Cons.prems(4) that(1) by blast
    moreover have "32 * c \<le> unat t - 1" "unat t - 1 < 32 * c + 32"
      using that(2) mult_div_mod_eq [of 32 "unat t - 1"] mod_less_divisor [of 32 "unat t - 1"] by linarith+
    ultimately show ?thesis
      by linarith
  qed
  show ?case
  proof (cases "bit bm b")
    case False
    then have "\<forall>t\<in>set tags. 1 \<le> unat t \<and> (unat t - 1) div 32 \<in> set bs"
      using Cons.prems(4,5) by fastforce
    then show ?thesis
      using Cons.IH [of tags rank pre] Cons.prems False by (simp add: and_exp_eq_0_iff_not_bit)
  next
    case True
    define here where "here = takeWhile (\<lambda>t. unat t < b * 32 + 1 + 32) tags"
    define rest where "rest = dropWhile (\<lambda>t. unat t < b * 32 + 1 + 32) tags"
    define m where "m = fold (\<lambda>t m. m OR push_bit (unat t - (b * 32 + 1)) 1) here (0 :: u32)"
    have split: "tags = here @ rest"
      by (simp add: here_def rest_def)
    have coll: "message_collect_block (b * 32 + 1) (b * 32 + 1 + 32) 0 tags = (m, rest)"
      unfolding collect_block_spec here_def [symmetric] rest_def [symmetric] m_def ..
    have ge: "b \<le> (unat t - 1) div 32" if "t \<in> set tags" for t
      using Cons.prems(1,4) that by fastforce
    have here: "32 * b < unat t \<and> unat t \<le> 32 * b + 32" if "t \<in> set here" for t
    proof -
      have "unat t < b * 32 + 1 + 32" "t \<in> set tags"
        using that set_takeWhileD unfolding here_def by fast+
      then show ?thesis
        using blk [of t "(unat t - 1) div 32"] ge [of t] by auto
    qed
    have rest_gt: "b < (unat t - 1) div 32" if "t \<in> set rest" for t
    proof -
      have "rest \<noteq> []"
        using that by auto
      then have h: "\<not> unat (hd rest) < b * 32 + 1 + 32"
        unfolding rest_def by (rule hd_dropWhile)
      have "sorted_wrt (<) (map unat rest)"
        using Cons.prems(3) by (simp add: split sorted_wrt_append)
      then have "unat (hd rest) \<le> unat t"
        using that \<open>rest \<noteq> []\<close> by (cases rest) auto
      then have "32 * b + 32 < unat t"
        using h by linarith
      then show ?thesis
        by (simp add: less_eq_div_iff_mult_less_eq Suc_le_eq [symmetric])
    qed
    have sorted: "sorted_wrt (<) (map unat here)" "sorted_wrt (<) (map unat rest)"
      using Cons.prems(3) by (simp_all add: split sorted_wrt_append)
    have mt: "mask_tags (32 * b) m = map unat here"
      unfolding m_def using sorted(1) here by (intro collect_block_tags) auto
    have pc: "bebop_wire_popcount32 m = length here"
      using arg_cong [OF mt, of length] by simp
    obtain t where "t \<in> set tags" "(unat t - 1) div 32 = b"
      using Cons.prems(5) True by auto
    then have "here \<noteq> []"
      using rest_gt unfolding split by force
    then have m0: "m \<noteq> 0"
      using pc by auto
    have top: "\<not> (b = 7 \<and> bit m 31)"
    proof
      assume a: "b = 7 \<and> bit m 31"
      then have "256 \<in> set (mask_tags (32 * b) m)"
        by (auto simp: set_mask_tags)
      then obtain t where "unat t = 256" "t \<in> set here"
        unfolding mt by auto
      then show False
        using unat_byte_less [of t] by simp
    qed
    have rank: "unat (rank + of_nat (length here)) = unat rank + length here"
      using Cons.prems(6) split by (simp add: unat_word_ariths unat_of_nat)
    let ?out = "message_store_blocks bm bs rest (rank + of_nat (length here))"
    let ?pre = "pre @ rank # bebop_wire_store_le m 4"
    have out: "message_store_blocks bm (b # bs) tags rank = rank # bebop_wire_store_le m 4 @ ?out"
      using True pc coll [simplified] by (simp add: and_exp_eq_0_iff_not_bit)
    let ?enc = "pre @ message_store_blocks bm (b # bs) tags rank @ post"
    have enc: "?enc = ?pre @ ?out @ post"
      unfolding out by simp
    have ld: "block_entry_mask ?enc (length pre) = m"
      unfolding out using load_store_le [of 4 m "?out @ post"] by (simp add: take_bit_word_eq_self)
    have IH: "message_blocks_loop (?pre @ ?out @ post) bm bs (length ?pre) (unat (rank + of_nat (length here)))
          = Some (unat (rank + of_nat (length here)) + length rest)
        \<and> block_tags (?pre @ ?out @ post) bm bs (length ?pre) = map unat rest
        \<and> length ?out = 5 * length (filter (bit bm) bs)"
    proof (rule Cons.IH)
      show "\<forall>t\<in>set rest. 1 \<le> unat t \<and> (unat t - 1) div 32 \<in> set bs"
        using Cons.prems(4) rest_gt unfolding split by fastforce
      show "\<forall>c\<in>set bs. bit bm c \<longleftrightarrow> (\<exists>t\<in>set rest. (unat t - 1) div 32 = c)"
      proof
        fix c
        assume c: "c \<in> set bs"
        have "(unat t - 1) div 32 \<noteq> c" if "t \<in> set here" for t
        proof
          assume "(unat t - 1) div 32 = c"
          then have "32 * c < unat t"
            using blk [of t c] that unfolding split by simp
          then show False
            using here [OF that] Cons.prems(1) c by fastforce
        qed
        then show "bit bm c \<longleftrightarrow> (\<exists>t\<in>set rest. (unat t - 1) div 32 = c)"
          using Cons.prems(5) c unfolding split by auto
      qed
    qed (use Cons.prems sorted rank split in auto)
    have len5: "length ?pre = length pre + 5"
      by simp
    define E where "E = ?enc"
    have E: "E ! length pre = rank" "block_entry_mask E (length pre) = m"
        "length (message_store_blocks bm (b # bs) tags rank) = 5 + length ?out"
      using ld unfolding E_def out by simp_all
    show ?thesis
      using IH True m0 top mt pc rank E(1,2) unfolding enc [symmetric] len5 E_def [symmetric] E(3)
      by (simp del: message_store_blocks.simps add: split)
  qed
qed

lemma popcount_byte: "bebop_wire_popcount32 (ucast (bm :: byte)) = length (filter (bit bm) [0..<8])"
proof -
  have up: "[0..<32] = [0..<8] @ [8..<32]"
    using upt_add_eq_append [of 0 8 24] by simp
  have bits: "bit (ucast bm :: u32) j \<longleftrightarrow> j < 8 \<and> bit bm j" for j
    using bit_imp_le_length [of bm j] by (auto simp: bit_ucast_iff)
  have "filter (bit (ucast bm :: u32)) [8..<32] = []"
    by (simp add: filter_empty_conv bits)
  moreover have "filter (bit (ucast bm :: u32)) [0..<8] = filter (bit bm) [0..<8]"
    by (rule filter_cong) (auto simp: bits)
  ultimately have "filter (bit (ucast bm :: u32)) [0..<32] = filter (bit bm) [0..<8]"
    unfolding up filter_append by simp
  then show ?thesis
    by (simp add: bebop_wire_popcount32_def)
qed

lemma layout_cases:
  assumes "tags \<noteq> []"
  obtains (tiny) "dl_kind (bebop_message_directory_layout tags (length tags)) = length tags"
      "dl_size (bebop_message_directory_layout tags (length tags)) = length tags" "length tags \<le> 3"
  | (mask) w where "dl_kind (bebop_message_directory_layout tags (length tags)) \<in> {4, 5, 6}"
      "w = 2 ^ (dl_kind (bebop_message_directory_layout tags (length tags)) - 4)" "w \<in> {1, 2, 4}"
      "dl_size (bebop_message_directory_layout tags (length tags)) = w" "unat (last tags) \<le> 8 * w"
  | (blocks) "dl_kind (bebop_message_directory_layout tags (length tags)) = 7"
      "dl_block_mask (bebop_message_directory_layout tags (length tags)) = message_block_mask tags (length tags)"
      "dl_size (bebop_message_directory_layout tags (length tags))
         = 1 + 5 * bebop_wire_popcount32 (ucast (message_block_mask tags (length tags)))"
proof -
  let ?n = "length tags" and ?bm = "message_block_mask tags (length tags)"
  let ?L = "bebop_message_directory_layout tags ?n" and ?bs = "1 + 5 * bebop_wire_popcount32 (ucast ?bm)"
  have last: "tags ! (?n - 1) = last tags" and n: "?n \<noteq> 0"
    using assms by (simp_all add: last_conv_nth)
  define base where "base = message_mask_layout tags ?n"
  have L: "?L = (if ?n \<le> 3 \<and> ?n < dl_size base then base\<lparr>dl_kind := ?n, dl_size := ?n\<rparr> else base)"
    unfolding bebop_message_directory_layout_def if_not_P [OF n] base_def Let_def ..
  have B: "base = \<lparr>dl_kind = 7, dl_size = ?bs, dl_block_mask = ?bm\<rparr>
       \<or> base = \<lparr>dl_kind = 4, dl_size = 1, dl_block_mask = ?bm\<rparr> \<and> last tags \<le> 8
       \<or> base = \<lparr>dl_kind = 5, dl_size = 2, dl_block_mask = ?bm\<rparr> \<and> last tags \<le> 16
       \<or> base = \<lparr>dl_kind = 6, dl_size = 4, dl_block_mask = ?bm\<rparr> \<and> last tags \<le> 32"
    unfolding base_def message_mask_layout_def Let_def last by simp
  show ?thesis
  proof (cases "?n \<le> 3 \<and> ?n < dl_size base")
    case True
    then show ?thesis
      using tiny by (simp add: L)
  next
    case False
    then have "?L = base"
      unfolding L by (rule if_not_P)
    note eq = this
    from B show ?thesis
    proof (elim disjE conjE)
      assume "base = \<lparr>dl_kind = 7, dl_size = ?bs, dl_block_mask = ?bm\<rparr>"
      with eq show ?thesis
        by (intro blocks) simp_all
    next
      assume "base = \<lparr>dl_kind = 4, dl_size = 1, dl_block_mask = ?bm\<rparr>" "last tags \<le> 8"
      with eq show ?thesis
        by (intro mask [of 1]) (simp_all add: word_le_nat_alt)
    next
      assume "base = \<lparr>dl_kind = 5, dl_size = 2, dl_block_mask = ?bm\<rparr>" "last tags \<le> 16"
      with eq show ?thesis
        by (intro mask [of 2]) (simp_all add: word_le_nat_alt)
    next
      assume "base = \<lparr>dl_kind = 6, dl_size = 4, dl_block_mask = ?bm\<rparr>" "last tags \<le> 32"
      with eq show ?thesis
        by (intro mask [of 4]) (simp_all add: word_le_nat_alt)
    qed
  qed
qed

text \<open>What a directory written by the encoder means to the parser, wherever it stands.\<close>

definition directory_for :: "nat \<Rightarrow> byte list \<Rightarrow> byte list \<Rightarrow> bool" where
  "directory_for kind dir tags \<longleftrightarrow>
     1 \<le> length dir \<and> 1 \<le> kind \<and> kind \<le> 7
     \<and> (\<forall>front control bl b w.
          let enc = front @ dir @ [control]
          in (2 \<le> bl \<longrightarrow> message_directory_size enc bl kind = Some (length dir))
           \<and> message_field_count enc kind (length front) (length dir) = Some (length tags)
           \<and> (kind = 7 \<longrightarrow> enc ! (length enc - 2) \<noteq> 0)
           \<and> (kind \<le> 3 \<longrightarrow> message_tiny_valid enc (length front) (length tags))
           \<and> index_tags \<lparr>mi_encoded = enc, mi_boundaries = b, mi_directory = length front,
                         mi_field_count = length tags, mi_offset_width = w, mi_directory_kind = kind\<rparr> = map unat tags)"

lemma directory_forI:
  assumes "1 \<le> length dir" and "1 \<le> kind" and "kind \<le> 7"
    and "\<And>front control bl. 2 \<le> bl \<Longrightarrow> message_directory_size (front @ dir @ [control]) bl kind = Some (length dir)"
    and "\<And>front control. message_field_count (front @ dir @ [control]) kind (length front) (length dir) = Some (length tags)"
    and "\<And>front control. kind = 7 \<Longrightarrow> (front @ dir @ [control]) ! (length (front @ dir @ [control]) - 2) \<noteq> 0"
    and "\<And>front control. kind \<le> 3 \<Longrightarrow> message_tiny_valid (front @ dir @ [control]) (length front) (length tags)"
    and "\<And>front control b w. index_tags \<lparr>mi_encoded = front @ dir @ [control], mi_boundaries = b,
           mi_directory = length front, mi_field_count = length tags, mi_offset_width = w, mi_directory_kind = kind\<rparr>
           = map unat tags"
  shows "directory_for kind dir tags"
  using assms unfolding directory_for_def Let_def by blast

lemma directory_for_tiny:
  assumes valid: "bebop_message_tags_valid (Some tags) (length tags)" and n: "tags \<noteq> []" "length tags \<le> 3"
  shows "directory_for (length tags) tags tags"
proof -
  have tv: "message_tiny_valid (front @ tags @ [control]) (length front) (length tags)" for front control
  proof -
    have "(front @ tags @ [control]) ! (length front + i) = tags ! i" if "i < length tags" for i
      using that by (simp add: nth_append)
    moreover have "(front @ tags @ [control]) ! (length front + i - 1) = tags ! (i - 1)" if "1 \<le> i" "i < length tags" for i
      using that by (cases i) (simp_all add: nth_append)
    moreover have "(front @ tags @ [control]) ! length front = tags ! 0"
      using n(1) by (cases tags) (simp_all add: nth_append)
    ultimately show ?thesis
      using valid n(1) by (auto simp: message_tiny_valid_def bebop_message_tags_valid_def list_all_iff)
  qed
  have "length tags \<noteq> 0"
    using n(1) by simp
  then have k: "length tags = 1 \<or> length tags = 2 \<or> length tags = 3"
    using n(2) by linarith
  show ?thesis
  proof (rule directory_forI)
    show "message_directory_size (front @ tags @ [control]) bl (length tags) = Some (length tags)" for front control bl
      using k by (auto simp: message_directory_size_def)
    show "message_field_count (front @ tags @ [control]) (length tags) (length front) (length tags) = Some (length tags)"
      for front control
      using k by (auto simp: message_field_count_def)
    show "index_tags \<lparr>mi_encoded = front @ tags @ [control], mi_boundaries = b,
           mi_directory = length front, mi_field_count = length tags, mi_offset_width = w, mi_directory_kind = length tags\<rparr>
           = map unat tags" for front control b w
      using k by (auto simp: index_tags_def Let_def span_at_def)
  qed (use k tv in auto)
qed

lemma directory_for_mask:
  assumes valid: "bebop_message_tags_valid (Some tags) (length tags)" and n: "tags \<noteq> []"
    and kind: "kind \<in> {4, 5, 6}" and w2: "w = 2 ^ (kind - 4)" and mask: "w \<in> {1, 2, 4}" and last: "unat (last tags) \<le> 8 * w"
  shows "directory_for kind (bebop_wire_store_le (message_tag_mask tags (length tags)) w) tags"
proof -
  let ?m = "message_tag_mask tags (length tags)"
  have sorted: "sorted_wrt (<) (map unat tags)" "\<forall>t\<in>set tags. 1 \<le> unat t"
    using tags_valid_sorted [OF valid] by auto
  have le: "unat t \<le> 8 * w" if "t \<in> set tags" for t
  proof -
    have "unat t \<le> unat (last tags)"
      using sorted(1) that n by (induction tags) (auto simp: last_ConsR less_imp_le)
    then show ?thesis
      using last by simp
  qed
  have mt: "mask_tags 0 ?m = map unat tags"
    using sorted le mask by (intro mask_tags_tag_mask) fastforce+
  have pc: "bebop_wire_popcount32 ?m = length tags"
    using arg_cong [OF mt, of length] by simp
  have "take_bit (8 * w) ?m = ?m"
  proof (rule bit_word_eqI)
    fix i
    have "i < 8 * w" if b: "bit ?m i"
    proof -
      obtain t where "t \<in> set tags" "unat t - 1 = i"
        using b unfolding bit_tag_mask by blast
      then show ?thesis
        using le [of t] sorted(2) by fastforce
    qed
    then show "bit (take_bit (8 * w) ?m) i = bit ?m i"
      by (auto simp: bit_take_bit_iff)
  qed
  then have ld: "bebop_wire_load_le (bebop_wire_store_le ?m w @ rest) w = ?m" for rest
    using load_store_le [OF mask] by simp
  show ?thesis
  proof (rule directory_forI)
    show "message_directory_size (front @ bebop_wire_store_le ?m w @ [control]) bl kind = Some (length (bebop_wire_store_le ?m w))"
      for front control bl
      using kind w2 by (auto simp: message_directory_size_def)
    show "message_field_count (front @ bebop_wire_store_le ?m w @ [control]) kind (length front)
        (length (bebop_wire_store_le ?m w)) = Some (length tags)" for front control
      using kind ld pc mask by (simp add: message_field_count_def) auto
    show "index_tags \<lparr>mi_encoded = front @ bebop_wire_store_le ?m w @ [control], mi_boundaries = b,
           mi_directory = length front, mi_field_count = length tags, mi_offset_width = v, mi_directory_kind = kind\<rparr>
           = map unat tags" for front control b v
    proof -
      have "kind \<notin> {1, 2, 3}"
        using kind by auto
      then show ?thesis
        unfolding index_tags_def Let_def using kind ld mt w2 by simp
    qed
  qed (use kind mask in auto)
qed

lemma directory_for_blocks:
  assumes valid: "bebop_message_tags_valid (Some tags) (length tags)" and n: "tags \<noteq> []" "length tags \<le> 255"
  shows "directory_for 7 (message_store_blocks (message_block_mask tags (length tags)) [0..<8] tags 0
       @ [message_block_mask tags (length tags)]) tags
    \<and> length (message_store_blocks (message_block_mask tags (length tags)) [0..<8] tags 0)
        = 5 * bebop_wire_popcount32 (ucast (message_block_mask tags (length tags)))"
proof -
  let ?bm = "message_block_mask tags (length tags)"
  have sorted: "sorted_wrt (<) (map unat tags)" "\<forall>t\<in>set tags. 1 \<le> unat t"
    using tags_valid_sorted [OF valid] by auto
  have blk: "(unat t - 1) div 32 \<in> set [0..<8]" for t :: byte
    using unat_byte_less [of t] by (simp add: div_less_iff_less_mult)
  have st: "message_blocks_loop (front @ message_store_blocks ?bm [0..<8] tags 0 @ post) ?bm [0..<8] (length front) 0
           = Some (length tags)
       \<and> block_tags (front @ message_store_blocks ?bm [0..<8] tags 0 @ post) ?bm [0..<8] (length front) = map unat tags
       \<and> length (message_store_blocks ?bm [0..<8] tags 0) = 5 * length (filter (bit ?bm) [0..<8])" for front post
    using store_blocks_spec [of "[0..<8]" tags ?bm 0 front post] sorted blk n(2)
    by (simp add: bit_block_mask strict_sorted_iff)
  let ?dir = "message_store_blocks ?bm [0..<8] tags 0 @ [?bm]"
  have len: "length ?dir = 1 + 5 * bebop_wire_popcount32 (ucast ?bm)"
    using st by (simp add: popcount_byte)
  have "bit ?bm ((unat (hd tags) - 1) div 32)"
    using n(1) blk [of "hd tags"] by (auto simp: bit_block_mask)
  then have nz: "?bm \<noteq> 0"
    by auto
  have top: "(front @ ?dir @ [control]) ! (length (front @ ?dir @ [control]) - 2) = ?bm" for front control
    by (simp add: nth_append)
  have dtop: "(front @ ?dir @ [control]) ! (length front + length ?dir - 1) = ?bm" for front control
    by (simp add: nth_append)
  have loop: "message_blocks_loop (front @ ?dir @ [control]) ?bm [0..<8] (length front) 0 = Some (length tags)"
    "block_tags (front @ ?dir @ [control]) ?bm [0..<8] (length front) = map unat tags" for front control
    using st [of front "[?bm, control]"] by simp_all
  have "directory_for 7 ?dir tags"
  proof (rule directory_forI)
    show "message_directory_size (front @ ?dir @ [control]) bl 7 = Some (length ?dir)" if "2 \<le> bl" for front control bl
      using that unfolding message_directory_size_def top len by simp
    show "message_field_count (front @ ?dir @ [control]) 7 (length front) (length ?dir) = Some (length tags)"
      for front control
      unfolding message_field_count_def dtop loop by simp
    show "(front @ ?dir @ [control]) ! (length (front @ ?dir @ [control]) - 2) \<noteq> 0" for front control
      unfolding top by (rule nz)
    show "index_tags \<lparr>mi_encoded = front @ ?dir @ [control], mi_boundaries = b,
           mi_directory = length front, mi_field_count = length tags, mi_offset_width = w, mi_directory_kind = 7\<rparr>
           = map unat tags" for front control b w
      unfolding index_tags_def Let_def Bebop_MessageIndex.simps top loop by simp
  qed simp_all
  then show ?thesis
    using st by (simp add: popcount_byte)
qed

lemma directory_decodes:
  assumes "bebop_message_tags_valid (Some tags) (length tags)" and "tags \<noteq> []" "length tags \<le> 255"
  shows "\<exists>dir. message_directory_bytes (bebop_message_directory_layout tags (length tags)) tags (length tags) = Some dir
     \<and> length dir = dl_size (bebop_message_directory_layout tags (length tags))
     \<and> directory_for (dl_kind (bebop_message_directory_layout tags (length tags))) dir tags"
  using assms(2)
proof (cases rule: layout_cases)
  case tiny
  have "length tags \<noteq> 0"
    using assms(2) by simp
  then have k: "length tags = 1 \<or> length tags = 2 \<or> length tags = 3"
    using tiny(3) by linarith
  then have "message_directory_bytes (bebop_message_directory_layout tags (length tags)) tags (length tags) = Some tags"
    unfolding message_directory_bytes_def Let_def tiny(1) by auto
  then show ?thesis
    using directory_for_tiny [OF assms(1,2) tiny(3)] tiny by simp
next
  case (mask w)
  have "message_directory_bytes (bebop_message_directory_layout tags (length tags)) tags (length tags)
      = Some (bebop_wire_store_le (message_tag_mask tags (length tags)) w)"
    unfolding message_directory_bytes_def Let_def mask(4) using mask(1) by auto
  then show ?thesis
    using directory_for_mask [OF assms(1,2) mask(1,2,3,5)] mask(3,4) by simp
next
  case blocks
  then show ?thesis
    using directory_for_blocks [OF assms] by (simp add: message_directory_bytes_def Let_def)
qed

end
