(* ===== verification/Wire_Message_Roundtrip.thy ===== *)
theory Wire_Message_Roundtrip
  imports Wire_Message_Codec
begin

text \<open>
  The properties of indexed messages: what the encoder writes parses, each field is found under its
  tag and no other, iteration yields the fields in order, lookups in any accepted message stay inside
  the payload, the lazy parser differs from the validating one only in the check of the boundaries,
  and the predicted size and the layout of the directory are as documented; and the memory safety of any
  sequence of decoding calls.
\<close>

section \<open>The image of a message\<close>

abbreviation layout_of :: "byte list \<Rightarrow> bebop_message_directory_layout_t" where
  "layout_of tags \<equiv> bebop_message_directory_layout tags (length tags)"

definition metadata_size :: "byte list \<Rightarrow> nat \<Rightarrow> nat" where
  "metadata_size tags payload_size =
     1 + dl_size (layout_of tags) + (length tags - 1) * message_offset_width payload_size"

definition boundary_bytes :: "u32 list \<Rightarrow> nat \<Rightarrow> nat \<Rightarrow> byte list" where
  "boundary_bytes offsets n width = concat (map (\<lambda>i. bebop_wire_store_le (offsets ! i) width) [1..<n])"

definition control_byte :: "byte list \<Rightarrow> nat \<Rightarrow> byte" where
  "control_byte tags payload_size =
     push_bit 2 (of_nat (dl_kind (layout_of tags)))
     OR (if message_offset_width payload_size = 1 then 0 else if message_offset_width payload_size = 2 then 1 else 2)"

definition message_image :: "byte list \<Rightarrow> u32 list \<Rightarrow> byte list \<Rightarrow> byte list" where
  "message_image tags offsets payload =
     le_bytes 4 (of_nat (length payload + metadata_size tags (length payload)) :: u32) @ payload
     @ boundary_bytes offsets (length tags) (message_offset_width (length payload))
     @ the (message_directory_bytes (layout_of tags) tags (length tags))
     @ [control_byte tags (length payload)]"

lemma layout_empty [simp]:
  "bebop_message_directory_layout tags 0 = \<lparr>dl_kind = 0, dl_size = 0, dl_block_mask = 0\<rparr>"
  by (simp add: bebop_message_directory_layout_def)

lemma layout_size_le: "dl_size (layout_of tags) \<le> 41"
proof (cases "tags = []")
  case True
  then show ?thesis by simp
next
  case False
  then show ?thesis
  proof (cases rule: layout_cases)
    case tiny
    then show ?thesis by simp
  next
    case (mask w)
    then show ?thesis by auto
  next
    case blocks
    have "length (filter (bit (message_block_mask tags (length tags))) [0..<8]) \<le> length [0..<8]"
      by (rule length_filter_le)
    then show ?thesis
      unfolding blocks(3) popcount_byte by simp
  qed
qed

lemma directory_bytes_total:
  assumes "bebop_message_tags_valid (Some tags) (length tags)" and "length tags \<le> 255"
  shows "\<exists>dir. message_directory_bytes (layout_of tags) tags (length tags) = Some dir
     \<and> length dir = dl_size (layout_of tags)
     \<and> (if tags = [] then dir = [] \<and> dl_kind (layout_of tags) = 0 else directory_for (dl_kind (layout_of tags)) dir tags)"
proof (cases "tags = []")
  case True
  then show ?thesis
    by (simp add: message_directory_bytes_def)
next
  case False
  then show ?thesis
    using directory_decodes [OF assms(1) False assms(2)] by simp
qed

lemma offset_width_cases: "message_offset_width p \<in> {1, 2, 4}"
  by (simp add: message_offset_width_def)

lemma length_boundary_bytes:
  "width \<in> {1, 2, 4} \<Longrightarrow> length (boundary_bytes offsets n width) = (n - 1) * width"
  unfolding boundary_bytes_def length_concat map_map o_def by (simp add: sum_list_triv)

lemma metadata_size_le: "length tags \<le> 255 \<Longrightarrow> metadata_size tags p \<le> 1058"
proof -
  assume "length tags \<le> 255"
  then have "(length tags - 1) * message_offset_width p \<le> 254 * 4"
    using offset_width_cases [of p] by (intro mult_le_mono) auto
  then show ?thesis
    using layout_size_le [of tags] by (simp add: metadata_size_def)
qed

lemma patch_length:
  "length hole = 4 \<Longrightarrow> patch_at (length pre) (le_bytes 4 (v :: u32)) (pre @ hole @ rest) = pre @ le_bytes 4 v @ rest"
  using patch_at_middle [of "le_bytes 4 v" hole pre rest] by simp

lemma end_indexed_unfold:
  assumes data: "wr_data w = pre @ hole @ payload" and hole: "length hole = 4"
  shows "bebop_writer_end_indexed_message (Some w) ctx (length pre) (length pre + 4)
        (Some tags) (Some offsets) (length tags) =
    (if \<not> bebop_message_tags_valid (Some tags) (length tags) then (BEBOP_RESULT_INVALID, Some w, ctx)
     else if length pre > SIZE_MAX - 4 then (BEBOP_RESULT_INVALID, Some w, ctx)
     else if length payload > UINT32_MAX then (BEBOP_RESULT_OVERFLOW, Some w, ctx)
     else if length tags = 0 \<and> length payload \<noteq> 0 \<or> \<not> message_offsets_valid offsets (length tags) (length payload)
     then (BEBOP_RESULT_INVALID, Some w, ctx)
     else if length payload > UINT32_MAX - metadata_size tags (length payload) then (BEBOP_RESULT_OVERFLOW, Some w, ctx)
     else case bebop_writer_reserve (Some w) ctx (metadata_size tags (length payload)) of
            (BEBOP_RESULT_OK, Some w', ctx') \<Rightarrow>
              (case message_directory_bytes (layout_of tags) tags (length tags) of
                 None \<Rightarrow> (BEBOP_RESULT_INVALID, Some w', ctx')
               | Some dir \<Rightarrow>
                   (case bebop_writer_end_length
                          (Some (w'\<lparr>wr_data := wr_data w' @ boundary_bytes offsets (length tags) (message_offset_width (length payload))
                                   @ dir @ [control_byte tags (length payload)]\<rparr>))
                          (length pre) (of_nat (length payload + metadata_size tags (length payload))) of
                      (result, wr'') \<Rightarrow> (result, wr'', ctx')))
          | res \<Rightarrow> res)"
proof -
  let ?width = "message_offset_width (length payload)"
  have len: "length (wr_data w) - (length pre + 4) = length payload" and ge: "\<not> length pre + 4 > length (wr_data w)"
    using data hole by simp_all
  have ms: "1 + dl_size (layout_of tags) + (if length tags = 0 then 0 else length tags - 1) * ?width
      = metadata_size tags (length payload)"
    by (simp add: metadata_size_def)
  show ?thesis
    unfolding bebop_writer_end_indexed_message_def BEBOP_WIRE_SIZE_LEN_def bebop_writer_length_def tag_array_def
      option.case Let_def len ms boundary_bytes_def [symmetric] control_byte_def [symmetric]
    using ge by simp
qed

lemma end_indexed_image:
  assumes inv: "writer_inv w" and data: "wr_data w = pre @ hole @ payload" and hole: "length hole = 4"
    and n: "length tags \<le> 255"
    and run: "bebop_writer_end_indexed_message (Some w) ctx (length pre) (length pre + 4)
        (Some tags) (Some offsets) (length tags) = (BEBOP_RESULT_OK, wr', ctx')"
  shows "bebop_message_tags_valid (Some tags) (length tags)
    \<and> message_offsets_valid offsets (length tags) (length payload)
    \<and> (tags = [] \<longrightarrow> payload = [])
    \<and> length payload + metadata_size tags (length payload) \<le> UINT32_MAX
    \<and> (\<exists>w'. wr' = Some w' \<and> wr_data w' = pre @ message_image tags offsets payload)"
proof -
  let ?width = "message_offset_width (length payload)" and ?ms = "metadata_size tags (length payload)"
  note run' = run [unfolded end_indexed_unfold [OF data hole]]
  have g: "bebop_message_tags_valid (Some tags) (length tags)"
      "tags = [] \<longrightarrow> payload = []" "message_offsets_valid offsets (length tags) (length payload)"
      "length payload \<le> UINT32_MAX - ?ms"
    using run' by (auto split: if_splits)
  from directory_bytes_total [OF g(1) n] obtain dir where
    dir: "message_directory_bytes (layout_of tags) tags (length tags) = Some dir" by blast
  obtain r x c where rs: "bebop_writer_reserve (Some w) ctx ?ms = (r, x, c)"
    by (cases "bebop_writer_reserve (Some w) ctx ?ms")
  from reserve_spec [OF inv rs] obtain w1 where w1: "x = Some w1" "wr_data w1 = wr_data w"
    by blast
  let ?out = "boundary_bytes offsets (length tags) ?width @ dir @ [control_byte tags (length payload)]"
  have "bebop_writer_end_length (Some (w1\<lparr>wr_data := wr_data w1 @ ?out\<rparr>)) (length pre) (of_nat (length payload + ?ms))
      = (BEBOP_RESULT_OK, wr')"
    using run' unfolding rs w1(1) dir by (cases r) (auto split: if_splits prod.splits)
  then have "wr' = Some (w1\<lparr>wr_data := pre @ le_bytes 4 (of_nat (length payload + ?ms) :: u32) @ payload @ ?out\<rparr>)"
    using hole patch_length [OF hole, of pre _ "payload @ ?out"]
    by (auto simp: bebop_writer_end_length_def w1(2) data Let_def split: if_splits)
  moreover have "length payload + ?ms \<le> UINT32_MAX"
    using g(4) metadata_size_le [OF n, of "length payload"] by (simp add: UINT32_MAX_def)
  ultimately show ?thesis
    using g(1-3) by (auto simp: message_image_def dir)
qed

section \<open>The image parses\<close>

lemma drop_concat_blocks:
  assumes "\<forall>x\<in>set xs. length (f x) = w" and "i < length xs"
  shows "drop (i * w) (concat (map f xs) @ rest) = f (xs ! i) @ concat (map f (drop (Suc i) xs)) @ rest"
  using assms
proof (induction xs arbitrary: i)
  case Nil
  then show ?case by simp
next
  case (Cons x xs)
  show ?case
  proof (cases i)
    case 0
    then show ?thesis by simp
  next
    case (Suc j)
    then show ?thesis
      using Cons.IH [of j] Cons.prems by simp
  qed
qed

lemma control_fields:
  fixes v kind :: byte
  assumes "kind \<in> {0, 1, 2, 3, 4, 5, 6, 7}" and "v \<in> {0, 1, 2}"
  shows "(push_bit 2 kind OR v) AND 0xe0 = 0 \<and> (push_bit 2 kind OR v) AND 3 = v
    \<and> drop_bit 2 (push_bit 2 kind OR v) AND 7 = kind"
  using assms by (elim insertE emptyE; hypsubst) simp_all

lemma control_bits:
  fixes c :: byte and w :: nat
  assumes "k \<le> 7" and "w \<in> {1, 2, 4}"
    and "c = push_bit 2 (of_nat k) OR (if w = 1 then 0 else if w = 2 then 1 else 2)"
  shows "c AND 0xe0 = 0 \<and> c AND 3 \<noteq> 3 \<and> w = 2 ^ unat (c AND 3) \<and> k = unat (drop_bit 2 c AND 7)"
proof -
  have "k = 0 \<or> k = 1 \<or> k = 2 \<or> k = 3 \<or> k = 4 \<or> k = 5 \<or> k = 6 \<or> k = 7"
    using assms(1) by linarith
  then have k: "(of_nat k :: byte) \<in> {0, 1, 2, 3, 4, 5, 6, 7}"
    by (elim disjE) simp_all
  define v :: byte where "v = (if w = 1 then 0 else if w = 2 then 1 else 2)"
  have v: "v \<in> {0, 1, 2}" "v \<noteq> 3" "w = 2 ^ unat v"
    using assms(2) by (auto simp: v_def)
  have "unat (of_nat k :: byte) = k"
    using assms(1) by (simp add: unat_of_nat)
  moreover have "c AND 0xe0 = 0" "c AND 3 = v" "drop_bit 2 c AND 7 = of_nat k"
    using control_fields [OF k v(1)] unfolding assms(3) v_def [symmetric] by blast+
  ultimately show ?thesis
    using v(2,3) by (simp only: simp_thms)
qed

definition image_index :: "byte list \<Rightarrow> u32 list \<Rightarrow> byte list \<Rightarrow> Bebop_MessageIndex" where
  "image_index tags offsets payload =
     \<lparr>mi_encoded = message_image tags offsets payload, mi_boundaries = 4 + length payload,
      mi_directory = 4 + length payload + (length tags - 1) * message_offset_width (length payload),
      mi_field_count = length tags, mi_offset_width = message_offset_width (length payload),
      mi_directory_kind = dl_kind (layout_of tags)\<rparr>"

text \<open>What the encoder has checked when it accepts a message.\<close>

definition encodable :: "byte list \<Rightarrow> u32 list \<Rightarrow> byte list \<Rightarrow> bool" where
  "encodable tags offsets payload \<longleftrightarrow>
     length tags \<le> 255 \<and> bebop_message_tags_valid (Some tags) (length tags)
     \<and> message_offsets_valid offsets (length tags) (length payload)
     \<and> (tags = [] \<longrightarrow> payload = [])
     \<and> length payload + metadata_size tags (length payload) \<le> UINT32_MAX"

lemma encodableE:
  assumes "encodable tags offsets payload"
  obtains dir where "message_image tags offsets payload =
       (le_bytes 4 (of_nat (length payload + metadata_size tags (length payload)) :: u32) @ payload
        @ boundary_bytes offsets (length tags) (message_offset_width (length payload)))
       @ dir @ [control_byte tags (length payload)]"
    "length dir = dl_size (layout_of tags)"
    "length (message_image tags offsets payload) = 4 + length payload + metadata_size tags (length payload)"
    "if tags = [] then dir = [] \<and> dl_kind (layout_of tags) = 0 else directory_for (dl_kind (layout_of tags)) dir tags"
proof -
  have e: "length tags \<le> 255" "bebop_message_tags_valid (Some tags) (length tags)"
    using assms by (auto simp: encodable_def)
  obtain dir where dir: "message_directory_bytes (layout_of tags) tags (length tags) = Some dir"
     "length dir = dl_size (layout_of tags)"
     "if tags = [] then dir = [] \<and> dl_kind (layout_of tags) = 0 else directory_for (dl_kind (layout_of tags)) dir tags"
    using directory_bytes_total [OF e(2,1)] by blast
  have img: "message_image tags offsets payload =
       (le_bytes 4 (of_nat (length payload + metadata_size tags (length payload)) :: u32) @ payload
        @ boundary_bytes offsets (length tags) (message_offset_width (length payload)))
       @ dir @ [control_byte tags (length payload)]"
    by (simp add: message_image_def dir(1))
  have "length (message_image tags offsets payload) = 4 + length payload + metadata_size tags (length payload)"
    using length_boundary_bytes [OF offset_width_cases, of offsets "length tags" "length payload"]
    by (simp add: img dir(2) metadata_size_def)
  then show thesis
    by (rule that [OF img dir(2) _ dir(3)])
qed

lemma layout_kind_le: "dl_kind (layout_of tags) \<le> 7"
proof (cases "tags = []")
  case True
  then show ?thesis by simp
next
  case False
  then show ?thesis
    by (cases rule: layout_cases) auto
qed

lemma load_length_prefix:
  "n \<le> UINT32_MAX \<Longrightarrow> unat (bebop_wire_load_le (le_bytes 4 (of_nat n :: u32) @ rest) 4) = n"
  by (simp add: bebop_wire_load_le_eq le_word_le_bytes UINT32_MAX_def unat_of_nat take_bit_word_eq_self)

lemma image_conditions:
  assumes enc: "encodable tags offsets payload"
  shows "parse_conditions (message_image tags offsets payload) (image_index tags offsets payload)"
  using enc
proof (cases rule: encodableE)
  case (1 dir)
  let ?enc = "message_image tags offsets payload" and ?p = "length payload" and ?n = "length tags"
  let ?w = "message_offset_width (length payload)" and ?k = "dl_kind (layout_of tags)"
  let ?front = "le_bytes 4 (of_nat (?p + metadata_size tags ?p) :: u32) @ payload @ boundary_bytes offsets ?n ?w"
  have front: "length ?front = 4 + ?p + (?n - 1) * ?w"
    using length_boundary_bytes [OF offset_width_cases, of offsets ?n ?p] by simp
  have len: "length ?enc = 4 + ?p + (?n - 1) * ?w + length dir + 1"
    using 1(2,3) by (simp add: metadata_size_def)
  have last: "?enc ! (length ?enc - 1) = control_byte tags ?p"
    unfolding 1(1) by (simp add: nth_append)
  have ctl: "control_byte tags ?p AND 0xe0 = 0" "control_byte tags ?p AND 3 \<noteq> 3"
      "?w = 2 ^ unat (control_byte tags ?p AND 3)" "?k = unat (drop_bit 2 (control_byte tags ?p) AND 7)"
    using control_bits [OF layout_kind_le offset_width_cases control_byte_def] by blast+
  have ld: "unat (bebop_wire_load_le ?enc 4) = length ?enc - 4"
    using enc load_length_prefix [of "?p + metadata_size tags ?p"] 1(3) unfolding 1(1) encodable_def by simp
  have dirp: "length ?enc - 1 - length dir = length ?front" "length ?enc - 1 - length dir - (?n - 1) * ?w = 4 + ?p"
    unfolding front len by simp_all
  have dirw: "message_directory_size ?enc (length ?enc - 4) ?k = Some (length dir)
     \<and> (?k = 7 \<longrightarrow> ?enc ! (length ?enc - 2) \<noteq> 0)
     \<and> message_field_count ?enc ?k (length ?front) (length dir) = Some ?n
     \<and> (?k = 0 \<longleftrightarrow> ?n = 0)
     \<and> (1 \<le> ?k \<and> ?k \<le> 3 \<longrightarrow> message_tiny_valid ?enc (length ?front) ?n)"
  proof (cases "tags = []")
    case True
    then show ?thesis
      using 1(4) by (simp add: message_directory_size_def message_field_count_def)
  next
    case False
    then have df: "directory_for ?k dir tags"
      using 1(4) by simp
    then have "2 \<le> length ?enc - 4"
      unfolding len directory_for_def by simp
    then show ?thesis
      using df False unfolding directory_for_def Let_def 1(1) by (metis le_zero_eq length_0_conv not_one_le_zero)
  qed
  show ?thesis
    unfolding parse_conditions_def Let_def image_index_def Bebop_MessageIndex.simps last
  proof (intro exI [of _ "length dir"] conjI)
    show "message_field_count ?enc ?k (length ?enc - 1 - length dir) (length dir) = Some ?n"
      "1 \<le> ?k \<and> ?k \<le> 3 \<longrightarrow> message_tiny_valid ?enc (length ?enc - 1 - length dir) ?n"
      unfolding dirp using dirw by blast+
    show "4 + ?p + (?n - 1) * ?w = length ?enc - 1 - length dir" "4 + ?p = length ?enc - 1 - length dir - (?n - 1) * ?w"
      unfolding dirp front by simp_all
    show "?n = 0 \<longrightarrow> 4 + ?p = 4"
      using enc by (simp add: encodable_def)
  qed (use dirw ctl ld len in simp_all)
qed

lemma fits_width:
  fixes v :: u32
  assumes "unat v \<le> p" shows "take_bit (8 * message_offset_width p) v = v"
proof -
  have "p \<le> 255 \<Longrightarrow> unat v < 2 ^ 8" "p \<le> 65535 \<Longrightarrow> unat v < 2 ^ 16" "unat v < 2 ^ 32"
    using assms unsigned_less [of v] by simp_all
  then have "unat v < 2 ^ (8 * message_offset_width p)"
    by (simp add: message_offset_width_def)
  then have "unat (take_bit (8 * message_offset_width p) v) = unat v"
    by (simp only: unsigned_take_bit_eq take_bit_nat_eq_self)
  then show ?thesis
    by (rule unsigned_word_eqI)
qed

lemma offsets_validD:
  assumes "encodable tags offsets payload" and "i < length tags"
  shows "unat (offsets ! i) \<le> length payload" and "i \<noteq> 0 \<Longrightarrow> offsets ! (i - 1) \<le> offsets ! i"
proof -
  have "\<forall>j\<in>set [0..<length tags]. \<not> (unat (offsets ! j) > length payload \<or> (j \<noteq> 0 \<and> offsets ! j < offsets ! (j - 1)))"
    using assms(1) unfolding encodable_def message_offsets_valid_def list_all_iff by blast
  then have "\<not> (unat (offsets ! i) > length payload \<or> (i \<noteq> 0 \<and> offsets ! i < offsets ! (i - 1)))"
    by (rule bspec) (simp add: assms(2))
  then show "unat (offsets ! i) \<le> length payload" and "i \<noteq> 0 \<Longrightarrow> offsets ! (i - 1) \<le> offsets ! i"
    by (simp_all add: not_less)
qed

lemma image_boundary:
  assumes enc: "encodable tags offsets payload" and i: "i < length tags - 1"
  shows "bebop_wire_load_le (drop (4 + length payload + i * message_offset_width (length payload))
      (message_image tags offsets payload)) (message_offset_width (length payload)) = offsets ! Suc i"
  using enc
proof (cases rule: encodableE)
  case (1 dir)
  let ?w = "message_offset_width (length payload)" and ?f = "\<lambda>i. bebop_wire_store_le (offsets ! i) (message_offset_width (length payload))"
  have nth: "[1..<length tags] ! i = Suc i" "i < length [1..<length tags]"
    using i by simp_all
  have "unat (offsets ! Suc i) \<le> length payload"
    using i by (intro offsets_validD(1) [OF enc]) simp
  note fit = fits_width [OF this]
  have len: "\<forall>x\<in>set [1..<length tags]. length (?f x) = ?w"
    using length_store_le [OF offset_width_cases] by blast
  have "drop (4 + length payload + i * ?w) (message_image tags offsets payload)
      = drop (i * ?w) (concat (map ?f [1..<length tags]) @ dir @ [control_byte tags (length payload)])"
    unfolding 1(1) boundary_bytes_def by simp
  also have "\<dots> = ?f (Suc i) @ concat (map ?f (drop (Suc i) [1..<length tags])) @ dir @ [control_byte tags (length payload)]"
    using drop_concat_blocks [OF len nth(2)] unfolding nth(1) .
  finally show ?thesis
    by (simp only: load_store_le [OF offset_width_cases] fit)
qed

lemma boundaries_loopI:
  assumes "\<And>i. i < m \<Longrightarrow> unat (bebop_wire_load_le (drop (b + (k + i) * w) enc) w) \<le> p"
    and "\<And>i. Suc i < m \<Longrightarrow> bebop_wire_load_le (drop (b + (k + i) * w) enc) w
           \<le> bebop_wire_load_le (drop (b + (k + Suc i) * w) enc) w"
    and "m \<noteq> 0 \<Longrightarrow> prev \<le> bebop_wire_load_le (drop (b + k * w) enc) w"
  shows "message_boundaries_loop enc b w p prev [k..<k + m]"
  using assms
proof (induction m arbitrary: k prev)
  case 0
  then show ?case by simp
next
  case (Suc m)
  let ?v = "bebop_wire_load_le (drop (b + k * w) enc) w"
  have "message_boundaries_loop enc b w p ?v [Suc k..<Suc k + m]"
  proof (rule Suc.IH)
    show "unat (bebop_wire_load_le (drop (b + (Suc k + i) * w) enc) w) \<le> p" if "i < m" for i
      using Suc.prems(1) [of "Suc i"] that by simp
    show "bebop_wire_load_le (drop (b + (Suc k + i) * w) enc) w
        \<le> bebop_wire_load_le (drop (b + (Suc k + Suc i) * w) enc) w" if "Suc i < m" for i
      using Suc.prems(2) [of "Suc i"] that by simp
    show "?v \<le> bebop_wire_load_le (drop (b + Suc k * w) enc) w" if "m \<noteq> 0"
      using Suc.prems(2) [of 0] that by simp
  qed
  moreover have "prev \<le> ?v" "unat ?v \<le> p"
    using Suc.prems(1) [of 0] Suc.prems(3) by simp_all
  moreover have "[k..<k + Suc m] = k # [Suc k..<Suc k + m]"
    by (simp add: upt_conv_Cons)
  ultimately show ?case
    by (simp add: Let_def)
qed

lemma image_boundaries_accepted:
  assumes enc: "encodable tags offsets payload"
  shows "boundaries_accepted (image_index tags offsets payload)"
proof -
  let ?w = "message_offset_width (length payload)"
  note ov = offsets_validD [OF enc]
  have "message_boundaries_loop (message_image tags offsets payload) (4 + length payload) ?w (length payload) 0
      [0..<0 + (length tags - 1)]"
  proof (rule boundaries_loopI)
    show "unat (bebop_wire_load_le (drop (4 + length payload + (0 + i) * ?w) (message_image tags offsets payload)) ?w)
        \<le> length payload" if "i < length tags - 1" for i
      using ov(1) [of "Suc i"] that unfolding add_0 image_boundary [OF enc that] by simp
    show "bebop_wire_load_le (drop (4 + length payload + (0 + i) * ?w) (message_image tags offsets payload)) ?w
        \<le> bebop_wire_load_le (drop (4 + length payload + (0 + Suc i) * ?w) (message_image tags offsets payload)) ?w"
      if i: "Suc i < length tags - 1" for i
      using ov(2) [of "Suc (Suc i)"] i image_boundary [OF enc, of i] image_boundary [OF enc, of "Suc i"] by simp
  qed simp
  then show ?thesis
    by (simp add: boundaries_accepted_def image_index_def)
qed

lemma image_parses:
  "encodable tags offsets payload \<Longrightarrow>
   bebop_message_index_parse (Some x) (Some (message_image tags offsets payload))
     = (BEBOP_RESULT_OK, Some (image_index tags offsets payload))"
  by (rule conditions_parse [OF image_conditions image_boundaries_accepted])

lemma image_index_tags:
  assumes "encodable tags offsets payload"
  shows "index_tags (image_index tags offsets payload) = map unat tags"
  using assms
proof (cases rule: encodableE)
  case (1 dir)
  show ?thesis
  proof (cases "tags = []")
    case True
    then show ?thesis
      by (simp add: index_tags_def image_index_def)
  next
    case False
    then have "directory_for (dl_kind (layout_of tags)) dir tags"
      using 1(4) by simp
    moreover have "4 + length payload + (length tags - 1) * message_offset_width (length payload)
        = length (le_bytes 4 (of_nat (length payload + metadata_size tags (length payload)) :: u32) @ payload
        @ boundary_bytes offsets (length tags) (message_offset_width (length payload)))"
      using length_boundary_bytes [OF offset_width_cases, of offsets "length tags" "length payload"] by simp
    ultimately show ?thesis
      unfolding image_index_def 1(1) directory_for_def Let_def by metis
  qed
qed

lemma image_field_offset:
  assumes "encodable tags offsets payload" and "i \<le> length tags"
  shows "field_offset (image_index tags offsets payload) i
     = (if i = length tags then length payload else unat (offsets ! i))"
proof -
  have z: "tags \<noteq> [] \<Longrightarrow> offsets ! 0 = 0" "tags = [] \<Longrightarrow> payload = []"
    using assms(1) by (auto simp: encodable_def message_offsets_valid_def)
  show ?thesis
  proof (cases "i = 0 \<or> i = length tags")
    case True
    then show ?thesis
      using z assms(2) by (auto simp: field_offset_def image_index_def)
  next
    case False
    then show ?thesis
      using image_boundary [OF assms(1), of "i - 1"] assms(2) by (auto simp: field_offset_def image_index_def)
  qed
qed

lemma valid_tags_length:
  assumes "bebop_message_tags_valid (Some tags) (length tags)"
  shows "length tags \<le> 255"
proof -
  have s: "sorted_wrt (<) (map unat tags)" "\<forall>t\<in>set tags. 1 \<le> unat t"
    using tags_valid_sorted [OF assms] by auto
  have "unat t \<in> {1..255}" if "t \<in> set tags" for t
    using s(2) that unat_byte_less [of t] by simp
  then have sub: "set (map unat tags) \<subseteq> {1..255}"
    by auto
  have "length tags = card (set (map unat tags))"
    using s(1) distinct_card [of "map unat tags"] by (simp add: strict_sorted_iff)
  also have "\<dots> \<le> card {1..255::nat}"
    by (rule card_mono [OF _ sub]) simp
  finally show ?thesis by simp
qed

lemma end_indexed_result:
  assumes inv: "writer_inv w" and data: "wr_data w = pre @ hole @ payload" and hole: "length hole = 4"
    and pre: "length pre \<le> SIZE_MAX - 4"
    and run: "bebop_writer_end_indexed_message (Some w) ctx (length pre) (length pre + 4)
        (Some tags) (Some offsets) (length tags) = (result, wr', ctx')"
  shows "\<exists>w'. wr' = Some w' \<and>
    (if encodable tags offsets payload
        \<and> fst (bebop_writer_reserve (Some w) ctx (metadata_size tags (length payload))) = BEBOP_RESULT_OK
     then result = BEBOP_RESULT_OK \<and> wr_data w' = pre @ message_image tags offsets payload
     else result \<noteq> BEBOP_RESULT_OK \<and> wr_data w' = wr_data w)"
proof -
  let ?ms = "metadata_size tags (length payload)"
  obtain r x c where rs: "bebop_writer_reserve (Some w) ctx ?ms = (r, x, c)"
    by (cases "bebop_writer_reserve (Some w) ctx ?ms")
  from reserve_spec [OF inv rs] obtain w1 where w1: "x = Some w1" "wr_data w1 = wr_data w"
    "r \<noteq> BEBOP_RESULT_OK \<longrightarrow> w1 = w"
    by (auto split: if_splits)
  note run' = run [unfolded end_indexed_unfold [OF data hole] rs w1(1)]
  have enc: "encodable tags offsets payload \<longleftrightarrow> bebop_message_tags_valid (Some tags) (length tags)
      \<and> message_offsets_valid offsets (length tags) (length payload) \<and> (tags = [] \<longrightarrow> payload = [])
      \<and> length payload + ?ms \<le> UINT32_MAX"
    using valid_tags_length by (auto simp: encodable_def)
  have big: "length payload > UINT32_MAX - ?ms \<longleftrightarrow> \<not> length payload + ?ms \<le> UINT32_MAX"
    if "bebop_message_tags_valid (Some tags) (length tags)"
    using metadata_size_le [OF valid_tags_length [OF that], of "length payload"] by (simp add: UINT32_MAX_def) linarith
  show ?thesis
  proof (cases "encodable tags offsets payload \<and> r = BEBOP_RESULT_OK")
    case True
    have ok: "result = BEBOP_RESULT_OK"
    proof -
      obtain dir where dir: "message_directory_bytes (layout_of tags) tags (length tags) = Some dir"
        using True directory_bytes_total by (auto simp: encodable_def)
      have "length payload \<le> UINT32_MAX"
        using True enc by linarith
      then show ?thesis
        using run' True enc big pre unfolding dir
        by (auto simp: bebop_writer_end_length_def w1(2) data hole Let_def split: if_splits prod.splits)
    qed
    show ?thesis
      using end_indexed_image [OF inv data hole _ run [unfolded ok]] True ok rs by (auto simp: encodable_def)
  next
    case False
    show ?thesis
    proof (cases "encodable tags offsets payload")
      case True
      then have "(result, wr', ctx') = (r, Some w1, c)"
        using run' False enc big pre by (cases r) (auto split: if_splits)
      then show ?thesis
        using False True w1 rs by auto
    next
      case F: False
      then have "wr' = Some w \<and> result \<noteq> BEBOP_RESULT_OK"
        using run' unfolding enc by (auto simp: big split: if_splits)
      then show ?thesis
        using F by auto
    qed
  qed
qed

section \<open>Properties\<close>

text \<open>Where field \<open>i\<close> ends in the payload, and its bytes.\<close>

definition field_stop :: "u32 list \<Rightarrow> byte list \<Rightarrow> nat \<Rightarrow> nat \<Rightarrow> nat" where
  "field_stop offsets payload n i = (if Suc i = n then length payload else unat (offsets ! Suc i))"

definition field_bytes :: "u32 list \<Rightarrow> byte list \<Rightarrow> nat \<Rightarrow> nat \<Rightarrow> byte list" where
  "field_bytes offsets payload n i =
     span_at (unat (offsets ! i)) (field_stop offsets payload n i - unat (offsets ! i)) payload"

lemma image_index_wf:
  assumes "encodable tags offsets payload"
  shows "index_wf (image_index tags offsets payload)"
  using parse_wf [OF image_parses [OF assms, of blank_index]] by blast

lemma image_field_view:
  assumes "encodable tags offsets payload" and "i < length tags"
  shows "field_view (image_index tags offsets payload) i
     = (4 + unat (offsets ! i), field_stop offsets payload (length tags) i - unat (offsets ! i))"
  using image_field_offset [OF assms(1), of i] image_field_offset [OF assms(1), of "Suc i"] assms(2)
  by (auto simp: field_view_def field_stop_def)

lemma image_field:
  assumes enc: "encodable tags offsets payload"
  shows "bebop_message_index_field (Some (image_index tags offsets payload)) tag (Some f) (Some p) =
     (if tag \<in> set tags
      then (BEBOP_RESULT_OK, Some (Some (field_view (image_index tags offsets payload) (rank_in (map unat tags) (unat tag)))),
            Some True)
      else (BEBOP_RESULT_OK, Some None, Some False))"
proof -
  have "unat tag \<in> set (map unat tags) \<longleftrightarrow> tag \<in> set tags"
    by (auto dest: unsigned_word_eqI)
  then show ?thesis
    using index_field_wf [OF image_index_wf [OF enc]] unfolding image_index_tags [OF enc] by simp
qed

lemma image_field_bytes:
  assumes enc: "encodable tags offsets payload" and i: "i < length tags"
  shows "(\<lambda>(start, n). span_at start n (message_image tags offsets payload))
       (field_view (image_index tags offsets payload) i) = field_bytes offsets payload (length tags) i"
proof -
  let ?o = "unat (offsets ! i)" and ?s = "field_stop offsets payload (length tags) i"
  have s: "?s \<le> length payload" "?o \<le> ?s" "?o \<le> length payload"
    using offsets_validD [OF enc, of "Suc i"] offsets_validD(1) [OF enc i] i
    by (auto simp: field_stop_def word_le_nat_alt)
  then have "span_at (4 + ?o) (?s - ?o) (message_image tags offsets payload) = span_at ?o (?s - ?o) payload"
    by (simp add: message_image_def)
  then show ?thesis
    by (simp add: image_field_view [OF enc i] field_bytes_def)
qed

text \<open>
  C2: what the encoder writes, the validating parser accepts, and every field comes back. When
  finishing an indexed message succeeds, the bytes after the prefix parse to an index in which each
  given tag is found with exactly its slice of the payload, and no other tag is present.
\<close>

theorem message_roundtrip:
  assumes "writer_inv w" and "wr_data w = pre @ hole @ payload" and "length hole = 4"
    and "length pre \<le> SIZE_MAX - 4"
    and "bebop_writer_end_indexed_message (Some w) ctx (length pre) (length pre + 4)
        (Some tags) (Some offsets) (length tags) = (BEBOP_RESULT_OK, wr', ctx')"
  shows "\<exists>enc idx. bebop_writer_view wr' = Some (pre @ enc)
    \<and> bebop_message_index_parse (Some x) (Some enc) = (BEBOP_RESULT_OK, Some idx)
    \<and> (\<forall>i<length tags. \<exists>start n.
         bebop_message_index_field (Some idx) (tags ! i) (Some f) (Some p)
           = (BEBOP_RESULT_OK, Some (Some (start, n)), Some True)
         \<and> span_at start n enc = field_bytes offsets payload (length tags) i)
    \<and> (\<forall>tag. tag \<notin> set tags \<longrightarrow>
         bebop_message_index_field (Some idx) tag (Some f) (Some p) = (BEBOP_RESULT_OK, Some None, Some False))"
proof -
  from end_indexed_result [OF assms] obtain w' where w': "wr' = Some w'" "encodable tags offsets payload"
      "wr_data w' = pre @ message_image tags offsets payload"
    by (auto split: if_splits)
  note enc = w'(2)
  have sorted: "sorted_wrt (<) (map unat tags)"
    using tags_valid_sorted enc by (auto simp: encodable_def)
  have "\<exists>start n. bebop_message_index_field (Some (image_index tags offsets payload)) (tags ! i) (Some f) (Some p)
        = (BEBOP_RESULT_OK, Some (Some (start, n)), Some True)
      \<and> span_at start n (message_image tags offsets payload) = field_bytes offsets payload (length tags) i"
    if i: "i < length tags" for i
    using image_field [OF enc, of "tags ! i" f p] rank_in_nth [OF sorted, of i] i image_field_bytes [OF enc i]
    by (cases "field_view (image_index tags offsets payload) i") simp
  moreover have "bebop_writer_view wr' = Some (pre @ message_image tags offsets payload)"
    using w' by (simp add: bebop_writer_view_def)
  ultimately show ?thesis
    using image_parses [OF enc, of x] image_field [OF enc, of _ f p]
    by (intro exI [of _ "message_image tags offsets payload"] exI [of _ "image_index tags offsets payload"]) simp
qed

definition field_writer :: "byte list \<Rightarrow> Bebop_Writer" where
  "field_writer data = tiny_writer\<lparr>wr_data := data, wr_cap := 64\<rparr>"

lemma small_message:
  shows small_metadata: "metadata_size [1, 2, 3, 5] (length [11, 12, 13 :: byte]) = 5"
    and small_encodable: "encodable [1, 2, 3, 5] [0, 1, 1, 2] [11, 12, 13]"
proof -
  show ms: "metadata_size [1, 2, 3, 5] (length [11, 12, 13 :: byte]) = 5"
    by code_simp
  have "bebop_message_tags_valid (Some [1, 2, 3, 5]) (length [1, 2, 3, 5 :: byte])"
    "message_offsets_valid [0, 1, 1, 2] (length [1, 2, 3, 5 :: byte]) (length [11, 12, 13 :: byte])"
    by code_simp+
  with ms show "encodable [1, 2, 3, 5] [0, 1, 1, 2] [11, 12, 13]"
    by (simp add: encodable_def UINT32_MAX_def)
qed

lemma field_writer_reserve:
  "length data + n \<le> 64 \<Longrightarrow> fst (bebop_writer_reserve (Some (field_writer data)) ctx n) = BEBOP_RESULT_OK"
  by (simp add: bebop_writer_reserve_def wr_available_def field_writer_def tiny_writer_def)

theorem message_roundtrip_witness:
  "\<exists>wr' ctx' enc idx. bebop_writer_end_indexed_message (Some (field_writer [9, 0, 0, 0, 0, 11, 12, 13])) full_context 1 5
      (Some [1, 2, 3, 5]) (Some [0, 1, 1, 2]) 4 = (BEBOP_RESULT_OK, wr', ctx')
    \<and> bebop_writer_view wr' = Some ([9] @ enc)
    \<and> bebop_message_index_parse (Some blank_index) (Some enc) = (BEBOP_RESULT_OK, Some idx)
    \<and> (\<exists>start n. bebop_message_index_field (Some idx) 3 (Some None) (Some False)
           = (BEBOP_RESULT_OK, Some (Some (start, n)), Some True) \<and> span_at start n enc = [12])
    \<and> bebop_message_index_field (Some idx) 4 (Some None) (Some False) = (BEBOP_RESULT_OK, Some None, Some False)"
proof -
  let ?w = "field_writer [9, 0, 0, 0, 0, 11, 12, 13]" and ?tags = "[1, 2, 3, 5] :: byte list" and ?offs = "[0, 1, 1, 2] :: u32 list"
  let ?pre = "[9] :: byte list" and ?hole = "[0, 0, 0, 0] :: byte list" and ?payload = "[11, 12, 13] :: byte list"
  have inv: "writer_inv ?w" and data: "wr_data ?w = ?pre @ ?hole @ ?payload"
    and hole: "length ?hole = 4" and pre: "length ?pre \<le> SIZE_MAX - 4"
    by (simp_all add: writer_inv_def tiny_writer_def field_writer_def SIZE_MAX_def)
  obtain r wr' ctx' where run: "bebop_writer_end_indexed_message (Some ?w) full_context (length ?pre) (length ?pre + 4)
      (Some ?tags) (Some ?offs) (length ?tags) = (r, wr', ctx')"
    by (cases "bebop_writer_end_indexed_message (Some ?w) full_context (length ?pre) (length ?pre + 4)
      (Some ?tags) (Some ?offs) (length ?tags)")
  have "fst (bebop_writer_reserve (Some ?w) full_context (metadata_size ?tags (length ?payload))) = BEBOP_RESULT_OK"
    unfolding small_metadata by (rule field_writer_reserve) simp
  then have r: "r = BEBOP_RESULT_OK"
    using end_indexed_result [OF inv data hole pre run] small_encodable by auto
  from message_roundtrip [OF inv data hole pre run [unfolded r], of blank_index None False] obtain enc idx where
    e: "bebop_writer_view wr' = Some (?pre @ enc)"
       "bebop_message_index_parse (Some blank_index) (Some enc) = (BEBOP_RESULT_OK, Some idx)"
       "\<forall>i<length ?tags. \<exists>start n. bebop_message_index_field (Some idx) (?tags ! i) (Some None) (Some False)
           = (BEBOP_RESULT_OK, Some (Some (start, n)), Some True)
         \<and> span_at start n enc = field_bytes ?offs ?payload (length ?tags) i"
       "\<forall>tag. tag \<notin> set ?tags \<longrightarrow> bebop_message_index_field (Some idx) tag (Some None) (Some False)
           = (BEBOP_RESULT_OK, Some None, Some False)"
    by blast
  have "field_bytes ?offs ?payload (length ?tags) 2 = [12]"
    by code_simp
  then have "\<exists>start n. bebop_message_index_field (Some idx) 3 (Some None) (Some False)
           = (BEBOP_RESULT_OK, Some (Some (start, n)), Some True) \<and> span_at start n enc = [12]"
    using spec [OF e(3), of 2] by simp
  moreover have "bebop_message_index_field (Some idx) 4 (Some None) (Some False) = (BEBOP_RESULT_OK, Some None, Some False)"
    using spec [OF e(4), of 4] by simp
  moreover have "bebop_writer_end_indexed_message (Some ?w) full_context 1 5 (Some ?tags) (Some ?offs) 4 = (BEBOP_RESULT_OK, wr', ctx')"
    using run r by (simp add: numeral_eq_Suc)
  ultimately show ?thesis
    using e(1,2) by blast
qed



text \<open>
  C5: lookups in an accepted message are total and stay inside it. For every index that the validating
  parser accepts, looking up any tag succeeds; a tag is present exactly when it stands in the
  directory, and the view that is returned lies within the payload of the message.
\<close>

theorem parsed_lookup_safe:
  assumes "bebop_message_index_parse (Some x) (Some enc) = (BEBOP_RESULT_OK, Some idx)"
  shows "if unat tag \<in> set (index_tags idx)
    then \<exists>start n. bebop_message_index_field (Some idx) tag (Some f) (Some p)
                  = (BEBOP_RESULT_OK, Some (Some (start, n)), Some True)
           \<and> 4 \<le> start \<and> start + n \<le> mi_boundaries idx \<and> mi_boundaries idx \<le> length enc
    else bebop_message_index_field (Some idx) tag (Some f) (Some p) = (BEBOP_RESULT_OK, Some None, Some False)"
proof -
  have wf: "index_wf idx" "boundaries_wf idx" "directory_wf idx" "mi_encoded idx = enc"
    using parse_wf [OF assms] by (auto simp: index_wf_def)
  have "4 \<le> start \<and> start + n \<le> mi_boundaries idx \<and> mi_boundaries idx \<le> length enc"
    if t: "unat tag \<in> set (index_tags idx)"
      and v: "field_view idx (rank_in (index_tags idx) (unat tag)) = (start, n)" for start n
  proof -
    let ?i = "rank_in (index_tags idx) (unat tag)"
    have i: "?i < mi_field_count idx"
      using nth_rank_in [OF _ t] index_tags_wf [OF wf(3)] by simp
    then have "field_offset idx ?i \<le> field_offset idx (Suc ?i)" "field_offset idx (Suc ?i) \<le> mi_boundaries idx - 4"
      using wf(2) field_offset_le [OF wf(2), of "Suc ?i"] by (auto simp: boundaries_wf_def)
    then show ?thesis
      using v wf(2,4) by (auto simp: field_view_def boundaries_wf_def)
  qed
  then show ?thesis
    using index_field_wf [OF wf(1), of tag f p]
    by (cases "field_view idx (rank_in (index_tags idx) (unat tag))") auto
qed

definition small_image :: "byte list" where
  "small_image = message_image [1, 2, 3, 5] [0, 1, 1, 2] [11, 12, 13]"

definition small_index :: Bebop_MessageIndex where
  "small_index = image_index [1, 2, 3, 5] [0, 1, 1, 2] [11, 12, 13]"

lemmas small_conditions = image_conditions [OF small_encodable, folded small_image_def small_index_def]
lemmas small_parses = image_parses [OF small_encodable, folded small_image_def small_index_def]
lemmas small_begins = conditions_begin [OF small_conditions]

lemma small_index_tags: "index_tags small_index = [1, 2, 3, 5]"
  unfolding small_index_def image_index_tags [OF small_encodable] by simp

theorem parsed_lookup_safe_witness:
  "bebop_message_index_parse (Some blank_index) (Some small_image) = (BEBOP_RESULT_OK, Some small_index)
    \<and> (\<exists>start n. bebop_message_index_field (Some small_index) 5 (Some None) (Some False)
                  = (BEBOP_RESULT_OK, Some (Some (start, n)), Some True)
           \<and> 4 \<le> start \<and> start + n \<le> mi_boundaries small_index \<and> mi_boundaries small_index \<le> length small_image)
    \<and> bebop_message_index_field (Some small_index) 9 (Some None) (Some False) = (BEBOP_RESULT_OK, Some None, Some False)"
  using small_parses [of blank_index] parsed_lookup_safe [OF small_parses, of 5 None False]
    parsed_lookup_safe [OF small_parses, of 9 None False]
  by (simp add: small_index_tags)

text \<open>A result of a parser: success, or a malformed message and the old out-parameter.\<close>

definition parser_result :: "Bebop_MessageIndex \<Rightarrow> Bebop_Result \<times> Bebop_MessageIndex option \<Rightarrow> bool" where
  "parser_result x r \<longleftrightarrow> fst r = BEBOP_RESULT_OK \<or> r = (BEBOP_RESULT_MALFORMED, Some x)"

lemma parser_resultI:
  shows "parser_result x (BEBOP_RESULT_OK, y)" and "parser_result x (BEBOP_RESULT_MALFORMED, Some x)"
    and "parser_result x a \<Longrightarrow> parser_result x b \<Longrightarrow> parser_result x (if c then a else b)"
    and "(\<And>v. parser_result x (g v)) \<Longrightarrow> parser_result x (let v = e in g v)"
    and "parser_result x a \<Longrightarrow> (\<And>v. parser_result x (h v)) \<Longrightarrow> parser_result x (case opt of None \<Rightarrow> a | Some v \<Rightarrow> h v)"
  by (simp_all add: parser_result_def split: option.split)

lemma parser_results:
  shows parse_result: "parser_result x (bebop_message_index_parse (Some x) (Some enc))"
    and begin_result: "parser_result x (bebop_message_index_begin (Some x) (Some enc))"
  unfolding bebop_message_index_parse_def bebop_message_index_begin_def prod.case option.case
  by (intro parser_resultI)+

text \<open>
  C28: the lazy parser is the validating one without the check of the boundaries. \<open>parse\<close> accepts a
  message with a given index exactly when \<open>begin\<close> accepts it with the same index and the boundaries,
  the little-endian numbers between the payload and the directory, ascend and do not exceed the size
  of the payload; when one of them rejects, its out-parameter is not written.
\<close>

theorem parse_iff_begin:
  "(bebop_message_index_parse (Some x) (Some enc) = (BEBOP_RESULT_OK, Some idx) \<longleftrightarrow>
     bebop_message_index_begin (Some x) (Some enc) = (BEBOP_RESULT_OK, Some idx) \<and> boundaries_ascend idx)
   \<and> parser_result x (bebop_message_index_begin (Some x) (Some enc))
   \<and> parser_result x (bebop_message_index_parse (Some x) (Some enc))"
proof (intro conjI)
  show "bebop_message_index_parse (Some x) (Some enc) = (BEBOP_RESULT_OK, Some idx) \<longleftrightarrow>
     bebop_message_index_begin (Some x) (Some enc) = (BEBOP_RESULT_OK, Some idx) \<and> boundaries_ascend idx"
    using parse_sound [of x enc "Some idx"] begin_sound [of x enc "Some idx"] conditions_parse [of enc idx x]
      conditions_begin [of enc idx x] accepted_iff_ascend [of enc idx] unfolding option.inject by metis
qed (rule begin_result, rule parse_result)

text \<open>
  C6: lookups through the lazy parser are safe without the boundary check. For every index that
  \<open>begin\<close> accepts, looking up a tag reports the tag absent, or present with a view inside the payload,
  or a malformed message without any view; it never hands out a view outside the payload.
\<close>

theorem lazy_lookup_safe:
  assumes "bebop_message_index_begin (Some x) (Some enc) = (BEBOP_RESULT_OK, Some idx)"
  shows "bebop_message_index_field (Some idx) tag (Some f) (Some p) = (BEBOP_RESULT_OK, Some None, Some False)
    \<or> bebop_message_index_field (Some idx) tag (Some f) (Some p) = (BEBOP_RESULT_MALFORMED, Some None, Some False)
    \<or> unat tag \<in> set (index_tags idx)
      \<and> (\<exists>start n. bebop_message_index_field (Some idx) tag (Some f) (Some p)
                  = (BEBOP_RESULT_OK, Some (Some (start, n)), Some True)
           \<and> 4 \<le> start \<and> start + n \<le> mi_boundaries idx \<and> mi_boundaries idx \<le> length enc)"
proof (cases "tag = 0 \<or> mi_field_count idx = 0")
  case True
  then show ?thesis
    by (auto simp: bebop_message_index_field_def)
next
  case False
  have c: "directory_wf idx" "4 \<le> mi_boundaries idx" "mi_boundaries idx \<le> length enc" "mi_field_count idx \<le> 255"
    using begin_sound [OF assms] conditions_count by auto
  let ?i = "rank_in (index_tags idx) (unat tag)"
  have rank: "message_tag_rank idx tag = Some (if unat tag \<in> set (index_tags idx) then Some ?i else None)"
    using tag_rank_correct [OF c(1)] False by simp
  show ?thesis
  proof (cases "unat tag \<in> set (index_tags idx)")
    case True
    have i: "?i < mi_field_count idx" "?i mod 256 = ?i"
      using nth_rank_in [OF _ True] index_tags_wf [OF c(1)] c(4) by simp_all
    have "bebop_message_field_at_rank idx ?i None = (BEBOP_RESULT_MALFORMED, None)
      \<or> (\<exists>start n. bebop_message_field_at_rank idx ?i None = (BEBOP_RESULT_OK, Some (start, n))
           \<and> 4 \<le> start \<and> start + n \<le> mi_boundaries idx)"
      using i(1) c(2) unfolding bebop_message_field_at_rank_def Let_def BEBOP_WIRE_SIZE_LEN_def by auto
    then show ?thesis
      using False True rank i(2) c(3) unfolding bebop_message_index_field_def by auto
  next
    case absent: False
    then show ?thesis
      using False rank unfolding bebop_message_index_field_def by simp
  qed
qed

theorem lazy_lookup_safe_witness:
  "bebop_message_index_begin (Some blank_index) (Some small_image) = (BEBOP_RESULT_OK, Some small_index)
    \<and> fst (bebop_message_index_field (Some small_index) 2 (Some None) (Some False)) \<in> {BEBOP_RESULT_OK, BEBOP_RESULT_MALFORMED}"
  using small_begins [of blank_index] lazy_lookup_safe [OF small_begins, of 2 None False] by auto

text \<open>
  The sizes that a directory for the given tags can have: the tags themselves when there are at most
  three, a mask of one, two or four bytes that reaches the last tag, or five bytes for each block of
  32 tags that is in use and a byte for the blocks.
\<close>

definition tag_blocks :: "byte list \<Rightarrow> nat set" where
  "tag_blocks tags = (\<lambda>t. (unat t - 1) div 32) ` set tags"

definition directory_sizes :: "byte list \<Rightarrow> nat set" where
  "directory_sizes tags =
     {n. n = length tags \<and> n \<le> 3} \<union> {w \<in> {1, 2, 4}. unat (last tags) \<le> 8 * w}
     \<union> {1 + 5 * card (tag_blocks tags)}"

lemma popcount_block_mask:
  "bebop_wire_popcount32 (ucast (message_block_mask tags (length tags))) = card (tag_blocks tags)"
proof -
  have blk: "(unat t - 1) div 32 < 8" for t :: byte
    using unat_byte_less [of t] by (simp add: div_less_iff_less_mult)
  have "set (filter (bit (message_block_mask tags (length tags))) [0..<8]) = tag_blocks tags"
    using blk by (auto simp: bit_block_mask tag_blocks_def)
  then show ?thesis
    unfolding popcount_byte by (metis distinct_card distinct_filter distinct_upt)
qed

text \<open>
  The encoder's directory is the smallest one. For every non-empty list of tags the directory
  that the encoder chooses has the least size among the representations that can hold the tags.
\<close>

theorem layout_minimal:
  assumes "tags \<noteq> []"
  shows "dl_size (bebop_message_directory_layout tags (length tags)) = Min (directory_sizes tags)"
proof -
  let ?n = "length tags" and ?bs = "1 + 5 * card (tag_blocks tags)" and ?m = "unat (last tags)"
  have "0 < card (tag_blocks tags)"
    using assms by (auto simp: tag_blocks_def card_gt_0_iff)
  then have bs: "6 \<le> ?bs"
    by simp
  have n: "?n \<noteq> 0"
    using assms by simp
  have last: "tags ! (?n - 1) = last tags"
    using assms by (simp add: last_conv_nth)
  let ?base = "if ?m \<le> 8 then 1 else if ?m \<le> 16 then 2 else if ?m \<le> 32 then 4 else ?bs"
  have base: "dl_size (message_mask_layout tags ?n) = ?base"
    unfolding message_mask_layout_def Let_def last popcount_block_mask using bs by (simp add: word_le_nat_alt)
  have size: "dl_size (layout_of tags) = (if ?n \<le> 3 \<and> ?n < ?base then ?n else ?base)"
    unfolding bebop_message_directory_layout_def if_not_P [OF n] Let_def base [symmetric] by simp
  have fin: "finite (directory_sizes tags)"
    by (simp add: directory_sizes_def)
  have "dl_size (layout_of tags) \<in> directory_sizes tags"
    unfolding size directory_sizes_def by auto
  moreover have "dl_size (layout_of tags) \<le> s" if "s \<in> directory_sizes tags" for s
    using that bs n unfolding size directory_sizes_def by (auto simp: Suc_le_eq)
  ultimately show ?thesis
    by (intro Min_eqI [symmetric] fin)
qed

theorem layout_minimal_witness:
  "dl_size (bebop_message_directory_layout [1, 40, 41, 42] (length [1, 40, 41, 42 :: byte]))
     = Min (directory_sizes [1, 40, 41, 42])"
  by (rule layout_minimal) simp

text \<open>
  C11: iteration yields every field once, in the order of the tags. On every index that the validating
  parser accepts, iterating from a fresh iterator ends after at most 255 fields with exactly the
  present tags, strictly ascending, each with the view that a lookup of its tag returns.
\<close>

theorem iteration_complete:
  assumes "bebop_message_index_parse (Some x) (Some enc) = (BEBOP_RESULT_OK, Some idx)"
  shows "\<exists>fields. message_iterate 256 (bebop_message_field_iterator_init (Some it0) (Some idx)) = Some fields
    \<and> sorted_wrt (<) (map fst fields) \<and> map (\<lambda>fd. unat (fst fd)) fields = index_tags idx
    \<and> (\<forall>tag f p. bebop_message_index_field (Some idx) tag (Some f) (Some p)
         = (case map_of fields tag of
              None \<Rightarrow> (BEBOP_RESULT_OK, Some None, Some False)
            | Some view \<Rightarrow> (BEBOP_RESULT_OK, Some (Some view), Some True)))"
proof -
  have wf: "index_wf idx" "directory_wf idx"
    using parse_wf [OF assms] by (auto simp: index_wf_def)
  note tags = index_tags_wf [OF wf(2)]
  let ?fields = "map (\<lambda>i. (of_nat (index_tags idx ! i) :: byte, field_view idx i)) [0..<mi_field_count idx]"
  have small: "unat (of_nat (index_tags idx ! i) :: byte) = index_tags idx ! i" if "i < mi_field_count idx" for i
  proof -
    have "index_tags idx ! i \<in> set (index_tags idx)"
      using that tags(1) by simp
    then have "index_tags idx ! i \<le> 255"
      using tags(3) by blast
    then show ?thesis
      by (simp add: unat_of_nat)
  qed
  have unats: "map (\<lambda>fd. unat (fst fd)) ?fields = index_tags idx"
    using small tags(1) by (intro nth_equalityI) simp_all
  have "sorted_wrt (<) (map unat (map fst ?fields))"
    using tags(2) unats by (simp add: o_def)
  then have sorted: "sorted_wrt (<) (map fst ?fields)"
    by (simp only: sorted_wrt_map word_less_nat_alt)
  have lookup: "bebop_message_index_field (Some idx) tag (Some f) (Some p)
         = (case map_of ?fields tag of
              None \<Rightarrow> (BEBOP_RESULT_OK, Some None, Some False)
            | Some view \<Rightarrow> (BEBOP_RESULT_OK, Some (Some view), Some True))" for tag f p
  proof (cases "unat tag \<in> set (index_tags idx)")
    case True
    let ?i = "rank_in (index_tags idx) (unat tag)"
    have i: "?i < mi_field_count idx" "index_tags idx ! ?i = unat tag"
      using nth_rank_in [OF tags(2) True] tags(1) by auto
    have "(tag, field_view idx ?i) \<in> set ?fields"
      using i by (auto intro!: image_eqI [of _ _ ?i])
    moreover have "distinct (map fst ?fields)"
      using sorted by (simp only: strict_sorted_iff)
    ultimately have "map_of ?fields tag = Some (field_view idx ?i)"
      by (rule map_of_is_SomeI [rotated])
    then show ?thesis
      using index_field_wf [OF wf(1), of tag f p] True by simp
  next
    case False
    have "tag \<notin> fst ` set ?fields"
    proof
      assume "tag \<in> fst ` set ?fields"
      then have "unat tag \<in> set (map (\<lambda>fd. unat (fst fd)) ?fields)"
        by force
      then show False
        using False unfolding unats by blast
    qed
    then have "map_of ?fields tag = None"
      by (simp only: map_of_eq_None_iff not_False_eq_True)
    then show ?thesis
      using index_field_wf [OF wf(1), of tag f p] False by simp
  qed
  show ?thesis
    using iterate_all [OF wf(1), of it0] sorted unats lookup by blast
qed

theorem iteration_complete_witness:
  "\<exists>fields. message_iterate 256 (bebop_message_field_iterator_init
       (Some \<lparr>it_index = None, it_block_entry = 0, it_pending_tags = 0, it_rank = 0, it_block = 0, it_tag_base = 0\<rparr>)
       (Some small_index)) = Some fields
     \<and> map (\<lambda>fd. unat (fst fd)) fields = [1, 2, 3, 5]"
  using iteration_complete [OF small_parses, of
      "\<lparr>it_index = None, it_block_entry = 0, it_pending_tags = 0, it_rank = 0, it_block = 0, it_tag_base = 0\<rparr>"]
  unfolding small_index_tags by (elim exE conjE) (intro exI conjI)

section \<open>Messages in a stream\<close>

text \<open>
  What reading an index from a reader needs of the parser; both parsers provide it. The specification
  of such a read takes the length and then the whole frame.
\<close>

definition frame_spec ::
  "(Bebop_MessageIndex option \<Rightarrow> byte list option \<Rightarrow> Bebop_Result \<times> Bebop_MessageIndex option)
     \<Rightarrow> byte list \<Rightarrow> (Bebop_MessageIndex \<times> nat) option" where
  "frame_spec parse bs =
     (case length_spec bs of
        None \<Rightarrow> None
      | Some (len, _) \<Rightarrow>
          (case parse (Some blank_index) (Some (take (4 + unat len) bs)) of
             (BEBOP_RESULT_OK, Some idx) \<Rightarrow> Some (idx, 4 + unat len)
           | _ \<Rightarrow> None))"

locale index_parser =
  fixes parse :: "Bebop_MessageIndex option \<Rightarrow> byte list option \<Rightarrow> Bebop_Result \<times> Bebop_MessageIndex option"
  assumes parse_shape: "parser_result x (parse (Some x) (Some enc))"
    and parse_out: "parse (Some x) (Some enc) = (BEBOP_RESULT_OK, y) \<Longrightarrow>
      \<exists>idx. y = Some idx \<and> mi_encoded idx = enc \<and> (\<forall>z. parse (Some z) (Some enc) = (BEBOP_RESULT_OK, Some idx))"
begin

lemma frame_length:
  assumes "reader_inv r" and "length_spec (rd_window r) = Some (len, m)"
  shows "m = 4" and "4 + unat len \<le> rd_remaining r"
    and "bebop_reader_read_length (Some r) (Some 0) = (BEBOP_RESULT_OK, Some (rd_advance 4 r), Some len)"
    and "span_at (rd_current r) (unat len + 4) (rd_buf r) = take (4 + unat len) (rd_window r)"
proof -
  show "m = 4" and le: "4 + unat len \<le> rd_remaining r"
    using assms by (auto simp: length_spec_def split: if_splits)
  then show "bebop_reader_read_length (Some r) (Some 0) = (BEBOP_RESULT_OK, Some (rd_advance 4 r), Some len)"
    using rd_length.read_ok [OF assms(1)] assms(2) by simp
  show "span_at (rd_current r) (unat len + 4) (rd_buf r) = take (4 + unat len) (rd_window r)"
    using span_at_window0 [OF assms(1) le] by (simp add: add.commute)
qed

lemma frame_read:
  assumes "reader_inv r" and "length_spec (rd_window r) = Some (len, m)"
  shows "reader_message_index parse (Some r) (Some x) =
    (case parse (Some x) (Some (take (4 + unat len) (rd_window r))) of
       (BEBOP_RESULT_OK, out') \<Rightarrow> (BEBOP_RESULT_OK, Some (rd_advance (4 + unat len) r), out')
     | (result, out') \<Rightarrow> (result, Some (rd_advance 4 r), out'))"
proof -
  note fl = frame_length [OF assms]
  have "\<not> unat len > rd_remaining (rd_advance 4 r)"
    using fl(2) by (simp add: rd_remaining_def rd_advance_def)
  moreover have adv: "r\<lparr>rd_current := rd_current r + (unat len + 4)\<rparr> = rd_advance (4 + unat len) r"
    by (simp add: rd_advance_def add.commute)
  ultimately show ?thesis
    by (simp add: reader_message_index_def fl(3,4) BEBOP_WIRE_SIZE_LEN_def adv split: prod.split Bebop_Result.split)
qed

lemma frame_reader: "wire_reader (reader_message_index parse) (frame_spec parse)"
proof
  show "reader_message_index parse rd out = (BEBOP_RESULT_NULL, rd, out)" if "rd = None \<or> out = None" for rd out
    using that by (auto simp: reader_message_index_def split: option.splits)
  show "reader_message_index parse (Some r) (Some x) = (BEBOP_RESULT_OK, Some (rd_advance n r), Some v)"
    if prem: "reader_inv r" "frame_spec parse (rd_window r) = Some (v, n)" for r v n x
  proof -
    obtain len m where l: "length_spec (rd_window r) = Some (len, m)"
        "parse (Some blank_index) (Some (take (4 + unat len) (rd_window r))) = (BEBOP_RESULT_OK, Some v)" "n = 4 + unat len"
      using prem(2) by (auto simp: frame_spec_def split: option.splits prod.splits Bebop_Result.splits)
    show ?thesis
      using frame_read [OF prem(1) l(1), of x] parse_out [OF l(2)] l(3) by auto
  qed
  show "\<exists>k y. k \<le> rd_remaining r
      \<and> reader_message_index parse (Some r) (Some x) = (BEBOP_RESULT_MALFORMED, Some (rd_advance k r), Some y)"
    if prem: "reader_inv r" "frame_spec parse (rd_window r) = None" for r x
  proof (cases "length_spec (rd_window r)")
    case None
    have "rd_advance 0 r = r"
      by (simp add: rd_advance_def)
    then show ?thesis
      using rd_length.read_err [OF prem(1) None, of 0]
      by (intro exI [of _ 0] exI [of _ x]) (auto simp: reader_message_index_def)
  next
    case (Some lm)
    then obtain len m where l: "length_spec (rd_window r) = Some (len, m)"
      by (cases lm) auto
    let ?frame = "take (4 + unat len) (rd_window r)"
    have "fst (parse (Some x) (Some ?frame)) \<noteq> BEBOP_RESULT_OK"
    proof
      assume "fst (parse (Some x) (Some ?frame)) = BEBOP_RESULT_OK"
      then obtain y where "parse (Some x) (Some ?frame) = (BEBOP_RESULT_OK, y)"
        by (cases "parse (Some x) (Some ?frame)") simp
      then show False
        using parse_out [of x ?frame y] prem(2) l by (auto simp: frame_spec_def)
    qed
    then have "parse (Some x) (Some ?frame) = (BEBOP_RESULT_MALFORMED, Some x)"
      using parse_shape [of x ?frame] by (simp add: parser_result_def)
    then show ?thesis
      using frame_read [OF prem(1) l, of x] frame_length(2) [OF prem(1) l]
      by (intro exI [of _ 4] exI [of _ x]) simp
  qed
  show "n \<le> length bs" if "frame_spec parse bs = Some (v, n)" for bs v n
    using that by (auto simp: frame_spec_def length_spec_def split: option.splits prod.splits Bebop_Result.splits if_splits)
qed

end

lemma parser_interface:
  shows index_parser_parse: "index_parser bebop_message_index_parse"
    and index_parser_begin: "index_parser bebop_message_index_begin"
proof -
  show "index_parser bebop_message_index_parse"
  proof
    show "parser_result x (bebop_message_index_parse (Some x) (Some enc))" for x enc
      by (rule parse_result)
    show "\<exists>idx. y = Some idx \<and> mi_encoded idx = enc
        \<and> (\<forall>z. bebop_message_index_parse (Some z) (Some enc) = (BEBOP_RESULT_OK, Some idx))"
      if run: "bebop_message_index_parse (Some x) (Some enc) = (BEBOP_RESULT_OK, y)" for x enc y
      using parse_sound [OF run] conditions_parse conditions_count by blast
  qed
  show "index_parser bebop_message_index_begin"
  proof
    show "parser_result x (bebop_message_index_begin (Some x) (Some enc))" for x enc
      by (rule begin_result)
    show "\<exists>idx. y = Some idx \<and> mi_encoded idx = enc
        \<and> (\<forall>z. bebop_message_index_begin (Some z) (Some enc) = (BEBOP_RESULT_OK, Some idx))"
      if run: "bebop_message_index_begin (Some x) (Some enc) = (BEBOP_RESULT_OK, y)" for x enc y
      using begin_sound [OF run] conditions_begin conditions_count by blast
  qed
qed

interpretation ip_parse: index_parser bebop_message_index_parse
  by (rule index_parser_parse)

interpretation ip_begin: index_parser bebop_message_index_begin
  by (rule index_parser_begin)

lemma frame_spec_prefix:
  assumes "frame_spec parse bs = Some (v, n)"
  shows "frame_spec parse (take n bs @ rest) = Some (v, n)"
proof -
  obtain len m where l: "length_spec bs = Some (len, m)" "n = 4 + unat len"
      "parse (Some blank_index) (Some (take (4 + unat len) bs)) = (BEBOP_RESULT_OK, Some v)"
    using assms by (auto simp: frame_spec_def split: option.splits prod.splits Bebop_Result.splits)
  then have "n \<le> length bs" "length_spec (take n bs @ rest) = Some (len, m)"
    by (auto simp: length_spec_def split: if_splits)
  then show ?thesis
    using l by (simp add: frame_spec_def)
qed

interpretation rd_message_index: framed_reader bebop_reader_read_message_index "frame_spec bebop_message_index_parse"
  unfolding bebop_reader_read_message_index_def framed_reader_def framed_reader_axioms_def
  using ip_parse.frame_reader frame_spec_prefix by blast

interpretation rd_begin_index: framed_reader bebop_reader_begin_message_index "frame_spec bebop_message_index_begin"
  unfolding bebop_reader_begin_message_index_def framed_reader_def framed_reader_axioms_def
  using ip_begin.frame_reader frame_spec_prefix by blast

lemma image_frame:
  assumes enc: "encodable tags offsets payload"
    and parse: "parse (Some blank_index) (Some (message_image tags offsets payload)) = (BEBOP_RESULT_OK, Some idx)"
  shows "frame_spec parse (message_image tags offsets payload) = Some (idx, length (message_image tags offsets payload))"
proof -
  let ?img = "message_image tags offsets payload" and ?n = "length payload + metadata_size tags (length payload)"
  have len: "length ?img = 4 + ?n"
    by (rule encodableE [OF enc]) simp
  have "le_word (take 4 ?img) = (of_nat ?n :: u32)"
    by (simp add: message_image_def le_word_le_bytes take_bit_word_eq_self)
  moreover have "unat (of_nat ?n :: u32) = ?n"
    using enc unfolding encodable_def UINT32_MAX_def by (simp only: unat_of_nat) simp
  ultimately have "length_spec ?img = Some (of_nat ?n, 4)" "4 + unat (of_nat ?n :: u32) = length ?img"
    using len by (simp_all add: length_spec_def)
  then show ?thesis
    using parse by (simp add: frame_spec_def)
qed

text \<open>
  C29: messages can be read one after the other. A reader that stands before an encoded message reads
  its index with either operation and then stands exactly after it, whatever follows.
\<close>

theorem message_stream:
  assumes "reader_inv r" and "rd_window r = message_image tags offsets payload @ rest" and "encodable tags offsets payload"
  shows "\<exists>r' idx. bebop_reader_read_message_index (Some r) (Some x) = (BEBOP_RESULT_OK, Some r', Some idx)
    \<and> bebop_reader_begin_message_index (Some r) (Some x) = (BEBOP_RESULT_OK, Some r', Some idx)
    \<and> reader_inv r' \<and> rd_window r' = rest
    \<and> mi_encoded idx = message_image tags offsets payload \<and> index_tags idx = map unat tags"
proof -
  note parse = image_frame [where parse = bebop_message_index_parse, OF assms(3) image_parses [OF assms(3), of blank_index]]
  note begins = image_frame [where parse = bebop_message_index_begin, OF assms(3)
      conditions_begin [OF image_conditions [OF assms(3)], of blank_index]]
  have "mi_encoded (image_index tags offsets payload) = message_image tags offsets payload"
    by (simp add: image_index_def)
  then show ?thesis
    using rd_message_index.read_framed [OF assms(1,2) parse, of x] rd_begin_index.read_framed [OF assms(1,2) begins, of x]
      image_index_tags [OF assms(3)] by blast
qed

theorem message_stream_witness:
  "\<exists>r' idx. bebop_reader_read_message_index
        (Some \<lparr>rd_buf = small_image @ [7], rd_current = 0, rd_end = length small_image + 1\<rparr>) (Some blank_index)
      = (BEBOP_RESULT_OK, Some r', Some idx) \<and> rd_window r' = [7] \<and> index_tags idx = [1, 2, 3, 5]"
proof -
  let ?r = "\<lparr>rd_buf = small_image @ [7], rd_current = 0, rd_end = length small_image + 1\<rparr>"
  have r: "reader_inv ?r" "rd_window ?r = message_image [1, 2, 3, 5] [0, 1, 1, 2] [11, 12, 13] @ [7]"
    by (simp_all add: reader_inv_def rd_window_def rd_remaining_def span_at_def small_image_def)
  from message_stream [OF r small_encodable, of blank_index] show ?thesis
    by (elim exE conjE) (intro exI conjI; simp)
qed

section \<open>Sequences of decoding calls\<close>

text \<open>
  All public calls that move a reader: those of the reader itself and the two that read the index of a
  message. \<open>decode_span\<close> is the view that a call stores for its caller: the bytes of a string or of a
  byte span, or the encoded message of an index.
\<close>

datatype decode_call = ReaderCall reader_call | ReadMessageIndex | BeginMessageIndex

fun decode_step :: "reader_state \<Rightarrow> decode_call \<Rightarrow> reader_state" where
  "decode_step (rd, saved) (ReaderCall c) = reader_step (rd, saved) c"
| "decode_step (rd, saved) ReadMessageIndex =
     (after_read (bebop_reader_read_message_index rd (Some blank_index)), saved)"
| "decode_step (rd, saved) BeginMessageIndex =
     (after_read (bebop_reader_begin_message_index rd (Some blank_index)), saved)"

fun decode_run :: "reader_state \<Rightarrow> decode_call list \<Rightarrow> reader_state" where
  "decode_run st [] = st"
| "decode_run st (c # cs) = decode_run (decode_step st c) cs"

fun decode_buffer :: "byte list \<Rightarrow> decode_call list \<Rightarrow> byte list" where
  "decode_buffer data [] = data"
| "decode_buffer data (ReaderCall c # cs) = decode_buffer (call_buffer data c) cs"
| "decode_buffer data (_ # cs) = decode_buffer data cs"

definition stored :: "('a \<Rightarrow> byte list) \<Rightarrow> 'a rd_result \<Rightarrow> byte list option" where
  "stored view res = (case res of (BEBOP_RESULT_OK, _, Some v) \<Rightarrow> Some (view v) | _ \<Rightarrow> None)"

fun decode_span :: "Bebop_Reader option \<Rightarrow> decode_call \<Rightarrow> byte list option" where
  "decode_span rd (ReaderCall ReadString) = stored (\<lambda>s. s) (bebop_reader_read_string rd (Some []))"
| "decode_span rd (ReaderCall ReadBytes) = stored (\<lambda>s. s) (bebop_reader_read_bytes rd (Some []))"
| "decode_span rd (ReaderCall (ReadFixedBytes n)) = stored (\<lambda>s. s) (bebop_reader_read_fixed_bytes rd n (Some []))"
| "decode_span rd ReadMessageIndex = stored mi_encoded (bebop_reader_read_message_index rd (Some blank_index))"
| "decode_span rd BeginMessageIndex = stored mi_encoded (bebop_reader_begin_message_index rd (Some blank_index))"
| "decode_span rd _ = None"

text \<open>What lies between the cursor and the span, and between the span and the new cursor.\<close>

fun span_prefix :: "decode_call \<Rightarrow> nat" where
  "span_prefix (ReaderCall ReadString) = 4"
| "span_prefix (ReaderCall ReadBytes) = 4"
| "span_prefix _ = 0"

fun span_suffix :: "decode_call \<Rightarrow> nat" where
  "span_suffix (ReaderCall ReadString) = 1"
| "span_suffix _ = 0"

lemma stored_Some:
  "stored view res = Some s \<longleftrightarrow> (\<exists>rd' v. res = (BEBOP_RESULT_OK, rd', Some v) \<and> s = view v)"
  by (auto simp: stored_def split: prod.splits Bebop_Result.splits option.splits)

lemma frame_span:
  assumes "wire_reader read (frame_spec parse)" and "index_parser parse" and "reader_inv r"
    and "read (Some r) (Some x) = (BEBOP_RESULT_OK, rd', Some idx)"
  shows "rd' = Some (rd_advance (length (mi_encoded idx)) r) \<and> length (mi_encoded idx) \<le> rd_remaining r
    \<and> mi_encoded idx = span_at (rd_current r) (length (mi_encoded idx)) (rd_buf r)"
proof (cases rule: wire_reader.read_cases [OF assms(1,3), of x])
  case (1 v n)
  then have v: "v = idx" "rd' = Some (rd_advance n r)"
    using assms(4) by simp_all
  obtain len m where "length_spec (rd_window r) = Some (len, m)" and n: "n = 4 + unat len"
      and parsed: "parse (Some blank_index) (Some (take (4 + unat len) (rd_window r))) = (BEBOP_RESULT_OK, Some v)"
    using 1(1) by (auto simp: frame_spec_def split: option.splits prod.splits Bebop_Result.splits)
  have "mi_encoded idx = take n (rd_window r)"
    using index_parser.parse_out [OF assms(2) parsed] v(1) n by simp
  moreover have "length (take n (rd_window r)) = n" "span_at (rd_current r) n (rd_buf r) = take n (rd_window r)"
    using assms(3) 1(2) span_at_window0 [OF assms(3) 1(2)] by simp_all
  ultimately show ?thesis
    using v(2) 1(2) by simp
qed (use assms(4) in simp)

lemmas index_spans =
  frame_span [OF rd_message_index.wire_reader_axioms index_parser_parse]
  frame_span [OF rd_begin_index.wire_reader_axioms index_parser_begin]

lemma decode_step_inv:
  assumes "reader_state_inv data st"
  shows "reader_state_inv (decode_buffer data [c]) (decode_step st c)"
proof -
  obtain r saved where st: "st = (Some r, saved)"
    using assms by (cases st) (auto simp: reader_state_inv_def)
  have inv: "reader_inv r"
    using assms state_inv_reader unfolding st by blast
  show ?thesis
    using assms reader_step_inv [OF assms]
      state_inv_read_result [OF assms [unfolded st] rd_message_index.read_reader [OF inv, of "Some blank_index"]]
      state_inv_read_result [OF assms [unfolded st] rd_begin_index.read_reader [OF inv, of "Some blank_index"]]
    unfolding st by (cases c) simp_all
qed

lemma decode_run_inv:
  "reader_state_inv data st \<Longrightarrow> reader_state_inv (decode_buffer data cs) (decode_run st cs)"
proof (induction cs arbitrary: data st)
  case (Cons c cs)
  have "decode_buffer data (c # cs) = decode_buffer (decode_buffer data [c]) cs"
    by (cases c) simp_all
  then show ?case
    using Cons.IH [OF decode_step_inv [OF Cons.prems]] by simp
qed simp

lemma decode_span_inside:
  assumes inv: "reader_inv r" and span: "decode_span (Some r) c = Some s"
  shows "\<exists>r'. fst (decode_step (Some r, saved) c) = Some r'
    \<and> rd_current r' = rd_current r + span_prefix c + length s + span_suffix c
    \<and> rd_current r' \<le> rd_end r \<and> rd_buf r' = rd_buf r \<and> rd_end r' = rd_end r
    \<and> s = span_at (rd_current r + span_prefix c) (length s) (rd_buf r)"
proof (cases c)
  case (ReaderCall rc)
  have le: "rd_current r + k \<le> rd_end r" if "k \<le> rd_remaining r" for k
    using that inv unfolding rd_remaining_def reader_inv_def by linarith
  show ?thesis
  proof (cases rc)
    case ReadString
    then obtain rd' where run: "bebop_reader_read_string (Some r) (Some []) = (BEBOP_RESULT_OK, rd', Some s)"
      using span ReaderCall by (auto simp: stored_Some)
    from string_span [OF inv run] le show ?thesis
      unfolding ReaderCall ReadString by (auto simp: after_read_def run)
  next
    case ReadBytes
    then obtain rd' where run: "bebop_reader_read_bytes (Some r) (Some []) = (BEBOP_RESULT_OK, rd', Some s)"
      using span ReaderCall by (auto simp: stored_Some)
    from bytes_span [OF inv run] le show ?thesis
      unfolding ReaderCall ReadBytes by (auto simp: after_read_def run)
  next
    case (ReadFixedBytes n)
    then obtain rd' where run: "bebop_reader_read_fixed_bytes (Some r) n (Some []) = (BEBOP_RESULT_OK, rd', Some s)"
      using span ReaderCall by (auto simp: stored_Some)
    from fixed_bytes_span [OF inv run] le show ?thesis
      unfolding ReaderCall ReadFixedBytes by (auto simp: after_read_def run)
  qed (use span ReaderCall in simp_all)
next
  case ReadMessageIndex
  then obtain rd' idx where run: "bebop_reader_read_message_index (Some r) (Some blank_index) = (BEBOP_RESULT_OK, rd', Some idx)"
      and s: "s = mi_encoded idx"
    using span by (auto simp: stored_Some)
  from index_spans(1) [OF inv run] inv show ?thesis
    unfolding ReadMessageIndex s by (auto simp: after_read_def run rd_remaining_def reader_inv_def)
next
  case BeginMessageIndex
  then obtain rd' idx where run: "bebop_reader_begin_message_index (Some r) (Some blank_index) = (BEBOP_RESULT_OK, rd', Some idx)"
      and s: "s = mi_encoded idx"
    using span by (auto simp: stored_Some)
  from index_spans(2) [OF inv run] inv show ?thesis
    unfolding BeginMessageIndex s by (auto simp: after_read_def run rd_remaining_def reader_inv_def)
qed

text \<open>
  C4: memory safety of decoding. After any sequence of reads, reads of message indices, seeks, skips,
  nested limits and resets on a freshly initialised reader, whatever the input bytes are, the reader
  works on the buffer it was last given, its cursor is at most the current end and the end lies inside
  that buffer. Every span that the next call hands out (a string, a byte span, the encoded bytes of a
  message) consists of consecutive bytes of that buffer that start at the cursor, or right after the
  length prefix of a string or byte span, and it ends, with the terminator of a string, at the new
  cursor and so before the end.
\<close>

theorem reader_run_in_bounds:
  "\<exists>r saved. decode_run (snd (bebop_reader_init (Some r0) (Some data)), []) calls = (Some r, saved)
     \<and> rd_buf r = decode_buffer data calls \<and> rd_current r \<le> rd_end r \<and> rd_end r \<le> length (rd_buf r)
     \<and> (\<forall>c s. decode_span (Some r) c = Some s \<longrightarrow>
          (\<exists>r'. fst (decode_step (Some r, saved) c) = Some r'
             \<and> s = span_at (rd_current r + span_prefix c) (length s) (rd_buf r)
             \<and> rd_current r' = rd_current r + span_prefix c + length s + span_suffix c
             \<and> rd_current r' \<le> rd_end r \<and> rd_buf r' = rd_buf r))"
proof -
  have "reader_state_inv data (snd (bebop_reader_init (Some r0) (Some data)), [])"
    by (simp add: reader_state_inv_def bebop_reader_init_def)
  then have run: "reader_state_inv (decode_buffer data calls)
      (decode_run (snd (bebop_reader_init (Some r0) (Some data)), []) calls)"
    by (rule decode_run_inv)
  then obtain r saved where r: "decode_run (snd (bebop_reader_init (Some r0) (Some data)), []) calls = (Some r, saved)"
    by (cases "decode_run (snd (bebop_reader_init (Some r0) (Some data)), []) calls") (auto simp: reader_state_inv_def)
  then have inv: "reader_inv r" "rd_buf r = decode_buffer data calls"
    using state_inv_reader run by metis+
  then show ?thesis
    using r decode_span_inside [OF inv(1)] by (fastforce simp: reader_inv_def)
qed

text \<open>A string is skipped, another buffer is set, and the string in it is handed out.\<close>

theorem reader_run_in_bounds_witness:
  "\<exists>r saved r'. decode_run (snd (bebop_reader_init (Some hello_reader) (Some [1, 0, 0, 0, 65, 0])), [])
          [ReaderCall ReadString, ReaderCall (ResetTo [9, 2, 0, 0, 0, 104, 105, 0, 7]), ReaderCall ReadByte] = (Some r, saved)
     \<and> rd_buf r = [9, 2, 0, 0, 0, 104, 105, 0, 7] \<and> rd_current r = 1
     \<and> decode_span (Some r) (ReaderCall ReadString) = Some [104, 105]
     \<and> fst (decode_step (Some r, saved) (ReaderCall ReadString)) = Some r' \<and> rd_current r' = 8 \<and> rd_current r' \<le> rd_end r"
proof -
  let ?calls = "[ReaderCall ReadString, ReaderCall (ResetTo [9, 2, 0, 0, 0, 104, 105, 0, 7]), ReaderCall ReadByte]"
  let ?r = "\<lparr>rd_buf = [9, 2, 0, 0, 0, 104, 105, 0, 7], rd_current = 1, rd_end = 9\<rparr>"
  have run: "decode_run (snd (bebop_reader_init (Some hello_reader) (Some [1, 0, 0, 0, 65, 0])), []) ?calls = (Some ?r, [])"
    by (simp add: bebop_reader_init_def bebop_reader_reset_def bebop_reader_read_string_def bebop_reader_read_u32_def
        bebop_reader_read_byte_def reader_read_scalar_def rd_remaining_def rd_advance_def after_read_def span_at_def)
  have span: "decode_span (Some ?r) (ReaderCall ReadString) = Some [104, 105]"
    by (simp add: bebop_reader_read_string_def bebop_reader_read_u32_def reader_read_scalar_def rd_remaining_def
        rd_advance_def stored_def span_at_def)
  have "\<exists>r'. fst (decode_step (Some ?r, []) (ReaderCall ReadString)) = Some r'
      \<and> rd_current r' = rd_current ?r + 4 + length [104, 105 :: byte] + 1 \<and> rd_current r' \<le> rd_end ?r"
    using reader_run_in_bounds [of hello_reader "[1, 0, 0, 0, 65, 0]" ?calls] span
    unfolding run prod.inject option.inject
    by (elim exE conjE) (drule spec [of _ "ReaderCall ReadString"], drule spec [of _ "[104, 105]"], simp, blast)
  then obtain r' where r': "fst (decode_step (Some ?r, []) (ReaderCall ReadString)) = Some r'"
      "rd_current r' = 8" "rd_current r' \<le> rd_end ?r"
    by auto
  show ?thesis
    by (rule exI [of _ ?r], rule exI [of _ "[]"], rule exI [of _ r'], intro conjI run span r') simp_all
qed

section \<open>The block masks\<close>

lemma block_masks_loop_nth:
  assumes "sorted_wrt (<) bs" and "\<forall>b\<in>set bs. b < length masks"
  shows "block_masks_loop enc bm bs entry masks ! b =
    (if b \<in> set bs \<and> bit bm b
     then block_entry_mask enc (entry + 5 * length (filter (\<lambda>j. j < b \<and> bit bm j) bs)) else masks ! b)"
  using assms
proof (induction bs arbitrary: entry masks)
  case Nil
  then show ?case by simp
next
  case (Cons c bs)
  have none: "filter (\<lambda>j. j < b \<and> bit bm j) bs = []" if "c = b"
    using Cons.prems(1) that by (auto simp: filter_empty_conv)
  show ?case
  proof (cases "bit bm c")
    case True
    let ?masks = "masks[c := block_entry_mask enc entry]"
    have "block_masks_loop enc bm bs (entry + 5) ?masks ! b =
      (if b \<in> set bs \<and> bit bm b
       then block_entry_mask enc (entry + 5 + 5 * length (filter (\<lambda>j. j < b \<and> bit bm j) bs)) else ?masks ! b)"
      using Cons.prems by (intro Cons.IH) simp_all
    moreover have "block_masks_loop enc bm (c # bs) entry masks = block_masks_loop enc bm bs (entry + 5) ?masks"
      using True by (simp add: and_exp_eq_0_iff_not_bit)
    moreover have "c < length masks"
      using Cons.prems(2) by simp
    ultimately show ?thesis
      using True Cons.prems(1) none by (cases "c = b") (auto simp: add.assoc)
  next
    case False
    then have "block_masks_loop enc bm (c # bs) entry masks = block_masks_loop enc bm bs entry masks"
      by (simp add: and_exp_eq_0_iff_not_bit)
    moreover have "filter (\<lambda>j. j < b \<and> bit bm j) (c # bs) = filter (\<lambda>j. j < b \<and> bit bm j) bs"
      using False by simp
    ultimately show ?thesis
      using Cons.IH [of masks entry] Cons.prems False by auto
  qed
qed

lemma block_tags_mem:
  assumes loop: "message_blocks_loop enc bm [0..<8] entry 0 = Some n" and b: "b < 8" and j: "j < 32"
  shows "32 * b + j + 1 \<in> set (block_tags enc bm [0..<8] entry) \<longleftrightarrow>
    bit bm b \<and> bit (block_entry_mask enc (entry + 5 * length (filter (\<lambda>i. i < b \<and> bit bm i) [0..<8]))) j"
proof (cases "bit bm b")
  case True
  let ?m = "block_entry_mask enc (entry + 5 * length (filter (\<lambda>i. i < b \<and> bit bm i) [0..<8]))"
  obtain pre post where p: "block_tags enc bm [0..<8] entry = pre @ mask_tags (32 * b) ?m @ post"
      "\<forall>x\<in>set pre. x \<le> 32 * b" "\<forall>x\<in>set post. 32 * b + 32 < x"
    using blocks_loop_entry [OF loop, of b] b True by (auto simp: Let_def strict_sorted_iff)
  have "32 * b + j + 1 \<notin> set pre" "32 * b + j + 1 \<notin> set post"
    using p(2,3) j by fastforce+
  then show ?thesis
    using True mem_mask_tags [of "32 * b" "32 * b + j + 1" ?m] unfolding p(1) by simp
next
  case False
  have "32 * b + j + 1 \<notin> set (block_tags enc bm [0..<8] entry)"
  proof
    assume "32 * b + j + 1 \<in> set (block_tags enc bm [0..<8] entry)"
    then obtain c where c: "bit bm c" "32 * c < 32 * b + j + 1" "32 * b + j + 1 \<le> 32 * c + 32"
      using block_tags_bounds by blast
    then have "c = b"
      using j by linarith
    then show False
      using c(1) False by simp
  qed
  then show ?thesis
    using False by simp
qed

text \<open>
  The block masks are the set of present tags. For an index with a block directory, accepted by
  the lazy or the validating parser, bit \<open>j\<close> of mask \<open>b\<close> is set exactly when tag \<open>32b + j + 1\<close> is
  present; for any other kind of directory the call is rejected and the masks are not written.
\<close>

theorem block_masks_correct:
  assumes "bebop_message_index_begin (Some x) (Some enc) = (BEBOP_RESULT_OK, Some idx)"
  shows "if mi_directory_kind idx = BEBOP_MESSAGE_DIRECTORY_BLOCKS
    then \<exists>masks. bebop_message_index_block_masks (Some idx) (Some ms) = (BEBOP_RESULT_OK, Some masks)
      \<and> (\<forall>b<8. \<forall>j<32. bit (masks ! b) j \<longleftrightarrow> 32 * b + j + 1 \<in> set (index_tags idx))
    else bebop_message_index_block_masks (Some idx) (Some ms) = (BEBOP_RESULT_INVALID, Some ms)"
proof -
  have wf: "directory_wf idx"
    using begin_sound [OF assms] conditions_count by auto
  then show ?thesis
  proof (cases rule: directory_cases)
    case blocks
    let ?enc = "mi_encoded idx"
    let ?bm = "?enc ! (length ?enc - 2)"
    let ?masks = "block_masks_loop ?enc ?bm [0..<8] (mi_directory idx) (replicate 8 0)"
    have "bit (?masks ! b) j \<longleftrightarrow> 32 * b + j + 1 \<in> set (index_tags idx)" if "b < 8" "j < 32" for b j
      unfolding blocks(3) block_tags_mem [OF blocks(2) that]
      using block_masks_loop_nth [of "[0..<8]" "replicate 8 0" ?enc ?bm "mi_directory idx" b] that
      by (simp add: strict_sorted_iff)
    moreover have "bebop_message_index_block_masks (Some idx) (Some ms) = (BEBOP_RESULT_OK, Some ?masks)"
      using blocks(1) by (simp add: bebop_message_index_block_masks_def)
    ultimately show ?thesis
      using blocks(1) by auto
  qed (auto simp: bebop_message_index_block_masks_def)
qed

theorem block_masks_correct_witness:
  "\<exists>idx masks. bebop_message_index_begin (Some blank_index) (Some (message_image [1, 40, 41, 200] [0, 0, 0, 0] []))
        = (BEBOP_RESULT_OK, Some idx)
    \<and> mi_directory_kind idx = BEBOP_MESSAGE_DIRECTORY_BLOCKS
    \<and> bebop_message_index_block_masks (Some idx) (Some [5]) = (BEBOP_RESULT_OK, Some masks)
    \<and> bit (masks ! 1) 7 \<and> \<not> bit (masks ! 1) 9"
proof -
  let ?tags = "[1, 40, 41, 200] :: byte list" and ?idx = "image_index [1, 40, 41, 200] [0, 0, 0, 0] []"
  have "metadata_size ?tags (length ([] :: byte list)) = 20" "bebop_message_tags_valid (Some ?tags) (length ?tags)"
      "message_offsets_valid [0, 0, 0, 0] (length ?tags) (length ([] :: byte list))"
    by code_simp+
  then have enc: "encodable ?tags [0, 0, 0, 0] []"
    by (simp add: encodable_def UINT32_MAX_def)
  note run = conditions_begin [OF image_conditions [OF enc], of blank_index]
  have kind: "mi_directory_kind ?idx = 7"
    unfolding image_index_def Bebop_MessageIndex.simps by code_simp
  obtain masks where m: "bebop_message_index_block_masks (Some ?idx) (Some [5]) = (BEBOP_RESULT_OK, Some masks)"
      "\<forall>b<8. \<forall>j<32. bit (masks ! b) j \<longleftrightarrow> 32 * b + j + 1 \<in> set (index_tags ?idx)"
    using block_masks_correct [OF run, of "[5]"] kind by auto
  have "bit (masks ! 1) 7" "\<not> bit (masks ! 1) 9"
    using m(2) [rule_format, of 1 7] m(2) [rule_format, of 1 9] unfolding image_index_tags [OF enc] by simp_all
  then show ?thesis
    using run kind m(1) by blast
qed

end
