(* ===== verification/Wire_Hash.thy ===== *)
theory Wire_Hash
  imports Bebop_Prelude "HOL-Library.Monad_Syntax"
begin

text \<open>
  The hash and equality functions of map keys in \<^verbatim>\<open>bebop/src/bebop_wire.c\<close>: wyhash over bytes and over
  two words, and one hash and one equality per key kind.

  A read of the hash function at an offset of its buffer is \<open>None\<close> when it would leave the buffer,
  so that a proof of \<open>Some\<close> shows that it does not. The key of a map is the memory its pointer refers
  to: the bytes of a fixed-size key, and the characters of a string key.
\<close>

section \<open>Mixing\<close>

definition bebop__wymum :: "u64 \<Rightarrow> u64 \<Rightarrow> u64 \<times> u64" where
  "bebop__wymum a b =
     (let r = ucast a * ucast b :: u128
      in (ucast r, ucast (drop_bit 64 r)))"

text \<open>The body for compilers without a 128-bit integer.\<close>

definition wymum_portable :: "u64 \<Rightarrow> u64 \<Rightarrow> u64 \<times> u64" where
  "wymum_portable a b =
     (let ha = drop_bit 32 a; la = ucast (ucast a :: u32) :: u64;
          hb = drop_bit 32 b; lb = ucast (ucast b :: u32) :: u64;
          rh = ha * hb; rl = la * lb;
          rm0 = ha * lb; rm1 = hb * la;
          t = rl + push_bit 32 rm0;
          c = of_bool (t < rl);
          lo = t + push_bit 32 rm1;
          c = c + of_bool (lo < t);
          hi = rh + drop_bit 32 rm0 + drop_bit 32 rm1 + c
      in (lo, hi))"

definition bebop__wymix :: "u64 \<Rightarrow> u64 \<Rightarrow> u64" where
  "bebop__wymix a b = (case bebop__wymum a b of (a', b') \<Rightarrow> a' XOR b')"

section \<open>Reads\<close>

definition bebop__wyr8 :: "byte list \<Rightarrow> nat \<Rightarrow> u64 option" where
  "bebop__wyr8 buf p = (if p + 8 \<le> length buf then Some (le_word (span_at p 8 buf)) else None)"

definition bebop__wyr4 :: "byte list \<Rightarrow> nat \<Rightarrow> u64 option" where
  "bebop__wyr4 buf p = (if p + 4 \<le> length buf then Some (le_word (span_at p 4 buf)) else None)"

definition bebop__wyr3 :: "byte list \<Rightarrow> nat \<Rightarrow> nat \<Rightarrow> u64 option" where
  "bebop__wyr3 buf p k =
     (if k > 0 \<and> p + k \<le> length buf
      then Some (push_bit 16 (ucast (buf ! p)) OR push_bit 8 (ucast (buf ! (p + drop_bit 1 k)))
                 OR ucast (buf ! (p + (k - 1))))
      else None)"

section \<open>The hash of a byte string\<close>

definition wyp0 :: u64 where "wyp0 = 0x2d358dccaa6c78a5"
definition wyp1 :: u64 where "wyp1 = 0x8bb84b93962eacc9"
definition wyp2 :: u64 where "wyp2 = 0x4b33a62ed433d4a3"
definition wyp3 :: u64 where "wyp3 = 0x4d5a2da51de1aa47"

text \<open>The \<^verbatim>\<open>do\<close> loop over 48 bytes at a time; it is entered with \<open>48 \<le> i\<close>.\<close>

function wyhash_loop48 ::
  "byte list \<Rightarrow> nat \<Rightarrow> nat \<Rightarrow> u64 \<Rightarrow> u64 \<Rightarrow> u64 \<Rightarrow> (nat \<times> nat \<times> u64 \<times> u64 \<times> u64) option" where
  "wyhash_loop48 buf p i seed see1 see2 =
     do { r0 \<leftarrow> bebop__wyr8 buf p; r1 \<leftarrow> bebop__wyr8 buf (p + 8);
          r2 \<leftarrow> bebop__wyr8 buf (p + 16); r3 \<leftarrow> bebop__wyr8 buf (p + 24);
          r4 \<leftarrow> bebop__wyr8 buf (p + 32); r5 \<leftarrow> bebop__wyr8 buf (p + 40);
          let seed' = bebop__wymix (r0 XOR wyp1) (r1 XOR seed);
          let see1' = bebop__wymix (r2 XOR wyp2) (r3 XOR see1);
          let see2' = bebop__wymix (r4 XOR wyp3) (r5 XOR see2);
          (if i - 48 \<ge> 48 then wyhash_loop48 buf (p + 48) (i - 48) seed' see1' see2'
           else Some (p + 48, i - 48, seed', see1', see2')) }"
  by pat_completeness auto
termination
  by (relation "measure (\<lambda>(_, _, i, _). i)") auto

function wyhash_loop16 :: "byte list \<Rightarrow> nat \<Rightarrow> nat \<Rightarrow> u64 \<Rightarrow> (nat \<times> nat \<times> u64) option" where
  "wyhash_loop16 buf p i seed =
     (if i > 16
      then do { r0 \<leftarrow> bebop__wyr8 buf p; r1 \<leftarrow> bebop__wyr8 buf (p + 8);
                wyhash_loop16 buf (p + 16) (i - 16) (bebop__wymix (r0 XOR wyp1) (r1 XOR seed)) }
      else Some (p, i, seed))"
  by pat_completeness auto
termination
  by (relation "measure (\<lambda>(_, _, i, _). i)") auto

declare wyhash_loop48.simps [simp del] wyhash_loop16.simps [simp del]

definition wyhash_short :: "byte list \<Rightarrow> nat \<Rightarrow> (u64 \<times> u64) option" where
  "wyhash_short buf len =
     (if len \<ge> 4
      then let q = push_bit 2 (drop_bit 3 len)
           in do { a0 \<leftarrow> bebop__wyr4 buf 0; a1 \<leftarrow> bebop__wyr4 buf q;
                   b0 \<leftarrow> bebop__wyr4 buf (len - 4); b1 \<leftarrow> bebop__wyr4 buf (len - 4 - q);
                   Some (push_bit 32 a0 OR a1, push_bit 32 b0 OR b1) }
      else if len > 0 then do { a \<leftarrow> bebop__wyr3 buf 0 len; Some (a, 0) }
      else Some (0, 0))"

definition wyhash_long :: "byte list \<Rightarrow> nat \<Rightarrow> u64 \<Rightarrow> (u64 \<times> u64 \<times> u64) option" where
  "wyhash_long buf len seed =
     do { (p, i, seed) \<leftarrow>
            (if len \<ge> 48
             then do { (p, i, seed, see1, see2) \<leftarrow> wyhash_loop48 buf 0 len seed seed seed;
                       Some (p, i, seed XOR (see1 XOR see2)) }
             else Some (0, len, seed));
          (p, i, seed) \<leftarrow> wyhash_loop16 buf p i seed;
          a \<leftarrow> bebop__wyr8 buf (p + i - 16); b \<leftarrow> bebop__wyr8 buf (p + i - 8);
          Some (a, b, seed) }"

definition bebop__wyhash :: "byte list \<Rightarrow> nat \<Rightarrow> u64 \<Rightarrow> u64 option" where
  "bebop__wyhash buf len seed =
     (let seed = seed XOR bebop__wymix (seed XOR wyp0) wyp1
      in do { (a, b, seed) \<leftarrow>
                (if len \<le> 16 then do { (a, b) \<leftarrow> wyhash_short buf len; Some (a, b, seed) }
                 else wyhash_long buf len seed);
              let (a, b) = bebop__wymum (a XOR wyp1) (b XOR seed);
              Some (bebop__wymix (a XOR wyp0 XOR of_nat len) (b XOR wyp1)) })"

definition bebop__wyhash64 :: "u64 \<Rightarrow> u64 \<Rightarrow> u64" where
  "bebop__wyhash64 a b =
     (case bebop__wymum (a XOR 0x2d358dccaa6c78a5) (b XOR 0x8bb84b93962eacc9) of
        (a, b) \<Rightarrow> bebop__wymix (a XOR 0x2d358dccaa6c78a5) (b XOR 0x8bb84b93962eacc9))"

section \<open>The portable product\<close>

lemma unat64_less: "unat (x :: u64) < 2 ^ 64"
  using unsigned_less [of x] by simp

lemma unat_of_nat64: "n < 2 ^ 64 \<Longrightarrow> unat (of_nat n :: u64) = n"
  by (simp add: unat_of_nat)

lemma unat_drop_bit: "unat (drop_bit n (x :: 'a::len word)) = unat x div 2 ^ n"
proof -
  have "take_bit LENGTH('a) (unat x) = unat x"
    by (rule take_bit_nat_eq_self) (rule unsigned_less)
  then show ?thesis
    by (subst unsigned_drop_bit_eq) (simp add: drop_bit_eq_div)
qed

lemma add_carry:
  fixes x y :: u64
  shows "unat x + unat y = unat (x + y) + 2 ^ 64 * of_bool (x + y < x)"
proof (cases "unat x + unat y < 2 ^ 64")
  case True
  then have "unat (x + y) = unat x + unat y"
    by (simp add: unat_word_ariths)
  then show ?thesis
    by (simp add: word_less_nat_alt)
next
  case False
  have "unat x < 2 ^ 64" "unat y < 2 ^ 64"
    using unsigned_less [of x] unsigned_less [of y] by simp_all
  with False have "unat (x + y) = unat x + unat y - 2 ^ 64"
    by (simp add: unat_word_ariths mod_if [of "unat x + unat y"])
  then show ?thesis
    using False \<open>unat y < 2 ^ 64\<close> by (simp add: word_less_nat_alt)
qed

lemma unat_halves:
  fixes x :: u64
  shows "unat x = unat (drop_bit 32 x) * 2 ^ 32 + unat (ucast (ucast x :: u32) :: u64)"
    and "unat (drop_bit 32 x) < 2 ^ 32" and "unat (ucast (ucast x :: u32) :: u64) < 2 ^ 32"
proof -
  note d = unat_drop_bit [of 32 x]
  have m: "unat (ucast (ucast x :: u32) :: u64) = unat x mod 2 ^ 32"
    by (subst unsigned_ucast_eq, subst unsigned_ucast_eq) (simp add: take_bit_nat_def)
  show "unat x = unat (drop_bit 32 x) * 2 ^ 32 + unat (ucast (ucast x :: u32) :: u64)"
    unfolding d m by simp
  show "unat (drop_bit 32 x) < 2 ^ 32"
    unfolding d using unsigned_less [of x] by (simp add: div_less_iff_less_mult)
  show "unat (ucast (ucast x :: u32) :: u64) < 2 ^ 32"
    unfolding m by simp
qed

lemma unat_half_mult:
  fixes x y :: u64
  assumes "unat x < 2 ^ 32" and "unat y < 2 ^ 32"
  shows "unat (x * y) = unat x * unat y"
proof -
  have "unat x * unat y \<le> (2 ^ 32 - 1) * (2 ^ 32 - 1)"
    using assms by (intro mult_le_mono) simp_all
  then show ?thesis
    by (simp add: unat_word_ariths)
qed

lemma push_half:
  fixes x :: u64
  shows "unat (push_bit 32 x) + 2 ^ 64 * unat (drop_bit 32 x) = 2 ^ 32 * unat x"
proof -
  have "unat (push_bit 32 x) = take_bit LENGTH(64) (push_bit 32 (unat x))"
    by (rule unsigned_push_bit_eq)
  also have "\<dots> = (unat x * 2 ^ 32) mod (2 ^ 32 * 2 ^ 32)"
    by (simp add: take_bit_nat_def push_bit_nat_def)
  also have "\<dots> = unat x mod 2 ^ 32 * 2 ^ 32"
    by (rule mult_mod_left [symmetric])
  finally have "unat (push_bit 32 x) = unat x mod 2 ^ 32 * 2 ^ 32" .
  moreover have "n mod 2 ^ 32 * 2 ^ 32 + 2 ^ 64 * (n div 2 ^ 32) = 2 ^ 32 * n" for n :: nat
  proof -
    have "2 ^ 32 * (n div 2 ^ 32 * 2 ^ 32 + n mod 2 ^ 32) = 2 ^ 32 * n"
      by (simp only: div_mult_mod_eq)
    moreover have "(2 :: nat) ^ 64 = 2 ^ 32 * 2 ^ 32"
      by simp
    ultimately show ?thesis
      by (simp only: distrib_left mult.assoc mult.left_commute mult.commute add.commute)
  qed
  ultimately show ?thesis
    by (simp only: unat_drop_bit)
qed

lemma portable_product:
  fixes A B M ha la hb lb rm0 rm1 :: nat
  assumes "A = ha * M + la" and "B = hb * M + lb"
    and "rl + p0 = t + M * M * c0" and "t + p1 = lo + M * M * c1"
    and "p0 + M * M * d0 = M * (ha * lb)" and "p1 + M * M * d1 = M * (hb * la)" and "rl = la * lb"
  shows "A * B = lo + M * M * (ha * hb + d0 + d1 + (c0 + c1))"
proof -
  have "A * B = M * M * (ha * hb) + M * (ha * lb) + M * (hb * la) + la * lb"
    unfolding assms(1,2) by (simp add: algebra_simps)
  also have "\<dots> = M * M * (ha * hb) + (p0 + M * M * d0) + (p1 + M * M * d1) + rl"
    using assms(5-7) by simp
  also have "\<dots> = M * M * (ha * hb) + M * M * d0 + M * M * d1 + (lo + M * M * c1 + M * M * c0)"
    using assms(3,4) by linarith
  finally show ?thesis
    by (simp add: algebra_simps)
qed

lemma wymum_product:
  "wymum_portable a b = (lo, hi) \<Longrightarrow> unat a * unat b = unat lo + 2 ^ 64 * unat hi"
proof -
  let ?ha = "drop_bit 32 a" and ?la = "ucast (ucast a :: u32) :: u64"
  let ?hb = "drop_bit 32 b" and ?lb = "ucast (ucast b :: u32) :: u64"
  let ?t = "?la * ?lb + push_bit 32 (?ha * ?lb)"
  let ?lo = "?t + push_bit 32 (?hb * ?la)"
  let ?c0 = "of_bool (?t < ?la * ?lb) :: nat" and ?c1 = "of_bool (?lo < ?t) :: nat"
  let ?d0 = "unat (drop_bit 32 (?ha * ?lb))" and ?d1 = "unat (drop_bit 32 (?hb * ?la))"
  assume "wymum_portable a b = (lo, hi)"
  then have "(lo, hi) = (?lo, ?ha * ?hb + drop_bit 32 (?ha * ?lb) + drop_bit 32 (?hb * ?la)
      + (of_bool (?t < ?la * ?lb) + of_bool (?lo < ?t)))"
    unfolding wymum_portable_def Let_def by (rule sym)
  note eq = this
  have lo: "lo = ?lo"
    and hi: "hi = ?ha * ?hb + drop_bit 32 (?ha * ?lb) + drop_bit 32 (?hb * ?la) + (of_bool (?t < ?la * ?lb) + of_bool (?lo < ?t))"
    by (rule Pair_inject [OF eq], assumption)+
  note ab = unat_halves [of a] unat_halves [of b]
  have mult: "unat (?ha * ?hb) = unat ?ha * unat ?hb" "unat (?la * ?lb) = unat ?la * unat ?lb"
      "unat (?ha * ?lb) = unat ?ha * unat ?lb" "unat (?hb * ?la) = unat ?hb * unat ?la"
    using ab by (simp_all only: unat_half_mult)
  have sq: "(2 :: nat) ^ 32 * 2 ^ 32 = 2 ^ 64"
    by simp
  have prod: "unat a * unat b = unat ?lo + 2 ^ 64 * (unat ?ha * unat ?hb + ?d0 + ?d1 + (?c0 + ?c1))"
  proof (rule portable_product [where M = "2 ^ 32", unfolded sq])
    show "unat (?la * ?lb) + unat (push_bit 32 (?ha * ?lb)) = unat ?t + 2 ^ 64 * ?c0"
      by (rule add_carry)
    show "unat ?t + unat (push_bit 32 (?hb * ?la)) = unat ?lo + 2 ^ 64 * ?c1"
      by (rule add_carry)
    show "unat (push_bit 32 (?ha * ?lb)) + 2 ^ 64 * ?d0 = 2 ^ 32 * (unat ?ha * unat ?lb)"
      using push_half [of "?ha * ?lb"] mult(3) by simp
    show "unat (push_bit 32 (?hb * ?la)) + 2 ^ 64 * ?d1 = 2 ^ 32 * (unat ?hb * unat ?la)"
      using push_half [of "?hb * ?la"] mult(4) by simp
  qed (rule ab(1), rule ab(4), rule mult(2))
  let ?hi = "unat ?ha * unat ?hb + ?d0 + ?d1 + (?c0 + ?c1)"
  have "unat a * unat b \<le> (2 ^ 64 - 1) * (2 ^ 64 - 1)"
    using unat64_less [of a] unat64_less [of b] by (intro mult_le_mono) simp_all
  then have "2 ^ 64 * ?hi < 2 ^ 64 * 2 ^ 64"
    using prod by simp
  then have "?hi < 2 ^ 64"
    by simp
  moreover have "hi = of_nat ?hi"
    unfolding hi by (simp add: mult(1) [symmetric])
  ultimately have "unat hi = ?hi"
    by (simp only: unat_of_nat64)
  then show ?thesis
    using prod lo by simp
qed

lemma wymum_nat:
  "bebop__wymum a b = (of_nat (unat a * unat b), of_nat (unat a * unat b div 2 ^ 64))"
proof -
  let ?n = "unat a * unat b" and ?r = "ucast a * ucast b :: u128"
  have "?n \<le> (2 ^ 64 - 1) * (2 ^ 64 - 1)"
    using unat64_less [of a] unat64_less [of b] by (intro mult_le_mono) simp_all
  then have n: "?n < 2 ^ 128"
    by simp
  have "unat (ucast x :: u128) = unat x" for x :: u64
    using unat64_less [of x] by (simp add: unsigned_ucast_eq take_bit_nat_eq_self)
  then have r: "unat ?r = ?n"
    using n by (simp add: unat_word_ariths)
  have "ucast ?r = (of_nat (unat ?r) :: u64)" "ucast (drop_bit 64 ?r) = (of_nat (unat (drop_bit 64 ?r)) :: u64)"
    by simp_all
  moreover have "unat (drop_bit 64 ?r) = ?n div 2 ^ 64"
    by (simp only: unat_drop_bit r)
  ultimately show ?thesis
    unfolding bebop__wymum_def Let_def r by simp
qed

text \<open>
  The portable product is the product. The body of \<open>bebop__wymum\<close> for compilers without a 128-bit
  integer computes the same two words as the 128-bit multiplication.
\<close>

theorem wymum_portable_agrees: "wymum_portable a b = bebop__wymum a b"
proof (cases "wymum_portable a b")
  case (Pair lo hi)
  have p: "unat a * unat b = unat lo + 2 ^ 64 * unat hi"
    by (rule wymum_product [OF Pair])
  have "(of_nat (unat lo + 2 ^ 64 * unat hi) :: u64) = of_nat (unat lo)"
    by (simp only: word_of_nat_eq_iff) (simp add: take_bit_nat_def)
  then have "unat a * unat b div 2 ^ 64 = unat hi" "(of_nat (unat a * unat b) :: u64) = lo"
    unfolding p using unat64_less [of lo] by simp_all
  then show ?thesis
    unfolding wymum_nat Pair by simp
qed

section \<open>Reads stay inside the key\<close>

lemma wyr_in_bounds:
  shows wyr8_Some: "p + 8 \<le> length buf \<Longrightarrow> \<exists>v. bebop__wyr8 buf p = Some v"
    and wyr4_Some: "p + 4 \<le> length buf \<Longrightarrow> \<exists>v. bebop__wyr4 buf p = Some v"
    and wyr3_Some: "0 < k \<Longrightarrow> p + k \<le> length buf \<Longrightarrow> \<exists>v. bebop__wyr3 buf p k = Some v"
  by (simp_all add: bebop__wyr8_def bebop__wyr4_def bebop__wyr3_def)

lemma loop48_in_bounds:
  assumes "48 \<le> i" and "p + i \<le> length buf"
  shows "\<exists>p' i' s s1 s2. wyhash_loop48 buf p i seed see1 see2 = Some (p', i', s, s1, s2) \<and> p' + i' = p + i"
  using assms
proof (induction buf p i seed see1 see2 rule: wyhash_loop48.induct)
  case (1 buf p i seed see1 see2)
  obtain r0 r1 r2 r3 r4 r5 where r: "bebop__wyr8 buf p = Some r0" "bebop__wyr8 buf (p + 8) = Some r1"
      "bebop__wyr8 buf (p + 16) = Some r2" "bebop__wyr8 buf (p + 24) = Some r3"
      "bebop__wyr8 buf (p + 32) = Some r4" "bebop__wyr8 buf (p + 40) = Some r5"
    using wyr8_Some [of p buf] wyr8_Some [of "p + 8" buf] wyr8_Some [of "p + 16" buf]
      wyr8_Some [of "p + 24" buf] wyr8_Some [of "p + 32" buf] wyr8_Some [of "p + 40" buf] 1(2,3) by auto
  show ?case
  proof (cases "48 \<le> i - 48")
    case True
    with 1(1) [OF r refl refl refl True] 1(2,3) show ?thesis
      by (subst wyhash_loop48.simps) (simp add: r)
  next
    case False
    then show ?thesis
      using 1(2) by (subst wyhash_loop48.simps) (simp add: r)
  qed
qed

lemma loop16_in_bounds:
  assumes "p + i \<le> length buf"
  shows "\<exists>p' i' s. wyhash_loop16 buf p i seed = Some (p', i', s) \<and> p' + i' = p + i"
  using assms
proof (induction buf p i seed rule: wyhash_loop16.induct)
  case (1 buf p i seed)
  show ?case
  proof (cases "16 < i")
    case True
    obtain r0 r1 where r: "bebop__wyr8 buf p = Some r0" "bebop__wyr8 buf (p + 8) = Some r1"
      using wyr8_Some [of p buf] wyr8_Some [of "p + 8" buf] 1(2) True by auto
    with 1(1) [OF True r] 1(2) True show ?thesis
      by (subst wyhash_loop16.simps) simp
  next
    case False
    then show ?thesis
      by (subst wyhash_loop16.simps) simp
  qed
qed

lemma wyhash_short_in_bounds:
  assumes "len \<le> 16" and "len \<le> length buf"
  shows "\<exists>a b. wyhash_short buf len = Some (a, b)"
proof -
  let ?q = "push_bit 2 (drop_bit 3 len)"
  have q: "?q = 4 * (len div 8)"
    by (simp add: push_bit_nat_def drop_bit_nat_def)
  show ?thesis
  proof (cases "4 \<le> len")
    case True
    then have "?q + 4 \<le> len"
      unfolding q using assms(1) by presburger
    then have "0 + 4 \<le> length buf" "?q + 4 \<le> length buf" "len - 4 + 4 \<le> length buf" "len - 4 - ?q + 4 \<le> length buf"
      using assms(2) True by linarith+
    then obtain a0 a1 b0 b1 where "bebop__wyr4 buf 0 = Some a0" "bebop__wyr4 buf ?q = Some a1"
        "bebop__wyr4 buf (len - 4) = Some b0" "bebop__wyr4 buf (len - 4 - ?q) = Some b1"
      using wyr4_Some by metis
    then show ?thesis
      using True by (simp add: wyhash_short_def Let_def)
  next
    case False
    then show ?thesis
      using wyr3_Some [of len 0 buf] assms(2) by (auto simp: wyhash_short_def)
  qed
qed

lemma wyhash_long_in_bounds:
  assumes "16 < len" and "len \<le> length buf"
  shows "\<exists>a b s. wyhash_long buf len seed = Some (a, b, s)"
proof -
  have "\<exists>p i s. (if len \<ge> 48
             then do { (p, i, seed, see1, see2) \<leftarrow> wyhash_loop48 buf 0 len seed seed seed;
                       Some (p, i, seed XOR (see1 XOR see2)) }
             else Some (0, len, seed)) = Some (p, i, s) \<and> p + i = len"
    using loop48_in_bounds [of len 0 buf seed seed seed] assms by auto
  then obtain p i s where 1: "(if len \<ge> 48
             then do { (p, i, seed, see1, see2) \<leftarrow> wyhash_loop48 buf 0 len seed seed seed;
                       Some (p, i, seed XOR (see1 XOR see2)) }
             else Some (0, len, seed)) = Some (p, i, s)" "p + i = len"
    by blast
  obtain p' i' s' where 2: "wyhash_loop16 buf p i s = Some (p', i', s')" "p' + i' = len"
    using loop16_in_bounds [of p i buf s] 1(2) assms(2) by auto
  obtain a b where "bebop__wyr8 buf (p' + i' - 16) = Some a" "bebop__wyr8 buf (p' + i' - 8) = Some b"
  proof -
    have "p' + i' - 16 + 8 \<le> length buf" "p' + i' - 8 + 8 \<le> length buf"
      using 2(2) assms by linarith+
    then show ?thesis
      using wyr8_Some that by blast
  qed
  then show ?thesis
    unfolding wyhash_long_def 1(1) by (simp add: 2(1))
qed

text \<open>
  Hashing never reads outside the key. For every key and every seed the hash is computed and all
  of its reads, also the overlapping ones at the end, lie inside the key.
\<close>

theorem wyhash_in_bounds: "\<exists>h. bebop__wyhash key (length key) seed = Some h"
proof -
  let ?seed = "seed XOR bebop__wymix (seed XOR wyp0) wyp1"
  have "\<exists>a b s. (if length key \<le> 16 then do { (a, b) \<leftarrow> wyhash_short key (length key); Some (a, b, ?seed) }
                 else wyhash_long key (length key) ?seed) = Some (a, b, s)"
    using wyhash_short_in_bounds [of "length key" key] wyhash_long_in_bounds [of "length key" key ?seed] by auto
  then obtain a b s where abs: "(if length key \<le> 16 then do { (a, b) \<leftarrow> wyhash_short key (length key); Some (a, b, ?seed) }
                 else wyhash_long key (length key) ?seed) = Some (a, b, s)"
    by blast
  show ?thesis
    unfolding bebop__wyhash_def Let_def abs by (simp add: case_prod_beta)
qed

section \<open>Key kinds\<close>

datatype Bebop_MapKeyKind =
    BEBOP_MAP_KEY_BOOL | BEBOP_MAP_KEY_I8 | BEBOP_MAP_KEY_U8 | BEBOP_MAP_KEY_I16 | BEBOP_MAP_KEY_U16
  | BEBOP_MAP_KEY_I32 | BEBOP_MAP_KEY_U32 | BEBOP_MAP_KEY_I64 | BEBOP_MAP_KEY_U64
  | BEBOP_MAP_KEY_I128 | BEBOP_MAP_KEY_U128 | BEBOP_MAP_KEY_STRING | BEBOP_MAP_KEY_UUID

type_synonym map_key = "byte list"

definition bebop_map_hash_bool :: "map_key \<Rightarrow> u64" where
  "bebop_map_hash_bool key = bebop__wyhash64 (of_bool (key ! 0 \<noteq> 0)) 0"

definition bebop_map_hash_i8 :: "map_key \<Rightarrow> u64" where
  "bebop_map_hash_i8 key = bebop__wyhash64 (scast (key ! 0)) 0"

definition bebop_map_hash_u8 :: "map_key \<Rightarrow> u64" where
  "bebop_map_hash_u8 key = bebop__wyhash64 (ucast (key ! 0)) 0"

definition bebop_map_hash_i16 :: "map_key \<Rightarrow> u64" where
  "bebop_map_hash_i16 key = bebop__wyhash64 (scast (le_word (take 2 key) :: u16)) 0"

definition bebop_map_hash_u16 :: "map_key \<Rightarrow> u64" where
  "bebop_map_hash_u16 key = bebop__wyhash64 (ucast (le_word (take 2 key) :: u16)) 0"

definition bebop_map_hash_i32 :: "map_key \<Rightarrow> u64" where
  "bebop_map_hash_i32 key = bebop__wyhash64 (scast (le_word (take 4 key) :: u32)) 0"

definition bebop_map_hash_u32 :: "map_key \<Rightarrow> u64" where
  "bebop_map_hash_u32 key = bebop__wyhash64 (ucast (le_word (take 4 key) :: u32)) 0"

definition bebop_map_hash_i64 :: "map_key \<Rightarrow> u64" where
  "bebop_map_hash_i64 key = bebop__wyhash64 (le_word (take 8 key)) 0"

definition bebop_map_hash_u64 :: "map_key \<Rightarrow> u64" where
  "bebop_map_hash_u64 key = bebop__wyhash64 (le_word (take 8 key)) 0"

definition bebop_map_hash_i128 :: "map_key \<Rightarrow> u64" where
  "bebop_map_hash_i128 key = bebop__wyhash64 (le_word (span_at 0 8 key)) (le_word (span_at 8 8 key))"

definition bebop_map_hash_u128 :: "map_key \<Rightarrow> u64" where
  "bebop_map_hash_u128 key = bebop__wyhash64 (le_word (span_at 0 8 key)) (le_word (span_at 8 8 key))"

definition bebop_map_hash_uuid :: "map_key \<Rightarrow> u64" where
  "bebop_map_hash_uuid key = bebop__wyhash64 (le_word (span_at 0 8 key)) (le_word (span_at 8 8 key))"

text \<open>The hash of a string is defined, by the property above; 0 stands for no value.\<close>

definition bebop_map_hash_string :: "map_key \<Rightarrow> u64" where
  "bebop_map_hash_string key = (case bebop__wyhash key (length key) 0 of Some h \<Rightarrow> h | None \<Rightarrow> 0)"

definition bebop_map_equal_bool :: "map_key \<Rightarrow> map_key \<Rightarrow> bool" where
  "bebop_map_equal_bool a b \<longleftrightarrow> (a ! 0 \<noteq> 0) = (b ! 0 \<noteq> 0)"

definition bebop_map_equal_i8 :: "map_key \<Rightarrow> map_key \<Rightarrow> bool" where
  "bebop_map_equal_i8 a b \<longleftrightarrow> a ! 0 = b ! 0"

definition bebop_map_equal_u8 :: "map_key \<Rightarrow> map_key \<Rightarrow> bool" where
  "bebop_map_equal_u8 a b \<longleftrightarrow> a ! 0 = b ! 0"

definition bebop_map_equal_i16 :: "map_key \<Rightarrow> map_key \<Rightarrow> bool" where
  "bebop_map_equal_i16 a b \<longleftrightarrow> (le_word (take 2 a) :: u16) = le_word (take 2 b)"

definition bebop_map_equal_u16 :: "map_key \<Rightarrow> map_key \<Rightarrow> bool" where
  "bebop_map_equal_u16 a b \<longleftrightarrow> (le_word (take 2 a) :: u16) = le_word (take 2 b)"

definition bebop_map_equal_i32 :: "map_key \<Rightarrow> map_key \<Rightarrow> bool" where
  "bebop_map_equal_i32 a b \<longleftrightarrow> (le_word (take 4 a) :: u32) = le_word (take 4 b)"

definition bebop_map_equal_u32 :: "map_key \<Rightarrow> map_key \<Rightarrow> bool" where
  "bebop_map_equal_u32 a b \<longleftrightarrow> (le_word (take 4 a) :: u32) = le_word (take 4 b)"

definition bebop_map_equal_i64 :: "map_key \<Rightarrow> map_key \<Rightarrow> bool" where
  "bebop_map_equal_i64 a b \<longleftrightarrow> (le_word (take 8 a) :: u64) = le_word (take 8 b)"

definition bebop_map_equal_u64 :: "map_key \<Rightarrow> map_key \<Rightarrow> bool" where
  "bebop_map_equal_u64 a b \<longleftrightarrow> (le_word (take 8 a) :: u64) = le_word (take 8 b)"

definition bebop_map_equal_i128 :: "map_key \<Rightarrow> map_key \<Rightarrow> bool" where
  "bebop_map_equal_i128 a b \<longleftrightarrow> take 16 a = take 16 b"

definition bebop_map_equal_u128 :: "map_key \<Rightarrow> map_key \<Rightarrow> bool" where
  "bebop_map_equal_u128 a b \<longleftrightarrow> take 16 a = take 16 b"

definition bebop_map_equal_uuid :: "map_key \<Rightarrow> map_key \<Rightarrow> bool" where
  "bebop_map_equal_uuid a b \<longleftrightarrow> take 16 a = take 16 b"

definition bebop_map_equal_string :: "map_key \<Rightarrow> map_key \<Rightarrow> bool" where
  "bebop_map_equal_string a b \<longleftrightarrow> length a = length b \<and> a = take (length a) b"

text \<open>The two tables of \<^verbatim>\<open>bebop_map_init\<close>.\<close>

fun map_hashes :: "Bebop_MapKeyKind \<Rightarrow> map_key \<Rightarrow> u64" where
  "map_hashes BEBOP_MAP_KEY_BOOL = bebop_map_hash_bool"
| "map_hashes BEBOP_MAP_KEY_I8 = bebop_map_hash_i8"
| "map_hashes BEBOP_MAP_KEY_U8 = bebop_map_hash_u8"
| "map_hashes BEBOP_MAP_KEY_I16 = bebop_map_hash_i16"
| "map_hashes BEBOP_MAP_KEY_U16 = bebop_map_hash_u16"
| "map_hashes BEBOP_MAP_KEY_I32 = bebop_map_hash_i32"
| "map_hashes BEBOP_MAP_KEY_U32 = bebop_map_hash_u32"
| "map_hashes BEBOP_MAP_KEY_I64 = bebop_map_hash_i64"
| "map_hashes BEBOP_MAP_KEY_U64 = bebop_map_hash_u64"
| "map_hashes BEBOP_MAP_KEY_I128 = bebop_map_hash_i128"
| "map_hashes BEBOP_MAP_KEY_U128 = bebop_map_hash_u128"
| "map_hashes BEBOP_MAP_KEY_STRING = bebop_map_hash_string"
| "map_hashes BEBOP_MAP_KEY_UUID = bebop_map_hash_uuid"

fun map_equals :: "Bebop_MapKeyKind \<Rightarrow> map_key \<Rightarrow> map_key \<Rightarrow> bool" where
  "map_equals BEBOP_MAP_KEY_BOOL = bebop_map_equal_bool"
| "map_equals BEBOP_MAP_KEY_I8 = bebop_map_equal_i8"
| "map_equals BEBOP_MAP_KEY_U8 = bebop_map_equal_u8"
| "map_equals BEBOP_MAP_KEY_I16 = bebop_map_equal_i16"
| "map_equals BEBOP_MAP_KEY_U16 = bebop_map_equal_u16"
| "map_equals BEBOP_MAP_KEY_I32 = bebop_map_equal_i32"
| "map_equals BEBOP_MAP_KEY_U32 = bebop_map_equal_u32"
| "map_equals BEBOP_MAP_KEY_I64 = bebop_map_equal_i64"
| "map_equals BEBOP_MAP_KEY_U64 = bebop_map_equal_u64"
| "map_equals BEBOP_MAP_KEY_I128 = bebop_map_equal_i128"
| "map_equals BEBOP_MAP_KEY_U128 = bebop_map_equal_u128"
| "map_equals BEBOP_MAP_KEY_STRING = bebop_map_equal_string"
| "map_equals BEBOP_MAP_KEY_UUID = bebop_map_equal_uuid"

text \<open>The keys that a key of the given kind can be.\<close>

fun key_valid :: "Bebop_MapKeyKind \<Rightarrow> map_key \<Rightarrow> bool" where
  "key_valid BEBOP_MAP_KEY_BOOL key \<longleftrightarrow> key = [0] \<or> key = [1]"
| "key_valid BEBOP_MAP_KEY_I8 key \<longleftrightarrow> length key = 1"
| "key_valid BEBOP_MAP_KEY_U8 key \<longleftrightarrow> length key = 1"
| "key_valid BEBOP_MAP_KEY_I16 key \<longleftrightarrow> length key = 2"
| "key_valid BEBOP_MAP_KEY_U16 key \<longleftrightarrow> length key = 2"
| "key_valid BEBOP_MAP_KEY_I32 key \<longleftrightarrow> length key = 4"
| "key_valid BEBOP_MAP_KEY_U32 key \<longleftrightarrow> length key = 4"
| "key_valid BEBOP_MAP_KEY_I64 key \<longleftrightarrow> length key = 8"
| "key_valid BEBOP_MAP_KEY_U64 key \<longleftrightarrow> length key = 8"
| "key_valid BEBOP_MAP_KEY_I128 key \<longleftrightarrow> length key = 16"
| "key_valid BEBOP_MAP_KEY_U128 key \<longleftrightarrow> length key = 16"
| "key_valid BEBOP_MAP_KEY_STRING key \<longleftrightarrow> True"
| "key_valid BEBOP_MAP_KEY_UUID key \<longleftrightarrow> length key = 16"

lemma le_word_eq_iff:
  assumes "length a = n" and "length b = n" and "8 * n = LENGTH('a)"
  shows "(le_word a :: 'a::len word) = le_word b \<longleftrightarrow> a = b"
proof
  assume "(le_word a :: 'a word) = le_word b"
  then have "le_bytes n (le_word a :: 'a word) = le_bytes n (le_word b :: 'a word)"
    by simp
  then show "a = b"
    using assms by simp
qed simp

lemma single_eq_iff: "length a = 1 \<Longrightarrow> length b = 1 \<Longrightarrow> a ! 0 = b ! 0 \<longleftrightarrow> a = b"
  by (cases a; cases b) auto

lemmas map_equal_defs = bebop_map_equal_bool_def bebop_map_equal_i8_def bebop_map_equal_u8_def
  bebop_map_equal_i16_def bebop_map_equal_u16_def bebop_map_equal_i32_def bebop_map_equal_u32_def
  bebop_map_equal_i64_def bebop_map_equal_u64_def bebop_map_equal_i128_def bebop_map_equal_u128_def
  bebop_map_equal_uuid_def bebop_map_equal_string_def

lemma map_equals_iff:
  "key_valid kind a \<Longrightarrow> key_valid kind b \<Longrightarrow> map_equals kind a b \<longleftrightarrow> a = b"
  by (cases kind) (auto simp: map_equal_defs single_eq_iff le_word_eq_iff)

end
