(* ===== verification/Wire_Map.thy ===== *)
theory Wire_Map
  imports Wire_Arena Wire_Hash
begin

text \<open>
  The hash map of \<^verbatim>\<open>bebop/src/bebop_wire.c\<close>: open addressing over groups of eight control bytes that
  are examined in one 64-bit word. This theory holds its operations, as the code has them, and the
  meaning of the word tricks.

  A key is the memory its pointer refers to and a value is a pointer, so keys and values are type
  parameters; a slot that was never written is \<open>None\<close>. Control bytes are the bit patterns of the
  \<^verbatim>\<open>int8_t\<close> values. The context of the map is passed explicitly and returned.
\<close>

section \<open>Data\<close>

record ('k, 'v) Bebop_Map =
  map_ctrl :: "byte list option"
  map_slots :: "('k \<times> 'v) option list"
  map_length :: nat
  map_capacity :: nat
  map_growth_left :: nat
  map_hash :: "'k \<Rightarrow> u64"
  map_eq :: "'k \<Rightarrow> 'k \<Rightarrow> bool"

record ('k, 'v) Bebop_MapIter =
  iter_map :: "('k, 'v) Bebop_Map option"
  iter_index :: nat

definition BEBOP_MAP_GROUP_SIZE :: nat where [wire_defs]: "BEBOP_MAP_GROUP_SIZE = 8"
definition BEBOP_MAP_INITIAL_CAPACITY :: nat where [wire_defs]: "BEBOP_MAP_INITIAL_CAPACITY = 8"
definition BEBOP_MAP_LOAD_FACTOR :: nat where [wire_defs]: "BEBOP_MAP_LOAD_FACTOR = 7"
definition CTRL_EMPTY :: byte where [wire_defs]: "CTRL_EMPTY = 0x80"
definition CTRL_DELETED :: byte where [wire_defs]: "CTRL_DELETED = 0xFE"

definition H1 :: "u64 \<Rightarrow> u64" where "H1 h = drop_bit 7 h"
definition H2 :: "u64 \<Rightarrow> byte" where "H2 h = ucast (h AND 0x7F)"

text \<open>A control byte that is not negative as an \<^verbatim>\<open>int8_t\<close>.\<close>

definition CTRL_IS_FULL :: "byte \<Rightarrow> bool" where "CTRL_IS_FULL c \<longleftrightarrow> c < 0x80"

text \<open>Decrement of a \<^verbatim>\<open>size_t\<close>.\<close>

definition size_dec :: "nat \<Rightarrow> nat" where
  "size_dec n = (if n = 0 then SIZE_MAX else n - 1)"

section \<open>Words of control bytes\<close>

definition bebop__map_match_h2 :: "u64 \<Rightarrow> byte \<Rightarrow> u64" where
  "bebop__map_match_h2 ctrl_word h2 =
     (let broadcast = 0x0101010101010101 * ucast h2;
          diff = ctrl_word XOR broadcast
      in (diff - 0x0101010101010101) AND NOT diff AND 0x8080808080808080)"

definition bebop__map_match_empty :: "u64 \<Rightarrow> u64" where
  "bebop__map_match_empty ctrl_word = ctrl_word AND NOT (push_bit 1 ctrl_word) AND 0x8080808080808080"

definition bebop__map_match_empty_or_deleted :: "u64 \<Rightarrow> u64" where
  "bebop__map_match_empty_or_deleted ctrl_word = ctrl_word AND 0x8080808080808080"

text \<open>\<^verbatim>\<open>__builtin_ctzll\<close> of a word that is not 0, and the portable loop.\<close>

definition bebop__map_match_first :: "u64 \<Rightarrow> nat" where
  "bebop__map_match_first match =
     (case find (bit match) [0..<64] of None \<Rightarrow> BEBOP_MAP_GROUP_SIZE | Some n \<Rightarrow> n div 8)"

partial_function (option) map_match_first_loop :: "u64 \<Rightarrow> nat \<Rightarrow> nat option" where
  "map_match_first_loop match n =
     (if match AND 0xFF = 0 then map_match_first_loop (drop_bit 8 match) (n + 1) else Some n)"

definition bebop__map_probe_offset :: "nat \<Rightarrow> u64" where
  "bebop__map_probe_offset i = (of_nat i * (of_nat i + 1)) div 2"

definition bebop__map_clear_match :: "u64 \<Rightarrow> nat \<Rightarrow> u64" where
  "bebop__map_clear_match match offset =
     (let shift = (offset + 1) * 8
      in if shift < 64 then match AND NOT (push_bit shift 1 - 1) else 0)"

section \<open>Lanes\<close>

text \<open>A match word has its bits at the top of the bytes that match; lane \<open>i\<close> is the bit of byte \<open>i\<close>.\<close>

definition lanes_only :: "u64 \<Rightarrow> bool" where
  "lanes_only m \<longleftrightarrow> (\<forall>n. bit m n \<longrightarrow> n mod 8 = 7)"

definition lane :: "u64 \<Rightarrow> nat \<Rightarrow> bool" where
  "lane m i \<longleftrightarrow> bit m (8 * i + 7)"

lemma len64_eq: "LENGTH(64) = 64"
  by simp

lemma bit_high_bytes: "bit (0x8080808080808080 :: u64) n \<longleftrightarrow> n < 64 \<and> n mod 8 = 7"
proof -
  have w: "(0x8080808080808080 :: u64) = le_word (replicate 8 0x80)"
    by code_simp
  have b: "bit (0x80 :: byte) k \<longleftrightarrow> k = 7" for k
  proof -
    have "(0x80 :: byte) = 2 ^ 7"
      by simp
    then show ?thesis
      by (simp only: bit_exp_iff) auto
  qed
  have "n div 8 < 8 \<longleftrightarrow> n < 64"
    by (simp add: div_less_iff_less_mult)
  then show ?thesis
    unfolding w bit_le_word by (auto simp only: b length_replicate nth_replicate len64_eq)
qed

lemma lanes_only_and: "lanes_only (w AND 0x8080808080808080)"
  unfolding lanes_only_def bit_and_iff bit_high_bytes by blast

lemma lane_bound: "lane m i \<Longrightarrow> i < 8"
  unfolding lane_def using bit_imp_le_length [of m "8 * i + 7"] by simp

lemma lane_and [simp]: "i < 8 \<Longrightarrow> lane (w AND 0x8080808080808080) i \<longleftrightarrow> lane w i"
  unfolding lane_def bit_and_iff bit_high_bytes by simp

lemma lanes_nonzero: "lanes_only m \<Longrightarrow> m \<noteq> 0 \<longleftrightarrow> (\<exists>i<8. lane m i)"
proof
  assume l: "lanes_only m" and "m \<noteq> 0"
  then obtain n where n: "bit m n"
    using bit_eqI [of m 0] by auto
  then have "8 * (n div 8) + 7 = n"
    using l mult_div_mod_eq [of 8 n] by (auto simp: lanes_only_def)
  then show "\<exists>i<8. lane m i"
    using n lane_bound [of m "n div 8"] by (auto simp: lane_def)
next
  assume "\<exists>i<8. lane m i"
  then show "m \<noteq> 0"
    by (auto simp: lane_def)
qed

lemma find_lowest_bit:
  assumes "(m :: u64) \<noteq> 0"
  obtains n where "find (bit m) [0..<64] = Some n" "bit m n" "\<forall>j<n. \<not> bit m j" "n < 64"
    "bebop__map_match_first m = n div 8" "n < (n div 8 + 1) * 8"
proof -
  obtain n where n: "find (bit m) [0..<64] = Some n"
  proof (cases "find (bit m) [0..<64]")
    case None
    have "\<not> bit m k" for k
      using None bit_imp_le_length [of m k] by (cases "k < 64") (auto simp: find_None_iff)
    then have "m = 0"
      by (intro bit_word_eqI) auto
    then show ?thesis
      using assms by simp
  qed (use that in blast)
  then have "bit m n" "\<forall>j<n. \<not> bit m j" "n < 64"
    by (auto simp: find_Some_iff)
  moreover have "bebop__map_match_first m = n div 8"
    unfolding bebop__map_match_first_def n by simp
  moreover have "n < (n div 8 + 1) * 8"
    by presburger
  ultimately show thesis
    by (intro that [OF n])
qed

lemma match_first_lane:
  assumes "lanes_only m" and "m \<noteq> 0"
  shows "lane m (bebop__map_match_first m)" and "\<And>j. lane m j \<Longrightarrow> bebop__map_match_first m \<le> j"
proof -
  obtain n where n: "bit m n" "\<forall>j<n. \<not> bit m j" "bebop__map_match_first m = n div 8"
    using assms(2) by (rule find_lowest_bit)
  have "8 * (n div 8) + 7 = n"
    using assms(1) n(1) mult_div_mod_eq [of 8 n] by (auto simp: lanes_only_def)
  then show "lane m (bebop__map_match_first m)"
    using n(1) by (simp add: n(3) lane_def)
  show "bebop__map_match_first m \<le> j" if "lane m j" for j
  proof -
    have "n \<le> 8 * j + 7"
      using that n(2) by (auto simp: lane_def not_less [symmetric])
    then show ?thesis
      using div_le_mono [of n "8 * j + 7" 8] by (simp add: n(3))
  qed
qed

lemma bit_clear_match:
  "bit (bebop__map_clear_match m o') n \<longleftrightarrow> bit m n \<and> (o' + 1) * 8 \<le> n"
proof (cases "(o' + 1) * 8 < 64")
  case True
  have mask: "push_bit ((o' + 1) * 8) 1 - 1 = (mask ((o' + 1) * 8) :: u64)"
    by (simp add: mask_eq_decr_exp push_bit_eq_mult)
  show ?thesis
    using True unfolding bebop__map_clear_match_def Let_def mask
    by (auto simp: bit_and_iff bit_not_iff bit_mask_iff dest: bit_imp_le_length)
next
  case False
  then show ?thesis
    using bit_imp_le_length [of m n] by (auto simp: bebop__map_clear_match_def)
qed

lemma clear_match_lanes:
  assumes "lanes_only m"
  shows "lanes_only (bebop__map_clear_match m o')" and "lane (bebop__map_clear_match m o') i \<longleftrightarrow> lane m i \<and> o' < i"
proof -
  show "lanes_only (bebop__map_clear_match m o')"
    using assms by (simp add: lanes_only_def bit_clear_match)
  have "(o' + 1) * 8 \<le> 8 * i + 7 \<longleftrightarrow> o' < i"
    by auto
  then show "lane (bebop__map_clear_match m o') i \<longleftrightarrow> lane m i \<and> o' < i"
    by (simp add: lane_def bit_clear_match)
qed

section \<open>What the word tricks match\<close>

lemma le_word_Cons_add: "(le_word (b # bs) :: u64) = ucast b + 256 * le_word bs"
proof -
  have "\<not> bit b n" if "8 \<le> n" for n
    using bit_imp_le_length [of b n] that by auto
  then have "ucast b OR push_bit 8 (le_word bs) = ucast b + (push_bit 8 (le_word bs) :: u64)"
    by (intro disjunctive_add_eq_or [symmetric])
       (auto intro!: bit_word_eqI simp: bit_and_iff bit_ucast_iff bit_push_bit_iff)
  then show ?thesis
    by (simp add: push_bit_eq_mult mult.commute)
qed

lemma broadcast_le_word: "0x0101010101010101 * ucast h = (le_word (replicate 8 h) :: u64)"
proof -
  have "replicate 8 h = [h, h, h, h, h, h, h, h]"
    by (simp add: numeral_eq_Suc)
  then show ?thesis
    by (simp only: le_word_Cons_add le_word.simps(1)) (simp add: algebra_simps)
qed

lemma ones_le_word: "(0x0101010101010101 :: u64) = le_word (replicate 8 1)"
  using broadcast_le_word [of 1] by simp

lemma xor_le_word:
  "length as = length bs \<Longrightarrow> (le_word as XOR le_word bs :: 'a::len word) = le_word (map2 (XOR) as bs)"
  by (rule bit_word_eqI) (auto simp: bit_xor_iff bit_le_word)

text \<open>Subtraction of 1 from every byte, with the borrow that each byte passes on.\<close>

fun sub_ones :: "byte list \<Rightarrow> bool \<Rightarrow> byte list" where
  "sub_ones [] c = []"
| "sub_ones (d # ds) c = (d - 1 - of_bool c) # sub_ones ds (unat d < 1 + of_bool c)"

lemma length_sub_ones [simp]: "length (sub_ones ds c) = length ds"
  by (induction ds arbitrary: c) auto

lemma nth_sub_ones: "i < length ds \<Longrightarrow> \<exists>c'. sub_ones ds c ! i = ds ! i - 1 - of_bool c'"
proof (induction ds arbitrary: c i)
  case Nil
  then show ?case by simp
next
  case (Cons d ds)
  then show ?case
    by (cases i) auto
qed

lemma ucast_borrow:
  fixes d :: byte
  shows "(ucast (d - 1 - of_bool c) :: u64) = ucast d - 1 - of_bool c + 256 * of_bool (unat d < 1 + of_bool c)"
proof -
  have d: "d = of_nat (unat d)" "unat d < 256"
    using unsigned_less [of d] by simp_all
  obtain n where n: "d = of_nat n" "n < 256" "unat d = n"
    using d by blast
  have "ucast d = (of_nat n :: u64)"
    using of_nat_unat [of d] n(3) by metis
  moreover have "(ucast (d - 1 - of_bool c) :: u64) = of_nat ((n + 255 + (if c then 255 else 0)) mod 256)"
  proof -
    have "d - 1 - of_bool c = of_nat (n + 255 + (if c then 255 else 0))"
      using n(1) by simp
    then have "unat (d - 1 - of_bool c) = (n + 255 + (if c then 255 else 0)) mod 256"
      by (simp only: unat_of_nat) simp
    then show ?thesis
      by (metis of_nat_unat)
  qed
  moreover have "(n + 255 + (if c then 255 else 0)) mod 256
      = (if n < 1 + of_bool c then n + 255 - of_bool c else n - 1 - of_bool c)"
    using n(2) by (cases c) (auto simp: mod_if)
  ultimately show ?thesis
    using n(3) by (auto simp: of_nat_diff)
qed

lemma sub_ones_word:
  "\<exists>f. (le_word (sub_ones ds c) :: u64)
     = le_word ds - le_word (replicate (length ds) 1) - of_bool c + 2 ^ (8 * length ds) * of_bool f"
proof (induction ds arbitrary: c)
  case Nil
  show ?case
    by (rule exI [of _ c]) simp
next
  case (Cons d ds)
  let ?c = "unat d < 1 + of_bool c"
  obtain f where f: "(le_word (sub_ones ds ?c) :: u64)
     = le_word ds - le_word (replicate (length ds) 1) - of_bool ?c + 2 ^ (8 * length ds) * of_bool f"
    using Cons.IH by blast
  have p: "(2 :: u64) ^ (8 * length (d # ds)) = 256 * 2 ^ (8 * length ds)"
    by (simp add: power_add)
  have "(le_word (sub_ones (d # ds) c) :: u64)
     = le_word (d # ds) - le_word (replicate (length (d # ds)) 1) - of_bool c + 2 ^ (8 * length (d # ds)) * of_bool f"
    unfolding sub_ones.simps le_word_Cons_add ucast_borrow f p length_Cons replicate_Suc
    by (simp add: algebra_simps power_add)
  then show ?case by blast
qed

lemma sub_ones_word8:
  assumes "length ds = 8"
  shows "le_word ds - 0x0101010101010101 = (le_word (sub_ones ds False) :: u64)"
proof -
  obtain f where "(le_word (sub_ones ds False) :: u64)
     = le_word ds - le_word (replicate 8 1) - of_bool False + 2 ^ (8 * 8) * of_bool f"
    using sub_ones_word [of ds False] assms by auto
  moreover have "(2 :: u64) ^ (8 * 8) = 0"
    by simp
  ultimately show ?thesis
    unfolding ones_le_word by (simp only: of_bool_eq mult_zero_left diff_zero add_0_right)
qed

lemma bit7_iff: "bit (d :: byte) 7 \<longleftrightarrow> 128 \<le> unat d"
proof -
  have "unat d < 256"
    using unsigned_less [of d] by simp
  then have "unat d div 128 = (if 128 \<le> unat d then 1 else 0)"
    by (auto simp: div_if)
  then have "odd (unat d div 2 ^ 7) \<longleftrightarrow> 128 \<le> unat d"
    by simp
  moreover have "bit (unat d) 7 \<longleftrightarrow> bit d 7"
    by (simp add: bit_unsigned_iff)
  ultimately show ?thesis
    by (simp add: bit_iff_odd [of "unat d"])
qed

lemma zero_byte_trick:
  fixes d :: byte
  shows "d = 0 \<Longrightarrow> bit (d - 1 - of_bool c) 7 \<and> \<not> bit d 7"
    and "bit (d - 1 - of_bool c) 7 \<Longrightarrow> \<not> bit d 7 \<Longrightarrow> d = 0 \<or> d = 1"
proof -
  show "bit (d - 1 - of_bool c) 7 \<and> \<not> bit d 7" if "d = 0"
    using that by (cases c) simp_all
  show "d = 0 \<or> d = 1" if h: "bit (d - 1 - of_bool c) 7" "\<not> bit d 7"
  proof (rule ccontr)
    assume "\<not> (d = 0 \<or> d = 1)"
    then have "2 \<le> unat d"
      by (simp add: word_unat_eq_iff)
    then have "unat (d - 1 - of_bool c) \<le> unat d"
      by (cases c) (simp_all add: unat_sub word_le_nat_alt)
    then show False
      using h unfolding bit7_iff by linarith
  qed
qed

lemma lane_le_word: "length bs = 8 \<Longrightarrow> i < 8 \<Longrightarrow> lane (le_word bs) i \<longleftrightarrow> bit (bs ! i) 7"
  by (simp add: lane_def bit_le_word)

lemma match_h2_lanes:
  assumes "length bs = 8"
  shows "lanes_only (bebop__map_match_h2 (le_word bs) h2)"
    and "i < 8 \<Longrightarrow> bs ! i = h2 \<Longrightarrow> lane (bebop__map_match_h2 (le_word bs) h2) i"
    and "i < 8 \<Longrightarrow> lane (bebop__map_match_h2 (le_word bs) h2) i \<Longrightarrow> bs ! i = h2 \<or> bs ! i = h2 XOR 1"
proof -
  let ?ds = "map2 (XOR) bs (replicate 8 h2)"
  have m: "bebop__map_match_h2 (le_word bs) h2
      = (le_word (sub_ones ?ds False) AND NOT (le_word ?ds)) AND 0x8080808080808080"
    unfolding bebop__map_match_h2_def Let_def broadcast_le_word
    using assms by (simp only: xor_le_word length_replicate sub_ones_word8 length_map length_zip min.idem and.assoc)
  show "lanes_only (bebop__map_match_h2 (le_word bs) h2)"
    unfolding m by (rule lanes_only_and)
  have d: "?ds ! i = bs ! i XOR h2" if "i < 8" for i
    using that assms by simp
  have l: "lane (bebop__map_match_h2 (le_word bs) h2) i \<longleftrightarrow> bit (sub_ones ?ds False ! i) 7 \<and> \<not> bit (?ds ! i) 7"
    if "i < 8" for i
  proof -
    have "lane (bebop__map_match_h2 (le_word bs) h2) i \<longleftrightarrow> lane (le_word (sub_ones ?ds False)) i \<and> \<not> lane (le_word ?ds) i"
      unfolding m lane_and [OF that] using that by (simp add: lane_def bit_and_iff bit_not_iff)
    then show ?thesis
      using that assms by (simp add: lane_le_word)
  qed
  have sub: "\<exists>c. sub_ones ?ds False ! i = ?ds ! i - 1 - of_bool c" if "i < 8" for i
    using nth_sub_ones [of i ?ds False] that assms by simp
  show "lane (bebop__map_match_h2 (le_word bs) h2) i" if h: "i < 8" "bs ! i = h2"
  proof -
    obtain c where "sub_ones ?ds False ! i = ?ds ! i - 1 - of_bool c"
      using sub [OF h(1)] by blast
    then show ?thesis
      using zero_byte_trick(1) [of "?ds ! i" c] l [OF h(1)] d [OF h(1)] h(2) by simp
  qed
  show "bs ! i = h2 \<or> bs ! i = h2 XOR 1" if h: "i < 8" "lane (bebop__map_match_h2 (le_word bs) h2) i"
  proof -
    obtain c where "sub_ones ?ds False ! i = ?ds ! i - 1 - of_bool c"
      using sub [OF h(1)] by blast
    then have "bs ! i XOR h2 = 0 \<or> bs ! i XOR h2 = 1"
      using zero_byte_trick(2) [of "?ds ! i" c] l [OF h(1)] d [OF h(1)] h(2) by metis
    moreover have "bs ! i = (bs ! i XOR h2) XOR h2"
      by (simp add: xor.assoc)
    ultimately show ?thesis
      by (metis xor.commute xor.right_neutral)
  qed
qed

text \<open>The control bytes that occur: empty, deleted or seven bits of hash.\<close>

definition ctrl_valid :: "byte \<Rightarrow> bool" where
  "ctrl_valid c \<longleftrightarrow> c = CTRL_EMPTY \<or> c = CTRL_DELETED \<or> CTRL_IS_FULL c"

lemma full_iff: "CTRL_IS_FULL c \<longleftrightarrow> \<not> bit c 7"
  by (simp add: CTRL_IS_FULL_def bit7_iff word_less_nat_alt not_le)

lemma ctrl_not_full [simp]: "\<not> CTRL_IS_FULL CTRL_EMPTY" "\<not> CTRL_IS_FULL CTRL_DELETED" "CTRL_EMPTY \<noteq> CTRL_DELETED"
  by (simp_all add: CTRL_IS_FULL_def CTRL_EMPTY_def CTRL_DELETED_def)

lemma match_empty_lanes:
  assumes "length bs = 8" and "\<forall>c\<in>set bs. ctrl_valid c"
  shows "bebop__map_match_empty (le_word bs) \<noteq> 0 \<longleftrightarrow> CTRL_EMPTY \<in> set bs"
proof -
  let ?m = "bebop__map_match_empty (le_word bs)"
  have lo: "lanes_only ?m"
    unfolding bebop__map_match_empty_def and.assoc [symmetric] by (rule lanes_only_and)
  have "lane ?m i \<longleftrightarrow> bs ! i = CTRL_EMPTY" if i: "i < 8" for i
  proof -
    have "lane ?m i \<longleftrightarrow> bit (bs ! i) 7 \<and> \<not> bit (bs ! i) 6"
      unfolding bebop__map_match_empty_def and.assoc [symmetric] lane_and [OF i]
      unfolding lane_def bit_and_iff bit_not_iff bit_push_bit_iff
      using i assms(1) by (simp add: bit_le_word)
    moreover have "ctrl_valid (bs ! i)"
      using assms i by simp
    ultimately show ?thesis
      by (auto simp: ctrl_valid_def full_iff CTRL_EMPTY_def CTRL_DELETED_def)
  qed
  then show ?thesis
    unfolding lanes_nonzero [OF lo] using assms(1) by (auto simp: in_set_conv_nth)
qed

lemma match_empty_or_deleted_lanes:
  assumes "length bs = 8"
  shows "lanes_only (bebop__map_match_empty_or_deleted (le_word bs))"
    and "i < 8 \<Longrightarrow> lane (bebop__map_match_empty_or_deleted (le_word bs)) i \<longleftrightarrow> \<not> CTRL_IS_FULL (bs ! i)"
  unfolding bebop__map_match_empty_or_deleted_def
  using assms by (simp_all only: lanes_only_and lane_and lane_le_word full_iff simp_thms)

lemma H2_full [simp]: "CTRL_IS_FULL (H2 h)" "CTRL_IS_FULL (H2 h XOR 1)"
proof -
  have "\<not> bit (0x7F :: u64) 7"
    by simp
  then show "CTRL_IS_FULL (H2 h)" "CTRL_IS_FULL (H2 h XOR 1)"
    by (simp_all add: full_iff H2_def bit_ucast_iff bit_and_iff bit_xor_iff)
qed

section \<open>Search in a group\<close>

lemma clear_match_less:
  assumes "m \<noteq> 0"
  shows "unat (bebop__map_clear_match (m AND x) (bebop__map_match_first m)) < unat m"
    and "unat (bebop__map_clear_match m (bebop__map_match_first m)) < unat m"
proof -
  obtain n where n: "bit m n" "bebop__map_match_first m = n div 8" "n < (n div 8 + 1) * 8"
    using assms by (rule find_lowest_bit)
  then have cleared: "\<not> bit (bebop__map_clear_match v (bebop__map_match_first m)) n" for v
    by (simp add: bit_clear_match)
  have less: "unat (bebop__map_clear_match v (bebop__map_match_first m)) < unat m" if v: "\<And>i. bit v i \<Longrightarrow> bit m i" for v
  proof -
    let ?v = "bebop__map_clear_match v (bebop__map_match_first m)"
    have "?v = ?v AND m"
      using v by (intro bit_word_eqI) (auto simp: bit_and_iff bit_clear_match)
    then have "?v \<le> m"
      using word_and_le1 [of ?v m] by simp
    moreover have "?v \<noteq> m"
      using cleared [of v] n(1) by metis
    ultimately have "?v < m"
      by (rule le_neq_trans)
    then show ?thesis
      by (simp only: word_less_nat_alt)
  qed
  show "unat (bebop__map_clear_match (m AND x) (bebop__map_match_first m)) < unat m"
    by (rule less) (simp add: bit_and_iff)
  show "unat (bebop__map_clear_match m (bebop__map_match_first m)) < unat m"
    by (rule less)
qed

text \<open>
  The loop over the matches of a group; \<open>hit\<close> compares the key of the slot at an offset. The lookup
  clears the lowest match before it clears the byte.
\<close>

function map_find_match :: "(nat \<Rightarrow> bool) \<Rightarrow> u64 \<Rightarrow> nat option" where
  "map_find_match hit m =
     (if m = 0 then None
      else
        let offset = bebop__map_match_first m
        in if hit offset then Some offset else map_find_match hit (bebop__map_clear_match m offset))"
  by pat_completeness auto
termination
  by (relation "measure (\<lambda>(_, m). unat m)") (auto simp: clear_match_less)

function map_find_match_get :: "(nat \<Rightarrow> bool) \<Rightarrow> u64 \<Rightarrow> nat option" where
  "map_find_match_get hit m =
     (if m = 0 then None
      else
        let offset = bebop__map_match_first m
        in if hit offset then Some offset
           else map_find_match_get hit (bebop__map_clear_match (m AND (m - 1)) offset))"
  by pat_completeness auto
termination
  by (relation "measure (\<lambda>(_, m). unat m)") (auto simp: clear_match_less)

declare map_find_match.simps [simp del] map_find_match_get.simps [simp del]

section \<open>Operations\<close>

text \<open>The start of the group that a probe examines, from the start position of the key.\<close>

definition map_group_start :: "nat \<Rightarrow> u64 \<Rightarrow> nat \<Rightarrow> nat" where
  "map_group_start cap start probe =
     unat (((start + bebop__map_probe_offset probe) AND (of_nat cap - 1)) AND NOT 7)"

definition map_max_probes :: "nat \<Rightarrow> nat" where
  "map_max_probes cap = cap div BEBOP_MAP_GROUP_SIZE + 2"

definition map_ctrl_word :: "byte list \<Rightarrow> nat \<Rightarrow> u64" where
  "map_ctrl_word ctrl group_start = le_word (span_at group_start 8 ctrl)"

text \<open>
  The comparison with the key of a slot. Only slots with a full control byte are compared, and they
  have been written, by the property \<open>map_probe_safe\<close> of \<open>Wire_Map_Refinement\<close>; a slot that was never written counts as
  different.
\<close>

definition map_slot_eq :: "('k, 'v) Bebop_Map \<Rightarrow> 'k \<Rightarrow> nat \<Rightarrow> bool" where
  "map_slot_eq m key idx = (case map_slots m ! idx of None \<Rightarrow> False | Some (k, _) \<Rightarrow> map_eq m k key)"

text \<open>The probe loop of \<open>bebop_map_get\<close> and \<open>bebop_map_remove\<close>: the index of the slot of the key.\<close>

fun map_probe_loop ::
  "((nat \<Rightarrow> bool) \<Rightarrow> u64 \<Rightarrow> nat option) \<Rightarrow> ('k, 'v) Bebop_Map \<Rightarrow> byte list \<Rightarrow> byte \<Rightarrow> u64 \<Rightarrow> 'k \<Rightarrow> nat list
     \<Rightarrow> nat option" where
  "map_probe_loop find_match m ctrl h2 start key [] = None"
| "map_probe_loop find_match m ctrl h2 start key (probe # probes) =
     (let group_start = map_group_start (map_capacity m) start probe;
          ctrl_word = map_ctrl_word ctrl group_start
      in case find_match (\<lambda>offset. map_slot_eq m key (group_start + offset)) (bebop__map_match_h2 ctrl_word h2) of
           Some offset \<Rightarrow> Some (group_start + offset)
         | None \<Rightarrow>
             if bebop__map_match_empty ctrl_word \<noteq> 0 then None
             else map_probe_loop find_match m ctrl h2 start key probes)"

definition map_start :: "('k, 'v) Bebop_Map \<Rightarrow> 'k \<Rightarrow> u64" where
  "map_start m key = H1 (map_hash m key) AND (of_nat (map_capacity m) - 1)"

definition bebop_map_get :: "('k, 'v) Bebop_Map option \<Rightarrow> 'k \<Rightarrow> 'v option" where
  "bebop_map_get mp key =
     (case mp of
        None \<Rightarrow> None
      | Some m \<Rightarrow>
          (case map_ctrl m of
             None \<Rightarrow> None
           | Some ctrl \<Rightarrow>
               if map_length m = 0 then None
               else
                 (case map_probe_loop map_find_match_get m ctrl (H2 (map_hash m key)) (map_start m key) key
                         [0..<map_max_probes (map_capacity m)] of
                    None \<Rightarrow> None
                  | Some idx \<Rightarrow> map_option snd (map_slots m ! idx))))"

text \<open>
  The probe loop of \<open>bebop_map_set\<close>: the slot of an equal key (\<open>Inl\<close>), or the first slot found that
  can be written (\<open>Inr\<close>).
\<close>

fun map_set_loop ::
  "('k, 'v) Bebop_Map \<Rightarrow> byte list \<Rightarrow> byte \<Rightarrow> u64 \<Rightarrow> 'k \<Rightarrow> nat list \<Rightarrow> nat option \<Rightarrow> nat + nat option" where
  "map_set_loop m ctrl h2 start key [] insert_idx = Inr insert_idx"
| "map_set_loop m ctrl h2 start key (probe # probes) insert_idx =
     (let group_start = map_group_start (map_capacity m) start probe;
          ctrl_word = map_ctrl_word ctrl group_start
      in case map_find_match (\<lambda>offset. map_slot_eq m key (group_start + offset)) (bebop__map_match_h2 ctrl_word h2) of
           Some offset \<Rightarrow> Inl (group_start + offset)
         | None \<Rightarrow>
             let empty_match = bebop__map_match_empty_or_deleted ctrl_word;
                 insert_idx = (case insert_idx of
                                 Some i \<Rightarrow> Some i
                               | None \<Rightarrow> if empty_match \<noteq> 0 then Some (group_start + bebop__map_match_first empty_match)
                                         else None)
             in if bebop__map_match_empty ctrl_word \<noteq> 0 then Inr insert_idx
                else map_set_loop m ctrl h2 start key probes insert_idx)"

text \<open>
  \<open>bebop_map_set\<close> after the table has grown. There is no result without a table, which would be a
  null pointer that is read.
\<close>

definition map_insert :: "('k, 'v) Bebop_Map \<Rightarrow> 'k \<Rightarrow> 'v \<Rightarrow> (bool \<times> ('k, 'v) Bebop_Map) option" where
  "map_insert m key val =
     (case map_ctrl m of
        None \<Rightarrow> None
      | Some ctrl \<Rightarrow>
          let h2 = H2 (map_hash m key)
          in (case map_set_loop m ctrl h2 (map_start m key) key [0..<map_max_probes (map_capacity m)] None of
                Inl idx \<Rightarrow> Some (True, m\<lparr>map_slots := (map_slots m)[idx := map_option (\<lambda>(k, _). (k, val)) (map_slots m ! idx)]\<rparr>)
              | Inr None \<Rightarrow> Some (False, m)
              | Inr (Some idx) \<Rightarrow>
                  Some (True, m\<lparr>map_ctrl := Some (ctrl[idx := h2]),
                                map_slots := (map_slots m)[idx := Some (key, val)],
                                map_length := size_wrap (map_length m + 1),
                                map_growth_left := (if ctrl ! idx = CTRL_EMPTY then size_dec (map_growth_left m)
                                                    else map_growth_left m)\<rparr>)))"

text \<open>The loop that inserts the entries of the old table into the new one; \<open>set\<close> is \<open>bebop_map_set\<close>.\<close>

type_synonym ('k, 'v) map_result = "(bool \<times> ('k, 'v) Bebop_Map \<times> Bebop_Context option) option"

fun map_rehash ::
  "(('k, 'v) Bebop_Map \<Rightarrow> Bebop_Context option \<Rightarrow> 'k \<Rightarrow> 'v \<Rightarrow> ('k, 'v) map_result)
     \<Rightarrow> byte list option \<Rightarrow> ('k \<times> 'v) option list \<Rightarrow> nat list
     \<Rightarrow> ('k, 'v) Bebop_Map \<Rightarrow> Bebop_Context option \<Rightarrow> ('k, 'v) map_result" where
  "map_rehash set_fn old_ctrl old_slots [] m ctx = Some (True, m, ctx)"
| "map_rehash set_fn old_ctrl old_slots (i # is) m ctx =
     (if (case old_ctrl of None \<Rightarrow> False | Some ctrl \<Rightarrow> CTRL_IS_FULL (ctrl ! i))
      then (case old_slots ! i of
              None \<Rightarrow> None
            | Some (k, v) \<Rightarrow>
                (case set_fn m ctx k v of
                   None \<Rightarrow> None
                 | Some (False, m', ctx') \<Rightarrow> Some (False, m', ctx')
                 | Some (True, m', ctx') \<Rightarrow> map_rehash set_fn old_ctrl old_slots is m' ctx'))
      else map_rehash set_fn old_ctrl old_slots is m ctx)"

definition SIZEOF_MAP_SLOT :: nat where [wire_defs]: "SIZEOF_MAP_SLOT = 16"

definition bebop__map_grow ::
  "(('k, 'v) Bebop_Map \<Rightarrow> Bebop_Context option \<Rightarrow> 'k \<Rightarrow> 'v \<Rightarrow> ('k, 'v) map_result)
     \<Rightarrow> ('k, 'v) Bebop_Map \<Rightarrow> Bebop_Context option \<Rightarrow> ('k, 'v) map_result" where
  "bebop__map_grow set_fn m ctx =
     (let new_cap = (if map_capacity m \<noteq> 0 then size_wrap (map_capacity m * 2) else BEBOP_MAP_INITIAL_CAPACITY);
          ctrl_size = size_wrap (new_cap + BEBOP_MAP_GROUP_SIZE);
          slots_size = size_wrap (new_cap * SIZEOF_MAP_SLOT)
      in case bebop_context_alloc ctx ctrl_size of
           (None, ctx1) \<Rightarrow> Some (False, m, ctx1)
         | (Some _, ctx1) \<Rightarrow>
             (case bebop_context_alloc ctx1 slots_size of
                (None, ctx2) \<Rightarrow> Some (False, m, ctx2)
              | (Some _, ctx2) \<Rightarrow>
                  map_rehash set_fn (map_ctrl m) (map_slots m) [0..<map_capacity m]
                    (m\<lparr>map_ctrl := Some (replicate ctrl_size CTRL_EMPTY), map_slots := replicate new_cap None,
                       map_capacity := new_cap, map_length := 0,
                       map_growth_left := size_wrap (new_cap * BEBOP_MAP_LOAD_FACTOR) div 8\<rparr>)
                    ctx2))"

text \<open>
  \<open>bebop_map_set\<close> and \<open>bebop__map_grow\<close> call each other. The fuel bounds the depth of these calls; two
  levels are enough on a valid table, since the entries of a table never fill the next one.
\<close>

fun map_set_fuel ::
  "nat \<Rightarrow> ('k, 'v) Bebop_Map \<Rightarrow> Bebop_Context option \<Rightarrow> 'k \<Rightarrow> 'v \<Rightarrow> ('k, 'v) map_result" where
  "map_set_fuel 0 m ctx key val = None"
| "map_set_fuel (Suc n) m ctx key val =
     (if map_growth_left m = 0
      then (case bebop__map_grow (map_set_fuel n) m ctx of
              None \<Rightarrow> None
            | Some (False, m', ctx') \<Rightarrow> Some (False, m', ctx')
            | Some (True, m', ctx') \<Rightarrow> map_option (\<lambda>(r, m''). (r, m'', ctx')) (map_insert m' key val))
      else map_option (\<lambda>(r, m'). (r, m', ctx)) (map_insert m key val))"

definition bebop_map_set ::
  "('k, 'v) Bebop_Map option \<Rightarrow> Bebop_Context option \<Rightarrow> 'k \<Rightarrow> 'v
     \<Rightarrow> (bool \<times> ('k, 'v) Bebop_Map option \<times> Bebop_Context option) option" where
  "bebop_map_set mp ctx key val =
     (case mp of
        None \<Rightarrow> Some (False, None, ctx)
      | Some m \<Rightarrow> map_option (\<lambda>(r, m', ctx'). (r, Some m', ctx')) (map_set_fuel 2 m ctx key val))"

definition bebop_map_remove :: "('k, 'v) Bebop_Map option \<Rightarrow> 'k \<Rightarrow> bool \<times> ('k, 'v) Bebop_Map option" where
  "bebop_map_remove mp key =
     (case mp of
        None \<Rightarrow> (False, mp)
      | Some m \<Rightarrow>
          (case map_ctrl m of
             None \<Rightarrow> (False, mp)
           | Some ctrl \<Rightarrow>
               if map_length m = 0 then (False, mp)
               else
                 (case map_probe_loop map_find_match m ctrl (H2 (map_hash m key)) (map_start m key) key
                         [0..<map_max_probes (map_capacity m)] of
                    None \<Rightarrow> (False, mp)
                  | Some idx \<Rightarrow> (True, Some (m\<lparr>map_ctrl := Some (ctrl[idx := CTRL_DELETED]),
                                               map_length := size_dec (map_length m)\<rparr>)))))"

definition bebop_map_clear :: "('k, 'v) Bebop_Map option \<Rightarrow> ('k, 'v) Bebop_Map option" where
  "bebop_map_clear mp =
     (case mp of
        None \<Rightarrow> None
      | Some m \<Rightarrow>
          (case map_ctrl m of
             None \<Rightarrow> mp
           | Some ctrl \<Rightarrow>
               Some (m\<lparr>map_ctrl := Some (replicate (map_capacity m) CTRL_EMPTY @ drop (map_capacity m) ctrl),
                       map_length := 0,
                       map_growth_left := size_wrap (map_capacity m * BEBOP_MAP_LOAD_FACTOR) div 8\<rparr>)))"

definition bebop_map_iter_init :: "('k, 'v) Bebop_Map option \<Rightarrow> ('k, 'v) Bebop_MapIter" where
  "bebop_map_iter_init m = \<lparr>iter_map = m, iter_index = 0\<rparr>"

text \<open>The entry that the next call yields, and the index after it.\<close>

function map_iter_loop :: "('k, 'v) Bebop_Map \<Rightarrow> byte list \<Rightarrow> nat \<Rightarrow> ('k \<times> 'v) option option \<times> nat" where
  "map_iter_loop m ctrl index =
     (if index < map_capacity m
      then if CTRL_IS_FULL (ctrl ! index) then (Some (map_slots m ! index), index + 1)
           else map_iter_loop m ctrl (index + 1)
      else (None, index))"
  by pat_completeness auto
termination
  by (relation "measure (\<lambda>(m, _, index). map_capacity m - index)") auto

declare map_iter_loop.simps [simp del]

definition bebop_map_iter_next ::
  "('k, 'v) Bebop_MapIter option \<Rightarrow> ('k \<times> 'v) option option \<times> ('k, 'v) Bebop_MapIter option" where
  "bebop_map_iter_next iter =
     (case iter of
        None \<Rightarrow> (None, iter)
      | Some it \<Rightarrow>
          (case iter_map it of
             None \<Rightarrow> (None, iter)
           | Some m \<Rightarrow>
               (case map_ctrl m of
                  None \<Rightarrow> (None, iter)
                | Some ctrl \<Rightarrow>
                    (case map_iter_loop m ctrl (iter_index it) of
                       (entry, index) \<Rightarrow> (entry, Some (it\<lparr>iter_index := index\<rparr>))))))"

text \<open>Initialisation; \<open>None\<close> where the assertion on the context fails.\<close>

definition bebop_map_init :: "Bebop_Context option \<Rightarrow> Bebop_MapKeyKind \<Rightarrow> (map_key, 'v) Bebop_Map option" where
  "bebop_map_init context key_kind =
     (if context = None then None
      else Some \<lparr>map_ctrl = None, map_slots = [], map_length = 0, map_capacity = 0, map_growth_left = 0,
                 map_hash = map_hashes key_kind, map_eq = map_equals key_kind\<rparr>)"

end
