(* ===== verification/Wire_Map_Table.thy ===== *)
theory Wire_Map_Table
  imports Wire_Map
begin

text \<open>
  The hash map as a finite map: the invariant of the table, the map it stands for, and the proof that
  lookup, insertion, removal, clearing and iteration implement the operations on that map. What is
  assumed of the hash and the equality of keys is the locale \<open>map_keys\<close>, which every key kind of
  \<^verbatim>\<open>bebop_map_init\<close> interprets.
\<close>

section \<open>Groups\<close>

definition cap_ok :: "nat \<Rightarrow> bool" where
  "cap_ok cap \<longleftrightarrow> (\<exists>e\<in>{3..56}. cap = 2 ^ e)"

lemma cap_okE:
  assumes "cap_ok cap"
  obtains e where "cap = 2 ^ e" "3 \<le> e" "e \<le> 56" "8 \<le> cap" "cap \<le> 2 ^ 56" "8 dvd cap"
proof -
  obtain e where e: "cap = 2 ^ e" "3 \<le> e" "e \<le> 56"
    using assms by (auto simp: cap_ok_def)
  have "(2::nat) ^ 3 dvd 2 ^ e" "(2::nat) ^ e \<le> 2 ^ 56"
    using e by (simp_all only: le_imp_power_dvd power_increasing one_le_numeral)
  then show thesis
    using that e dvd_imp_le [of 8 cap] by simp
qed

lemma group_start_bounds:
  assumes "cap_ok cap"
  shows "8 dvd map_group_start cap start p" and "map_group_start cap start p + 8 \<le> cap"
proof -
  obtain e where e: "cap = 2 ^ e" "cap \<le> 2 ^ 56" "8 \<le> cap" "8 dvd cap"
    using assms by (elim cap_okE)
  let ?w = "(start + bebop__map_probe_offset p) AND (of_nat cap - 1)"
  have "map_group_start cap start p = unat (?w AND NOT 7)"
    by (simp add: map_group_start_def)
  moreover have "take_bit 3 (?w AND NOT 7) = 0"
  proof (rule bit_word_eqI)
    fix n
    have "(7 :: u64) = mask 3"
      by (simp add: mask_eq_decr_exp)
    then show "bit (take_bit 3 (?w AND NOT 7)) n = bit (0 :: u64) n"
      by (simp only: bit_take_bit_iff bit_and_iff bit_not_iff bit_mask_iff) auto
  qed
  ultimately have "take_bit 3 (map_group_start cap start p) = 0"
    by (metis unsigned_take_bit_eq unsigned_0)
  then show d: "8 dvd map_group_start cap start p"
    by (simp add: take_bit_eq_mod dvd_eq_mod_eq_0)
  have "?w AND NOT 7 \<le> of_nat cap - 1"
    by (rule order_trans [OF word_and_le2 word_and_le1])
  moreover have "unat (of_nat cap - 1 :: u64) = cap - 1"
  proof -
    have "cap < 2 ^ 64"
      using e(1,2) by simp
    then have "unat (of_nat cap :: u64) = cap"
      by (rule unat_of_nat64)
    then show ?thesis
      using e(3) by (subst unat_sub) (simp_all add: word_le_nat_alt)
  qed
  ultimately have "map_group_start cap start p \<le> cap - 1"
    unfolding map_group_start_def by (simp add: word_le_nat_alt)
  then have "map_group_start cap start p < cap"
    using e(3) by simp
  then show "map_group_start cap start p + 8 \<le> cap"
    using d e(4) by (auto elim!: dvdE)
qed

lemma map_find_match_get_eq: "map_find_match_get hit m = map_find_match hit m"
proof (induction hit m rule: map_find_match.induct)
  case (1 hit m)
  show ?case
  proof (cases "m = 0")
    case True
    then show ?thesis
      by (simp add: map_find_match.simps map_find_match_get.simps)
  next
    case False
    let ?o = "bebop__map_match_first m"
    obtain n where n: "bit m n" "\<forall>j<n. \<not> bit m j" "bebop__map_match_first m = n div 8" "n < (n div 8 + 1) * 8"
      using False by (rule find_lowest_bit)
    then have "bebop__map_clear_match (m AND (m - 1)) ?o = bebop__map_clear_match m ?o"
      by (intro bit_word_eqI) (auto simp only: bit_clear_match clear_lowest_bit [OF n(1,2)])
    then show ?thesis
      using 1 False by (subst map_find_match.simps, subst map_find_match_get.simps) (simp add: Let_def)
  qed
qed

lemma map_find_match_spec:
  assumes "lanes_only m"
  shows "case map_find_match hit m of
      None \<Rightarrow> \<forall>i. lane m i \<longrightarrow> \<not> hit i
    | Some i \<Rightarrow> i < 8 \<and> lane m i \<and> hit i"
  using assms
proof (induction hit m rule: map_find_match.induct)
  case (1 hit m)
  show ?case
  proof (cases "m = 0")
    case True
    then show ?thesis
      by (simp add: map_find_match.simps lane_def)
  next
    case False
    let ?o = "bebop__map_match_first m"
    note first = match_first_lane [OF 1(2) False] and clear = clear_match_lanes [OF 1(2), of ?o]
    show ?thesis
    proof (cases "hit ?o")
      case True
      then show ?thesis
        using False first(1) lane_bound [OF first(1)] by (subst map_find_match.simps) (simp add: Let_def)
    next
      case miss: False
      have eq: "map_find_match hit m = map_find_match hit (bebop__map_clear_match m ?o)"
        using False miss by (subst map_find_match.simps) (simp add: Let_def)
      have "i = ?o \<or> ?o < i" if "lane m i" for i
        using first(2) [OF that] by auto
      then show ?thesis
        using 1(1) [OF False refl miss clear(1)] miss unfolding eq clear(2) by (auto split: option.splits)
    qed
  qed
qed

section \<open>The table\<close>

text \<open>The start of the group that the probe \<open>p\<close> of a hash examines.\<close>

definition map_group :: "nat \<Rightarrow> u64 \<Rightarrow> nat \<Rightarrow> nat" where
  "map_group cap h p = map_group_start cap (H1 h AND (of_nat cap - 1)) p"

definition group_has_empty :: "byte list \<Rightarrow> nat \<Rightarrow> bool" where
  "group_has_empty ctrl g \<longleftrightarrow> CTRL_EMPTY \<in> set (span_at g 8 ctrl)"

text \<open>A search for the hash examines the slot before it meets a group with an empty slot.\<close>

definition map_reach :: "nat \<Rightarrow> byte list \<Rightarrow> u64 \<Rightarrow> nat \<Rightarrow> bool" where
  "map_reach cap ctrl h i \<longleftrightarrow>
     (\<exists>p<map_max_probes cap. map_group cap h p \<le> i \<and> i < map_group cap h p + 8 \<and>
        (\<forall>q<p. \<not> group_has_empty ctrl (map_group cap h q)))"

text \<open>The entry that a slot holds, the entries of a table and the map it stands for.\<close>

definition map_cell :: "('k, 'v) Bebop_Map \<Rightarrow> nat \<Rightarrow> ('k \<times> 'v) option" where
  "map_cell m i =
     (case map_ctrl m of
        None \<Rightarrow> None
      | Some ctrl \<Rightarrow> if i < map_capacity m \<and> CTRL_IS_FULL (ctrl ! i) then map_slots m ! i else None)"

definition map_entries :: "('k, 'v) Bebop_Map \<Rightarrow> ('k \<times> 'v) list" where
  "map_entries m = List.map_filter (map_cell m) [0..<map_capacity m]"

definition map_abs :: "('k, 'v) Bebop_Map \<Rightarrow> 'k \<rightharpoonup> 'v" where
  "map_abs m = map_of (map_entries m)"

definition full_count :: "byte list \<Rightarrow> nat" where
  "full_count ctrl = length (filter CTRL_IS_FULL ctrl)"

definition used_count :: "byte list \<Rightarrow> nat" where
  "used_count ctrl = length (filter (\<lambda>c. c \<noteq> CTRL_EMPTY) ctrl)"

text \<open>
  The invariant of a table with control bytes: a power of two of slots, an untouched group after them,
  every full slot written with a valid key, the control byte of that key and in reach of a search, no
  key twice, and both counters.
\<close>

definition table_inv ::
  "('k \<Rightarrow> u64) \<Rightarrow> ('k \<Rightarrow> bool) \<Rightarrow> ('k, 'v) Bebop_Map \<Rightarrow> byte list \<Rightarrow> bool" where
  "table_inv hash valid m ctrl \<longleftrightarrow>
     cap_ok (map_capacity m) \<and> length ctrl = map_capacity m + 8 \<and> length (map_slots m) = map_capacity m \<and>
     list_all ctrl_valid ctrl \<and> (\<forall>i<8. ctrl ! (map_capacity m + i) = CTRL_EMPTY) \<and>
     (\<forall>i<map_capacity m. CTRL_IS_FULL (ctrl ! i) \<longrightarrow>
        (case map_slots m ! i of
           None \<Rightarrow> False
         | Some (k, _) \<Rightarrow> valid k \<and> ctrl ! i = H2 (hash k) \<and> map_reach (map_capacity m) ctrl (hash k) i)) \<and>
     distinct (map fst (map_entries m)) \<and>
     map_length m = full_count ctrl \<and>
     map_growth_left m + used_count ctrl = map_capacity m * 7 div 8"

definition map_inv ::
  "('k \<Rightarrow> u64) \<Rightarrow> ('k \<Rightarrow> 'k \<Rightarrow> bool) \<Rightarrow> ('k \<Rightarrow> bool) \<Rightarrow> ('k, 'v) Bebop_Map \<Rightarrow> bool" where
  "map_inv hash eq valid m \<longleftrightarrow>
     map_hash m = hash \<and> map_eq m = eq \<and>
     (case map_ctrl m of
        None \<Rightarrow> map_capacity m = 0 \<and> map_length m = 0 \<and> map_growth_left m = 0
      | Some ctrl \<Rightarrow> table_inv hash valid m ctrl)"

subsection \<open>Cells\<close>

lemma map_cell_table:
  "map_ctrl m = Some ctrl \<Longrightarrow>
     map_cell m i = (if i < map_capacity m \<and> CTRL_IS_FULL (ctrl ! i) then map_slots m ! i else None)"
  by (simp add: map_cell_def)

lemma set_map_entries: "x \<in> set (map_entries m) \<longleftrightarrow> (\<exists>i. map_cell m i = Some x)"
proof -
  have "map_cell m i = None" if "map_capacity m \<le> i" for i
    using that by (auto simp: map_cell_def split: option.splits)
  then have "i < map_capacity m" if "map_cell m i = Some x" for i
    using that by (metis not_less option.distinct(1))
  then show ?thesis
    by (force simp: map_entries_def List.map_filter_def)
qed

text \<open>No key occurs twice when no two cells hold the same key.\<close>

definition cells_distinct :: "('k, 'v) Bebop_Map \<Rightarrow> bool" where
  "cells_distinct m \<longleftrightarrow>
     (\<forall>i j k v w. map_cell m i = Some (k, v) \<longrightarrow> map_cell m j = Some (k, w) \<longrightarrow> i = j)"

lemma distinct_map_filter_keys:
  "distinct is \<Longrightarrow>
     distinct (map fst (List.map_filter f is)) \<longleftrightarrow>
       (\<forall>i\<in>set is. \<forall>j\<in>set is. \<forall>k v w. f i = Some (k, v) \<longrightarrow> f j = Some (k, w) \<longrightarrow> i = j)"
proof (induction "is")
  case Nil
  then show ?case
    by (simp add: List.map_filter_def)
next
  case (Cons i "is")
  have *: "List.map_filter f (i # is) = (case f i of None \<Rightarrow> [] | Some x \<Rightarrow> [x]) @ List.map_filter f is"
    by (simp add: List.map_filter_def split: option.splits)
  have mem: "k \<in> fst ` set (List.map_filter f is) \<longleftrightarrow> (\<exists>j\<in>set is. \<exists>w. f j = Some (k, w))" for k
    by (force simp: List.map_filter_def)
  show ?case
  proof (cases "f i")
    case None
    then show ?thesis
      using Cons unfolding * by auto
  next
    case (Some x)
    have "(\<forall>a\<in>set (i # is). \<forall>b\<in>set (i # is). \<forall>k v w. f a = Some (k, v) \<longrightarrow> f b = Some (k, w) \<longrightarrow> a = b) \<longleftrightarrow>
        (\<forall>a\<in>set is. \<forall>b\<in>set is. \<forall>k v w. f a = Some (k, v) \<longrightarrow> f b = Some (k, w) \<longrightarrow> a = b) \<and>
        fst x \<notin> fst ` set (List.map_filter f is)"
      (is "?all \<longleftrightarrow> ?rest \<and> ?new")
    proof
      assume a: ?all
      then have "fst x \<noteq> k" if "j \<in> set is" "f j = Some (k, w)" for j k w
        using that Some Cons.prems by (cases x) auto
      then show "?rest \<and> ?new"
        using a mem by auto
    next
      assume "?rest \<and> ?new"
      then have rest: ?rest and new: "\<And>j w. j \<in> set is \<Longrightarrow> f j \<noteq> Some (fst x, w)"
        using mem by blast+
      then show ?all
        using Some by (cases x) auto
    qed
    then show ?thesis
      using Cons Some unfolding * by (simp add: conj_commute)
  qed
qed

lemma map_cell_less: "map_cell m i = Some x \<Longrightarrow> i < map_capacity m"
  by (auto simp: map_cell_def split: option.splits if_splits)

lemma distinct_entries_iff: "distinct (map fst (map_entries m)) \<longleftrightarrow> cells_distinct m"
  unfolding map_entries_def cells_distinct_def
  by (subst distinct_map_filter_keys, simp)
     (metis atLeastLessThan_iff le0 map_cell_less set_upt)

lemma map_abs_iff:
  "cells_distinct m \<Longrightarrow> map_abs m k = Some v \<longleftrightarrow> (\<exists>i. map_cell m i = Some (k, v))"
  unfolding map_abs_def distinct_entries_iff [symmetric]
  by (simp add: map_of_eq_Some_iff set_map_entries)

lemma map_eqI: "(\<And>x y. f x = Some y \<longleftrightarrow> g x = Some y) \<Longrightarrow> f = g"
  by (rule ext, metis option.exhaust)

text \<open>What changing one cell does to the map.\<close>

lemma map_abs_update:
  assumes old: "cells_distinct m" and new: "map_cell m' = (map_cell m)(i := Some (k, v))"
    and key: "\<And>j w. map_cell m j = Some (k, w) \<Longrightarrow> j = i"
    and over: "\<And>k' w. map_cell m i = Some (k', w) \<Longrightarrow> k' = k"
  shows "cells_distinct m'" and "map_abs m' = (map_abs m)(k \<mapsto> v)"
proof -
  show new_distinct: "cells_distinct m'"
    using old key unfolding cells_distinct_def new fun_upd_apply by (metis option.inject prod.inject)
  have "map_abs m' x = Some y \<longleftrightarrow> ((map_abs m)(k \<mapsto> v)) x = Some y" for x y
    unfolding map_abs_iff [OF new_distinct] new fun_upd_apply
    using map_abs_iff [OF old, of x y] key over by (auto split: if_splits) metis+
  then show "map_abs m' = (map_abs m)(k \<mapsto> v)"
    by (rule map_eqI)
qed

lemma map_abs_delete:
  assumes old: "cells_distinct m" and new: "map_cell m' = (map_cell m)(i := None)" and key: "map_cell m i = Some (k, w)"
  shows "cells_distinct m'" and "map_abs m' = (map_abs m)(k := None)"
proof -
  show new_distinct: "cells_distinct m'"
    using old unfolding cells_distinct_def new fun_upd_apply by (metis option.distinct(1))
  have "map_abs m' x = Some y \<longleftrightarrow> ((map_abs m)(k := None)) x = Some y" for x y
    unfolding map_abs_iff [OF new_distinct] new fun_upd_apply
    using map_abs_iff [OF old, of x y] old key unfolding cells_distinct_def
    by (cases "x = k") (simp, metis, metis option.inject prod.inject option.distinct(1))
  then show "map_abs m' = (map_abs m)(k := None)"
    by (rule map_eqI)
qed


subsection \<open>Control bytes\<close>

lemma filter_update:
  "i < length xs \<Longrightarrow>
     length (filter P (xs[i := x])) + of_bool (P (xs ! i)) = length (filter P xs) + of_bool (P x)"
proof (induction xs arbitrary: i)
  case (Cons a xs)
  then show ?case
    by (cases i) auto
qed simp

lemma group_has_empty_iff:
  "g + 8 \<le> length ctrl \<Longrightarrow> group_has_empty ctrl g \<longleftrightarrow> (\<exists>j<8. ctrl ! (g + j) = CTRL_EMPTY)"
  by (auto simp: group_has_empty_def in_set_conv_nth)

lemma group_has_empty_update:
  "g + 8 \<le> length ctrl \<Longrightarrow> c \<noteq> CTRL_EMPTY \<Longrightarrow> group_has_empty (ctrl[i := c]) g \<Longrightarrow> group_has_empty ctrl g"
  by (simp add: group_has_empty_iff) (metis nth_list_update_neq nth_list_update_eq list_update_beyond not_less)

lemma map_group_bounds:
  assumes "cap_ok cap" and "length ctrl = cap + 8"
  shows "map_group cap h p + 8 \<le> cap" and "map_group cap h p + 8 \<le> length ctrl"
  using group_start_bounds(2) [OF assms(1), of "H1 h AND (of_nat cap - 1)" p] assms(2)
  unfolding map_group_def by linarith+

lemma map_reach_update:
  assumes "cap_ok cap" "length ctrl = cap + 8" "c \<noteq> CTRL_EMPTY" "map_reach cap ctrl h i"
  shows "map_reach cap (ctrl[j := c]) h i"
  using assms(4) group_has_empty_update [OF map_group_bounds(2) [OF assms(1,2)] assms(3)]
  unfolding map_reach_def by blast

subsection \<open>Search\<close>

text \<open>
  What the table relies on of its keys: the equality decides whether two valid keys are the same. The
  hash may be any function.
\<close>

locale map_keys =
  fixes hash :: "'k \<Rightarrow> u64" and eq :: "'k \<Rightarrow> 'k \<Rightarrow> bool" and valid :: "'k \<Rightarrow> bool"
  assumes eq_iff: "valid a \<Longrightarrow> valid b \<Longrightarrow> eq a b \<longleftrightarrow> a = b"
begin

lemma table_cell:
  assumes "map_inv hash eq valid m" and "map_ctrl m = Some ctrl"
  shows "table_inv hash valid m ctrl"
    and "cap_ok (map_capacity m)" "length ctrl = map_capacity m + 8" "length (map_slots m) = map_capacity m"
    and "cells_distinct m"
    and "map_hash m = hash" "map_eq m = eq"
  using assms by (simp_all add: map_inv_def table_inv_def distinct_entries_iff)

lemma full_cell:
  assumes "table_inv hash valid m ctrl" "map_ctrl m = Some ctrl" "i < map_capacity m" "CTRL_IS_FULL (ctrl ! i)"
  obtains k v where "map_slots m ! i = Some (k, v)" "map_cell m i = Some (k, v)" "valid k" "ctrl ! i = H2 (hash k)"
    "map_reach (map_capacity m) ctrl (hash k) i"
proof -
  have "case map_slots m ! i of None \<Rightarrow> False
      | Some (k, _) \<Rightarrow> valid k \<and> ctrl ! i = H2 (hash k) \<and> map_reach (map_capacity m) ctrl (hash k) i"
    using assms(1,3,4) unfolding table_inv_def by blast
  then obtain k v where "map_slots m ! i = Some (k, v)" "valid k" "ctrl ! i = H2 (hash k)"
    "map_reach (map_capacity m) ctrl (hash k) i"
    by (auto split: option.splits)
  then show thesis
    using that assms(2-4) by (simp add: map_cell_table)
qed

lemma cell_full:
  assumes "table_inv hash valid m ctrl" "map_ctrl m = Some ctrl" "map_cell m i = Some (k, v)"
  shows "i < map_capacity m" "CTRL_IS_FULL (ctrl ! i)" "map_slots m ! i = Some (k, v)" "valid k"
    "ctrl ! i = H2 (hash k)" "map_reach (map_capacity m) ctrl (hash k) i"
proof -
  show i: "i < map_capacity m" "CTRL_IS_FULL (ctrl ! i)" "map_slots m ! i = Some (k, v)"
    using assms(2,3) by (auto simp: map_cell_table split: if_splits)
  show "valid k" "ctrl ! i = H2 (hash k)" "map_reach (map_capacity m) ctrl (hash k) i"
    using full_cell [OF assms(1,2) i(1,2)] i(3) by (metis option.inject prod.inject)+
qed

text \<open>The search in one group finds exactly the slot that holds the key.\<close>

lemma find_in_group:
  assumes inv: "map_inv hash eq valid m" "map_ctrl m = Some ctrl" and key: "valid key" and g: "g + 8 \<le> map_capacity m"
  shows "case map_find_match (\<lambda>n. map_slot_eq m key (g + n)) (bebop__map_match_h2 (map_ctrl_word ctrl g) (H2 (hash key))) of
      None \<Rightarrow> \<forall>n<8. \<forall>v. map_cell m (g + n) \<noteq> Some (key, v)
    | Some n' \<Rightarrow> n' < 8 \<and> (\<exists>v. map_cell m (g + n') = Some (key, v))"
proof -
  let ?bs = "span_at g 8 ctrl" and ?hit = "\<lambda>n. map_slot_eq m key (g + n)"
  let ?w = "bebop__map_match_h2 (map_ctrl_word ctrl g) (H2 (hash key))"
  note t = table_cell [OF inv]
  have len: "length ?bs = 8" and nth: "\<And>n. n < 8 \<Longrightarrow> ?bs ! n = ctrl ! (g + n)"
    using g t(3) by simp_all
  note m = match_h2_lanes [OF len, where ?h2.0 = "H2 (hash key)", folded map_ctrl_word_def]
  have hit: "\<exists>v. map_cell m (g + n) = Some (key, v)" if h: "n < 8" "lane ?w n" "?hit n" for n
  proof -
    have "CTRL_IS_FULL (ctrl ! (g + n))"
      using m(3) [OF h(1,2)] nth [OF h(1)] H2_full by metis
    then obtain k v where c: "map_slots m ! (g + n) = Some (k, v)" "map_cell m (g + n) = Some (k, v)" "valid k"
      using full_cell [OF t(1) inv(2)] g h(1) by (metis add_less_cancel_left order_less_le_trans)
    then have "k = key"
      using h(3) key t(7) eq_iff by (simp add: map_slot_eq_def)
    then show ?thesis
      using c(2) by blast
  qed
  have miss: "lane ?w n \<and> ?hit n" if h: "n < 8" "map_cell m (g + n) = Some (key, v)" for n v
  proof
    note c = cell_full [OF t(1) inv(2) h(2)]
    show "lane ?w n"
      using m(2) [OF h(1)] nth [OF h(1)] c(5) by simp
    show "?hit n"
      using c(3) key t(7) eq_iff by (simp add: map_slot_eq_def)
  qed
  show ?thesis
    using map_find_match_spec [OF m(1), of ?hit] hit miss by (fastforce split: option.splits)
qed

lemma empty_in_group:
  assumes inv: "map_inv hash eq valid m" "map_ctrl m = Some ctrl" and g: "g + 8 \<le> map_capacity m"
  shows "bebop__map_match_empty (map_ctrl_word ctrl g) \<noteq> 0 \<longleftrightarrow> group_has_empty ctrl g"
proof -
  note t = table_cell [OF inv]
  have "\<forall>c\<in>set (span_at g 8 ctrl). ctrl_valid c"
    using t(1) by (auto simp: table_inv_def list_all_iff span_at_def dest!: in_set_takeD in_set_dropD)
  then show ?thesis
    unfolding map_ctrl_word_def group_has_empty_def by (rule match_empty_lanes [rotated]) (use g t(3) in simp)
qed

end


text \<open>
  The probes from \<open>p\<close> to \<open>n\<close> do not meet the key: it is in no group that is examined before one with
  an empty slot.
\<close>

definition key_unprobed ::
  "('k, 'v) Bebop_Map \<Rightarrow> byte list \<Rightarrow> u64 \<Rightarrow> 'k \<Rightarrow> nat \<Rightarrow> nat \<Rightarrow> bool" where
  "key_unprobed m ctrl h key p n \<longleftrightarrow>
     (\<forall>r\<in>{p..<n}. (\<forall>q\<in>{p..<r}. \<not> group_has_empty ctrl (map_group (map_capacity m) h q)) \<longrightarrow>
        (\<forall>j<8. \<forall>v. map_cell m (map_group (map_capacity m) h r + j) \<noteq> Some (key, v)))"

lemma key_unprobed_step:
  assumes "\<forall>j<8. \<forall>v. map_cell m (map_group (map_capacity m) h p + j) \<noteq> Some (key, v)"
    and "\<not> group_has_empty ctrl (map_group (map_capacity m) h p) \<Longrightarrow> key_unprobed m ctrl h key (Suc p) n"
  shows "key_unprobed m ctrl h key p n"
  unfolding key_unprobed_def
proof (intro ballI impI)
  fix r
  assume r: "r \<in> {p..<n}" and q: "\<forall>q\<in>{p..<r}. \<not> group_has_empty ctrl (map_group (map_capacity m) h q)"
  show "\<forall>j<8. \<forall>v. map_cell m (map_group (map_capacity m) h r + j) \<noteq> Some (key, v)"
  proof (cases "r = p")
    case False
    then have "key_unprobed m ctrl h key (Suc p) n"
      using assms(2) r q by simp
    then show ?thesis
      using False r q unfolding key_unprobed_def by simp
  qed (use assms(1) in simp)
qed

context map_keys
begin

lemma unprobed_absent:
  assumes inv: "map_inv hash eq valid m" "map_ctrl m = Some ctrl"
    and "key_unprobed m ctrl (hash key) key 0 (map_max_probes (map_capacity m))"
  shows "map_cell m i \<noteq> Some (key, v)"
proof
  assume c: "map_cell m i = Some (key, v)"
  obtain p where p: "p < map_max_probes (map_capacity m)" "map_group (map_capacity m) (hash key) p \<le> i"
    "i < map_group (map_capacity m) (hash key) p + 8"
    "\<forall>q<p. \<not> group_has_empty ctrl (map_group (map_capacity m) (hash key) q)"
    using cell_full(6) [OF table_cell(1) [OF inv] inv(2) c] unfolding map_reach_def by blast
  then obtain j where j: "i = map_group (map_capacity m) (hash key) p + j" "j < 8"
    by (metis add_less_cancel_left le_Suc_ex)
  have "\<forall>j<8. \<forall>v. map_cell m (map_group (map_capacity m) (hash key) p + j) \<noteq> Some (key, v)"
    using assms(3) p(1,4) unfolding key_unprobed_def by simp
  then show False
    using c j by blast
qed

lemma group_eq:
  "map_hash m = hash \<Longrightarrow> map_group_start (map_capacity m) (map_start m key) p = map_group (map_capacity m) (hash key) p"
  by (simp add: map_group_def map_start_def)

lemma probe_loop:
  assumes inv: "map_inv hash eq valid m" "map_ctrl m = Some ctrl" and key: "valid key"
  shows "case map_probe_loop map_find_match m ctrl (H2 (hash key)) (map_start m key) key [p..<n] of
      None \<Rightarrow> key_unprobed m ctrl (hash key) key p n
    | Some i \<Rightarrow> \<exists>v. map_cell m i = Some (key, v)"
proof (induction "n - p" arbitrary: p)
  case 0
  then show ?case
    by (simp add: key_unprobed_def)
next
  case (Suc d)
  let ?g = "map_group (map_capacity m) (hash key) p"
  note t = table_cell [OF inv]
  have upt: "[p..<n] = p # [Suc p..<n]"
    using Suc(2) by (simp add: upt_conv_Cons)
  have g: "?g + 8 \<le> map_capacity m"
    by (rule map_group_bounds(1) [OF t(2,3)])
  note search = find_in_group [OF inv key g] and empty = empty_in_group [OF inv g] and step = key_unprobed_step [of m "hash key" p key ctrl n]
  have "d = n - Suc p"
    using Suc(2) by simp
  then show ?case
    using Suc(1) [of "Suc p"] search step
    unfolding upt map_probe_loop.simps Let_def group_eq [OF t(6)] empty by (auto split: option.splits)
qed

text \<open>
  The loop of an insertion also finds the first slot that can be written; it finds none only when
  every group it examines is full.
\<close>

lemma free_in_group:
  assumes inv: "map_inv hash eq valid m" "map_ctrl m = Some ctrl" and g: "g + 8 \<le> map_capacity m"
  defines "w \<equiv> bebop__map_match_empty_or_deleted (map_ctrl_word ctrl g)"
  shows "w = 0 \<longleftrightarrow> (\<forall>j<8. CTRL_IS_FULL (ctrl ! (g + j)))"
    and "w \<noteq> 0 \<Longrightarrow> bebop__map_match_first w < 8 \<and> \<not> CTRL_IS_FULL (ctrl ! (g + bebop__map_match_first w))"
proof -
  note t = table_cell [OF inv]
  have len: "length (span_at g 8 ctrl) = 8" and nth: "\<And>n. n < 8 \<Longrightarrow> span_at g 8 ctrl ! n = ctrl ! (g + n)"
    using g t(3) by simp_all
  note l = match_empty_or_deleted_lanes [OF len, folded map_ctrl_word_def, folded w_def]
  show "w = 0 \<longleftrightarrow> (\<forall>j<8. CTRL_IS_FULL (ctrl ! (g + j)))"
    using lanes_nonzero [OF l(1)] l(2) nth by auto
  show "bebop__map_match_first w < 8 \<and> \<not> CTRL_IS_FULL (ctrl ! (g + bebop__map_match_first w))" if "w \<noteq> 0"
    using match_first_lane(1) [OF l(1) that] lane_bound l(2) nth by metis
qed

end


definition insertion_slot :: "('k, 'v) Bebop_Map \<Rightarrow> byte list \<Rightarrow> u64 \<Rightarrow> nat \<Rightarrow> nat \<Rightarrow> nat \<Rightarrow> bool" where
  "insertion_slot m ctrl h p n i \<longleftrightarrow>
     i < map_capacity m \<and> \<not> CTRL_IS_FULL (ctrl ! i) \<and>
     (\<exists>r\<in>{p..<n}. map_group (map_capacity m) h r \<le> i \<and> i < map_group (map_capacity m) h r + 8 \<and>
        (\<forall>q\<in>{p..<r}. \<not> group_has_empty ctrl (map_group (map_capacity m) h q)))"

definition groups_full :: "('k, 'v) Bebop_Map \<Rightarrow> byte list \<Rightarrow> u64 \<Rightarrow> nat \<Rightarrow> nat \<Rightarrow> bool" where
  "groups_full m ctrl h p n \<longleftrightarrow>
     (\<forall>r\<in>{p..<n}. \<forall>j<8. CTRL_IS_FULL (ctrl ! (map_group (map_capacity m) h r + j)))"

lemma insertion_slot_step:
  assumes "insertion_slot m ctrl h (Suc p) n i" "\<not> group_has_empty ctrl (map_group (map_capacity m) h p)"
  shows "insertion_slot m ctrl h p n i"
proof -
  obtain r where r: "r \<in> {Suc p..<n}" "map_group (map_capacity m) h r \<le> i \<and> i < map_group (map_capacity m) h r + 8"
    "\<forall>q\<in>{Suc p..<r}. \<not> group_has_empty ctrl (map_group (map_capacity m) h q)"
    using assms(1) unfolding insertion_slot_def by blast
  then have "\<forall>q\<in>{p..<r}. \<not> group_has_empty ctrl (map_group (map_capacity m) h q)"
    using assms(2) by (metis atLeastLessThan_iff le_neq_implies_less Suc_leI)
  then show ?thesis
    using assms(1) r(1,2) unfolding insertion_slot_def by (metis Suc_leD atLeastLessThan_iff)
qed

lemma groups_full_step:
  "groups_full m ctrl h (Suc p) n \<Longrightarrow> \<forall>j<8. CTRL_IS_FULL (ctrl ! (map_group (map_capacity m) h p + j)) \<Longrightarrow>
     groups_full m ctrl h p n"
  unfolding groups_full_def by (metis atLeastLessThan_iff le_neq_implies_less Suc_leI)

context map_keys
begin

lemma set_loop:
  assumes inv: "map_inv hash eq valid m" "map_ctrl m = Some ctrl" and key: "valid key"
  shows "case map_set_loop m ctrl (H2 (hash key)) (map_start m key) key [p..<n] ins of
      Inl i \<Rightarrow> \<exists>v. map_cell m i = Some (key, v)
    | Inr slot \<Rightarrow> key_unprobed m ctrl (hash key) key p n \<and>
        (case ins of
           Some i \<Rightarrow> slot = Some i
         | None \<Rightarrow> (case slot of
                     None \<Rightarrow> groups_full m ctrl (hash key) p n
                   | Some i \<Rightarrow> insertion_slot m ctrl (hash key) p n i))"
proof (induction "n - p" arbitrary: p ins)
  case 0
  then show ?case
    by (simp add: key_unprobed_def groups_full_def split: option.splits)
next
  case (Suc d)
  let ?h = "hash key" let ?g = "map_group (map_capacity m) ?h p"
  let ?w = "bebop__map_match_empty_or_deleted (map_ctrl_word ctrl ?g)"
  let ?ins = "case ins of None \<Rightarrow> if ?w \<noteq> 0 then Some (?g + bebop__map_match_first ?w) else None | Some i \<Rightarrow> Some i"
  let ?found = "map_find_match (\<lambda>n. map_slot_eq m key (?g + n)) (bebop__map_match_h2 (map_ctrl_word ctrl ?g) (H2 ?h))"
  note t = table_cell [OF inv]
  have upt: "[p..<n] = p # [Suc p..<n]" and pn: "p < n" and d: "d = n - Suc p"
    using Suc(2) by (simp_all add: upt_conv_Cons)
  have g: "?g + 8 \<le> map_capacity m"
    by (rule map_group_bounds(1) [OF t(2,3)])
  note search = find_in_group [OF inv key g] and empty = empty_in_group [OF inv g] and free = free_in_group [OF inv g]
    and step = key_unprobed_step [of m ?h p key ctrl n]
  have here: "insertion_slot m ctrl ?h p n (?g + bebop__map_match_first ?w)" if "?w \<noteq> 0"
    using free(2) [OF that] g pn unfolding insertion_slot_def
    by (intro conjI bexI [of _ p]) auto
  have unfold: "map_set_loop m ctrl (H2 ?h) (map_start m key) key [p..<n] ins =
      (case ?found of
         Some i \<Rightarrow> Inl (?g + i)
       | None \<Rightarrow> if group_has_empty ctrl ?g then Inr ?ins
                 else map_set_loop m ctrl (H2 ?h) (map_start m key) key [Suc p..<n] ?ins)"
    unfolding upt map_set_loop.simps Let_def group_eq [OF t(6)] empty by (simp split: option.splits)
  show ?case
  proof (cases ?found)
    case (Some i)
    then show ?thesis
      using search unfolding unfold by auto
  next
    case None
    then have miss: "\<forall>j<8. \<forall>v. map_cell m (?g + j) \<noteq> Some (key, v)"
      using search by simp
    show ?thesis
    proof (cases "group_has_empty ctrl ?g")
      case True
      then have "?w \<noteq> 0"
        using free(1) g t(3) by (auto simp: group_has_empty_iff)
      then show ?thesis
        using None True here step [OF miss] unfolding unfold by (simp split: option.splits)
    next
      case False
      then have eq: "map_set_loop m ctrl (H2 ?h) (map_start m key) key [p..<n] ins =
          map_set_loop m ctrl (H2 ?h) (map_start m key) key [Suc p..<n] ?ins"
        using None unfolding unfold by simp
      note IH = Suc(1) [OF d, of ?ins]
      show ?thesis
      proof (cases "map_set_loop m ctrl (H2 ?h) (map_start m key) key [Suc p..<n] ?ins")
        case (Inl i)
        then show ?thesis
          using IH unfolding eq by simp
      next
        case (Inr slot)
        then have unprobed: "key_unprobed m ctrl ?h key p n" and slot: "case ?ins of
            Some i \<Rightarrow> slot = Some i
          | None \<Rightarrow> (case slot of None \<Rightarrow> groups_full m ctrl ?h (Suc p) n | Some i \<Rightarrow> insertion_slot m ctrl ?h (Suc p) n i)"
          using IH step [OF miss] by simp_all
        have "case ins of
            Some i \<Rightarrow> slot = Some i
          | None \<Rightarrow> (case slot of None \<Rightarrow> groups_full m ctrl ?h p n | Some i \<Rightarrow> insertion_slot m ctrl ?h p n i)"
        proof (cases ins)
          case none: None
          show ?thesis
          proof (cases "?w = 0")
            case True
            then show ?thesis
              using slot free(1) insertion_slot_step [OF _ False] groups_full_step [of m ctrl ?h p n] none
              by (simp split: option.splits)
          qed (use slot here none in simp)
        qed (use slot in simp)
        then show ?thesis
          using unprobed Inr unfolding eq by simp
      qed
    qed
  qed
qed

end


section \<open>Operations on the table\<close>

lemma map_cell_update:
  assumes "map_ctrl m = Some ctrl" "length ctrl = map_capacity m + 8" "length (map_slots m) = map_capacity m"
    and "i < map_capacity m" "map_ctrl m' = Some (ctrl[i := c])" "map_capacity m' = map_capacity m"
    and "map_slots m' = (map_slots m)[i := s]"
  shows "map_cell m' = (map_cell m)(i := if CTRL_IS_FULL c then s else None)"
  using assms by (auto simp: map_cell_table fun_eq_iff nth_list_update)

lemma used_count_update:
  "i < length ctrl \<Longrightarrow> c \<noteq> CTRL_EMPTY \<Longrightarrow> used_count (ctrl[i := c]) = used_count ctrl + of_bool (ctrl ! i = CTRL_EMPTY)"
  using filter_update [of i ctrl "\<lambda>c. c \<noteq> CTRL_EMPTY" c] 
  by (cases "ctrl ! i = CTRL_EMPTY") (simp_all add: used_count_def)

lemma full_count_update:
  "i < length ctrl \<Longrightarrow>
     full_count (ctrl[i := c]) + of_bool (CTRL_IS_FULL (ctrl ! i)) = full_count ctrl + of_bool (CTRL_IS_FULL c)"
  unfolding full_count_def by (rule filter_update)

lemma table_inv_update:
  assumes t: "table_inv hash valid m ctrl" and i: "i < map_capacity m" and c: "c \<noteq> CTRL_EMPTY" "ctrl_valid c"
    and m': "map_capacity m' = map_capacity m" "map_slots m' = (map_slots m)[i := s]" "cells_distinct m'"
    and s: "CTRL_IS_FULL c \<Longrightarrow> \<exists>k v. s = Some (k, v) \<and> valid k \<and> c = H2 (hash k) \<and> map_reach (map_capacity m) ctrl (hash k) i"
    and len: "map_length m' + of_bool (CTRL_IS_FULL (ctrl ! i)) = map_length m + of_bool (CTRL_IS_FULL c)"
    and left: "map_growth_left m' + of_bool (ctrl ! i = CTRL_EMPTY) = map_growth_left m"
  shows "table_inv hash valid m' (ctrl[i := c])"
proof -
  have cap: "cap_ok (map_capacity m)" "length ctrl = map_capacity m + 8" "length (map_slots m) = map_capacity m"
    and counts: "map_length m = full_count ctrl" "map_growth_left m + used_count ctrl = map_capacity m * 7 div 8"
    using t by (simp_all add: table_inv_def)
  have il: "i < length ctrl"
    using i cap by simp
  have slot: "case map_slots m' ! j of None \<Rightarrow> False
      | Some (k, _) \<Rightarrow> valid k \<and> ctrl[i := c] ! j = H2 (hash k) \<and> map_reach (map_capacity m) (ctrl[i := c]) (hash k) j"
    if j: "j < map_capacity m" "CTRL_IS_FULL (ctrl[i := c] ! j)" for j
  proof (cases "j = i")
    case True
    then obtain k v where "s = Some (k, v)" "valid k" "c = H2 (hash k)" "map_reach (map_capacity m) ctrl (hash k) i"
      using s j(2) il by auto
    then show ?thesis
      using True il cap map_reach_update [OF cap(1,2) c(1)] i by (simp add: m')
  next
    case False
    then have "case map_slots m ! j of None \<Rightarrow> False
      | Some (k, _) \<Rightarrow> valid k \<and> ctrl ! j = H2 (hash k) \<and> map_reach (map_capacity m) ctrl (hash k) j"
      using t j by (simp add: table_inv_def)
    then show ?thesis
      using False map_reach_update [OF cap(1,2) c(1)] by (auto simp: m' split: option.splits)
  qed
  have "list_all ctrl_valid (ctrl[i := c])" "\<forall>j<8. ctrl[i := c] ! (map_capacity m + j) = CTRL_EMPTY"
    using t c(2) i set_update_subset_insert [of ctrl i c] by (auto simp: table_inv_def list_all_iff)
  moreover have "map_length m' = full_count (ctrl[i := c])"
    using len counts(1) full_count_update [OF il, of c] by simp
  moreover have "map_growth_left m' + used_count (ctrl[i := c]) = map_capacity m * 7 div 8"
    using left counts(2) used_count_update [OF il c(1)] by simp
  ultimately show ?thesis
    using cap slot m'(3) unfolding table_inv_def m'(1) distinct_entries_iff by (simp add: m'(2))
qed

lemma no_cells: "map_cell m = (\<lambda>_. None) \<Longrightarrow> map_abs m = Map.empty"
  by (simp add: map_abs_def map_entries_def List.map_filter_def)

context map_keys
begin

lemma empty_table:
  assumes "map_inv hash eq valid m" and "map_ctrl m = None \<or> map_length m = 0"
  shows "map_abs m = Map.empty"
proof (rule no_cells, rule ext)
  fix i
  show "map_cell m i = None"
  proof (cases "map_ctrl m")
    case (Some ctrl)
    note t = table_cell [OF assms(1) Some]
    have "full_count ctrl = 0"
      using assms(2) t(1) Some by (simp add: table_inv_def)
    then have "\<not> CTRL_IS_FULL (ctrl ! i)" if "i < map_capacity m"
      using that t(3) by (simp add: full_count_def filter_empty_conv)
    then show ?thesis
      using Some by (auto simp: map_cell_table)
  qed (simp add: map_cell_def)
qed

lemma get_refines:
  assumes "map_inv hash eq valid m" and "valid key"
  shows "bebop_map_get (Some m) key = map_abs m key"
proof (cases "map_ctrl m = None \<or> map_length m = 0")
  case True
  then show ?thesis
    using empty_table [OF assms(1)] by (auto simp: bebop_map_get_def split: option.splits)
next
  case False
  then obtain ctrl where ctrl: "map_ctrl m = Some ctrl" "map_length m \<noteq> 0"
    by auto
  let ?loop = "map_probe_loop map_find_match m ctrl (H2 (hash key)) (map_start m key) key [0..<map_max_probes (map_capacity m)]"
  have find: "map_find_match_get = map_find_match"
    by (intro ext map_find_match_get_eq)
  note t = table_cell [OF assms(1) ctrl(1)] and loop = probe_loop [OF assms(1) ctrl(1) assms(2), of 0 "map_max_probes (map_capacity m)"]
  have eq: "bebop_map_get (Some m) key = (case ?loop of None \<Rightarrow> None | Some idx \<Rightarrow> map_option snd (map_slots m ! idx))"
    using ctrl t(6) by (simp add: bebop_map_get_def find)
  show ?thesis
  proof (cases ?loop)
    case None
    then have "map_abs m key \<noteq> Some v" for v
      using loop unprobed_absent [OF assms(1) ctrl(1)] map_abs_iff [OF t(5)] by simp
    then show ?thesis
      unfolding eq None by (cases "map_abs m key") auto
  next
    case (Some i)
    then obtain v where v: "map_cell m i = Some (key, v)"
      using loop by auto
    then show ?thesis
      using map_abs_iff [OF t(5), of key v] cell_full(3) [OF t(1) ctrl(1) v] unfolding eq Some by auto
  qed
qed

end


lemma count_le: "full_count ctrl \<le> length ctrl" "full_count ctrl \<le> used_count ctrl"
proof -
  show "full_count ctrl \<le> length ctrl"
    by (simp add: full_count_def)
  have "length (filter CTRL_IS_FULL ctrl) \<le> length (filter (\<lambda>c. c \<noteq> CTRL_EMPTY) ctrl)"
    by (induction ctrl) (auto simp: ctrl_not_full)
  then show "full_count ctrl \<le> used_count ctrl"
    by (simp add: full_count_def used_count_def)
qed

context map_keys
begin

lemma map_inv_table:
  "map_hash m = hash \<Longrightarrow> map_eq m = eq \<Longrightarrow> map_ctrl m = Some ctrl \<Longrightarrow> table_inv hash valid m ctrl \<Longrightarrow>
     map_inv hash eq valid m"
  by (simp add: map_inv_def)

text \<open>Replacing the value of a key that the table holds.\<close>

lemma replace_value:
  fixes m :: "('k, 'v) Bebop_Map" and v :: 'v
  assumes inv: "map_inv hash eq valid m" "map_ctrl m = Some ctrl" and cell: "map_cell m i = Some (key, w)"
  defines "m' \<equiv> m\<lparr>map_slots := (map_slots m)[i := Some (key, v)]\<rparr>"
  shows "map_inv hash eq valid m'" and "map_abs m' = (map_abs m)(key \<mapsto> v)"
proof -
  have m': "map_ctrl m' = map_ctrl m" "map_capacity m' = map_capacity m" "map_slots m' = (map_slots m)[i := Some (key, v)]"
    "map_length m' = map_length m" "map_growth_left m' = map_growth_left m" "map_hash m' = map_hash m" "map_eq m' = map_eq m"
    by (simp_all add: m'_def)
  note t = table_cell [OF inv] and c = cell_full [OF table_cell(1) [OF inv] inv(2) cell]
  have cells: "map_cell m' = (map_cell m)(i := Some (key, v))"
    using map_cell_update [OF inv(2) t(3,4) c(1) _ m'(2,3), of "ctrl ! i"] inv(2) c(2) m'(1) by simp
  have only: "j = i" if "map_cell m j = Some (key, u)" for j u
    using t(5) cell that unfolding cells_distinct_def by blast
  have over: "k = key" if "map_cell m i = Some (k, u)" for k u
    using cell that by simp
  note upd = map_abs_update [OF t(5) cells only over]
  show "map_abs m' = (map_abs m)(key \<mapsto> v)"
    by (rule upd(2))
  have "table_inv hash valid m' (ctrl[i := ctrl ! i])"
  proof (rule table_inv_update [OF t(1) c(1)])
    show "ctrl ! i \<noteq> CTRL_EMPTY" "ctrl_valid (ctrl ! i)"
      using c(2) by (auto simp: ctrl_not_full ctrl_valid_def)
    show "\<exists>k v'. Some (key, v) = Some (k, v') \<and> valid k \<and> ctrl ! i = H2 (hash k) \<and> map_reach (map_capacity m) ctrl (hash k) i"
      using c by simp
  qed (use m' upd(1) c(2) ctrl_not_full in auto)
  then show "map_inv hash eq valid m'"
    using map_inv_table [of m' ctrl] inv(2) t(6,7) m' by simp
qed

text \<open>Writing an entry into a free slot that a search for its key reaches.\<close>

lemma write_entry:
  fixes m :: "('k, 'v) Bebop_Map" and v :: 'v
  assumes inv: "map_inv hash eq valid m" "map_ctrl m = Some ctrl" and key: "valid key"
    and absent: "key_unprobed m ctrl (hash key) key 0 (map_max_probes (map_capacity m))"
    and slot: "insertion_slot m ctrl (hash key) 0 (map_max_probes (map_capacity m)) i"
    and left: "0 < map_growth_left m"
  defines "m' \<equiv> m\<lparr>map_ctrl := Some (ctrl[i := H2 (hash key)]), map_slots := (map_slots m)[i := Some (key, v)],
      map_length := size_wrap (map_length m + 1),
      map_growth_left := (if ctrl ! i = CTRL_EMPTY then size_dec (map_growth_left m) else map_growth_left m)\<rparr>"
  shows "map_inv hash eq valid m'" and "map_abs m' = (map_abs m)(key \<mapsto> v)"
proof -
  have m': "map_ctrl m' = Some (ctrl[i := H2 (hash key)])" "map_capacity m' = map_capacity m"
    "map_slots m' = (map_slots m)[i := Some (key, v)]" "map_length m' = size_wrap (map_length m + 1)"
    "map_growth_left m' = (if ctrl ! i = CTRL_EMPTY then size_dec (map_growth_left m) else map_growth_left m)"
    "map_hash m' = map_hash m" "map_eq m' = map_eq m"
    by (simp_all add: m'_def)
  note t = table_cell [OF inv]
  have i: "i < map_capacity m" "\<not> CTRL_IS_FULL (ctrl ! i)" and reach: "map_reach (map_capacity m) ctrl (hash key) i"
    using slot by (auto simp: insertion_slot_def map_reach_def)
  have cells: "map_cell m' = (map_cell m)(i := Some (key, v))"
    using map_cell_update [OF inv(2) t(3,4) i(1) m'(1-3)] by simp
  have free: "map_cell m i = None"
    using i(2) inv(2) by (simp add: map_cell_table)
  have only: "j = i" if "map_cell m j = Some (key, u)" for j u
    using unprobed_absent [OF inv absent] that by blast
  have over: "k = key" if "map_cell m i = Some (k, u)" for k u
    using free that by simp
  note upd = map_abs_update [OF t(5) cells only over]
  show "map_abs m' = (map_abs m)(key \<mapsto> v)"
    by (rule upd(2))
  have "map_capacity m \<le> 2 ^ 56"
    using t(2) by (rule cap_okE)
  moreover have "map_length m = full_count ctrl"
    using t(1) unfolding table_inv_def by blast
  ultimately have "map_length m + 1 < 2 ^ 64"
    using count_le(1) [of ctrl] t(3) by simp
  then have len: "size_wrap (map_length m + 1) = map_length m + 1"
    by (rule size_wrap_id)
  have "table_inv hash valid m' (ctrl[i := H2 (hash key)])"
  proof (rule table_inv_update [OF t(1) i(1)])
    show "H2 (hash key) \<noteq> CTRL_EMPTY" "ctrl_valid (H2 (hash key))"
      using H2_full(1) [of "hash key"] ctrl_not_full(1) unfolding ctrl_valid_def by metis+
    show "\<exists>k v'. Some (key, v) = Some (k, v') \<and> valid k \<and> H2 (hash key) = H2 (hash k) \<and> map_reach (map_capacity m) ctrl (hash k) i"
      using key reach by blast
  qed (use m' upd(1) i(2) left len in \<open>simp_all add: size_dec_def\<close>)
  then show "map_inv hash eq valid m'"
    using map_inv_table [of m'] t(6,7) m' by simp
qed

lemma insert_cases:
  fixes m :: "('k, 'v) Bebop_Map"
  assumes inv: "map_inv hash eq valid m" "map_ctrl m = Some ctrl" and key: "valid key" and left: "0 < map_growth_left m"
  obtains (stored) m' where "map_insert m key v = Some (True, m')" "map_inv hash eq valid m'"
      "map_abs m' = (map_abs m)(key \<mapsto> v)" "map_capacity m' = map_capacity m"
      "map_growth_left m \<le> map_growth_left m' + 1" "map_ctrl m' \<noteq> None"
    | (full) "map_insert m key v = Some (False, m)" "map_abs m key = None"
      "groups_full m ctrl (hash key) 0 (map_max_probes (map_capacity m))"
proof -
  let ?n = "map_max_probes (map_capacity m)"
  let ?loop = "map_set_loop m ctrl (H2 (hash key)) (map_start m key) key [0..<?n] None"
  note t = table_cell [OF inv] and loop = set_loop [OF inv key, of 0 ?n None]
  show thesis
  proof (cases ?loop)
    case (Inl i)
    then obtain w where w: "map_cell m i = Some (key, w)"
      using loop by auto
    show thesis
      by (rule stored [OF _ replace_value [OF inv w]])
         (use Inl inv(2) t(6) cell_full(3) [OF t(1) inv(2) w] in \<open>simp_all add: map_insert_def\<close>)
  next
    case (Inr slot)
    then have absent: "key_unprobed m ctrl (hash key) key 0 ?n"
      using loop by simp
    show thesis
    proof (cases slot)
      case None
      have "map_abs m key \<noteq> Some u" for u
        using unprobed_absent [OF inv absent] map_abs_iff [OF t(5)] by simp
      then have "map_abs m key = None"
        by (cases "map_abs m key") auto
      then show thesis
        using full Inr None loop inv(2) t(6) by (simp add: map_insert_def)
    next
      case (Some i)
      then have slot: "insertion_slot m ctrl (hash key) 0 ?n i"
        using loop Inr by simp
      show thesis
        by (rule stored [OF _ write_entry [OF inv key absent slot left]])
           (use Inr Some inv(2) t(6) left in \<open>simp_all add: map_insert_def Let_def size_dec_def\<close>)
    qed
  qed
qed

lemma remove_refines:
  fixes m :: "('k, 'v) Bebop_Map"
  assumes inv: "map_inv hash eq valid m" and key: "valid key"
  obtains m' where "bebop_map_remove (Some m) key = (map_abs m key \<noteq> None, Some m')" "map_inv hash eq valid m'"
    "map_abs m' = (map_abs m)(key := None)" "map_capacity m' = map_capacity m"
proof (cases "map_ctrl m = None \<or> map_length m = 0")
  case True
  then show thesis
    using empty_table [OF inv] inv by (intro that [of m]) (auto simp: bebop_map_remove_def split: option.splits)
next
  case False
  then obtain ctrl where ctrl: "map_ctrl m = Some ctrl" "map_length m \<noteq> 0"
    by auto
  let ?loop = "map_probe_loop map_find_match m ctrl (H2 (hash key)) (map_start m key) key [0..<map_max_probes (map_capacity m)]"
  note t = table_cell [OF inv ctrl(1)] and loop = probe_loop [OF inv ctrl(1) key, of 0 "map_max_probes (map_capacity m)"]
  show thesis
  proof (cases ?loop)
    case None
    then have "map_abs m key \<noteq> Some v" for v
      using loop unprobed_absent [OF inv ctrl(1)] map_abs_iff [OF t(5)] by simp
    then have "map_abs m key = None"
      by (cases "map_abs m key") auto
    then show thesis
      using None ctrl t(6) inv by (intro that [of m]) (auto simp: bebop_map_remove_def)
  next
    case (Some i)
    then obtain v where v: "map_cell m i = Some (key, v)"
      using loop by auto
    note c = cell_full [OF t(1) ctrl(1) v]
    let ?m = "m\<lparr>map_ctrl := Some (ctrl[i := CTRL_DELETED]), map_length := size_dec (map_length m)\<rparr>"
    have cells: "map_cell ?m = (map_cell m)(i := None)"
      using map_cell_update [OF ctrl(1) t(3,4) c(1), of ?m CTRL_DELETED "map_slots m ! i"] by simp
    note upd = map_abs_delete [OF t(5) cells v]
    have "table_inv hash valid ?m (ctrl[i := CTRL_DELETED])"
      by (rule table_inv_update [OF t(1) c(1), where s = "map_slots m ! i"])
         (use upd(1) c(2) ctrl(2) ctrl_not_full(1) in \<open>auto simp: ctrl_valid_def size_dec_def ctrl_not_full(3) [symmetric]\<close>)
    then have "map_inv hash eq valid ?m"
      by (intro map_inv_table) (simp_all add: t(6,7))
    moreover have "map_abs m key = Some v"
      using v map_abs_iff [OF t(5)] by blast
    ultimately show thesis
      using Some ctrl t(6) upd(2) by (intro that [of ?m]) (auto simp: bebop_map_remove_def)
  qed
qed

end


subsection \<open>Fresh tables\<close>

lemma fresh_table:
  assumes "cap_ok (map_capacity m)" "map_ctrl m = Some ctrl" "ctrl = replicate (map_capacity m + 8) CTRL_EMPTY"
    and "length (map_slots m) = map_capacity m" "map_length m = 0" "map_growth_left m = map_capacity m * 7 div 8"
  shows "table_inv hash valid m ctrl" and "map_abs m = Map.empty"
proof -
  have none: "map_cell m = (\<lambda>_. None)"
    by (rule ext) (auto simp: map_cell_table [OF assms(2)] assms(3) ctrl_not_full nth_append)
  then show "map_abs m = Map.empty"
    by (rule no_cells)
  have "full_count ctrl = 0" "used_count ctrl = 0" "list_all ctrl_valid ctrl"
    by (simp_all add: assms(3) full_count_def used_count_def ctrl_not_full list_all_iff ctrl_valid_def)
  moreover have "cells_distinct m"
    by (simp add: none cells_distinct_def)
  ultimately show "table_inv hash valid m ctrl"
    unfolding table_inv_def distinct_entries_iff using assms by (simp add: ctrl_not_full)
qed

lemma load_limit:
  assumes "cap_ok cap"
  shows "size_wrap (cap * BEBOP_MAP_LOAD_FACTOR) div 8 = cap * 7 div 8"
proof -
  have "cap \<le> 2 ^ 56"
    using assms by (rule cap_okE)
  then show ?thesis
    by (simp add: BEBOP_MAP_LOAD_FACTOR_def)
qed

lemma length_map_filter: "length (List.map_filter f xs) = length (filter (\<lambda>x. f x \<noteq> None) xs)"
  by (simp add: List.map_filter_def)

context map_keys
begin

lemma length_entries:
  assumes "map_inv hash eq valid m"
  shows "length (map_entries m) = map_length m"
proof (cases "map_ctrl m")
  case None
  then show ?thesis
    using assms by (simp add: map_inv_def map_entries_def List.map_filter_def)
next
  case (Some ctrl)
  note t = table_cell [OF assms Some]
  have cell: "map_cell m i \<noteq> None \<longleftrightarrow> CTRL_IS_FULL (ctrl ! i)" if "i < map_capacity m" for i
    using full_cell [OF t(1) Some that, of "map_cell m i \<noteq> None"] that Some by (auto simp: map_cell_table)
  have tail: "\<not> CTRL_IS_FULL (ctrl ! (map_capacity m + i))" if "i < 8" for i
    using t(1) that by (simp add: table_inv_def ctrl_not_full)
  have full: "i < length ctrl \<and> CTRL_IS_FULL (ctrl ! i) \<longleftrightarrow> i < map_capacity m \<and> CTRL_IS_FULL (ctrl ! i)" for i
    using tail [of "i - map_capacity m"] t(3) by (cases "i < map_capacity m") auto
  have "length (map_entries m) = card {i. i < map_capacity m \<and> map_cell m i \<noteq> None}"
    unfolding map_entries_def length_map_filter length_filter_conv_card by (rule arg_cong [where f = card]) auto
  also have "\<dots> = card {i. i < length ctrl \<and> CTRL_IS_FULL (ctrl ! i)}"
    unfolding full using cell by (intro arg_cong [where f = card]) auto
  also have "\<dots> = map_length m"
    using t(1) by (simp add: table_inv_def full_count_def length_filter_conv_card)
  finally show ?thesis .
qed

lemma entries_distinct:
  assumes "map_inv hash eq valid m"
  shows "distinct (map fst (map_entries m))"
  using assms
  by (cases "map_ctrl m") (simp_all add: map_inv_def table_inv_def map_entries_def List.map_filter_def)

lemma clear_refines:
  fixes m :: "('k, 'v) Bebop_Map"
  assumes inv: "map_inv hash eq valid m"
  obtains m' where "bebop_map_clear (Some m) = Some m'" "map_inv hash eq valid m'" "map_abs m' = Map.empty"
    "map_capacity m' = map_capacity m"
proof (cases "map_ctrl m")
  case None
  then show thesis
    using that inv empty_table [OF inv] by (simp add: bebop_map_clear_def)
next
  case (Some ctrl)
  note t = table_cell [OF inv Some]
  let ?c = "replicate (map_capacity m) CTRL_EMPTY @ drop (map_capacity m) ctrl"
  let ?m = "m\<lparr>map_ctrl := Some ?c, map_length := 0, map_growth_left := size_wrap (map_capacity m * BEBOP_MAP_LOAD_FACTOR) div 8\<rparr>"
  have "drop (map_capacity m) ctrl = replicate 8 CTRL_EMPTY"
    using t(1,3) by (intro nth_equalityI) (simp_all add: table_inv_def)
  then have c: "?c = replicate (map_capacity ?m + 8) CTRL_EMPTY"
    by (simp add: replicate_add)
  have "table_inv hash valid ?m ?c" "map_abs ?m = Map.empty"
    using fresh_table [of ?m ?c] c t(2,4) load_limit [OF t(2)] by simp_all
  then show thesis
    using that [of ?m] Some t(6,7) by (simp add: bebop_map_clear_def map_inv_def)
qed

subsection \<open>Growth\<close>

declare map_set_fuel.simps [simp del]

lemma set_fuel_no_growth:
  "0 < map_growth_left m \<Longrightarrow> map_set_fuel (Suc n) m ctx key v = map_option (\<lambda>(r, m'). (r, m', ctx)) (map_insert m key v)"
  by (simp add: map_set_fuel.simps)

text \<open>The entries of the old table are inserted one by one; a failure keeps the ones inserted so far.\<close>

lemma rehash:
  fixes m m0 :: "('k, 'v) Bebop_Map"
  assumes m0: "map_inv hash eq valid m0" "map_ctrl m0 = Some ctrl0"
  defines "es \<equiv> \<lambda>is. List.map_filter (map_cell m0) is"
  assumes "map_inv hash eq valid m" "map_ctrl m \<noteq> None" "\<forall>i\<in>set is. i < map_capacity m0"
    and "distinct (map fst (es is))" "dom (map_abs m) \<inter> fst ` set (es is) = {}" "length (es is) < map_growth_left m"
  shows "\<exists>r m'. map_rehash (map_set_fuel (Suc n)) (Some ctrl0) (map_slots m0) is m ctx = Some (r, m', ctx) \<and>
     map_inv hash eq valid m' \<and> map_ctrl m' \<noteq> None \<and>
     (if r then 0 < map_growth_left m' \<and> map_abs m' = map_abs m ++ map_of (es is)
      else map_abs m' \<subseteq>\<^sub>m map_abs m ++ map_of (es is))"
  using assms(4-)
proof (induction "is" arbitrary: m)
  case Nil
  then show ?case
    by (auto simp: es_def List.map_filter_def)
next
  case (Cons i "is")
  show ?case
  proof (cases "CTRL_IS_FULL (ctrl0 ! i)")
    case False
    then have skip: "es (i # is) = es is" "map_rehash f (Some ctrl0) (map_slots m0) (i # is) m ctx =
        map_rehash f (Some ctrl0) (map_slots m0) is m ctx" for f
      using m0(2) by (simp_all add: es_def List.map_filter_def map_cell_table)
    show ?thesis
      unfolding skip by (rule Cons.IH) (use Cons.prems skip in auto)
  next
    case True
    then obtain k v where kv: "map_slots m0 ! i = Some (k, v)" "map_cell m0 i = Some (k, v)" "valid k"
      using full_cell [OF table_cell(1) [OF m0] m0(2)] Cons.prems(3) by (metis list.set_intros(1))
    have es: "es (i # is) = (k, v) # es is"
      using kv(2) by (simp add: es_def List.map_filter_def)
    obtain ctrl where ctrl: "map_ctrl m = Some ctrl"
      using Cons.prems(2) by auto
    have left: "0 < map_growth_left m" and k: "k \<notin> dom (map_of (es is))"
      using Cons.prems(4,6) by (auto simp: es dom_map_of_conv_image_fst)
    show ?thesis
    proof (rule insert_cases [OF Cons.prems(1) ctrl kv(3) left, of v])
      fix m'
      assume stored: "map_insert m k v = Some (True, m')" "map_inv hash eq valid m'" "map_abs m' = (map_abs m)(k \<mapsto> v)"
        and m': "map_growth_left m \<le> map_growth_left m' + 1" "map_ctrl m' \<noteq> None"
      have disj: "dom (map_abs m') \<inter> fst ` set (es is) = {}"
        using Cons.prems(5) k unfolding stored(3) es dom_map_of_conv_image_fst by auto
      have "\<exists>r m''. map_rehash (map_set_fuel (Suc n)) (Some ctrl0) (map_slots m0) is m' ctx = Some (r, m'', ctx) \<and>
          map_inv hash eq valid m'' \<and> map_ctrl m'' \<noteq> None \<and>
          (if r then 0 < map_growth_left m'' \<and> map_abs m'' = map_abs m' ++ map_of (es is)
           else map_abs m'' \<subseteq>\<^sub>m map_abs m' ++ map_of (es is))"
        by (rule Cons.IH [OF stored(2) m'(2) _ _ disj]) (use Cons.prems(3,4,6) m'(1) in \<open>simp_all add: es\<close>)
      moreover have "map_abs m' ++ map_of (es is) = map_abs m ++ map_of (es (i # is))"
        using k by (simp add: es stored(3) map_add_upd_left)
      moreover have "map_rehash (map_set_fuel (Suc n)) (Some ctrl0) (map_slots m0) (i # is) m ctx =
          map_rehash (map_set_fuel (Suc n)) (Some ctrl0) (map_slots m0) is m' ctx"
        using True kv(1) stored(1) by (simp add: set_fuel_no_growth [OF left])
      ultimately show ?thesis
        by (simp only:)
    next
      assume full: "map_insert m k v = Some (False, m)"
      have "map_abs m \<subseteq>\<^sub>m map_abs m ++ map_of (es (i # is))"
        using Cons.prems(5) by (metis map_add_comm map_le_map_add dom_map_of_conv_image_fst)
      then show ?thesis
        using True kv(1) full Cons.prems(1,2) by (auto simp: set_fuel_no_growth [OF left])
    qed
  qed
qed

end


lemma cap_ok_double:
  assumes "cap_ok cap \<and> cap \<le> 2 ^ 55 \<or> cap = 0"
  shows "cap_ok (if cap \<noteq> 0 then size_wrap (cap * 2) else BEBOP_MAP_INITIAL_CAPACITY)"
    and "cap * 7 div 8 < (if cap \<noteq> 0 then size_wrap (cap * 2) else BEBOP_MAP_INITIAL_CAPACITY) * 7 div 8"
proof -
  have init: "cap_ok 8"
    by (auto simp: cap_ok_def intro: bexI [of _ 3])
  have double: "cap_ok (2 * cap) \<and> size_wrap (cap * 2) = 2 * cap \<and> cap * 7 div 8 < 2 * cap * 7 div 8" if h: "cap_ok cap" "cap \<le> 2 ^ 55"
  proof -
    obtain e where e: "cap = 2 ^ e" "3 \<le> e" "8 \<le> cap"
      using h(1) by (elim cap_okE)
    have "e \<le> 55"
      using h(2) unfolding e(1) by (simp only: power_increasing_iff one_less_numeral_iff semiring_norm)
    then have "cap_ok (2 ^ Suc e)"
      using e(2) unfolding cap_ok_def by (intro bexI [of _ "Suc e"]) auto
    then show ?thesis
      using e h(2) by (auto intro!: size_wrap_id)
  qed
  show "cap_ok (if cap \<noteq> 0 then size_wrap (cap * 2) else BEBOP_MAP_INITIAL_CAPACITY)"
    "cap * 7 div 8 < (if cap \<noteq> 0 then size_wrap (cap * 2) else BEBOP_MAP_INITIAL_CAPACITY) * 7 div 8"
    using assms init double by (auto simp: BEBOP_MAP_INITIAL_CAPACITY_def mult.commute)
qed

context map_keys
begin

lemma inv_capacity:
  assumes "map_inv hash eq valid m" "map_capacity m \<le> 2 ^ 55"
  shows "cap_ok (map_capacity m) \<and> map_capacity m \<le> 2 ^ 55 \<or> map_capacity m = 0"
  using assms by (auto simp: map_inv_def table_inv_def split: option.splits)

lemma load_bound:
  assumes "map_inv hash eq valid m"
  shows "length (map_entries m) \<le> map_capacity m * 7 div 8"
proof (cases "map_ctrl m")
  case None
  then show ?thesis
    using assms by (simp add: length_entries map_inv_def)
next
  case (Some ctrl)
  have "map_length m = full_count ctrl" "map_growth_left m + used_count ctrl = map_capacity m * 7 div 8"
    using table_cell(1) [OF assms Some] by (simp_all add: table_inv_def)
  then show ?thesis
    using count_le(2) [of ctrl] by (simp add: length_entries [OF assms])
qed

lemma grow:
  fixes m :: "('k, 'v) Bebop_Map"
  assumes inv: "map_inv hash eq valid m" and cap: "map_capacity m \<le> 2 ^ 55"
  shows "\<exists>r m' ctx'. bebop__map_grow (map_set_fuel (Suc n)) m ctx = Some (r, m', ctx') \<and> map_inv hash eq valid m' \<and>
     (if r then map_ctrl m' \<noteq> None \<and> 0 < map_growth_left m' \<and> map_abs m' = map_abs m else map_abs m' \<subseteq>\<^sub>m map_abs m)"
proof -
  let ?cap = "if map_capacity m \<noteq> 0 then size_wrap (map_capacity m * 2) else BEBOP_MAP_INITIAL_CAPACITY"
  define new where "new = m\<lparr>map_ctrl := Some (replicate (?cap + 8) CTRL_EMPTY), map_slots := replicate ?cap None,
      map_capacity := ?cap, map_length := 0, map_growth_left := ?cap * 7 div 8\<rparr>"
  note c = cap_ok_double [OF inv_capacity [OF inv cap]]
  have "?cap \<le> 2 ^ 56"
    using c(1) by (rule cap_okE)
  then have size: "size_wrap (?cap + BEBOP_MAP_GROUP_SIZE) = ?cap + 8"
    unfolding BEBOP_MAP_GROUP_SIZE_def by (intro size_wrap_id) simp
  have t: "map_inv hash eq valid new" "map_abs new = Map.empty" "map_ctrl new \<noteq> None"
    using fresh_table [of new] c(1) inv by (simp_all add: new_def map_inv_def)
  have "\<exists>r m'. map_rehash (map_set_fuel (Suc n)) (map_ctrl m) (map_slots m) [0..<map_capacity m] new ctx2 = Some (r, m', ctx2) \<and>
     map_inv hash eq valid m' \<and> map_ctrl m' \<noteq> None \<and>
     (if r then 0 < map_growth_left m' \<and> map_abs m' = map_abs m else map_abs m' \<subseteq>\<^sub>m map_abs m)" for ctx2
  proof (cases "map_ctrl m")
    case None
    then have "map_capacity m = 0"
      using inv by (simp add: map_inv_def)
    moreover have "0 < map_growth_left new"
      using c(2) by (simp add: new_def)
    ultimately show ?thesis
      using t empty_table [OF inv] None by auto
  next
    case (Some ctrl)
    have fits: "length (map_entries m) < map_growth_left new"
      using order.strict_trans1 [OF load_bound [OF inv] c(2)] by (simp add: new_def)
    have "distinct (map fst (map_entries m))"
      using table_cell(5) [OF inv Some] by (simp add: distinct_entries_iff)
    then show ?thesis
      unfolding Some using fits
      by (intro rehash [OF inv Some t(1,3), of "[0..<map_capacity m]" n ctx2, folded map_entries_def map_abs_def,
            unfolded t(2) empty_map_add]) simp_all
  qed
  note rehash = this
  obtain p1 ctx1 where p1: "bebop_context_alloc ctx (?cap + 8) = (p1, ctx1)"
    by force
  obtain p2 ctx2 where p2: "bebop_context_alloc ctx1 (size_wrap (?cap * SIZEOF_MAP_SLOT)) = (p2, ctx2)"
    by force
  have "bebop__map_grow (map_set_fuel (Suc n)) m ctx =
      (if p1 = None then Some (False, m, ctx1) else if p2 = None then Some (False, m, ctx2)
       else map_rehash (map_set_fuel (Suc n)) (map_ctrl m) (map_slots m) [0..<map_capacity m] new ctx2)"
    unfolding bebop__map_grow_def Let_def size load_limit [OF c(1)] new_def [symmetric] p1
    by (cases p1; cases p2) (simp_all only: p2 option.case prod.case option.simps if_True if_False simp_thms)
  then show ?thesis
    using rehash [of ctx2] inv map_le_refl [of "map_abs m"] by (cases "p1 = None \<or> p2 = None") (metis, metis)
qed

end


context map_keys
begin

lemma set_refines:
  fixes m :: "('k, 'v) Bebop_Map"
  assumes inv: "map_inv hash eq valid m" and key: "valid key" and cap: "map_capacity m \<le> 2 ^ 55"
  obtains r m' ctx' where "bebop_map_set (Some m) ctx key v = Some (r, Some m', ctx')" "map_inv hash eq valid m'"
    "if r then map_abs m' = (map_abs m)(key \<mapsto> v) else map_abs m' \<subseteq>\<^sub>m map_abs m"
proof -
  have insert: "\<exists>r m'. map_insert m1 key v = Some (r, m') \<and> map_inv hash eq valid m' \<and>
      (if r then map_abs m' = (map_abs m1)(key \<mapsto> v) else m' = m1)"
    if h: "map_inv hash eq valid m1" "map_ctrl m1 \<noteq> None" "0 < map_growth_left m1" for m1 :: "('k, 'v) Bebop_Map"
  proof -
    obtain ctrl where "map_ctrl m1 = Some ctrl"
      using h(2) by auto
    then show ?thesis
      by (rule insert_cases [OF h(1) _ key h(3), of ctrl v]) (use h(1) in \<open>metis+\<close>)
  qed
  have "\<exists>r m' ctx'. map_set_fuel 2 m ctx key v = Some (r, m', ctx') \<and> map_inv hash eq valid m' \<and>
      (if r then map_abs m' = (map_abs m)(key \<mapsto> v) else map_abs m' \<subseteq>\<^sub>m map_abs m)"
  proof (cases "map_growth_left m = 0")
    case True
    have two: "map_set_fuel 2 m ctx key v =
        (case bebop__map_grow (map_set_fuel (Suc 0)) m ctx of
           None \<Rightarrow> None
         | Some (False, m', ctx') \<Rightarrow> Some (False, m', ctx')
         | Some (True, m', ctx') \<Rightarrow> map_option (\<lambda>(r, m''). (r, m'', ctx')) (map_insert m' key v))"
      using True by (simp add: map_set_fuel.simps numeral_2_eq_2)
    obtain r m1 ctx1 where g: "bebop__map_grow (map_set_fuel (Suc 0)) m ctx = Some (r, m1, ctx1)" "map_inv hash eq valid m1"
      "if r then map_ctrl m1 \<noteq> None \<and> 0 < map_growth_left m1 \<and> map_abs m1 = map_abs m else map_abs m1 \<subseteq>\<^sub>m map_abs m"
      using grow [OF inv cap, of 0 ctx] by blast
    show ?thesis
    proof (cases r)
      case True
      then have m1: "map_ctrl m1 \<noteq> None" "0 < map_growth_left m1" and abs: "map_abs m1 = map_abs m"
        using g(3) by simp_all
      show ?thesis
        using insert [OF g(2) m1] g(1) True unfolding two abs by (elim exE conjE) (simp, metis map_le_refl abs)
    next
      case False
      then show ?thesis
        using g unfolding two by auto
    qed
  next
    case False
    then have "map_ctrl m \<noteq> None"
      using inv by (auto simp: map_inv_def split: option.splits)
    then show ?thesis
      using insert [OF inv] False unfolding numeral_2_eq_2
      by (simp only: set_fuel_no_growth) (metis (mono_tags, lifting) map_le_refl neq0_conv option.map(2) prod.case)
  qed
  then show thesis
    using that by (auto simp: bebop_map_set_def)
qed

end


section \<open>Iteration\<close>

text \<open>The entries that repeated calls of the iterator yield, up to the first call that returns false.\<close>

primrec map_collect :: "nat \<Rightarrow> ('k, 'v) Bebop_MapIter \<Rightarrow> ('k \<times> 'v) option list" where
  "map_collect 0 it = []"
| "map_collect (Suc n) it =
     (case bebop_map_iter_next (Some it) of
        (Some e, Some it') \<Rightarrow> e # map_collect n it'
      | _ \<Rightarrow> [])"

context map_keys
begin

lemma iter_loop:
  assumes "table_inv hash valid m ctrl" "map_ctrl m = Some ctrl"
  shows "case map_iter_loop m ctrl i of
      (None, _) \<Rightarrow> List.map_filter (map_cell m) [i..<map_capacity m] = []
    | (Some e, j) \<Rightarrow> \<exists>x. e = Some x \<and>
        List.map_filter (map_cell m) [i..<map_capacity m] = x # List.map_filter (map_cell m) [j..<map_capacity m]"
  using assms
proof (induction m ctrl i rule: map_iter_loop.induct)
  case (1 m ctrl i)
  show ?case
  proof (cases "i < map_capacity m")
    case True
    then have upt: "[i..<map_capacity m] = i # [Suc i..<map_capacity m]"
      by (simp add: upt_conv_Cons)
    show ?thesis
    proof (cases "CTRL_IS_FULL (ctrl ! i)")
      case full: True
      obtain k v where "map_slots m ! i = Some (k, v)" "map_cell m i = Some (k, v)"
        using full_cell [OF "1.prems" True full] by metis
      then show ?thesis
        using True full unfolding upt by (subst map_iter_loop.simps) (simp add: List.map_filter_def)
    next
      case False
      then have "List.map_filter (map_cell m) [i..<map_capacity m] = List.map_filter (map_cell m) [Suc i..<map_capacity m]"
        using "1.prems"(2) unfolding upt by (simp add: List.map_filter_def map_cell_table)
      then show ?thesis
        using True False "1.IH" [OF True False "1.prems"] by (subst map_iter_loop.simps) (simp only: if_True if_False Suc_eq_plus1)
    qed
  next
    case False
    then show ?thesis
      by (subst map_iter_loop.simps) (simp add: List.map_filter_def)
  qed
qed

lemma collect_entries:
  assumes inv: "map_inv hash eq valid m" "map_ctrl m = Some ctrl"
    and "length (List.map_filter (map_cell m) [i..<map_capacity m]) < n"
  shows "map_collect n \<lparr>iter_map = Some m, iter_index = i\<rparr> = map Some (List.map_filter (map_cell m) [i..<map_capacity m])"
  using assms(3)
proof (induction n arbitrary: i)
  case (Suc n)
  obtain e j where loop: "map_iter_loop m ctrl i = (e, j)"
    by force
  then have "bebop_map_iter_next (Some \<lparr>iter_map = Some m, iter_index = i\<rparr>) = (e, Some \<lparr>iter_map = Some m, iter_index = j\<rparr>)"
    by (simp add: bebop_map_iter_next_def inv(2))
  then show ?case
    using iter_loop [OF table_cell(1) [OF inv] inv(2), of i] Suc loop by (cases e) auto
qed simp

lemma iter_entries:
  assumes inv: "map_inv hash eq valid m" and n: "map_length m < n"
  shows "map_collect n (bebop_map_iter_init (Some m)) = map Some (map_entries m)"
proof (cases "map_ctrl m")
  case None
  then have "map_entries m = []"
    using inv by (simp add: map_inv_def map_entries_def List.map_filter_def)
  then show ?thesis
    using None by (cases n) (simp_all add: bebop_map_iter_init_def bebop_map_iter_next_def)
next
  case (Some ctrl)
  then show ?thesis
    using collect_entries [OF inv Some, of 0 n] n length_entries [OF inv]
    by (simp add: bebop_map_iter_init_def map_entries_def)
qed

end

end
