(* ===== verification/Wire_Map_Refinement.thy ===== *)
theory Wire_Map_Refinement
  imports Wire_Map_Table
begin

text \<open>
  The hash map for every key kind of \<^verbatim>\<open>bebop_map_init\<close>, as its clients see it: any sequence of calls
  that starts from initialisation behaves as the same sequence on a finite map, iteration yields every
  entry once, and insertion always returns. It also exhibits a table with free slots in which an
  insertion fails, because the probe sequence stays within one group.
\<close>

lemma size_wrap_code [code]: "size_wrap n = nat (int n mod 18446744073709551616)"
  by (simp add: size_wrap_def nat_mod_distrib)

interpretation mk: map_keys "map_hashes kind" "map_equals kind" "key_valid kind"
  for kind
  by unfold_locales (rule map_equals_iff)

definition map_wf :: "Bebop_MapKeyKind \<Rightarrow> (map_key, 'v) Bebop_Map \<Rightarrow> bool" where
  "map_wf kind = map_inv (map_hashes kind) (map_equals kind) (key_valid kind)"

text \<open>
  The states of a map after calls with valid keys, each with the finite map that the same calls give.
  An insertion counts when it reports success.
\<close>

inductive map_run :: "Bebop_MapKeyKind \<Rightarrow> (map_key, 'v) Bebop_Map \<Rightarrow> (map_key \<rightharpoonup> 'v) \<Rightarrow> bool" for kind where
  init: "bebop_map_init ctx kind = Some m \<Longrightarrow> map_run kind m Map.empty"
| set: "map_run kind m f \<Longrightarrow> key_valid kind k \<Longrightarrow> map_capacity m \<le> 2 ^ 55 \<Longrightarrow>
    bebop_map_set (Some m) ctx k v = Some (True, Some m', ctx') \<Longrightarrow> map_run kind m' (f(k \<mapsto> v))"
| remove: "map_run kind m f \<Longrightarrow> key_valid kind k \<Longrightarrow>
    bebop_map_remove (Some m) k = (removed, Some m') \<Longrightarrow> map_run kind m' (f(k := None))"
| clear: "map_run kind m f \<Longrightarrow> bebop_map_clear (Some m) = Some m' \<Longrightarrow> map_run kind m' Map.empty"

lemma map_run_wf: "map_run kind m f \<Longrightarrow> map_wf kind m \<and> map_abs m = f"
proof (induction rule: map_run.induct)
  case (init ctx m)
  then show ?case
    by (auto simp: bebop_map_init_def map_wf_def map_inv_def map_abs_def map_entries_def List.map_filter_def split: if_splits)
next
  case (set m f k ctx v m' ctx')
  show ?case
    by (rule mk.set_refines [of kind m k ctx v]) (use set in \<open>auto simp: map_wf_def\<close>)
next
  case (remove m f k removed m')
  show ?case
    by (rule mk.remove_refines [of kind m k]) (use remove in \<open>auto simp: map_wf_def\<close>)
next
  case (clear m f m')
  show ?case
    by (rule mk.clear_refines [of kind m]) (use clear in \<open>auto simp: map_wf_def\<close>)
qed

text \<open>
  C3: the hash map implements a finite map. After any sequence of successful insertions, removals and
  clearings with valid keys of its kind, a lookup returns what the sequence stored last for the key,
  removal reports whether the key was there, and the length is the number of keys. No hash value, no
  collision and no tombstone changes this.
\<close>

theorem map_run_refines:
  assumes "map_run kind m f" and "key_valid kind k"
  shows "bebop_map_get (Some m) k = f k \<and> (\<exists>m'. bebop_map_remove (Some m) k = (f k \<noteq> None, Some m'))
    \<and> map_length m = card (dom f)"
proof (intro conjI)
  have wf: "map_inv (map_hashes kind) (map_equals kind) (key_valid kind) m" and abs: "map_abs m = f"
    using map_run_wf [OF assms(1)] by (simp_all add: map_wf_def)
  show "bebop_map_get (Some m) k = f k"
    using mk.get_refines [OF wf assms(2)] abs by simp
  show "\<exists>m'. bebop_map_remove (Some m) k = (f k \<noteq> None, Some m')"
    by (rule mk.remove_refines [OF wf assms(2)]) (use abs in auto)
  have "distinct (map fst (map_entries m))"
    using mk.entries_distinct [OF wf] .
  then have "card (dom (map_abs m)) = length (map_entries m)"
    unfolding map_abs_def dom_map_of_conv_image_fst by (metis distinct_card length_map list.set_map)
  then show "map_length m = card (dom f)"
    using mk.length_entries [OF wf] abs by simp
qed

text \<open>
  C10: insertion is total and never corrupts. In every reachable state an insertion returns; if it
  reports success the key has the new value and nothing else changed, and if it reports failure every
  entry still in the map is one that was there before.
\<close>

theorem map_set_total:
  assumes "map_run kind m f" and "key_valid kind k" and "map_capacity m \<le> 2 ^ 55"
  shows "\<exists>r m' ctx'. bebop_map_set (Some m) ctx k v = Some (r, Some m', ctx') \<and> map_wf kind m' \<and>
     (if r then map_run kind m' (f(k \<mapsto> v)) else (\<forall>k'. key_valid kind k' \<longrightarrow> bebop_map_get (Some m') k' \<in> {None, f k'}))"
proof -
  have wf: "map_inv (map_hashes kind) (map_equals kind) (key_valid kind) m" and abs: "map_abs m = f"
    using map_run_wf [OF assms(1)] by (simp_all add: map_wf_def)
  obtain r m' ctx' where s: "bebop_map_set (Some m) ctx k v = Some (r, Some m', ctx')"
    and wf': "map_inv (map_hashes kind) (map_equals kind) (key_valid kind) m'"
    and res: "if r then map_abs m' = (map_abs m)(k \<mapsto> v) else map_abs m' \<subseteq>\<^sub>m map_abs m"
    by (rule mk.set_refines [OF wf assms(2,3)])
  have "bebop_map_get (Some m') k' \<in> {None, f k'}" if "\<not> r" "key_valid kind k'" for k'
    using res that abs unfolding mk.get_refines [OF wf' that(2)] by (auto simp: map_le_def domIff)
  moreover have "map_run kind m' (f(k \<mapsto> v))" if r
    using map_run.set [OF assms] s that by simp
  ultimately show ?thesis
    using s wf' unfolding map_wf_def by (cases r) auto
qed

text \<open>
  C31: iteration yields every entry exactly once. Calling the iterator of a reachable map yields, before
  the first call that returns false, a list of entries with distinct keys that has one entry for every
  key of the map, with its value; as many calls return true as the map has entries.
\<close>

theorem map_iter_complete:
  assumes "map_run kind m f"
  shows "\<exists>es. map_collect (map_length m + 1) (bebop_map_iter_init (Some m)) = map Some es
     \<and> length es = map_length m \<and> distinct (map fst es) \<and> map_of es = f"
proof -
  have wf: "map_inv (map_hashes kind) (map_equals kind) (key_valid kind) m" and abs: "map_abs m = f"
    using map_run_wf [OF assms(1)] by (simp_all add: map_wf_def)
  show ?thesis
    using mk.iter_entries [OF wf, of "map_length m + 1"] mk.length_entries [OF wf] mk.entries_distinct [OF wf] abs
    by (intro exI [of _ "map_entries m"]) (simp add: map_abs_def)
qed


section \<open>A full group\<close>

text \<open>
  Nine one-byte keys whose hashes start in the first group of a table of sixteen slots, at position 0
  or 1. The four probes of that table add 0, 1, 3 and 6 before they align to a group, so they all
  examine this group.
\<close>

definition crowd :: "byte list" where
  "crowd = [6, 39, 41, 65, 72, 74, 82, 83, 84]"

definition crowd_tags :: "byte list" where
  "crowd_tags = [28, 29, 5, 116, 39, 29, 8, 41, 5]"

definition crowd_starts :: "u64 list" where
  "crowd_starts = [1, 1, 1, 1, 1, 1, 0, 1, 1]"

definition crowd_ctrl :: "nat \<Rightarrow> nat \<Rightarrow> byte list" where
  "crowd_ctrl cap n = take n crowd_tags @ replicate (cap + 8 - n) CTRL_EMPTY"

text \<open>The table with the first \<open>n\<close> of these keys in its first \<open>n\<close> slots.\<close>

definition crowd_map :: "nat \<Rightarrow> nat \<Rightarrow> (map_key, unit) Bebop_Map" where
  "crowd_map cap n = \<lparr>map_ctrl = Some (crowd_ctrl cap n),
     map_slots = map (\<lambda>k. Some ([k], ())) (take n crowd) @ replicate (cap - n) None,
     map_length = n, map_capacity = cap, map_growth_left = cap * 7 div 8 - n,
     map_hash = map_hashes BEBOP_MAP_KEY_U8, map_eq = map_equals BEBOP_MAP_KEY_U8\<rparr>"

definition crowd_loop :: "nat \<Rightarrow> nat \<Rightarrow> nat + nat option" where
  "crowd_loop cap n =
     map_set_loop (crowd_map cap n) (crowd_ctrl cap n) (crowd_tags ! n) (crowd_starts ! n) [crowd ! n]
       [0..<map_max_probes cap] None"

lemma crowd_hashes:
  "list_all (\<lambda>n. H2 (map_hashes BEBOP_MAP_KEY_U8 [crowd ! n]) = crowd_tags ! n \<and>
     H1 (map_hashes BEBOP_MAP_KEY_U8 [crowd ! n]) AND 7 = crowd_starts ! n \<and>
     H1 (map_hashes BEBOP_MAP_KEY_U8 [crowd ! n]) AND 15 = crowd_starts ! n) [0..<9]"
  by code_simp

lemma crowd_loop8: "list_all (\<lambda>n. crowd_loop 8 n = Inr (Some n)) [0..<7]"
  by code_simp

lemma crowd_loop16: "list_all (\<lambda>n. crowd_loop 16 n = Inr (Some n)) [0..<8]"
  by code_simp

lemma crowd_loop_full: "crowd_loop 16 8 = Inr None"
  by code_simp

lemma crowd_lengths: "length crowd = 9" "length crowd_tags = 9"
  by (simp_all add: crowd_def crowd_tags_def)

lemma crowd_insert:
  assumes "n < 9" and "cap = 8 \<or> cap = 16"
  shows "crowd_loop cap n = Inr (Some n) \<Longrightarrow> n < cap * 7 div 8 \<Longrightarrow>
      map_insert (crowd_map cap n) [crowd ! n] () = Some (True, crowd_map cap (Suc n))"
    and "crowd_loop cap n = Inr None \<Longrightarrow> map_insert (crowd_map cap n) [crowd ! n] () = Some (False, crowd_map cap n)"
proof -
  have h: "H2 (map_hashes BEBOP_MAP_KEY_U8 [crowd ! n]) = crowd_tags ! n"
    "H1 (map_hashes BEBOP_MAP_KEY_U8 [crowd ! n]) AND 7 = crowd_starts ! n"
    "H1 (map_hashes BEBOP_MAP_KEY_U8 [crowd ! n]) AND 15 = crowd_starts ! n"
    using crowd_hashes assms(1) by (simp_all add: list_all_iff)
  have loop: "map_set_loop (crowd_map cap n) (crowd_ctrl cap n) (crowd_tags ! n)
      (map_start (crowd_map cap n) [crowd ! n]) [crowd ! n] [0..<map_max_probes (map_capacity (crowd_map cap n))] None
      = crowd_loop cap n"
    using assms(2) h by (auto simp: crowd_loop_def map_start_def crowd_map_def)
  have sel: "map_ctrl (crowd_map cap n) = Some (crowd_ctrl cap n)"
    "map_hash (crowd_map cap n) [crowd ! n] = map_hashes BEBOP_MAP_KEY_U8 [crowd ! n]"
    by (simp_all add: crowd_map_def)
  show "map_insert (crowd_map cap n) [crowd ! n] () = Some (False, crowd_map cap n)" if "crowd_loop cap n = Inr None"
    unfolding map_insert_def sel by (simp only: option.case Let_def h(1) loop that sum.case)
  show "map_insert (crowd_map cap n) [crowd ! n] () = Some (True, crowd_map cap (Suc n))"
    if s: "crowd_loop cap n = Inr (Some n)" "n < cap * 7 div 8"
  proof -
    have n: "n < cap" "n < length crowd" "n < length crowd_tags"
      using s(2) assms crowd_lengths by auto
    have ctrl: "(crowd_ctrl cap n)[n := crowd_tags ! n] = crowd_ctrl cap (Suc n)" "crowd_ctrl cap n ! n = CTRL_EMPTY"
    proof -
      have "cap + 8 - n = Suc (cap + 8 - Suc n)"
        using n(1) by simp
      then show "(crowd_ctrl cap n)[n := crowd_tags ! n] = crowd_ctrl cap (Suc n)" "crowd_ctrl cap n ! n = CTRL_EMPTY"
        unfolding crowd_ctrl_def using n(3) by (simp_all add: list_update_append nth_append take_Suc_conv_app_nth)
    qed
    have slots: "(map (\<lambda>k. Some ([k], ())) (take n crowd) @ replicate (cap - n) None)[n := Some ([crowd ! n], ())] =
        map (\<lambda>k. Some ([k], ())) (take (Suc n) crowd) @ replicate (cap - Suc n) None"
      using n by (simp add: list_update_append take_Suc_conv_app_nth Suc_diff_Suc [symmetric])
    show ?thesis
      unfolding map_insert_def sel
      by (simp only: option.case Let_def loop s(1) sum.case h(1) ctrl)
         (use s(2) n assms(1) in \<open>simp add: crowd_map_def slots size_dec_def\<close>)
  qed
qed


lemma crowd_grow8:
  "bebop__map_grow f (crowd_map 0 0\<lparr>map_ctrl := None\<rparr>) (Some (room_context 0)) = Some (True, crowd_map 8 0, Some (room_context 144))"
  by (simp add: bebop__map_grow_def crowd_map_def crowd_ctrl_def room_context_alloc BEBOP_MAP_INITIAL_CAPACITY_def
      BEBOP_MAP_GROUP_SIZE_def SIZEOF_MAP_SLOT_def BEBOP_MAP_LOAD_FACTOR_def)

lemma crowd_rehash_step:
  assumes "n < 7"
  shows "map_rehash (map_set_fuel (Suc 0)) (Some (crowd_ctrl 8 7)) (map_slots (crowd_map 8 7)) (n # is) (crowd_map 16 n) ctx =
    map_rehash (map_set_fuel (Suc 0)) (Some (crowd_ctrl 8 7)) (map_slots (crowd_map 8 7)) is (crowd_map 16 (Suc n)) ctx"
proof -
  have "crowd_loop 16 n = Inr (Some n)"
    using crowd_loop16 assms by (simp add: list_all_iff)
  then have "map_insert (crowd_map 16 n) [crowd ! n] () = Some (True, crowd_map 16 (Suc n))"
    using assms by (intro crowd_insert(1)) simp_all
  then have "map_set_fuel (Suc 0) (crowd_map 16 n) ctx [crowd ! n] () = Some (True, crowd_map 16 (Suc n), ctx)"
    using assms by (subst mk.set_fuel_no_growth) (simp_all add: crowd_map_def)
  moreover have "CTRL_IS_FULL (crowd_ctrl 8 7 ! n)"
  proof -
    have "list_all CTRL_IS_FULL (take 7 crowd_tags)"
      by code_simp
    then show ?thesis
      using assms crowd_lengths by (simp add: list_all_length crowd_ctrl_def nth_append)
  qed
  moreover have "map_slots (crowd_map 8 7) ! n = Some ([crowd ! n], ())"
    using assms crowd_lengths by (simp add: crowd_map_def nth_append)
  ultimately show ?thesis
    by simp
qed

lemma crowd_grow16:
  "bebop__map_grow (map_set_fuel (Suc 0)) (crowd_map 8 7) (Some (room_context 144)) = Some (True, crowd_map 16 7, Some (room_context 432))"
proof -
  have skip: "map_rehash f (Some (crowd_ctrl 8 7)) (map_slots (crowd_map 8 7)) [7] m c = Some (True, m, c)" for f m c
    using crowd_lengths by (simp add: crowd_ctrl_def nth_append)
  have "map_rehash (map_set_fuel (Suc 0)) (Some (crowd_ctrl 8 7)) (map_slots (crowd_map 8 7)) [n..<8] (crowd_map 16 n) c
      = Some (True, crowd_map 16 7, c)" if "n \<le> 7" for n c
    using that
  proof (induction rule: inc_induct)
    case base
    have "[7..<8] = [7 :: nat]"
      by (simp add: upt_conv_Cons)
    then show ?case
      by (simp only: skip)
  next
    case (step n)
    then have "[n..<8] = n # [Suc n..<8]"
      by (simp add: upt_conv_Cons)
    then show ?case
      using step crowd_rehash_step by metis
  qed
  moreover have "crowd_map 8 7\<lparr>map_ctrl := Some (replicate 24 CTRL_EMPTY), map_slots := replicate 16 None,
      map_capacity := 16, map_length := 0, map_growth_left := 14\<rparr> = crowd_map 16 0"
    by (simp add: crowd_map_def crowd_ctrl_def)
  moreover have "map_capacity (crowd_map 8 7) = 8" "map_ctrl (crowd_map 8 7) = Some (crowd_ctrl 8 7)"
    by (simp_all add: crowd_map_def)
  ultimately show ?thesis
    by (simp add: bebop__map_grow_def room_context_alloc BEBOP_MAP_GROUP_SIZE_def SIZEOF_MAP_SLOT_def BEBOP_MAP_LOAD_FACTOR_def)
qed


definition crowd_fun :: "nat \<Rightarrow> map_key \<rightharpoonup> unit" where
  "crowd_fun n k = (if \<exists>i<n. k = [crowd ! i] then Some () else None)"

lemma crowd_fun_Suc: "(crowd_fun n)([crowd ! n] \<mapsto> ()) = crowd_fun (Suc n)"
  by (auto simp: crowd_fun_def fun_eq_iff less_Suc_eq)

lemma crowd_set8:
  assumes "n < 7"
  shows "\<exists>ctx ctx'. bebop_map_set (Some (if n = 0 then crowd_map 0 0\<lparr>map_ctrl := None\<rparr> else crowd_map 8 n)) ctx [crowd ! n] () =
    Some (True, Some (crowd_map 8 (Suc n)), ctx')"
proof -
  have "crowd_loop 8 n = Inr (Some n)"
    using crowd_loop8 assms by (simp add: list_all_iff)
  then have ins: "map_insert (crowd_map 8 n) [crowd ! n] () = Some (True, crowd_map 8 (Suc n))"
    using assms by (intro crowd_insert(1)) simp_all
  show ?thesis
  proof (cases "n = 0")
    case True
    have "map_growth_left (crowd_map 0 0\<lparr>map_ctrl := None\<rparr>) = 0"
      by (simp add: crowd_map_def)
    then show ?thesis
      using ins True by (intro exI [where x = "Some (room_context 144)", THEN exI [where x = "Some (room_context 0)"]])
        (simp add: bebop_map_set_def map_set_fuel.simps numeral_2_eq_2 crowd_grow8)
  next
    case False
    have "0 < map_growth_left (crowd_map 8 n)"
      using assms by (simp add: crowd_map_def)
    then show ?thesis
      using ins False by (simp add: bebop_map_set_def mk.set_fuel_no_growth numeral_2_eq_2)
  qed
qed

lemma crowd_set16: "bebop_map_set (Some (crowd_map 8 7)) (Some (room_context 144)) [crowd ! 7] () =
    Some (True, Some (crowd_map 16 8), Some (room_context 432))"
proof -
  have "crowd_loop 16 7 = Inr (Some 7)"
    using crowd_loop16 by (simp add: list_all_iff)
  then have "map_insert (crowd_map 16 7) [crowd ! 7] () = Some (True, crowd_map 16 (Suc 7))"
    by (intro crowd_insert(1)) simp_all
  moreover have "map_growth_left (crowd_map 8 7) = 0"
    by (simp add: crowd_map_def)
  ultimately show ?thesis
    by (simp add: bebop_map_set_def map_set_fuel.simps numeral_2_eq_2 crowd_grow16)
qed

lemma crowd_valid: "n < 9 \<Longrightarrow> key_valid BEBOP_MAP_KEY_U8 [crowd ! n]"
  by simp

lemma crowd_run8: "Suc n \<le> 7 \<Longrightarrow> map_run BEBOP_MAP_KEY_U8 (crowd_map 8 (Suc n)) (crowd_fun (Suc n))"
proof (induction n)
  case 0
  have "bebop_map_init (Some (room_context 0)) BEBOP_MAP_KEY_U8 = Some (crowd_map 0 0\<lparr>map_ctrl := None\<rparr>)"
    by (simp add: bebop_map_init_def crowd_map_def)
  moreover have "Map.empty = crowd_fun 0"
    by (simp add: crowd_fun_def fun_eq_iff)
  ultimately have "map_run BEBOP_MAP_KEY_U8 (crowd_map 0 0\<lparr>map_ctrl := None\<rparr>) (crowd_fun 0)"
    using map_run.init by metis
  moreover obtain ctx ctx' where "bebop_map_set (Some (crowd_map 0 0\<lparr>map_ctrl := None\<rparr>)) ctx [crowd ! 0] () = Some (True, Some (crowd_map 8 (Suc 0)), ctx')"
    using crowd_set8 [of 0] by auto
  ultimately show ?case
    unfolding crowd_fun_Suc [symmetric]
    by (intro map_run.set [where m = "crowd_map 0 0\<lparr>map_ctrl := None\<rparr>"] crowd_valid) (simp_all add: crowd_map_def)
next
  case (Suc n)
  then obtain ctx ctx' where "bebop_map_set (Some (crowd_map 8 (Suc n))) ctx [crowd ! Suc n] () = Some (True, Some (crowd_map 8 (Suc (Suc n))), ctx')"
    using crowd_set8 [of "Suc n"] by auto
  then show ?case
    using Suc unfolding crowd_fun_Suc [symmetric, of "Suc n"]
    by (intro map_run.set [where m = "crowd_map 8 (Suc n)"] crowd_valid) (simp_all add: crowd_map_def)
qed

lemma crowd_run16: "map_run BEBOP_MAP_KEY_U8 (crowd_map 16 8) (crowd_fun 8)"
proof -
  have "map_run BEBOP_MAP_KEY_U8 (crowd_map 8 7) (crowd_fun 7)"
    using crowd_run8 [of 6] by simp
  from map_run.set [OF this crowd_valid [of 7] _ crowd_set16] show ?thesis
    using crowd_fun_Suc [of 7] by (simp add: crowd_map_def)
qed

text \<open>
  C36: an insertion can fail although the table has room. After eight insertions into a map with one-byte
  keys the table has sixteen slots and room for six more entries before it grows, yet the insertion of
  the key 84 returns false, whatever the context: all four probes examine the same full group, and a
  full probe sequence does not make the table grow.
\<close>

theorem map_set_fails_with_room:
  "\<exists>(m :: (map_key, unit) Bebop_Map) f. map_run BEBOP_MAP_KEY_U8 m f \<and> key_valid BEBOP_MAP_KEY_U8 [84] \<and>
     map_length m = 8 \<and> map_capacity m = 16 \<and> map_growth_left m = 6 \<and>
     (\<forall>ctx. bebop_map_set (Some m) ctx [84] () = Some (False, Some m, ctx))"
proof (intro exI conjI allI)
  show "map_run BEBOP_MAP_KEY_U8 (crowd_map 16 8) (crowd_fun 8)"
    by (rule crowd_run16)
  have k: "crowd ! 8 = 84"
    by (simp add: crowd_def)
  show "key_valid BEBOP_MAP_KEY_U8 [84]"
    using crowd_valid [of 8] k by simp
  have left: "0 < map_growth_left (crowd_map 16 8)"
    by (simp add: crowd_map_def)
  show "bebop_map_set (Some (crowd_map 16 8)) ctx [84] () = Some (False, Some (crowd_map 16 8), ctx)" for ctx
    using crowd_insert(2) [OF _ _ crowd_loop_full] left k
    by (simp add: bebop_map_set_def mk.set_fuel_no_growth numeral_2_eq_2)
qed (simp_all add: crowd_map_def)


text \<open>
  C32: every probe of a reachable map is memory safe. The word that a probe loads lies within the control
  bytes, and each slot whose key is then compared, also on a false match of the word comparison, lies
  within the table and has been written with a valid key.
\<close>

theorem map_probe_safe:
  assumes "map_run kind m f" and "map_ctrl m = Some ctrl" and "g = map_group_start (map_capacity m) start p"
  shows "g + 8 \<le> length ctrl \<and>
    (\<forall>i. lane (bebop__map_match_h2 (map_ctrl_word ctrl g) (H2 h)) i \<longrightarrow>
       g + i < length (map_slots m) \<and> (\<exists>k v. map_slots m ! (g + i) = Some (k, v) \<and> key_valid kind k))"
proof (intro conjI allI impI)
  have wf: "map_inv (map_hashes kind) (map_equals kind) (key_valid kind) m"
    using map_run_wf [OF assms(1)] by (simp add: map_wf_def)
  note t = mk.table_cell [OF wf assms(2)]
  have g: "g + 8 \<le> map_capacity m"
    using group_start_bounds(2) [OF t(2)] assms(3) by simp
  then show "g + 8 \<le> length ctrl"
    using t(3) by simp
  fix i
  assume lane: "lane (bebop__map_match_h2 (map_ctrl_word ctrl g) (H2 h)) i"
  then have i: "i < 8"
    by (rule lane_bound)
  then show "g + i < length (map_slots m)"
    using g t(4) by simp
  have len: "length (span_at g 8 ctrl) = 8"
    using g t(3) by simp
  have "CTRL_IS_FULL (ctrl ! (g + i))"
    using match_h2_lanes(3) [OF len i, of "H2 h", folded map_ctrl_word_def, OF lane] i g t(3) H2_full by auto
  then show "\<exists>k v. map_slots m ! (g + i) = Some (k, v) \<and> key_valid kind k"
    using mk.full_cell [OF t(1) assms(2), of "g + i"] g i by (metis add_less_cancel_left order_less_le_trans)
qed

theorem map_probe_safe_witness:
  "map_run BEBOP_MAP_KEY_U8 (crowd_map 16 8) (crowd_fun 8) \<and> map_group_start 16 1 3 + 8 \<le> length (crowd_ctrl 16 8)"
  using map_probe_safe [OF crowd_run16, of "crowd_ctrl 16 8" "map_group_start 16 1 3" 1 3] crowd_run16
  by (simp add: crowd_map_def)

theorem map_run_refines_witness:
  "map_run BEBOP_MAP_KEY_U8 (crowd_map 16 8) (crowd_fun 8) \<and> key_valid BEBOP_MAP_KEY_U8 [crowd ! 3] \<and>
   bebop_map_get (Some (crowd_map 16 8)) [crowd ! 3] = Some ()"
proof -
  have "crowd_fun 8 [crowd ! 3] = Some ()"
    by (auto simp: crowd_fun_def intro: exI [of _ 3])
  then show ?thesis
    using map_run_refines [OF crowd_run16 crowd_valid [of 3]] crowd_run16 crowd_valid [of 3] by simp
qed

theorem map_set_total_witness:
  "map_capacity (crowd_map 16 8) \<le> 2 ^ 55 \<and>
   (\<exists>r m' ctx'. bebop_map_set (Some (crowd_map 16 8)) None [crowd ! 8] () = Some (r, Some m', ctx') \<and> map_wf BEBOP_MAP_KEY_U8 m')"
proof -
  have cap: "map_capacity (crowd_map 16 8) \<le> 2 ^ 55"
    by (simp add: crowd_map_def)
  show ?thesis
    using map_set_total [OF crowd_run16 crowd_valid [of 8] cap, of None "()"] cap by auto
qed

theorem map_iter_complete_witness:
  "\<exists>es. map_collect (map_length (crowd_map 16 8) + 1) (bebop_map_iter_init (Some (crowd_map 16 8))) = map Some es
     \<and> distinct (map fst es) \<and> map_of es = crowd_fun 8"
  using map_iter_complete [OF crowd_run16] by auto

end
