(* ===== verification/Wire_Values.thy ===== *)
theory Wire_Values
  imports Wire_Reader
begin

text \<open>
  The value helpers of \<^verbatim>\<open>bebop_wire.c\<close> and \<^verbatim>\<open>bebop_wire.h\<close>: C strings, string and UUID equality, the
  text form of UUIDs and the portable conversions of bfloat16. A C string is the list of its bytes;
  reading at the end of the list yields the terminator.
\<close>

type_synonym cstring = "byte list"

definition cstr_at :: "cstring \<Rightarrow> nat \<Rightarrow> byte" where
  "cstr_at s i = (if i < length s then s ! i else 0)"

section \<open>Strings\<close>

text \<open>\<^verbatim>\<open>strlen\<close>, and the loop of the runtime that computes the same.\<close>

definition strlen :: "cstring \<Rightarrow> nat" where
  "strlen s = length (takeWhile (\<lambda>c. c \<noteq> 0) s)"

function cstrlen_loop :: "cstring \<Rightarrow> nat \<Rightarrow> nat" where
  "cstrlen_loop s p = (if cstr_at s p \<noteq> 0 then cstrlen_loop s (p + 1) else p)"
  by pat_completeness auto
termination
  by (relation "measure (\<lambda>(s, p). length s - p)") (auto simp: cstr_at_def split: if_splits)

declare cstrlen_loop.simps [simp del]

definition bebop__cstrlen :: "cstring \<Rightarrow> nat" where
  "bebop__cstrlen s = cstrlen_loop s 0"

record Bebop_String =
  str_data :: "byte list option"
  str_length :: nat

definition bebop_string :: "cstring option \<Rightarrow> Bebop_String" where
  "bebop_string str = \<lparr>str_data = str, str_length = (case str of None \<Rightarrow> 0 | Some s \<Rightarrow> strlen s)\<rparr>"

definition bebop_string_view :: "byte list option \<Rightarrow> nat \<Rightarrow> Bebop_String" where
  "bebop_string_view data len = \<lparr>str_data = data, str_length = len\<rparr>"

text \<open>\<^verbatim>\<open>memcmp\<close> on two spans; there is no result when a null pointer or bytes outside a span are read.\<close>

definition memcmp_eq :: "byte list option \<Rightarrow> byte list option \<Rightarrow> nat \<Rightarrow> bool option" where
  "memcmp_eq a b n =
     (case (a, b) of
        (Some xs, Some ys) \<Rightarrow> if n \<le> length xs \<and> n \<le> length ys then Some (take n xs = take n ys) else None
      | _ \<Rightarrow> None)"

definition bebop_string_equal :: "Bebop_String \<Rightarrow> Bebop_String \<Rightarrow> bool option" where
  "bebop_string_equal a b =
     (if str_length a = str_length b
      then if str_length a = 0 then Some True else memcmp_eq (str_data a) (str_data b) (str_length a)
      else Some False)"

definition bebop_uuid_equal :: "Bebop_UUID \<Rightarrow> Bebop_UUID \<Rightarrow> bool option" where
  "bebop_uuid_equal a b = memcmp_eq (Some a) (Some b) 16"

section \<open>UUID text\<close>

definition BEBOP_WIRE_UUID_STR_LEN :: nat where
  "BEBOP_WIRE_UUID_STR_LEN = 36"

definition bebop__wire_ascii_to_hex :: "byte list" where
  "bebop__wire_ascii_to_hex =
     replicate 48 0 @ [0, 1, 2, 3, 4, 5, 6, 7, 8, 9] @ replicate 7 0 @ [10, 11, 12, 13, 14, 15] @
     replicate 26 0 @ [10, 11, 12, 13, 14, 15] @ replicate 153 0"

definition bebop__wire_hex_chars :: "byte list" where
  "bebop__wire_hex_chars =
     [0x30, 0x31, 0x32, 0x33, 0x34, 0x35, 0x36, 0x37, 0x38, 0x39, 0x61, 0x62, 0x63, 0x64, 0x65, 0x66]"

text \<open>\<^verbatim>\<open>isxdigit\<close> of the C locale.\<close>

definition isxdigit :: "byte \<Rightarrow> bool" where
  "isxdigit c \<longleftrightarrow> 0x30 \<le> c \<and> c \<le> 0x39 \<or> 0x41 \<le> c \<and> c \<le> 0x46 \<or> 0x61 \<le> c \<and> c \<le> 0x66"

abbreviation zero_uuid :: Bebop_UUID where
  "zero_uuid \<equiv> replicate 16 0"

text \<open>The loop of \<open>bebop_uuid_parse\<close> from the position \<open>s\<close>; \<open>None\<close> is the early return of the zero UUID.\<close>

function uuid_parse_loop :: "cstring \<Rightarrow> nat \<Rightarrow> byte list \<Rightarrow> byte list option" where
  "uuid_parse_loop str s bytes =
     (if cstr_at str s \<noteq> 0 \<and> length bytes < 16
      then if cstr_at str s = 0x2D then uuid_parse_loop str (s + 1) bytes
           else if cstr_at str (s + 1) = 0 then None
           else if \<not> isxdigit (cstr_at str s) \<or> \<not> isxdigit (cstr_at str (s + 1)) then None
           else
             let high = bebop__wire_ascii_to_hex ! unat (cstr_at str s);
                 low = bebop__wire_ascii_to_hex ! unat (cstr_at str (s + 1))
             in uuid_parse_loop str (s + 2) (bytes @ [push_bit 4 high OR low])
      else Some bytes)"
  by pat_completeness auto
termination
  by (relation "measure (\<lambda>(str, s, bytes). length str - s)") (auto simp: cstr_at_def split: if_splits)

declare uuid_parse_loop.simps [simp del]

definition bebop_uuid_parse :: "cstring option \<Rightarrow> Bebop_UUID" where
  "bebop_uuid_parse str =
     (case str of
        None \<Rightarrow> zero_uuid
      | Some s \<Rightarrow>
          (case uuid_parse_loop s 0 [] of
             None \<Rightarrow> zero_uuid
           | Some bytes \<Rightarrow> if length bytes \<noteq> 16 then zero_uuid else bytes))"

text \<open>The characters that formatting writes, and the buffer after it.\<close>

definition uuid_chars :: "Bebop_UUID \<Rightarrow> byte list" where
  "uuid_chars uuid =
     concat (map (\<lambda>i. (if i = 4 \<or> i = 6 \<or> i = 8 \<or> i = 10 then [0x2D] else []) @
       [bebop__wire_hex_chars ! unat (drop_bit 4 (uuid ! i) AND 0xF), bebop__wire_hex_chars ! unat (uuid ! i AND 0xF)]) [0..<16])"

definition bebop_uuid_format :: "Bebop_UUID \<Rightarrow> byte list option \<Rightarrow> nat \<times> byte list option" where
  "bebop_uuid_format uuid buf =
     (case buf of
        None \<Rightarrow> (0, None)
      | Some b \<Rightarrow>
          if length b < BEBOP_WIRE_UUID_STR_LEN + 1 then (0, buf)
          else (BEBOP_WIRE_UUID_STR_LEN, Some (uuid_chars uuid @ [0] @ drop (length (uuid_chars uuid) + 1) b)))"

section \<open>bfloat16\<close>

text \<open>The conversions of targets without the type; a \<^verbatim>\<open>float\<close> is its bit pattern.\<close>

definition bebop_bfloat16_to_float :: "u16 \<Rightarrow> u32" where
  "bebop_bfloat16_to_float v = push_bit 16 (ucast v)"

definition bebop_bfloat16_from_float :: "u32 \<Rightarrow> u16" where
  "bebop_bfloat16_from_float f =
     (let bits = f + (0x7FFF + (drop_bit 16 f AND 1))
      in ucast (drop_bit 16 bits))"


section \<open>What UUID text means\<close>

text \<open>Pairs of hexadecimal digits, with dashes before, between and after the pairs.\<close>

definition hex_value :: "byte \<Rightarrow> byte" where
  "hex_value c = bebop__wire_ascii_to_hex ! unat c"

inductive uuid_text :: "byte list \<Rightarrow> byte list \<Rightarrow> bool" where
  Nil: "uuid_text [] []"
| Dash: "uuid_text t bs \<Longrightarrow> uuid_text (0x2D # t) bs"
| Pair: "isxdigit c \<Longrightarrow> isxdigit d \<Longrightarrow> uuid_text t bs \<Longrightarrow>
    uuid_text (c # d # t) ((push_bit 4 (hex_value c) OR hex_value d) # bs)"

lemma isxdigit_cases: "isxdigit c \<Longrightarrow> c \<noteq> 0 \<and> c \<noteq> 0x2D"
  by (auto simp: isxdigit_def)

lemma cstr_at_append [simp]: "cstr_at (xs @ ys) (length xs + n) = cstr_at ys n" "cstr_at (xs @ ys) (length xs) = cstr_at ys 0"
  by (simp_all add: cstr_at_def nth_append)

lemma cstr_at_Cons [simp]: "cstr_at (c # cs) 0 = c" "cstr_at (c # cs) (Suc n) = cstr_at cs n"
  by (simp_all add: cstr_at_def)

lemma parse_loop_complete:
  assumes "uuid_text t bs" and "length bytes + length bs = 16"
  shows "uuid_parse_loop (pre @ t @ r) (length pre) bytes = Some (bytes @ bs)"
  using assms
proof (induction arbitrary: pre bytes)
  case Nil
  then show ?case
    by (simp add: uuid_parse_loop.simps)
next
  case (Dash t bs)
  show ?case
  proof (cases "length bytes = 16")
    case True
    then show ?thesis
      using Dash.prems by (simp add: uuid_parse_loop.simps)
  next
    case False
    then show ?thesis
      using Dash.prems Dash.IH [of bytes "pre @ [0x2D]"] by (subst uuid_parse_loop.simps) simp
  qed
next
  case (Pair c d t bs)
  note c = isxdigit_cases [OF Pair.hyps(1)] and d = isxdigit_cases [OF Pair.hyps(2)]
  have "uuid_parse_loop (pre @ (c # d # t) @ r) (length pre) bytes =
      uuid_parse_loop (pre @ (c # d # t) @ r) (length pre + 2) (bytes @ [push_bit 4 (hex_value c) OR hex_value d])"
    using c d Pair.hyps Pair.prems cstr_at_append(1) [of pre "c # d # t @ r" 1]
    by (subst uuid_parse_loop.simps) (simp add: hex_value_def Let_def del: cstr_at_append(1))
  then show ?case
    using Pair.IH [of "bytes @ [push_bit 4 (hex_value c) OR hex_value d]" "pre @ [c, d]"] Pair.prems by simp
qed

lemma parse_loop_sound:
  assumes "uuid_parse_loop str s bytes = Some bs" and "s \<le> length str"
  shows "\<exists>t r us. drop s str = t @ r \<and> uuid_text t us \<and> bs = bytes @ us"
  using assms
proof (induction str s bytes rule: uuid_parse_loop.induct)
  case (1 str s bytes)
  let ?c = "cstr_at str s" and ?d = "cstr_at str (s + 1)"
  show ?case
  proof (cases "?c \<noteq> 0 \<and> length bytes < 16")
    case False
    then have "bs = bytes"
      using "1.prems"(1) by (subst (asm) uuid_parse_loop.simps) auto
    then show ?thesis
      using uuid_text.Nil by (metis append_Nil append_Nil2)
  next
    case True
    then have s: "s < length str" "?c = str ! s"
      by (auto simp: cstr_at_def split: if_splits)
    show ?thesis
    proof (cases "?c = 0x2D")
      case dash: True
      then have "uuid_parse_loop str (s + 1) bytes = Some bs"
        using True "1.prems"(1) by (subst (asm) uuid_parse_loop.simps) simp
      then obtain t r us where "drop (s + 1) str = t @ r" "uuid_text t us" "bs = bytes @ us"
        using "1.IH"(1) [OF True dash] s(1) by auto
      then show ?thesis
        using s dash uuid_text.Dash by (metis append_Cons Cons_nth_drop_Suc Suc_eq_plus1)
    next
      case pair: False
      let ?b = "push_bit 4 (hex_value ?c) OR hex_value ?d"
      have ok: "?d \<noteq> 0" "isxdigit ?c" "isxdigit ?d" "uuid_parse_loop str (s + 2) (bytes @ [?b]) = Some bs"
        using True pair "1.prems"(1) unfolding hex_value_def
        by (subst (asm) uuid_parse_loop.simps, simp add: Let_def split: if_splits)+
      have d: "s + 1 < length str" "?d = str ! (s + 1)"
        using ok(1) by (auto simp: cstr_at_def split: if_splits)
      obtain t r us where "drop (s + 2) str = t @ r" "uuid_text t us" "bs = (bytes @ [?b]) @ us"
        using "1.IH"(2) [OF True pair _ _ refl refl] ok d(1) unfolding hex_value_def by auto
      moreover have "drop s str = ?c # ?d # drop (s + 2) str"
        using s d by (metis Cons_nth_drop_Suc Suc_eq_plus1 add_2_eq_Suc')
      ultimately show ?thesis
        using uuid_text.Pair [OF ok(2,3)] by (metis append_Cons append.assoc append_Nil)
    qed
  qed
qed

lemma hex_chars: "n < 16 \<Longrightarrow> isxdigit (bebop__wire_hex_chars ! n) \<and> unat (hex_value (bebop__wire_hex_chars ! n)) = n"
proof -
  have "list_all (\<lambda>n. isxdigit (bebop__wire_hex_chars ! n) \<and> unat (hex_value (bebop__wire_hex_chars ! n)) = n) [0..<16]"
    by code_simp
  then show "n < 16 \<Longrightarrow> isxdigit (bebop__wire_hex_chars ! n) \<and> unat (hex_value (bebop__wire_hex_chars ! n)) = n"
    by (simp add: list_all_iff)
qed

lemma nibble:
  fixes b :: byte
  shows "unat (b AND 0xF) < 16" and "push_bit 4 (drop_bit 4 b AND 0xF) OR (b AND 0xF) = b"
proof -
  have m: "(0xF :: byte) = mask 4"
    by (simp add: mask_eq_decr_exp)
  have "b AND 0xF \<le> 0xF"
    by (rule word_and_le1)
  then show "unat (b AND 0xF) < 16"
    by (simp add: word_le_nat_alt)
  show "push_bit 4 (drop_bit 4 b AND 0xF) OR (b AND 0xF) = b"
    unfolding m
    by (rule bit_word_eqI) (auto simp: bit_or_iff bit_and_iff bit_push_bit_iff bit_drop_bit_eq bit_mask_iff)
qed

lemma byte_text:
  "uuid_text t bs \<Longrightarrow>
     uuid_text (bebop__wire_hex_chars ! unat (drop_bit 4 b AND 0xF) # bebop__wire_hex_chars ! unat (b AND 0xF) # t) (b # bs)"
  using uuid_text.Pair [of "bebop__wire_hex_chars ! unat (drop_bit 4 b AND 0xF)" "bebop__wire_hex_chars ! unat (b AND 0xF)" t bs]
    hex_chars nibble(1) [of "drop_bit 4 b"] nibble(1) [of b] nibble(2) [of b] word_unat_eq_iff by metis

lemma uuid_chars_text:
  assumes "length u = 16"
  shows "uuid_text (uuid_chars u) u"
proof -
  let ?f = "\<lambda>i. (if i = 4 \<or> i = 6 \<or> i = 8 \<or> i = 10 then [0x2D] else []) @
       [bebop__wire_hex_chars ! unat (drop_bit 4 (u ! i) AND 0xF), bebop__wire_hex_chars ! unat (u ! i AND 0xF)]"
  have "uuid_text (concat (map ?f [i..<16])) (drop i u)" if "i \<le> 16" for i
    using that
  proof (induction rule: inc_induct)
    case base
    then show ?case
      using assms uuid_text.Nil by simp
  next
    case (step i)
    have "[i..<16] = i # [Suc i..<16]" "drop i u = u ! i # drop (Suc i) u"
      using step assms by (simp_all add: upt_conv_Cons Cons_nth_drop_Suc)
    then show ?case
      using byte_text [OF step.IH, of "u ! i"] uuid_text.Dash by auto
  qed
  from this [of 0] show ?thesis
    by (simp add: uuid_chars_def)
qed

lemma length_uuid_chars: "length (uuid_chars u) = 36"
  by (simp add: uuid_chars_def upt_rec)

text \<open>
  UUID parsing accepts exactly hexadecimal text. A string that starts with sixteen pairs of
  hexadecimal digits, with any dashes around the pairs, parses to their bytes, whatever follows; and
  whatever parses to something other than the zero UUID has that form.
\<close>

theorem uuid_parse_exact:
  "(\<forall>t r u. uuid_text t u \<and> length u = 16 \<longrightarrow> bebop_uuid_parse (Some (t @ r)) = u) \<and>
   (\<forall>s. bebop_uuid_parse (Some s) \<noteq> zero_uuid \<longrightarrow>
      (\<exists>t r. s = t @ r \<and> uuid_text t (bebop_uuid_parse (Some s)) \<and> length (bebop_uuid_parse (Some s)) = 16))"
proof (intro conjI allI impI)
  fix t r u
  assume "uuid_text t u \<and> length u = 16"
  then show "bebop_uuid_parse (Some (t @ r)) = u"
    using parse_loop_complete [of t u "[]" "[]" r] by (simp add: bebop_uuid_parse_def)
next
  fix s
  assume "bebop_uuid_parse (Some s) \<noteq> zero_uuid"
  then obtain u where u: "uuid_parse_loop s 0 [] = Some u" "length u = 16" "bebop_uuid_parse (Some s) = u"
    by (auto simp: bebop_uuid_parse_def split: option.splits if_splits)
  then show "\<exists>t r. s = t @ r \<and> uuid_text t (bebop_uuid_parse (Some s)) \<and> length (bebop_uuid_parse (Some s)) = 16"
    using parse_loop_sound [OF u(1)] by auto
qed

text \<open>
  Formatting and parsing a UUID are inverse. Formatting into a buffer of at least 37 bytes writes 36
  characters and the terminator and nothing after them, and parsing the buffer gives the UUID back; a
  smaller buffer is left alone.
\<close>

theorem uuid_format_roundtrip:
  assumes "length u = 16"
  shows "if length buf < 37 then bebop_uuid_format u (Some buf) = (0, Some buf)
    else (\<exists>buf'. bebop_uuid_format u (Some buf) = (36, Some buf') \<and> length buf' = length buf
      \<and> buf' ! 36 = 0 \<and> drop 37 buf' = drop 37 buf \<and> bebop_uuid_parse (Some buf') = u)"
proof (cases "length buf < 37")
  case False
  then show ?thesis
    using assms parse_loop_complete [OF uuid_chars_text [OF assms], of "[]" "[]" "0 # drop 37 buf"]
    by (simp, intro exI [of _ "uuid_chars u @ 0 # drop 37 buf"])
       (simp add: bebop_uuid_format_def BEBOP_WIRE_UUID_STR_LEN_def length_uuid_chars nth_append bebop_uuid_parse_def)
qed (simp add: bebop_uuid_format_def BEBOP_WIRE_UUID_STR_LEN_def)

theorem uuid_format_roundtrip_witness:
  "length (map of_nat [0..<16] :: byte list) = 16 \<and>
   (\<exists>buf'. bebop_uuid_format (map of_nat [0..<16]) (Some (replicate 40 7)) = (36, Some buf')
      \<and> bebop_uuid_parse (Some buf') = map of_nat [0..<16])"
  using uuid_format_roundtrip [of "map of_nat [0..<16]" "replicate 40 7"] by auto

theorem uuid_parse_exact_witness:
  "uuid_text [0x2D, 0x41, 0x66] [0xAF] \<and>
   bebop_uuid_parse (Some (concat (replicate 16 [0x2D, 0x41, 0x66]))) = replicate 16 0xAF"
proof -
  have one: "uuid_text t bs \<Longrightarrow> uuid_text ([0x2D, 0x41, 0x66] @ t) (0xAF # bs)" for t bs
  proof -
    have "isxdigit 0x41 \<and> isxdigit 0x66 \<and> push_bit 4 (hex_value 0x41) OR hex_value 0x66 = 0xAF"
      by code_simp
    then show "uuid_text t bs \<Longrightarrow> uuid_text ([0x2D, 0x41, 0x66] @ t) (0xAF # bs)"
      using uuid_text.Dash uuid_text.Pair by (metis append_Cons append_Nil)
  qed
  have "uuid_text (concat (replicate n [0x2D, 0x41, 0x66])) (replicate n 0xAF)" for n
    by (induction n) (use one uuid_text.Nil in auto)
  then show ?thesis
    using uuid_parse_exact one [OF uuid_text.Nil] by (metis append_Nil2 length_replicate)
qed

section \<open>Rounding to bfloat16\<close>

lemma unat_bfloat16_to_float: "unat (bebop_bfloat16_to_float v) = unat v * 65536"
proof -
  have v: "unat v < 65536"
    using unsigned_less [of v] by simp
  then have "unat (ucast v :: u32) = unat v"
    by (simp add: unsigned_ucast_eq take_bit_nat_eq_self)
  then show ?thesis
    using v by (simp add: bebop_bfloat16_to_float_def push_bit_eq_mult unat_mult_lem [THEN iffD1] unat_word_ariths)
qed

lemma unat_bfloat16_from_float:
  assumes "unat f + 0x8000 < 2 ^ 32"
  shows "unat (bebop_bfloat16_from_float f) = (unat f + 32767 + unat f div 65536 mod 2) div 65536"
proof -
  have "unat (drop_bit 16 f AND 1) = unat f div 65536 mod 2"
    by (simp only: and_one_eq unat_mod unsigned_drop_bit_eq drop_bit_eq_div take_bit_word_eq_self) (simp add: unat_div)
  then have "unat (f + (0x7FFF + (drop_bit 16 f AND 1))) = unat f + 32767 + unat f div 65536 mod 2"
    using assms by (simp add: unat_word_ariths)
  moreover have "(unat f + 32767 + unat f div 65536 mod 2) div 65536 < 65536"
    using assms by (simp add: div_less_iff_less_mult)
  ultimately show ?thesis
    by (simp add: bebop_bfloat16_from_float_def Let_def unsigned_ucast_eq drop_bit_eq_div unat_div take_bit_nat_eq_self)
qed

lemma round_half_even:
  fixes n :: nat
  defines "m \<equiv> (n + 32767 + n div 65536 mod 2) div 65536"
  shows "\<bar>int (m * 65536) - int n\<bar> \<le> 32768" and "n mod 65536 = 32768 \<Longrightarrow> even m" and "n mod 65536 = 0 \<Longrightarrow> m * 65536 = n"
proof -
  define q r l where "q = n div 65536" and "r = n mod 65536" and "l = q mod 2"
  have n: "n = 65536 * q + r" and r: "r < 65536" and l: "l = 0 \<or> l = 1"
    by (auto simp: q_def r_def l_def)
  have "n + 32767 + l = (r + 32767 + l) + q * 65536"
    by (simp add: n)
  then have m: "m = q + (r + 32767 + l) div 65536"
    unfolding m_def q_def [symmetric] l_def [symmetric] by simp
  have c: "(r + 32767 + l) div 65536 = (if r + 32767 + l < 65536 then 0 else 1)"
    using r l by (auto simp: div_eq_dividend_iff intro!: div_nat_eqI)
  show "\<bar>int (m * 65536) - int n\<bar> \<le> 32768"
    unfolding m c n using r l by auto
  show "even m" if "n mod 65536 = 32768"
    using that l unfolding m c r_def [symmetric] by (auto simp: l_def odd_iff_mod_2_eq_one)
  show "m * 65536 = n" if "n mod 65536 = 0"
    using that l n unfolding m c r_def [symmetric] by auto
qed

text \<open>
  The portable bfloat16 conversion rounds to nearest, ties to even. Where the addition does not
  carry out of the 32 bits, the converted value differs from the argument by at most half a unit in
  the last place, a tie goes to the even neighbour, and values that have a bfloat16 are kept.
\<close>

theorem bfloat16_rounds:
  assumes "unat (f :: u32) + 0x8000 < 2 ^ 32"
  shows "\<bar>int (unat (bebop_bfloat16_to_float (bebop_bfloat16_from_float f))) - int (unat f)\<bar> \<le> 0x8000 \<and>
    (unat f mod 0x10000 = 0x8000 \<longrightarrow> even (unat (bebop_bfloat16_from_float f))) \<and>
    (unat f mod 0x10000 = 0 \<longrightarrow> bebop_bfloat16_to_float (bebop_bfloat16_from_float f) = f)"
proof (intro conjI impI)
  note eq = unat_bfloat16_to_float unat_bfloat16_from_float [OF assms]
  show "\<bar>int (unat (bebop_bfloat16_to_float (bebop_bfloat16_from_float f))) - int (unat f)\<bar> \<le> 0x8000"
    unfolding eq by (rule round_half_even(1))
  show "even (unat (bebop_bfloat16_from_float f))" if "unat f mod 0x10000 = 0x8000"
    unfolding eq by (rule round_half_even(2)) (use that in simp)
  show "bebop_bfloat16_to_float (bebop_bfloat16_from_float f) = f" if "unat f mod 0x10000 = 0"
  proof -
    have "unat (bebop_bfloat16_to_float (bebop_bfloat16_from_float f)) = unat f"
      unfolding eq by (rule round_half_even(3)) (use that in simp)
    then show ?thesis
      by (simp only: word_unat_eq_iff)
  qed
qed

theorem bfloat16_rounds_witness:
  "unat (0x40498000 :: u32) + 0x8000 < 2 ^ 32 \<and> even (unat (bebop_bfloat16_from_float 0x40498000))"
  using bfloat16_rounds [of "0x40498000"] by simp

lemma bfloat16_nan_lost: "bebop_bfloat16_from_float 0x7FFFFFFF = 0x8000"
  by code_simp

end
