(* ===== verification/Wire_Any.thy ===== *)
theory Wire_Any
  imports Wire_Writer Wire_Values
begin

text \<open>
  The dynamically typed values of \<^verbatim>\<open>bebop_wire.c\<close>: a value is packed as its encoding together with a
  type URL, whose part after the last slash is the name of the type. The callbacks of a type are
  parameters; what packing and unpacking rely on is the locale \<open>any_codec\<close>, which structs of wire
  values interpret.
\<close>

section \<open>Data\<close>

record 'r Bebop_TypeInfo =
  info_type_fqn :: "cstring option"
  info_prefix :: "cstring option"
  info_size_fn :: "('r \<Rightarrow> nat) option"
  info_encode_fn :: "(Bebop_Writer option \<Rightarrow> Bebop_Context \<Rightarrow> 'r \<Rightarrow> wr_result) option"
  info_decode_fn :: "(Bebop_Context \<Rightarrow> Bebop_Reader \<Rightarrow> 'r \<Rightarrow> Bebop_Result \<times> Bebop_Context \<times> Bebop_Reader \<times> 'r) option"

record bebop_any_layout =
  type_url :: Bebop_String
  any_value :: "byte list option"

text \<open>\<^verbatim>\<open>"type.bebop.sh/"\<close>\<close>

definition BEBOP_TYPE_URL_PREFIX :: cstring where
  "BEBOP_TYPE_URL_PREFIX =
     [0x74, 0x79, 0x70, 0x65, 0x2E, 0x62, 0x65, 0x62, 0x6F, 0x70, 0x2E, 0x73, 0x68, 0x2F]"

section \<open>Operations\<close>

definition any_pack_value ::
  "Bebop_Context option \<Rightarrow> bebop_any_layout \<Rightarrow> 'r \<Rightarrow> ('r \<Rightarrow> nat) \<Rightarrow> (Bebop_Writer option \<Rightarrow> Bebop_Context \<Rightarrow> 'r \<Rightarrow> wr_result)
     \<Rightarrow> Bebop_Result \<times> bebop_any_layout option \<times> Bebop_Context option" where
  "any_pack_value ctx a record sz enc =
     (case bebop_context_writer ctx (sz record) of
        (Some w, Some ctx1) \<Rightarrow>
          (case enc (Some w) ctx1 record of
             (r, wr, ctx2) \<Rightarrow>
               if r \<noteq> BEBOP_RESULT_OK then (r, Some a, Some ctx2)
               else (BEBOP_RESULT_OK, Some (a\<lparr>any_value := bebop_writer_view wr\<rparr>), Some ctx2))
      | (_, ctx1) \<Rightarrow> (BEBOP_RESULT_OOM, Some a, ctx1))"

definition bebop_any_pack ::
  "Bebop_Context option \<Rightarrow> bebop_any_layout option \<Rightarrow> 'r option \<Rightarrow> 'r Bebop_TypeInfo option
     \<Rightarrow> Bebop_Result \<times> bebop_any_layout option \<times> Bebop_Context option" where
  "bebop_any_pack ctx any record type_info =
     (case (ctx, any, record, type_info) of
        (Some c, Some a, Some r, Some ti) \<Rightarrow>
          (case (info_type_fqn ti, info_size_fn ti, info_encode_fn ti) of
             (Some fqn, Some sz, Some enc) \<Rightarrow>
               let prefix = (case info_prefix ti of Some p \<Rightarrow> p | None \<Rightarrow> BEBOP_TYPE_URL_PREFIX);
                   prefix_len = bebop__cstrlen prefix;
                   fqn_len = bebop__cstrlen fqn;
                   url_len = size_wrap (prefix_len + fqn_len)
               in (case bebop_context_alloc ctx (size_wrap (url_len + 1)) of
                     (None, ctx1) \<Rightarrow> (BEBOP_RESULT_OOM, any, ctx1)
                   | (Some _, ctx1) \<Rightarrow>
                       any_pack_value ctx1
                         (a\<lparr>type_url := \<lparr>str_data = Some (take prefix_len prefix @ take fqn_len fqn @ [0]), str_length = url_len\<rparr>\<rparr>)
                         r sz enc)
           | _ \<Rightarrow> (BEBOP_RESULT_NULL, any, ctx))
      | _ \<Rightarrow> (BEBOP_RESULT_NULL, any, ctx))"

text \<open>The loop that keeps the position of the last slash; a type name is an offset into the URL.\<close>

fun last_slash_loop :: "byte list \<Rightarrow> nat list \<Rightarrow> nat option \<Rightarrow> nat option" where
  "last_slash_loop data [] last_slash = last_slash"
| "last_slash_loop data (i # is) last_slash =
     last_slash_loop data is (if data ! i = 0x2F then Some i else last_slash)"

definition bebop_any_type_name :: "bebop_any_layout option \<Rightarrow> nat option" where
  "bebop_any_type_name any =
     (case any of
        None \<Rightarrow> None
      | Some a \<Rightarrow>
          (case str_data (type_url a) of
             None \<Rightarrow> None
           | Some data \<Rightarrow>
               if str_length (type_url a) = 0 then None
               else
                 (case last_slash_loop data [0..<str_length (type_url a)] None of
                    None \<Rightarrow> None
                  | Some last_slash \<Rightarrow> Some (last_slash + 1))))"

definition bebop_any_is :: "bebop_any_layout option \<Rightarrow> cstring option \<Rightarrow> bool" where
  "bebop_any_is any type_fqn =
     (case (any, type_fqn) of
        (Some a, Some fqn) \<Rightarrow>
          (case (bebop_any_type_name any, str_data (type_url a)) of
             (Some name, Some data) \<Rightarrow>
               let name_len = str_length (type_url a) - name;
                   fqn_len = bebop__cstrlen fqn
               in if name_len \<noteq> fqn_len then False
                  else take fqn_len (drop name data) = take fqn_len fqn
           | _ \<Rightarrow> False)
      | _ \<Rightarrow> False)"

definition bebop_any_unpack ::
  "Bebop_Context option \<Rightarrow> bebop_any_layout option \<Rightarrow> 'r option \<Rightarrow> 'r Bebop_TypeInfo option
     \<Rightarrow> Bebop_Result \<times> 'r option \<times> Bebop_Context option" where
  "bebop_any_unpack ctx any record type_info =
     (case (ctx, any, record, type_info) of
        (Some c, Some a, Some r, Some ti) \<Rightarrow>
          (case (info_decode_fn ti, any_value a) of
             (Some decode, Some _) \<Rightarrow>
               (case bebop_context_reader ctx (any_value a) of
                  (Some rd, Some ctx1) \<Rightarrow> (case decode ctx1 rd r of (result, ctx2, _, r') \<Rightarrow> (result, Some r', Some ctx2))
                | (_, ctx1) \<Rightarrow> (BEBOP_RESULT_OOM, record, ctx1))
           | _ \<Rightarrow> (BEBOP_RESULT_NULL, record, ctx))
      | _ \<Rightarrow> (BEBOP_RESULT_NULL, record, ctx))"

section \<open>Type names\<close>

lemma cstrlen_loop_eq: "p \<le> length s \<Longrightarrow> cstrlen_loop s p = p + strlen (drop p s)"
proof (induction s p rule: cstrlen_loop.induct)
  case (1 s p)
  show ?case
  proof (cases "p < length s")
    case True
    then have "drop p s = s ! p # drop (p + 1) s"
      by (simp add: Cons_nth_drop_Suc)
    then show ?thesis
      using 1 True by (subst cstrlen_loop.simps) (simp add: cstr_at_def strlen_def)
  next
    case False
    then show ?thesis
      using 1 by (subst cstrlen_loop.simps) (simp add: cstr_at_def strlen_def)
  qed
qed

lemma cstrlen_eq: "bebop__cstrlen s = strlen s"
  by (simp add: bebop__cstrlen_def cstrlen_loop_eq)

lemma take_strlen: "take (strlen s) s = takeWhile (\<lambda>c. c \<noteq> 0) s"
  by (simp add: strlen_def takeWhile_eq_take [symmetric])

lemma last_slash_loop_append:
  "last_slash_loop d (is @ [i]) s = (if d ! i = 0x2F then Some i else last_slash_loop d is s)"
  by (induction "is" arbitrary: s) auto

lemma last_slash_iff:
  "last_slash_loop d [0..<n] None = Some i \<longleftrightarrow> i < n \<and> d ! i = 0x2F \<and> (\<forall>j. i < j \<and> j < n \<longrightarrow> d ! j \<noteq> 0x2F)"
proof (induction n)
  case (Suc n)
  then show ?case
    by (auto simp: last_slash_loop_append less_Suc_eq)
qed simp

text \<open>The type name is the rest of the URL after its last slash.\<close>

lemma type_name_iff:
  assumes "str_data (type_url a) = Some d" and "str_length (type_url a) \<le> length d"
  shows "bebop_any_type_name (Some a) = Some n \<longleftrightarrow>
    (\<exists>p t. take (str_length (type_url a)) d = p @ 0x2F # t \<and> 0x2F \<notin> set t \<and> n = length p + 1)"
proof -
  let ?len = "str_length (type_url a)" and ?u = "take (str_length (type_url a)) d"
  have nth: "?u ! i = d ! i" "length ?u = ?len" if "i < ?len" for i
    using that assms(2) by simp_all
  have "bebop_any_type_name (Some a) = Some n \<longleftrightarrow> (\<exists>i. last_slash_loop d [0..<?len] None = Some i \<and> n = i + 1)"
    using assms(1) by (auto simp: bebop_any_type_name_def split: option.splits)
  also have "\<dots> \<longleftrightarrow> (\<exists>p t. ?u = p @ 0x2F # t \<and> 0x2F \<notin> set t \<and> n = length p + 1)"
  proof
    assume "\<exists>i. last_slash_loop d [0..<?len] None = Some i \<and> n = i + 1"
    then obtain i where i: "i < ?len" "d ! i = 0x2F" "\<And>j. i < j \<Longrightarrow> j < ?len \<Longrightarrow> d ! j \<noteq> 0x2F" "n = i + 1"
      unfolding last_slash_iff by blast
    have "?u = take i ?u @ 0x2F # drop (i + 1) ?u"
      using id_take_nth_drop [of i ?u] i(1,2) assms(2) by simp
    moreover have "0x2F \<notin> set (drop (i + 1) ?u)"
      using i(3) assms(2) by (auto simp: in_set_conv_nth)
    ultimately show "\<exists>p t. ?u = p @ 0x2F # t \<and> 0x2F \<notin> set t \<and> n = length p + 1"
      using i(1,4) assms(2) by (intro exI [of _ "take i ?u"] exI [of _ "drop (i + 1) ?u"]) simp
  next
    assume "\<exists>p t. ?u = p @ 0x2F # t \<and> 0x2F \<notin> set t \<and> n = length p + 1"
    then obtain p t where u: "?u = p @ 0x2F # t" "0x2F \<notin> set t" "n = length p + 1"
      by blast
    have len: "?len = length p + 1 + length t"
      using arg_cong [OF u(1), of length] assms(2) by simp
    then have "d ! length p = ?u ! length p"
      by simp
    then have "d ! length p = 0x2F"
      unfolding u(1) by simp
    moreover have "d ! j \<noteq> 0x2F" if "length p < j" "j < ?len" for j
    proof -
      have "d ! j = t ! (j - length p - 1)" "j - length p - 1 < length t"
        using nth(1) [OF that(2)] that len unfolding u(1) by (auto simp: nth_append nth_Cons')
      then show ?thesis
        using u(2) nth_mem by metis
    qed
    ultimately have "last_slash_loop d [0..<?len] None = Some (length p)"
      unfolding last_slash_iff using len by auto
    then show "\<exists>i. last_slash_loop d [0..<?len] None = Some i \<and> n = i + 1"
      using u(3) by blast
  qed
  finally show ?thesis .
qed

text \<open>
  A packed value has a type exactly when its URL ends in a slash and the name of that type. The name
  is compared as a C string, so a name that itself contains a slash matches nothing.
\<close>

theorem any_is_exact:
  assumes "str_data (type_url a) = Some d" and "str_length (type_url a) \<le> length d"
  shows "bebop_any_is (Some a) (Some fqn) \<longleftrightarrow>
    (\<exists>p. take (str_length (type_url a)) d = p @ 0x2F # takeWhile (\<lambda>c. c \<noteq> 0) fqn) \<and> 0x2F \<notin> set (takeWhile (\<lambda>c. c \<noteq> 0) fqn)"
proof -
  let ?len = "str_length (type_url a)" and ?f = "takeWhile (\<lambda>c. c \<noteq> 0) fqn"
  note name = type_name_iff [OF assms]
  have is_iff: "bebop_any_is (Some a) (Some fqn) \<longleftrightarrow>
      (\<exists>n. bebop_any_type_name (Some a) = Some n \<and> ?len - n = length ?f \<and> take (length ?f) (drop n d) = ?f)"
    using assms(1) by (auto simp: bebop_any_is_def cstrlen_eq Let_def take_strlen strlen_def takeWhile_eq_take [symmetric] split: option.splits)
  have tail: "take (length ?f) (drop (length p + 1) d) = t"
    if "take ?len d = p @ 0x2F # t" "?len - (length p + 1) = length ?f" for p t
  proof -
    have "take (length ?f) (drop (length p + 1) d) = drop (length p + 1) (take ?len d)"
      using that(2) by (simp add: drop_take)
    then show ?thesis
      using that(1) by simp
  qed
  show ?thesis
  proof
    assume "bebop_any_is (Some a) (Some fqn)"
    then show "(\<exists>p. take ?len d = p @ 0x2F # ?f) \<and> 0x2F \<notin> set ?f"
      unfolding is_iff name using tail by auto
  next
    assume "(\<exists>p. take ?len d = p @ 0x2F # ?f) \<and> 0x2F \<notin> set ?f"
    then obtain p where p: "take ?len d = p @ 0x2F # ?f" "0x2F \<notin> set ?f"
      by blast
    have "length (take ?len d) = length p + 1 + length ?f"
      unfolding p(1) by simp
    then have len: "?len - (length p + 1) = length ?f"
      using assms(2) by simp
    show "bebop_any_is (Some a) (Some fqn)"
      unfolding is_iff name using p tail [OF p(1) len] len by blast
  qed
qed


section \<open>Packing and unpacking\<close>

text \<open>A type whose callbacks are given, with a prefix or the default one.\<close>

definition codec_info ::
  "(Bebop_Writer option \<Rightarrow> Bebop_Context \<Rightarrow> 'r \<Rightarrow> wr_result)
     \<Rightarrow> (Bebop_Context \<Rightarrow> Bebop_Reader \<Rightarrow> 'r \<Rightarrow> Bebop_Result \<times> Bebop_Context \<times> Bebop_Reader \<times> 'r)
     \<Rightarrow> cstring \<Rightarrow> cstring option \<Rightarrow> ('r \<Rightarrow> nat) \<Rightarrow> 'r Bebop_TypeInfo" where
  "codec_info encode decode fqn pre sz = \<lparr>info_type_fqn = Some fqn, info_prefix = pre, info_size_fn = Some sz,
     info_encode_fn = Some encode, info_decode_fn = Some decode\<rparr>"

text \<open>
  What a type promises of its callbacks: encoding appends the bytes of the record, and decoding these
  bytes gives the record back.
\<close>

locale any_codec =
  fixes encode :: "Bebop_Writer option \<Rightarrow> Bebop_Context \<Rightarrow> 'r \<Rightarrow> wr_result"
    and decode :: "Bebop_Context \<Rightarrow> Bebop_Reader \<Rightarrow> 'r \<Rightarrow> Bebop_Result \<times> Bebop_Context \<times> Bebop_Reader \<times> 'r"
    and bytes :: "'r \<Rightarrow> byte list" and typed :: "'r \<Rightarrow> bool" and fits :: "'r \<Rightarrow> bool"
  assumes encode_appends: "typed r \<Longrightarrow> writer_inv w \<Longrightarrow> encode (Some w) ctx r = (BEBOP_RESULT_OK, wr, ctx') \<Longrightarrow>
      fits r \<and> (\<exists>w'. wr = Some w' \<and> wr_data w' = wr_data w @ bytes r)"
    and decode_inverts: "typed r \<Longrightarrow> fits r \<Longrightarrow> reader_inv rd \<Longrightarrow> rd_window rd = bytes r \<Longrightarrow>
      \<exists>rd'. decode ctx rd r0 = (BEBOP_RESULT_OK, ctx, rd', r)"
begin

lemma pack_result:
  assumes "bebop_any_pack (Some ctx) (Some a) (Some r) (Some (codec_info encode decode fqn pre sz)) = (BEBOP_RESULT_OK, Some a', ctx')"
    and "typed r"
  defines "prefix \<equiv> (case pre of Some p \<Rightarrow> p | None \<Rightarrow> BEBOP_TYPE_URL_PREFIX)"
  shows "fits r" and "any_value a' = Some (bytes r)"
    and "type_url a' = \<lparr>str_data = Some (takeWhile (\<lambda>c. c \<noteq> 0) prefix @ takeWhile (\<lambda>c. c \<noteq> 0) fqn @ [0]),
           str_length = size_wrap (strlen prefix + strlen fqn)\<rparr>"
proof -
  let ?url = "\<lparr>str_data = Some (takeWhile (\<lambda>c. c \<noteq> 0) prefix @ takeWhile (\<lambda>c. c \<noteq> 0) fqn @ [0]),
      str_length = size_wrap (strlen prefix + strlen fqn)\<rparr>"
  obtain ctx1 where "any_pack_value ctx1 (a\<lparr>type_url := ?url\<rparr>) r sz encode = (BEBOP_RESULT_OK, Some a', ctx')"
    using assms(1) unfolding bebop_any_pack_def codec_info_def
    by (auto simp: Let_def cstrlen_eq take_strlen prefix_def [symmetric] split: prod.splits option.splits)
  then obtain c w wr c2 where w: "bebop_context_writer ctx1 (sz r) = (Some w, Some c)"
    and enc: "encode (Some w) c r = (BEBOP_RESULT_OK, wr, c2)" and a': "a' = a\<lparr>type_url := ?url, any_value := bebop_writer_view wr\<rparr>"
    unfolding any_pack_value_def by (auto split: prod.splits option.splits if_splits)
  obtain c1 where "ctx1 = Some c1"
    using w by (cases ctx1) (auto simp: bebop_context_writer_def)
  then have fresh: "wr_data w = []" "writer_inv w"
    using context_writer_fresh w by auto
  note app = encode_appends [OF assms(2) fresh(2) enc]
  show "fits r"
    using app by blast
  show "any_value a' = Some (bytes r)"
    using app fresh(1) by (auto simp: a' bebop_writer_view_def)
  show "type_url a' = ?url"
    by (simp add: a')
qed

lemma unpack_result:
  assumes "any_value a = Some (bytes r)" "typed r" "fits r"
  shows "bebop_any_unpack (Some ctx) (Some a) (Some r0) (Some (codec_info encode decode fqn pre sz)) =
    (case bebop_context_alloc (Some ctx) SIZEOF_READER of
       (None, ctx') \<Rightarrow> (BEBOP_RESULT_OOM, Some r0, ctx')
     | (Some _, ctx') \<Rightarrow> (BEBOP_RESULT_OK, Some r, ctx'))"
proof -
  let ?rd = "\<lparr>rd_buf = bytes r, rd_current = 0, rd_end = length (bytes r)\<rparr>"
  have "reader_inv ?rd" "rd_window ?rd = bytes r"
    by (simp_all add: reader_inv_def rd_window_def rd_remaining_def)
  note decode = decode_inverts [OF assms(2,3) this]
  have "snd (bebop_context_alloc (Some ctx) SIZEOF_READER) \<noteq> None"
    by (simp add: bebop_context_alloc_def split: prod.splits option.splits)
  then obtain p c where alloc: "bebop_context_alloc (Some ctx) SIZEOF_READER = (p, Some c)"
    by (metis not_Some_eq prod.collapse)
  have "bebop_context_reader (Some ctx) (Some (bytes r)) = (if p = None then None else Some ?rd, Some c)"
    by (cases p) (simp_all add: bebop_context_reader_def alloc bebop_reader_init_def)
  moreover obtain rd' where "decode c ?rd r0 = (BEBOP_RESULT_OK, c, rd', r)"
    using decode by blast
  ultimately show ?thesis
    using assms(1) by (cases p) (auto simp: bebop_any_unpack_def codec_info_def alloc)
qed

end


text \<open>Structs of wire values as the records of a type.\<close>

definition struct_decode ::
  "wire_type list \<Rightarrow> Bebop_Context \<Rightarrow> Bebop_Reader \<Rightarrow> wire_value list
     \<Rightarrow> Bebop_Result \<times> Bebop_Context \<times> Bebop_Reader \<times> wire_value list" where
  "struct_decode ts ctx rd r =
     (case read_values ts (Some rd) of
        (BEBOP_RESULT_OK, Some rd', vs) \<Rightarrow> (BEBOP_RESULT_OK, ctx, rd', vs)
      | (result, _, _) \<Rightarrow> (result, ctx, rd, r))"

definition struct_typed :: "wire_type list \<Rightarrow> wire_value list \<Rightarrow> bool" where
  "struct_typed ts vs \<longleftrightarrow> list_all value_typed vs \<and> map type_of vs = ts"

interpretation struct: any_codec write_values "struct_decode ts" "\<lambda>vs. concat (map value_bytes vs)" "struct_typed ts" "list_all value_ok"
  for ts
proof
  fix r w ctx wr ctx'
  assume "struct_typed ts r" "writer_inv w" "write_values (Some w) ctx r = (BEBOP_RESULT_OK, wr, ctx')"
  then show "list_all value_ok r \<and> (\<exists>w'. wr = Some w' \<and> wr_data w' = wr_data w @ concat (map value_bytes r))"
    using write_values_append [of w ctx r wr ctx'] by (auto simp: struct_typed_def)
next
  fix r rd ctx r0
  assume "struct_typed ts r" "list_all value_ok r" "reader_inv rd" "rd_window rd = concat (map value_bytes r)"
  then show "\<exists>rd'. struct_decode ts ctx rd r0 = (BEBOP_RESULT_OK, ctx, rd', r)"
    using read_values_framed [of rd r "[]"] by (auto simp: struct_decode_def struct_typed_def)
qed

lemma after_last: "x \<notin> set ys \<Longrightarrow> rev (takeWhile (\<lambda>c. c \<noteq> x) (rev (xs @ x # ys))) = ys"
proof -
  assume "x \<notin> set ys"
  then have "takeWhile (\<lambda>c. c \<noteq> x) (rev ys @ x # rev xs) = rev ys"
    by (subst takeWhile_append2) auto
  then show ?thesis
    by simp
qed

text \<open>
  C30: packing and unpacking are inverse. When packing a struct succeeds, the packed value has the type it
  was packed with and no other. Unpacking it into any record gives the struct back exactly when the
  context has the memory of the reader; when it has not, that is reported and the record is left alone. The type name has no slash, and the prefix is the default
  or ends in a slash; the URL fits a \<^verbatim>\<open>size_t\<close>.
\<close>

theorem any_roundtrip:
  assumes "bebop_any_pack (Some ctx) (Some a) (Some vs) (Some (codec_info write_values (struct_decode ts) fqn pre sz)) =
      (BEBOP_RESULT_OK, Some a', ctx')"
    and "struct_typed ts vs" and "0 \<notin> set fqn" "0x2F \<notin> set fqn"
    and "case pre of None \<Rightarrow> True | Some p \<Rightarrow> 0 \<notin> set p \<and> p \<noteq> [] \<and> last p = 0x2F"
    and "length fqn + (case pre of None \<Rightarrow> 14 | Some p \<Rightarrow> length p) < 2 ^ 64"
  shows "(\<forall>name. 0 \<notin> set name \<longrightarrow> bebop_any_is (Some a') (Some name) = (name = fqn)) \<and>
    bebop_any_unpack (Some c) (Some a') (Some vs0) (Some (codec_info write_values (struct_decode ts) fqn pre sz)) =
      (case bebop_context_alloc (Some c) SIZEOF_READER of
         (None, c') \<Rightarrow> (BEBOP_RESULT_OOM, Some vs0, c')
       | (Some _, c') \<Rightarrow> (BEBOP_RESULT_OK, Some vs, c'))"
proof (intro conjI allI impI)
  note packed = struct.pack_result [OF assms(1,2)]
  show "bebop_any_unpack (Some c) (Some a') (Some vs0) (Some (codec_info write_values (struct_decode ts) fqn pre sz)) =
      (case bebop_context_alloc (Some c) SIZEOF_READER of
         (None, c') \<Rightarrow> (BEBOP_RESULT_OOM, Some vs0, c')
       | (Some _, c') \<Rightarrow> (BEBOP_RESULT_OK, Some vs, c'))"
    by (rule struct.unpack_result [OF packed(2) assms(2) packed(1)])
  define p where "p = (case pre of Some p \<Rightarrow> p | None \<Rightarrow> BEBOP_TYPE_URL_PREFIX)"
  have p: "0 \<notin> set p" "p \<noteq> []" "last p = 0x2F" "length fqn + length p < 2 ^ 64"
    using assms(5,6) by (cases pre; simp add: p_def BEBOP_TYPE_URL_PREFIX_def)+
  have nz: "takeWhile (\<lambda>c. c \<noteq> 0) s = s" if "0 \<notin> set s" for s :: cstring
    unfolding takeWhile_eq_all_conv using that by metis
  have len: "size_wrap (strlen p + strlen fqn) = length p + length fqn"
    unfolding strlen_def nz [OF p(1)] nz [OF assms(3)] by (rule size_wrap_id) (use p(4) in simp)
  have url: "str_data (type_url a') = Some (p @ fqn @ [0])" "str_length (type_url a') = length p + length fqn"
    unfolding packed(3) p_def [symmetric] len nz [OF p(1)] nz [OF assms(3)] by simp_all
  fix name :: cstring
  assume name: "0 \<notin> set name"
  obtain q where q: "p = q @ [0x2F]"
    using p(2,3) append_butlast_last_id by metis
  have "bebop_any_is (Some a') (Some name) \<longleftrightarrow> (\<exists>p'. p @ fqn = p' @ 0x2F # name) \<and> 0x2F \<notin> set name"
    using any_is_exact [OF url(1), of name] unfolding url(2) nz [OF name] by simp
  also have "\<dots> \<longleftrightarrow> name = fqn"
  proof
    assume h: "(\<exists>p'. p @ fqn = p' @ 0x2F # name) \<and> 0x2F \<notin> set name"
    then obtain p' where "q @ 0x2F # fqn = p' @ 0x2F # name"
      unfolding q by auto
    moreover have "0x2F \<notin> set name"
      using h by blast
    ultimately show "name = fqn"
      using after_last [OF assms(4), of q] after_last [of "0x2F" name p'] by simp
  next
    assume "name = fqn"
    then show "(\<exists>p'. p @ fqn = p' @ 0x2F # name) \<and> 0x2F \<notin> set name"
      using assms(4) unfolding q by simp
  qed
  finally show "bebop_any_is (Some a') (Some name) = (name = fqn)" .
qed


theorem any_is_exact_witness:
  "bebop_any_is (Some \<lparr>type_url = \<lparr>str_data = Some [0x78, 0x2F, 0x61, 0x62, 0], str_length = 4\<rparr>, any_value = None\<rparr>)
     (Some [0x61, 0x62])"
  using any_is_exact [of "\<lparr>type_url = \<lparr>str_data = Some [0x78, 0x2F, 0x61, 0x62, 0], str_length = 4\<rparr>, any_value = None\<rparr>"
      "[0x78, 0x2F, 0x61, 0x62, 0]" "[0x61, 0x62]"]
  by simp

text \<open>A byte packed under the name \<^verbatim>\<open>ab\<close>.\<close>

definition byte_info :: "wire_value list Bebop_TypeInfo" where
  "byte_info = codec_info write_values (struct_decode [TByte]) [0x61, 0x62] None (\<lambda>_. 1)"

lemma byte_packed:
  "\<exists>a' ctx'. bebop_any_pack (Some (room_context 0)) (Some a) (Some [VByte 7]) (Some byte_info) = (BEBOP_RESULT_OK, Some a', ctx')"
proof -
  have len: "bebop__cstrlen BEBOP_TYPE_URL_PREFIX = 14" "bebop__cstrlen [0x61, 0x62] = 2"
    by (simp_all add: cstrlen_eq strlen_def BEBOP_TYPE_URL_PREFIX_def)
  have arena: "context_arena_alloc (room_context u) sz = (Some (2, u), room_context (u + 16 * ((sz + 15) div 16)))"
    if "0 < sz" "u + 16 * ((sz + 15) div 16) \<le> 4096" for u sz
    using that by (simp add: context_arena_alloc_def room_arena_alloc)
  have opts: "initial_writer_size (ctx_options (room_context u)) = 1024" for u
    by (simp add: room_context_def bebop_context_options_def)
  have "bebop_context_writer (Some (room_context 32)) 1 = (Some \<lparr>wr_addr = (2, 64), wr_data = [], wr_cap = 1024\<rparr>, Some (room_context 1088))"
    by (simp add: bebop_context_writer_def arena opts SIZEOF_WRITER_def)
  moreover have "write_values (Some \<lparr>wr_addr = (2, 64), wr_data = [], wr_cap = 1024\<rparr>) (room_context 1088) [VByte 7] =
      (BEBOP_RESULT_OK, Some \<lparr>wr_addr = (2, 64), wr_data = [7], wr_cap = 1024\<rparr>, room_context 1088)"
    by (simp add: bebop_writer_write_byte_def writer_put_def wr_available_def)
  ultimately show ?thesis
    by (simp add: bebop_any_pack_def byte_info_def codec_info_def len room_context_alloc any_pack_value_def)
qed

theorem any_roundtrip_witness:
  "\<exists>a' ctx'. bebop_any_pack (Some (room_context 0)) (Some \<lparr>type_url = \<lparr>str_data = None, str_length = 0\<rparr>, any_value = None\<rparr>)
        (Some [VByte 7]) (Some byte_info) = (BEBOP_RESULT_OK, Some a', ctx')
     \<and> bebop_any_is (Some a') (Some [0x61, 0x62]) \<and> \<not> bebop_any_is (Some a') (Some [0x61])
     \<and> bebop_any_unpack (Some (room_context 0)) (Some a') (Some []) (Some byte_info) =
         (BEBOP_RESULT_OK, Some [VByte 7], Some (room_context 32))"
proof -
  let ?a = "\<lparr>type_url = \<lparr>str_data = None, str_length = 0\<rparr>, any_value = None\<rparr>"
  obtain a' ctx' where run: "bebop_any_pack (Some (room_context 0)) (Some ?a) (Some [VByte 7])
      (Some (codec_info write_values (struct_decode [TByte]) [0x61, 0x62] None (\<lambda>_. 1))) = (BEBOP_RESULT_OK, Some a', ctx')"
    using byte_packed byte_info_def by metis
  have "bebop_context_alloc (Some (room_context 0)) SIZEOF_READER = (Some (2, 0), Some (room_context 32))"
    by (simp add: room_context_alloc SIZEOF_READER_def)
  with any_roundtrip [OF run, of "room_context 0" "[]"] run show ?thesis
    by (intro exI [of _ a'] exI [of _ ctx']) (simp add: struct_typed_def byte_info_def)
qed

end
