(* ===== verification/Schema_Text.thy ===== *)
theory Schema_Text
  imports Bebop_Prelude
begin

text \<open>
  Text in schemas, from \<^verbatim>\<open>bebop/src/bebop_utils.c\<close>: decoding, encoding and validation of UTF-8, and the
  escape sequences of string literals. A buffer with its length is a byte list; a code point is the
  \<^verbatim>\<open>int32_t\<close> the code uses, and a function that writes to a buffer returns the bytes it writes.
\<close>

type_synonym bebop_codepoint_t = int

definition BEBOP_CP_INVALID :: bebop_codepoint_t where
  "BEBOP_CP_INVALID = -1"

section \<open>UTF-8\<close>

definition bebop_utf8_width_table :: "nat list" where
  "bebop_utf8_width_table =
     [1, 1, 1, 1, 1, 1, 1, 1, 1, 1, 1, 1, 1, 1, 1, 1, 0, 0, 0, 0, 0, 0, 0, 0, 2, 2, 2, 2, 3, 3, 4, 0]"

text \<open>A byte that continues a sequence.\<close>

definition utf8_cont :: "byte \<Rightarrow> bool" where
  "utf8_cont b \<longleftrightarrow> b AND 0xC0 = 0x80"

definition utf8_code2 :: "byte \<Rightarrow> byte \<Rightarrow> u32" where
  "utf8_code2 a b = push_bit 6 (ucast (a AND 0x1F)) OR ucast (b AND 0x3F)"

definition utf8_code3 :: "byte \<Rightarrow> byte \<Rightarrow> byte \<Rightarrow> u32" where
  "utf8_code3 a b c = push_bit 12 (ucast (a AND 0x0F)) OR push_bit 6 (ucast (b AND 0x3F)) OR ucast (c AND 0x3F)"

definition utf8_code4 :: "byte \<Rightarrow> byte \<Rightarrow> byte \<Rightarrow> byte \<Rightarrow> u32" where
  "utf8_code4 a b c d =
     push_bit 18 (ucast (a AND 0x07)) OR push_bit 12 (ucast (b AND 0x3F)) OR push_bit 6 (ucast (c AND 0x3F)) OR
     ucast (d AND 0x3F)"

definition bebop_utf8_decode :: "byte list option \<Rightarrow> nat \<times> bebop_codepoint_t" where
  "bebop_utf8_decode s =
     (case s of
        None \<Rightarrow> (0, BEBOP_CP_INVALID)
      | Some [] \<Rightarrow> (0, BEBOP_CP_INVALID)
      | Some p \<Rightarrow>
          let a = p ! 0
          in if a < 0x80 then (1, uint a)
             else
               let width = bebop_utf8_width_table ! unat (drop_bit 3 a)
               in if width = 0 \<or> width > length p then (0, BEBOP_CP_INVALID)
                  else if width = 2 then
                    (if \<not> utf8_cont (p ! 1) then (0, BEBOP_CP_INVALID)
                     else
                       let code = utf8_code2 a (p ! 1)
                       in if code < 0x80 then (0, BEBOP_CP_INVALID) else (width, uint code))
                  else if width = 3 then
                    (if \<not> utf8_cont (p ! 1) \<or> \<not> utf8_cont (p ! 2) then (0, BEBOP_CP_INVALID)
                     else
                       let code = utf8_code3 a (p ! 1) (p ! 2)
                       in if code < 0x800 then (0, BEBOP_CP_INVALID)
                          else if 0xD800 \<le> code \<and> code \<le> 0xDFFF then (0, BEBOP_CP_INVALID)
                          else (width, uint code))
                  else
                    (if \<not> utf8_cont (p ! 1) \<or> \<not> utf8_cont (p ! 2) \<or> \<not> utf8_cont (p ! 3) then (0, BEBOP_CP_INVALID)
                     else
                       let code = utf8_code4 a (p ! 1) (p ! 2) (p ! 3)
                       in if code < 0x10000 \<or> code > 0x10FFFF then (0, BEBOP_CP_INVALID) else (width, uint code)))"

text \<open>The bytes that encoding writes to its buffer; none for a code point that has no encoding.\<close>

definition bebop_utf8_encode :: "bebop_codepoint_t \<Rightarrow> byte list" where
  "bebop_utf8_encode cp =
     (let w = word_of_int cp :: u32
      in if cp < 0 \<or> 0xD800 \<le> cp \<and> cp \<le> 0xDFFF \<or> cp > 0x10FFFF then []
         else if cp < 0x80 then [ucast w]
         else if cp < 0x800 then [ucast (drop_bit 6 w OR 0xC0), ucast (w AND 0x3F OR 0x80)]
         else if cp < 0x10000 then
           [ucast (drop_bit 12 w OR 0xE0), ucast (drop_bit 6 w AND 0x3F OR 0x80), ucast (w AND 0x3F OR 0x80)]
         else
           [ucast (drop_bit 18 w OR 0xF0), ucast (drop_bit 12 w AND 0x3F OR 0x80),
            ucast (drop_bit 6 w AND 0x3F OR 0x80), ucast (w AND 0x3F OR 0x80)])"

function utf8_valid_loop :: "byte list \<Rightarrow> nat \<Rightarrow> bool" where
  "utf8_valid_loop s pos =
     (if pos < length s
      then case bebop_utf8_decode (Some (drop pos s)) of
             (consumed, cp) \<Rightarrow>
               if consumed = 0 \<or> cp = BEBOP_CP_INVALID then False else utf8_valid_loop s (pos + consumed)
      else True)"
  by pat_completeness auto
termination
  by (relation "measure (\<lambda>(s, pos). length s - pos)") auto

declare utf8_valid_loop.simps [simp del]

definition bebop_utf8_valid :: "byte list \<Rightarrow> bool" where
  "bebop_utf8_valid s = utf8_valid_loop s 0"

section \<open>Escape sequences\<close>

definition BEBOP_HEX_VALUE :: "byte \<Rightarrow> int" where
  "BEBOP_HEX_VALUE c =
     (if 0x30 \<le> c \<and> c \<le> 0x39 then uint c - 0x30
      else if 0x41 \<le> c \<and> c \<le> 0x46 then uint c - 0x41 + 10
      else if 0x61 \<le> c \<and> c \<le> 0x66 then uint c - 0x61 + 10
      else -1)"

text \<open>The digits of \<^verbatim>\<open>\u{...}\<close>: the position after them, their number and value, unless a digit is wrong.\<close>

function unescape_digits :: "byte list \<Rightarrow> nat \<Rightarrow> u32 \<Rightarrow> nat \<Rightarrow> (nat \<times> u32 \<times> nat) option" where
  "unescape_digits s pos codepoint digits =
     (if pos < length s \<and> s ! pos \<noteq> 0x7D
      then
        let val = BEBOP_HEX_VALUE (s ! pos)
        in if val < 0 then None
           else if digits + 1 > 6 then None
           else unescape_digits s (pos + 1) (push_bit 4 codepoint OR word_of_int val) (digits + 1)
      else Some (pos, codepoint, digits))"
  by pat_completeness auto
termination
  by (relation "measure (\<lambda>(s, pos, _). length s - pos)") auto

declare unescape_digits.simps [simp del]

text \<open>The number of bytes consumed and the bytes produced; 0 and none for an invalid sequence.\<close>

definition bebop_unescape_char :: "byte list option \<Rightarrow> nat \<times> byte list" where
  "bebop_unescape_char s =
     (case s of
        None \<Rightarrow> (0, [])
      | Some [] \<Rightarrow> (0, [])
      | Some p \<Rightarrow>
          let c = p ! 0
          in if c = 0x5C then (1, [0x5C])
             else if c = 0x6E then (1, [0x0A])
             else if c = 0x72 then (1, [0x0D])
             else if c = 0x74 then (1, [0x09])
             else if c = 0x30 then (1, [0])
             else if c = 0x22 then (1, [0x22])
             else if c = 0x27 then (1, [0x27])
             else if c = 0x78 then
               (if length p < 3 then (0, [])
                else
                  let hi = BEBOP_HEX_VALUE (p ! 1); lo = BEBOP_HEX_VALUE (p ! 2)
                  in if hi < 0 \<or> lo < 0 then (0, []) else (3, [word_of_int (push_bit 4 hi OR lo)]))
             else if c = 0x75 then
               (if length p < 3 \<or> p ! 1 \<noteq> 0x7B then (0, [])
                else
                  (case unescape_digits p 2 0 0 of
                     None \<Rightarrow> (0, [])
                   | Some (pos, codepoint, digits) \<Rightarrow>
                       if pos \<ge> length p \<or> p ! pos \<noteq> 0x7D \<or> digits = 0 then (0, [])
                       else
                         let out = bebop_utf8_encode (sint codepoint)
                         in if length out = 0 then (0, []) else (pos + 1, out)))
             else (0, []))"

section \<open>Code points as numbers\<close>

definition scalar_value :: "bebop_codepoint_t \<Rightarrow> bool" where
  "scalar_value cp \<longleftrightarrow> 0 \<le> cp \<and> cp \<le> 0x10FFFF \<and> \<not> (0xD800 \<le> cp \<and> cp \<le> 0xDFFF)"

text \<open>The encoding written with numbers.\<close>

definition utf8_numbers :: "nat \<Rightarrow> nat list" where
  "utf8_numbers n =
     (if n < 0x80 then [n]
      else if n < 0x800 then [192 + n div 64, 128 + n mod 64]
      else if n < 0x10000 then [224 + n div 4096, 128 + n div 64 mod 64, 128 + n mod 64]
      else [240 + n div 262144, 128 + n div 4096 mod 64, 128 + n div 64 mod 64, 128 + n mod 64])"

lemma nat_shift_or:
  fixes a b :: nat
  assumes "b < 2 ^ k"
  shows "push_bit k a OR b = a * 2 ^ k + b"
proof (rule bit_eqI)
  fix n
  let ?c = "a * 2 ^ k + b"
  have "drop_bit k ?c = a" "take_bit k ?c = b"
    using assms by (simp_all add: drop_bit_eq_div take_bit_eq_mod)
  then have "bit ?c n \<longleftrightarrow> (if n < k then bit b n else bit a (n - k))"
    by (metis bit_drop_bit_eq bit_take_bit_iff comp_apply le_add_diff_inverse not_less)
  moreover have "\<not> bit b n" if "k \<le> n"
    using assms that by (metis bit_take_bit_iff not_less take_bit_nat_eq_self)
  ultimately show "bit (push_bit k a OR b) n \<longleftrightarrow> bit ?c n"
    by (auto simp: bit_or_iff bit_push_bit_iff_nat)
qed

lemma unat_shift_or:
  fixes x y :: "'a::len word"
  assumes "unat y < 2 ^ k" and "unat x * 2 ^ k < 2 ^ LENGTH('a)"
  shows "unat (push_bit k x OR y) = unat x * 2 ^ k + unat y"
  using assms by (simp add: unsigned_or_eq unsigned_push_bit_eq nat_shift_or take_bit_nat_eq_self push_bit_eq_mult [of k "unat x"]
      flip: nat_shift_or)

lemma byte_less: "unat (b :: byte) < 256"
  using unsigned_less [of b, where ?'a = nat] by simp

lemma byte_all:
  assumes "list_all P [0..<256]"
  shows "P (unat (b :: byte))"
  using assms byte_less [of b] unfolding list_all_iff by (metis atLeastLessThan_iff le0 set_upt)

lemma unat_and_mask: "unat (a AND mask k) = unat a mod 2 ^ k"
proof -
  have "unat (take_bit k a) = unat a mod 2 ^ k"
    by (subst unsigned_take_bit_eq) (rule take_bit_eq_mod)
  then show ?thesis
    by (simp only: take_bit_eq_mask)
qed

lemma unat_low_bits:
  fixes a :: "'a::len word"
  shows "unat (a AND 0x3F) = unat a mod 64" "unat (a AND 0x1F) = unat a mod 32" "unat (a AND 0x0F) = unat a mod 16"
    "unat (a AND 0x07) = unat a mod 8"
  using unat_and_mask [of a 6] unat_and_mask [of a 5] unat_and_mask [of a 4] unat_and_mask [of a 3]
  by (simp_all add: mask_eq_decr_exp)

lemma unat_ucast_byte: "unat (ucast (b :: byte) :: u32) = unat b"
  using byte_less [of b] by (simp add: unsigned_ucast_eq take_bit_nat_eq_self)

lemma utf8_codes:
  "unat (utf8_code2 a b) = unat a mod 32 * 64 + unat b mod 64"
  "unat (utf8_code3 a b c) = unat a mod 16 * 4096 + unat b mod 64 * 64 + unat c mod 64"
  "unat (utf8_code4 a b c d) = unat a mod 8 * 262144 + unat b mod 64 * 4096 + unat c mod 64 * 64 + unat d mod 64"
proof -
  have m: "unat x mod 64 < 64" "unat x mod 32 < 32" "unat x mod 16 < 16" "unat x mod 8 < 8" for x :: byte
    by simp_all
  note u = unat_ucast_byte unat_low_bits
  have c2: "unat (push_bit 6 (ucast (x :: byte)) OR ucast (y :: byte) :: u32) = unat x * 64 + unat y" if "unat y < 64" for x y
    using unat_shift_or [of "ucast y :: u32" 6 "ucast x"] that byte_less [of x] by (simp add: unat_ucast_byte)
  have c3: "unat (push_bit 12 (ucast (x :: byte)) OR w :: u32) = unat x * 4096 + unat w" if "unat w < 4096" for x w
    using unat_shift_or [of w 12 "ucast x"] that byte_less [of x] by (simp add: unat_ucast_byte)
  have c4: "unat (push_bit 18 (ucast (x :: byte)) OR w :: u32) = unat x * 262144 + unat w" if "unat w < 262144" for x w
    using unat_shift_or [of w 18 "ucast x"] that byte_less [of x] by (simp add: unat_ucast_byte)
  show two: "unat (utf8_code2 a b) = unat a mod 32 * 64 + unat b mod 64"
    unfolding utf8_code2_def by (simp add: c2 unat_low_bits)
  have bound: "unat x mod 64 * 64 + unat y mod 64 < 4096" "unat x mod 64 * 4096 + (unat y mod 64 * 64 + unat z mod 64) < 262144" for x y z :: byte
    using m(1) [of x] m(1) [of y] m(1) [of z] by linarith+
  show "unat (utf8_code3 a b c) = unat a mod 16 * 4096 + unat b mod 64 * 64 + unat c mod 64"
    unfolding utf8_code3_def or.assoc using bound by (simp add: c2 c3 unat_low_bits)
  show "unat (utf8_code4 a b c d) = unat a mod 8 * 262144 + unat b mod 64 * 4096 + unat c mod 64 * 64 + unat d mod 64"
    unfolding utf8_code4_def or.assoc using bound by (simp add: c2 c3 c4 unat_low_bits)
qed

lemma utf8_cont_iff: "utf8_cont b \<longleftrightarrow> 128 \<le> unat b \<and> unat b < 192"
proof -
  have "list_all (\<lambda>n. utf8_cont (of_nat n) \<longleftrightarrow> 128 \<le> n \<and> n < 192) [0..<256]"
    by code_simp
  from byte_all [OF this, of b] show ?thesis
    by simp
qed

lemma utf8_width:
  fixes a :: byte
  assumes "\<not> a < 0x80"
  shows "bebop_utf8_width_table ! unat (drop_bit 3 a) =
    (if unat a < 192 then 0 else if unat a < 224 then 2 else if unat a < 240 then 3 else if unat a < 248 then 4 else 0)"
proof -
  have "list_all (\<lambda>n. 128 \<le> n \<longrightarrow> bebop_utf8_width_table ! (n div 8) =
      (if n < 192 then 0 else if n < 224 then 2 else if n < 240 then 3 else if n < 248 then 4 else 0)) [0..<256]"
    by code_simp
  note table = byte_all [OF this, of a]
  have "128 \<le> unat a"
    using assms by (simp add: word_less_nat_alt not_less)
  moreover have "unat (drop_bit 3 a) = unat a div 8"
    by (simp only: unsigned_drop_bit_eq drop_bit_eq_div take_bit_word_eq_self) (simp add: unat_div)
  ultimately show ?thesis
    using table by (simp only:)
qed

lemma word_of_scalar: "scalar_value cp \<Longrightarrow> unat (word_of_int cp :: u32) = nat cp"
  by (simp add: scalar_value_def unat_eq_nat_uint uint_word_of_int_eq take_bit_int_eq_self)

lemma unat_tag:
  "unat w < 64 \<Longrightarrow> unat (ucast (w OR 0xC0 :: u32) :: byte) = 192 + unat w"
  "unat w < 32 \<Longrightarrow> unat (ucast (w OR 0xE0 :: u32) :: byte) = 224 + unat w"
  "unat w < 16 \<Longrightarrow> unat (ucast (w OR 0xF0 :: u32) :: byte) = 240 + unat w"
  "unat w < 128 \<Longrightarrow> unat (ucast (w OR 0x80 :: u32) :: byte) = 128 + unat w"
  using unat_shift_or [of w 6 3] unat_shift_or [of w 5 7] unat_shift_or [of w 4 15] unat_shift_or [of w 7 1]
  by (simp_all add: unsigned_ucast_eq take_bit_nat_eq_self or.commute push_bit_eq_mult)

lemma encode_numbers:
  assumes "scalar_value cp"
  shows "map unat (bebop_utf8_encode cp) = utf8_numbers (nat cp)"
proof -
  let ?w = "word_of_int cp :: u32"
  have w: "unat ?w = nat cp"
    by (rule word_of_scalar [OF assms])
  have n: "nat cp < 0x110000"
    using assms by (auto simp: scalar_value_def nat_less_iff)
  have d: "unat (drop_bit k ?w) = nat cp div 2 ^ k" for k
    by (subst unsigned_drop_bit_eq) (use n in \<open>simp add: take_bit_nat_eq_self drop_bit_eq_div w\<close>)
  have small: "unat (drop_bit 6 ?w) < 64" if "cp < 0x800"
    unfolding d using that by (simp add: div_less_iff_less_mult)
  have mid: "unat (drop_bit 12 ?w) < 32" if "cp < 0x10000"
    unfolding d using that by (simp add: div_less_iff_less_mult)
  have big: "unat (drop_bit 18 ?w) < 16"
    unfolding d using n by (simp add: div_less_iff_less_mult)
  have low: "unat (drop_bit k ?w AND 0x3F) < 128" "unat (?w AND 0x3F) < 128" for k
    using mod_less_divisor [of 64 "unat (drop_bit k ?w)"] mod_less_divisor [of 64 "unat ?w"] unfolding unat_low_bits by simp_all
  have one: "unat (ucast ?w :: byte) = nat cp" if "cp < 0x80"
    using that w by (simp add: unsigned_ucast_eq take_bit_nat_eq_self)
  show ?thesis
    using assms one small mid big low
    by (simp add: bebop_utf8_encode_def Let_def utf8_numbers_def scalar_value_def unat_tag unat_low_bits d w nat_less_iff)
qed

text \<open>Decoding in numbers, for the three longer forms.\<close>

lemma decode_invalid_width:
  assumes "\<not> p ! 0 < 0x80" "p \<noteq> []" "unat (p ! 0) < 192 \<or> 248 \<le> unat (p ! 0)"
  shows "bebop_utf8_decode (Some p) = (0, -1)"
  using assms utf8_width [OF assms(1)] by (cases p) (auto simp: bebop_utf8_decode_def BEBOP_CP_INVALID_def)

lemma decode_two:
  assumes "\<not> p ! 0 < 0x80" "192 \<le> unat (p ! 0)" "unat (p ! 0) < 224" "p \<noteq> []"
  shows "bebop_utf8_decode (Some p) =
    (if 2 \<le> length p \<and> utf8_cont (p ! 1) \<and> 0x80 \<le> unat (utf8_code2 (p ! 0) (p ! 1))
     then (2, int (unat (utf8_code2 (p ! 0) (p ! 1)))) else (0, -1))"
proof -
  have w: "bebop_utf8_width_table ! unat (drop_bit 3 (p ! 0)) = 2"
    using utf8_width [OF assms(1)] assms(2,3) by simp
  obtain a as where p: "p = a # as"
    using assms(4) by (cases p) auto
  show ?thesis
    using w assms(1) unfolding p bebop_utf8_decode_def BEBOP_CP_INVALID_def Let_def uint_nat word_less_nat_alt
    by (simp only: option.case list.case if_False simp_thms numeral_eq_iff semiring_norm num.simps)
       (simp add: not_less not_le)
qed

lemma decode_three:
  assumes "\<not> p ! 0 < 0x80" "224 \<le> unat (p ! 0)" "unat (p ! 0) < 240" "p \<noteq> []"
  shows "bebop_utf8_decode (Some p) =
    (let code = unat (utf8_code3 (p ! 0) (p ! 1) (p ! 2))
     in if 3 \<le> length p \<and> utf8_cont (p ! 1) \<and> utf8_cont (p ! 2) \<and> 0x800 \<le> code \<and> \<not> (0xD800 \<le> code \<and> code \<le> 0xDFFF)
        then (3, int code) else (0, -1))"
proof -
  have w: "bebop_utf8_width_table ! unat (drop_bit 3 (p ! 0)) = 3"
    using utf8_width [OF assms(1)] assms(2,3) by simp
  obtain a as where p: "p = a # as"
    using assms(4) by (cases p) auto
  show ?thesis
    using w assms(1) unfolding p bebop_utf8_decode_def BEBOP_CP_INVALID_def Let_def uint_nat word_less_nat_alt word_le_nat_alt
    by (simp only: option.case list.case if_False simp_thms numeral_eq_iff semiring_norm num.simps)
       (simp add: not_less not_le)
qed

lemma decode_four:
  assumes "\<not> p ! 0 < 0x80" "240 \<le> unat (p ! 0)" "unat (p ! 0) < 248" "p \<noteq> []"
  shows "bebop_utf8_decode (Some p) =
    (let code = unat (utf8_code4 (p ! 0) (p ! 1) (p ! 2) (p ! 3))
     in if 4 \<le> length p \<and> utf8_cont (p ! 1) \<and> utf8_cont (p ! 2) \<and> utf8_cont (p ! 3) \<and> 0x10000 \<le> code \<and> code \<le> 0x10FFFF
        then (4, int code) else (0, -1))"
proof -
  have w: "bebop_utf8_width_table ! unat (drop_bit 3 (p ! 0)) = 4"
    using utf8_width [OF assms(1)] assms(2,3) by simp
  obtain a as where p: "p = a # as"
    using assms(4) by (cases p) auto
  show ?thesis
    using w assms(1) unfolding p bebop_utf8_decode_def BEBOP_CP_INVALID_def Let_def uint_nat word_less_nat_alt word_le_nat_alt
    by (simp only: option.case list.case if_False simp_thms numeral_eq_iff semiring_norm num.simps)
       (simp add: not_less not_le)
qed

lemma decode_one:
  assumes "p \<noteq> []" "p ! 0 < 0x80"
  shows "bebop_utf8_decode (Some p) = (1, int (unat (p ! 0)))"
proof -
  obtain a as where p: "p = a # as"
    using assms(1) by (cases p) auto
  show ?thesis
    using assms(2) unfolding p bebop_utf8_decode_def Let_def by (simp only: option.case list.case nth_Cons_0 if_True uint_nat)
qed

lemma byte_small_iff: "b < 0x80 \<longleftrightarrow> unat (b :: byte) < 128"
  by (simp add: word_less_nat_alt)

lemma digits64:
  fixes y z :: nat
  assumes "y < 64"
  shows "(x * 64 + y) div 64 = x" "(x * 64 + y) mod 64 = y"
  using assms by simp_all

lemma mod_block:
  fixes a m q :: nat
  assumes "m * q \<le> a" "a < m * q + m"
  shows "a = m * q + a mod m"
proof -
  obtain r where "a = m * q + r" "r < m"
    using assms by (metis add_less_cancel_left le_Suc_ex)
  then show ?thesis
    by simp
qed

lemma cont_digit: "128 \<le> b \<Longrightarrow> b < (192 :: nat) \<Longrightarrow> b = 128 + b mod 64"
  using mod_block [of 64 2 b] by simp

lemma numbers_two:
  fixes a b :: nat
  assumes "192 \<le> a" "a < 224" "128 \<le> b" "b < 192" "0x80 \<le> a mod 32 * 64 + b mod 64"
  shows "a mod 32 * 64 + b mod 64 < 0x800 \<and> utf8_numbers (a mod 32 * 64 + b mod 64) = [a, b]"
proof -
  have a: "a = 192 + a mod 32"
    using mod_block [of 32 6 a] assms(1,2) by simp
  note b = cont_digit [OF assms(3,4)] and d = digits64 [of "b mod 64" "a mod 32"]
  have "a mod 32 < 32" "b mod 64 < 64"
    by simp_all
  then have "a mod 32 * 64 + b mod 64 < 0x800"
    by linarith
  then show ?thesis
    using assms(5) a b d by (simp add: utf8_numbers_def)
qed

lemma numbers_three:
  fixes a b c :: nat
  assumes "224 \<le> a" "a < 240" "128 \<le> b" "b < 192" "128 \<le> c" "c < 192"
  defines "n \<equiv> a mod 16 * 4096 + b mod 64 * 64 + c mod 64"
  assumes "0x800 \<le> n"
  shows "n < 0x10000 \<and> utf8_numbers n = [a, b, c]"
proof -
  have a: "a = 224 + a mod 16"
    using mod_block [of 16 14 a] assms(1,2) by simp
  note b = cont_digit [OF assms(3,4)] and c = cont_digit [OF assms(5,6)]
  have n: "n = (a mod 16 * 64 + b mod 64) * 64 + c mod 64"
    by (simp add: n_def)
  have "n div 64 = a mod 16 * 64 + b mod 64" "n mod 64 = c mod 64"
    unfolding n by (rule digits64; simp)+
  moreover have "n div 4096 = n div 64 div 64"
    by (simp add: div_mult2_eq [symmetric])
  moreover have "a mod 16 < 16" "b mod 64 < 64" "c mod 64 < 64"
    by simp_all
  moreover from this have "n < 0x10000"
    unfolding n_def by linarith
  ultimately show ?thesis
    using assms(8) a b c by (simp add: utf8_numbers_def)
qed

lemma numbers_four:
  fixes a b c d :: nat
  assumes "240 \<le> a" "a < 248" "128 \<le> b" "b < 192" "128 \<le> c" "c < 192" "128 \<le> d" "d < 192"
  defines "n \<equiv> a mod 8 * 262144 + b mod 64 * 4096 + c mod 64 * 64 + d mod 64"
  assumes "0x10000 \<le> n"
  shows "utf8_numbers n = [a, b, c, d]"
proof -
  have a: "a = 240 + a mod 8"
    using mod_block [of 8 30 a] assms(1,2) by simp
  note b = cont_digit [OF assms(3,4)] and c = cont_digit [OF assms(5,6)] and d = cont_digit [OF assms(7,8)]
  have n: "n = (a mod 8 * 4096 + b mod 64 * 64 + c mod 64) * 64 + d mod 64"
    by (simp add: n_def)
  have low: "n div 64 = a mod 8 * 4096 + b mod 64 * 64 + c mod 64" "n mod 64 = d mod 64"
    unfolding n by (rule digits64; simp)+
  have "n div 64 = (a mod 8 * 64 + b mod 64) * 64 + c mod 64"
    using low(1) by simp
  then have mid: "n div 64 div 64 = a mod 8 * 64 + b mod 64" "n div 64 mod 64 = c mod 64"
    by (simp_all only: digits64 mod_less_divisor zero_less_numeral)
  have high: "n div 4096 = n div 64 div 64" "n div 262144 = n div 64 div 64 div 64"
    by (simp_all add: div_mult2_eq [symmetric])
  show ?thesis
    using assms(10) low(2) mid a b c d unfolding utf8_numbers_def high by simp
qed

lemma scalar_result:
  assumes "cp = int n" "n \<le> 0x10FFFF" "\<not> (0xD800 \<le> n \<and> n \<le> 0xDFFF)" "k \<le> length p" "map unat (take k p) = utf8_numbers n"
  shows "scalar_value cp \<and> k \<le> length p \<and> map unat (take k p) = utf8_numbers (nat cp)"
  using assms by (auto simp: scalar_value_def)

lemma take_nth:
  "2 \<le> length p \<Longrightarrow> take 2 p = [p ! 0, p ! 1]"
  "3 \<le> length p \<Longrightarrow> take 3 p = [p ! 0, p ! 1, p ! 2]"
  "4 \<le> length p \<Longrightarrow> take 4 p = [p ! 0, p ! 1, p ! 2, p ! 3]"
  by (auto simp: list_eq_iff_nth_eq numeral_eq_Suc nth_Cons' less_Suc_eq)

text \<open>Decoding accepts exactly the numbers of a scalar value at the start of the buffer.\<close>

lemma decode_numbers:
  assumes "bebop_utf8_decode (Some p) = (k, cp)" and "k \<noteq> 0"
  shows "scalar_value cp \<and> k \<le> length p \<and> map unat (take k p) = utf8_numbers (nat cp)"
proof -
  have ne: "p \<noteq> []"
    using assms by (auto simp: bebop_utf8_decode_def)
  consider (one) "p ! 0 < 0x80" | (bad) "\<not> p ! 0 < 0x80" "unat (p ! 0) < 192 \<or> 248 \<le> unat (p ! 0)"
    | (two) "\<not> p ! 0 < 0x80" "192 \<le> unat (p ! 0)" "unat (p ! 0) < 224"
    | (three) "\<not> p ! 0 < 0x80" "224 \<le> unat (p ! 0)" "unat (p ! 0) < 240"
    | (four) "\<not> p ! 0 < 0x80" "240 \<le> unat (p ! 0)" "unat (p ! 0) < 248"
    by linarith
  then show ?thesis
  proof cases
    case one
    have "take 1 p = [p ! 0]"
      using ne by (cases p) auto
    then show ?thesis
      using decode_one [OF ne one] one assms(1) ne
      by (intro scalar_result [of _ "unat (p ! 0)"]) (simp_all add: byte_small_iff utf8_numbers_def Suc_leI del: int_nat_eq)
  next
    case bad
    then show ?thesis
      using decode_invalid_width [OF bad(1) ne bad(2)] assms by simp
  next
    case two
    let ?n = "unat (utf8_code2 (p ! 0) (p ! 1))"
    have r: "2 \<le> length p" "utf8_cont (p ! 1)" "0x80 \<le> ?n" "k = 2" "cp = int ?n"
      using decode_two [OF two ne] assms by (simp_all split: if_splits)
    have "?n < 0x800 \<and> utf8_numbers ?n = [unat (p ! 0), unat (p ! 1)]"
      using numbers_two [OF two(2,3)] r(2,3) unfolding utf8_codes utf8_cont_iff by blast
    then show ?thesis
      using r by (intro scalar_result [OF r(5)]) (simp_all add: take_nth)
  next
    case three
    let ?n = "unat (utf8_code3 (p ! 0) (p ! 1) (p ! 2))"
    have r: "3 \<le> length p" "utf8_cont (p ! 1)" "utf8_cont (p ! 2)" "0x800 \<le> ?n" "\<not> (0xD800 \<le> ?n \<and> ?n \<le> 0xDFFF)"
      "k = 3" "cp = int ?n"
      using decode_three [OF three ne] assms unfolding Let_def by (simp_all split: if_splits)
    have "?n < 0x10000 \<and> utf8_numbers ?n = [unat (p ! 0), unat (p ! 1), unat (p ! 2)]"
      using numbers_three [OF three(2,3)] r(2-4) unfolding utf8_codes utf8_cont_iff by blast
    then show ?thesis
      using r by (intro scalar_result [OF r(7)]) (simp_all add: take_nth)
  next
    case four
    let ?n = "unat (utf8_code4 (p ! 0) (p ! 1) (p ! 2) (p ! 3))"
    have r: "4 \<le> length p" "utf8_cont (p ! 1)" "utf8_cont (p ! 2)" "utf8_cont (p ! 3)" "0x10000 \<le> ?n" "?n \<le> 0x10FFFF"
      "k = 4" "cp = int ?n"
      using decode_four [OF four ne] assms unfolding Let_def by (simp_all split: if_splits)
    have "utf8_numbers ?n = [unat (p ! 0), unat (p ! 1), unat (p ! 2), unat (p ! 3)]"
      using numbers_four [OF four(2,3)] r(2-5) unfolding utf8_codes utf8_cont_iff by blast
    then show ?thesis
      using r by (intro scalar_result [OF r(8)]) (simp_all add: take_nth)
  qed
qed


lemma decode_of_numbers:
  assumes "scalar_value (int n)" and "map unat bs = utf8_numbers n"
  shows "bebop_utf8_decode (Some (bs @ r)) = (length bs, int n)"
proof -
  have top: "n \<le> 0x10FFFF" "\<not> (0xD800 \<le> n \<and> n \<le> 0xDFFF)"
    using assms(1) by (auto simp: scalar_value_def)
  have dig: "128 + x mod 64 < 192" "(128 + x mod 64) mod 64 = x mod 64" for x :: nat
    by (simp_all add: mod_add_left_eq [symmetric])
  have base: "n = n div 64 * 64 + n mod 64"
    by simp
  consider (one) "n < 0x80" | (two) "0x80 \<le> n" "n < 0x800" | (three) "0x800 \<le> n" "n < 0x10000" | (four) "0x10000 \<le> n"
    by linarith
  then show ?thesis
  proof cases
    case one
    then obtain a where "bs = [a]" "unat a = n"
      using assms(2) by (auto simp: utf8_numbers_def)
    then show ?thesis
      using decode_one [of "bs @ r"] one by (simp add: byte_small_iff)
  next
    case two
    then obtain a b where bs: "bs = [a, b]" and u: "unat a = 192 + n div 64" "unat b = 128 + n mod 64"
      using assms(2) by (auto simp: utf8_numbers_def)
    have q: "n div 64 < 32"
      using two(2) by (simp add: div_less_iff_less_mult)
    have "unat a mod 32 = n div 64" "unat b mod 64 = n mod 64"
      using q unfolding u by (simp_all add: dig mod_add_left_eq [symmetric])
    then have "unat (utf8_code2 a b) = n"
      unfolding utf8_codes by simp
    then show ?thesis
      using decode_two [of "bs @ r"] q two dig(1) [of n] by (simp add: bs u byte_small_iff utf8_cont_iff)
  next
    case three
    then obtain a b c where bs: "bs = [a, b, c]" and u: "unat a = 224 + n div 4096" "unat b = 128 + n div 64 mod 64" "unat c = 128 + n mod 64"
      using assms(2) by (auto simp: utf8_numbers_def)
    have q: "n div 4096 < 16"
      using three(2) by (simp add: div_less_iff_less_mult)
    have d: "n div 64 = n div 4096 * 64 + n div 64 mod 64"
      using div_mult_mod_eq [of "n div 64" 64] by (simp add: div_mult2_eq [symmetric])
    have "unat a mod 16 = n div 4096" "unat b mod 64 = n div 64 mod 64" "unat c mod 64 = n mod 64"
      using q unfolding u by (simp_all add: dig mod_add_left_eq [symmetric])
    then have "unat (utf8_code3 a b c) = n"
      unfolding utf8_codes using d base by linarith
    then show ?thesis
      using decode_three [of "bs @ r"] q three top(2) dig(1) by (simp add: bs u byte_small_iff utf8_cont_iff)
  next
    case four
    then obtain a b c d where bs: "bs = [a, b, c, d]" and u: "unat a = 240 + n div 262144" "unat b = 128 + n div 4096 mod 64"
        "unat c = 128 + n div 64 mod 64" "unat d = 128 + n mod 64"
      using assms(2) by (auto simp: utf8_numbers_def)
    have q: "n div 262144 < 8"
      using top(1) by (simp add: div_less_iff_less_mult)
    have e: "n div 64 = n div 4096 * 64 + n div 64 mod 64" "n div 4096 = n div 262144 * 64 + n div 4096 mod 64"
      using div_mult_mod_eq [of "n div 64" 64] div_mult_mod_eq [of "n div 4096" 64] by (simp_all add: div_mult2_eq [symmetric])
    have "unat a mod 8 = n div 262144" "unat b mod 64 = n div 4096 mod 64" "unat c mod 64 = n div 64 mod 64" "unat d mod 64 = n mod 64"
      using q unfolding u by (simp_all add: dig mod_add_left_eq [symmetric])
    then have "unat (utf8_code4 a b c d) = n"
      unfolding utf8_codes using e base by linarith
    then show ?thesis
      using decode_four [of "bs @ r"] q four top(1) dig(1) by (simp add: bs u byte_small_iff utf8_cont_iff)
  qed
qed

lemma map_unat_eq: "map unat (xs :: byte list) = map unat ys \<longleftrightarrow> xs = ys"
  by (metis inj_map_eq_map inj_onI word_unat_eq_iff)

lemma encode_decode:
  assumes "scalar_value cp"
  shows "bebop_utf8_encode cp \<noteq> []" and "bebop_utf8_decode (Some (bebop_utf8_encode cp @ r)) = (length (bebop_utf8_encode cp), cp)"
proof -
  have "map unat (bebop_utf8_encode cp) = utf8_numbers (nat cp)" "int (nat cp) = cp"
    using assms by (simp_all add: encode_numbers scalar_value_def)
  then show "bebop_utf8_decode (Some (bebop_utf8_encode cp @ r)) = (length (bebop_utf8_encode cp), cp)"
    using decode_of_numbers [of "nat cp"] assms by simp
  show "bebop_utf8_encode cp \<noteq> []"
    using assms by (auto simp: bebop_utf8_encode_def scalar_value_def Let_def)
qed

lemma decode_encode:
  assumes "bebop_utf8_decode (Some s) = (k, cp)" "k \<noteq> 0"
  shows "scalar_value cp" "k \<le> length s" "take k s = bebop_utf8_encode cp"
proof -
  show d: "scalar_value cp" "k \<le> length s"
    using decode_numbers [OF assms] by simp_all
  show "take k s = bebop_utf8_encode cp"
    using decode_numbers [OF assms] encode_numbers [OF d(1)] map_unat_eq by metis
qed

text \<open>
  C21: UTF-8 decoding and encoding are inverse. Every scalar value has an encoding that decodes to it,
  whatever follows, and whatever decodes is the encoding of a scalar value; in particular overlong
  forms, surrogates and values above \<open>0x10FFFF\<close> neither decode nor encode.
\<close>

theorem utf8_inverse:
  "(\<forall>cp r. scalar_value cp \<longrightarrow>
      bebop_utf8_encode cp \<noteq> [] \<and> bebop_utf8_decode (Some (bebop_utf8_encode cp @ r)) = (length (bebop_utf8_encode cp), cp)) \<and>
   (\<forall>s k cp. bebop_utf8_decode (Some s) = (k, cp) \<and> k \<noteq> 0 \<longrightarrow>
      scalar_value cp \<and> k \<le> length s \<and> take k s = bebop_utf8_encode cp) \<and>
   (\<forall>cp. \<not> scalar_value cp \<longrightarrow> bebop_utf8_encode cp = [])"
  using encode_decode decode_encode by (auto simp: bebop_utf8_encode_def [of cp for cp] scalar_value_def [of cp for cp])

theorem utf8_inverse_witness:
  "scalar_value 0x20AC \<and> bebop_utf8_decode (Some (bebop_utf8_encode 0x20AC @ [0x41])) = (3, 0x20AC)"
proof -
  have "scalar_value 0x20AC" "length (bebop_utf8_encode 0x20AC) = 3"
    by (simp_all add: scalar_value_def bebop_utf8_encode_def Let_def)
  then show ?thesis
    using utf8_inverse by metis
qed

lemma valid_loop_sound:
  "utf8_valid_loop s pos \<Longrightarrow> \<exists>cps. list_all scalar_value cps \<and> drop pos s = concat (map bebop_utf8_encode cps)"
proof (induction s pos rule: utf8_valid_loop.induct)
  case (1 s pos)
  show ?case
  proof (cases "pos < length s")
    case True
    obtain k cp where d: "bebop_utf8_decode (Some (drop pos s)) = (k, cp)"
      by force
    then have k: "k \<noteq> 0" "cp \<noteq> BEBOP_CP_INVALID" "utf8_valid_loop s (pos + k)"
      using "1.prems" True by (subst (asm) utf8_valid_loop.simps, simp split: if_splits)+
    then obtain cps where "list_all scalar_value cps" "drop (pos + k) s = concat (map bebop_utf8_encode cps)"
      using "1.IH" [OF True d [symmetric]] by auto
    moreover have "drop pos s = bebop_utf8_encode cp @ drop (pos + k) s"
      using decode_encode(3) [OF d k(1)] append_take_drop_id [of k "drop pos s"] by (simp add: add.commute)
    ultimately show ?thesis
      using decode_encode(1) [OF d k(1)] by (intro exI [of _ "cp # cps"]) simp
  next
    case False
    then show ?thesis
      by (intro exI [of _ "[]"]) simp
  qed
qed

lemma valid_loop_complete:
  "list_all scalar_value cps \<Longrightarrow> utf8_valid_loop (pre @ concat (map bebop_utf8_encode cps)) (length pre)"
proof (induction cps arbitrary: pre)
  case Nil
  then show ?case
    by (simp add: utf8_valid_loop.simps)
next
  case (Cons cp cps)
  then have cp: "scalar_value cp"
    by simp
  let ?e = "bebop_utf8_encode cp"
  have "utf8_valid_loop (pre @ ?e @ concat (map bebop_utf8_encode cps)) (length (pre @ ?e))"
    using Cons.IH [of "pre @ ?e"] Cons.prems by simp
  moreover have "cp \<noteq> BEBOP_CP_INVALID"
    using cp by (auto simp: scalar_value_def BEBOP_CP_INVALID_def)
  ultimately show ?case
    using encode_decode(1) [OF cp] encode_decode(2) [OF cp, of "concat (map bebop_utf8_encode cps)"]
    by (subst utf8_valid_loop.simps) simp
qed

text \<open>
  UTF-8 validation accepts exactly the encodings of sequences of scalar values.
\<close>

theorem utf8_valid_exact:
  "bebop_utf8_valid s \<longleftrightarrow> (\<exists>cps. list_all scalar_value cps \<and> s = concat (map bebop_utf8_encode cps))"
  using valid_loop_sound [of s 0] valid_loop_complete [of _ "[]"] by (auto simp: bebop_utf8_valid_def)


section \<open>Bounds of escape sequences\<close>

lemma unescape_digits_bounds:
  "unescape_digits s pos code n = Some (pos', code', n') \<Longrightarrow> pos \<le> length s \<Longrightarrow> pos' \<le> length s \<and> pos \<le> pos'"
proof (induction s pos code n rule: unescape_digits.induct)
  case (1 s pos code n)
  show ?case
    using "1.prems" "1.IH" unfolding unescape_digits.simps [of s pos]
    by (auto simp: Let_def split: if_splits)
qed

lemma length_utf8_encode: "length (bebop_utf8_encode cp) \<le> 4"
  by (simp add: bebop_utf8_encode_def Let_def)

text \<open>
  An escape sequence stays within its buffers. It consumes at most the bytes there are and writes at
  most four, and it writes something exactly when it consumes something.
\<close>

theorem unescape_char_bounds:
  "case bebop_unescape_char s of (consumed, out) \<Rightarrow>
     consumed \<le> (case s of None \<Rightarrow> 0 | Some p \<Rightarrow> length p) \<and> length out \<le> 4 \<and> (consumed = 0 \<longleftrightarrow> out = [])"
proof (cases s)
  case (Some p)
  have u: "case unescape_digits p 2 0 0 of None \<Rightarrow> True | Some (pos, code, n) \<Rightarrow> pos \<le> length p" if "2 \<le> length p"
    using unescape_digits_bounds [of p 2 0 0] that by (auto split: option.splits)
  show ?thesis
  proof (cases p)
    case (Cons c cs)
    show ?thesis
      using u length_utf8_encode unfolding Some Cons bebop_unescape_char_def Let_def
      by (auto split: option.splits if_splits)
  qed (simp add: Some bebop_unescape_char_def)
qed (simp add: bebop_unescape_char_def)

end
