(* ===== verification/Schema_Numbers.thy ===== *)
theory Schema_Numbers
  imports Schema_Text Wire_Values
begin

text \<open>
  Numbers in schemas, from \<^verbatim>\<open>bebop/src/bebop_utils.c\<close>: the table of digit values, the parsers of integer,
  floating-point and UUID literals, the scanners that classify a literal, and the method hash. A pair of
  pointers \<^verbatim>\<open>p\<close>, \<^verbatim>\<open>end\<close> is the list of the bytes between them, a null string is \<^term>\<open>None\<close>, and an out-parameter
  that is set only on success is an option. A \<^verbatim>\<open>double\<close> is its IEEE bit pattern.
\<close>

section \<open>Characters\<close>

definition BEBOP_TOLOWER :: "byte \<Rightarrow> byte" where
  "BEBOP_TOLOWER c = (if 0x41 \<le> c \<and> c \<le> 0x5A then c + 32 else c)"

fun bebop__memicmp :: "byte list \<Rightarrow> byte list \<Rightarrow> int" where
  "bebop__memicmp (a # as) (b # bs) =
     (let d = uint (BEBOP_TOLOWER a) - uint (BEBOP_TOLOWER b) in if d \<noteq> 0 then d else bebop__memicmp as bs)"
| "bebop__memicmp _ _ = 0"

text \<open>The bytes of an ASCII literal of the source.\<close>

definition ascii :: "string \<Rightarrow> byte list" where
  "ascii = map of_char"

definition bebop_streqni :: "string \<Rightarrow> byte list \<Rightarrow> bool" where
  "bebop_streqni nul_str buf \<longleftrightarrow> length nul_str = length buf \<and> bebop__memicmp (ascii nul_str) buf = 0"

definition bebop__digit_val :: "byte list" where
  "bebop__digit_val =
     [0xFF, 0xFF, 0xFF, 0xFF, 0xFF, 0xFF, 0xFF, 0xFF, 0xFF, 0xFF, 0xFF, 0xFF, 0xFF, 0xFF, 0xFF, 0xFF,
      0xFF, 0xFF, 0xFF, 0xFF, 0xFF, 0xFF, 0xFF, 0xFF, 0xFF, 0xFF, 0xFF, 0xFF, 0xFF, 0xFF, 0xFF, 0xFF,
      0xFF, 0xFF, 0xFF, 0xFF, 0xFF, 0xFF, 0xFF, 0xFF, 0xFF, 0xFF, 0xFF, 0xFF, 0xFF, 0xFF, 0xFF, 0xFF,
      0x00, 0x01, 0x02, 0x03, 0x04, 0x05, 0x06, 0x07, 0x08, 0x09, 0xFF, 0xFF, 0xFF, 0xFF, 0xFF, 0xFF,
      0xFF, 0x0A, 0x0B, 0x0C, 0x0D, 0x0E, 0x0F, 0xFF, 0xFF, 0xFF, 0xFF, 0xFF, 0xFF, 0xFF, 0xFF, 0xFF,
      0xFF, 0xFF, 0xFF, 0xFF, 0xFF, 0xFF, 0xFF, 0xFF, 0xFF, 0xFF, 0xFF, 0xFF, 0xFF, 0xFF, 0xFF, 0xFF,
      0xFF, 0x0A, 0x0B, 0x0C, 0x0D, 0x0E, 0x0F, 0xFF, 0xFF, 0xFF, 0xFF, 0xFF, 0xFF, 0xFF, 0xFF, 0xFF,
      0xFF, 0xFF, 0xFF, 0xFF, 0xFF, 0xFF, 0xFF, 0xFF, 0xFF, 0xFF, 0xFF, 0xFF, 0xFF, 0xFF, 0xFF, 0xFF,
      0xFF, 0xFF, 0xFF, 0xFF, 0xFF, 0xFF, 0xFF, 0xFF, 0xFF, 0xFF, 0xFF, 0xFF, 0xFF, 0xFF, 0xFF, 0xFF,
      0xFF, 0xFF, 0xFF, 0xFF, 0xFF, 0xFF, 0xFF, 0xFF, 0xFF, 0xFF, 0xFF, 0xFF, 0xFF, 0xFF, 0xFF, 0xFF,
      0xFF, 0xFF, 0xFF, 0xFF, 0xFF, 0xFF, 0xFF, 0xFF, 0xFF, 0xFF, 0xFF, 0xFF, 0xFF, 0xFF, 0xFF, 0xFF,
      0xFF, 0xFF, 0xFF, 0xFF, 0xFF, 0xFF, 0xFF, 0xFF, 0xFF, 0xFF, 0xFF, 0xFF, 0xFF, 0xFF, 0xFF, 0xFF,
      0xFF, 0xFF, 0xFF, 0xFF, 0xFF, 0xFF, 0xFF, 0xFF, 0xFF, 0xFF, 0xFF, 0xFF, 0xFF, 0xFF, 0xFF, 0xFF,
      0xFF, 0xFF, 0xFF, 0xFF, 0xFF, 0xFF, 0xFF, 0xFF, 0xFF, 0xFF, 0xFF, 0xFF, 0xFF, 0xFF, 0xFF, 0xFF,
      0xFF, 0xFF, 0xFF, 0xFF, 0xFF, 0xFF, 0xFF, 0xFF, 0xFF, 0xFF, 0xFF, 0xFF, 0xFF, 0xFF, 0xFF, 0xFF,
      0xFF, 0xFF, 0xFF, 0xFF, 0xFF, 0xFF, 0xFF, 0xFF, 0xFF, 0xFF, 0xFF, 0xFF, 0xFF, 0xFF, 0xFF, 0xFF]"

definition digit_val :: "byte \<Rightarrow> byte" where
  "digit_val c = bebop__digit_val ! unat c"

section \<open>Integers\<close>

text \<open>
  The two accumulation loops: the rest of the input, the accumulator and the overflow flag. The flag is
  raised by the code's test, that the new accumulator is below the old one.
\<close>

fun parse_decimal_loop :: "byte list \<Rightarrow> u64 \<Rightarrow> bool \<Rightarrow> byte list \<times> u64 \<times> bool" where
  "parse_decimal_loop [] acc ov = ([], acc, ov)"
| "parse_decimal_loop (c # p) acc ov =
     (let d = digit_val c
      in if d < 10
         then let acc' = acc * 10 + ucast d in parse_decimal_loop p acc' (ov \<or> acc' < acc)
         else (c # p, acc, ov))"

definition bebop__util_parse_decimal :: "byte list \<Rightarrow> byte list \<times> u64 \<times> bool" where
  "bebop__util_parse_decimal s =
     (case parse_decimal_loop s 0 False of (p, acc, ov) \<Rightarrow> (p, if ov then - 1 else acc, ov))"

fun parse_hex_loop :: "byte list \<Rightarrow> u64 \<Rightarrow> bool \<Rightarrow> byte list \<times> u64 \<times> bool" where
  "parse_hex_loop [] acc ov = ([], acc, ov)"
| "parse_hex_loop (c # p) acc ov =
     (let d = digit_val c
      in if d < 16
         then let acc' = push_bit 4 acc OR ucast d in parse_hex_loop p acc' (ov \<or> acc' < acc)
         else (c # p, acc, ov))"

definition bebop__util_parse_hex :: "byte list \<Rightarrow> byte list \<times> u64 \<times> bool" where
  "bebop__util_parse_hex s =
     (case parse_hex_loop s 0 False of (p, acc, ov) \<Rightarrow> (p, if ov then - 1 else acc, ov))"

definition INT64_MAX :: nat where
  "INT64_MAX = 2 ^ 63 - 1"

text \<open>
  The digits after the sign. Both integer parsers hold this text; the rest, the value and the overflow
  flag come out, unless the first digit is wrong.
\<close>

definition parse_magnitude :: "byte list \<Rightarrow> (byte list \<times> u64 \<times> bool) option" where
  "parse_magnitude p =
     (if 2 \<le> length p \<and> p ! 0 = 0x30 \<and> (p ! 1 = 0x78 \<or> p ! 1 = 0x58)
      then
        let p = drop 2 p
        in if p = [] \<or> digit_val (p ! 0) \<ge> 16 then None else Some (bebop__util_parse_hex p)
      else if digit_val (p ! 0) \<ge> 10 then None
      else Some (bebop__util_parse_decimal p))"

text \<open>
  The \<^verbatim>\<open>int64_t\<close> result is an integer. For the magnitude \<^term>\<open>2 ^ 63\<close> the code negates the converted value,
  which is the smallest \<^verbatim>\<open>int64_t\<close> on a two's complement machine.
\<close>

definition bebop_util_parse_int :: "byte list option \<Rightarrow> int option" where
  "bebop_util_parse_int str =
     (case str of
        None \<Rightarrow> None
      | Some [] \<Rightarrow> None
      | Some s \<Rightarrow>
          let neg = (s ! 0 = 0x2D);
              p = (if s ! 0 = 0x2D \<or> s ! 0 = 0x2B then drop 1 s else s)
          in if p = [] then None
             else
               (case parse_magnitude p of
                  None \<Rightarrow> None
                | Some (rest, uval, overflow) \<Rightarrow>
                    if rest \<noteq> [] \<or> overflow then None
                    else if neg then (if unat uval > INT64_MAX + 1 then None else Some (- int (unat uval)))
                    else (if unat uval > INT64_MAX then None else Some (int (unat uval)))))"

definition bebop_util_parse_uint :: "byte list option \<Rightarrow> u64 option" where
  "bebop_util_parse_uint str =
     (case str of
        None \<Rightarrow> None
      | Some [] \<Rightarrow> None
      | Some s \<Rightarrow>
          if s ! 0 = 0x2D then None
          else
            let p = (if s ! 0 = 0x2B then drop 1 s else s)
            in if p = [] then None
               else
                 (case parse_magnitude p of
                    None \<Rightarrow> None
                  | Some (rest, val, overflow) \<Rightarrow> if rest \<noteq> [] \<or> overflow then None else Some val))"

section \<open>Floating point\<close>

definition DOUBLE_INFINITY :: u64 where
  "DOUBLE_INFINITY = 0x7FF0000000000000"

definition DOUBLE_MINUS_INFINITY :: u64 where
  "DOUBLE_MINUS_INFINITY = 0xFFF0000000000000"

definition DOUBLE_NAN :: u64 where
  "DOUBLE_NAN = 0x7FF8000000000000"

text \<open>
  The C library's \<^verbatim>\<open>strtod\<close> is a parameter: from the bytes of the terminated buffer it gives the value, the
  offset of its end pointer, and whether \<^verbatim>\<open>errno\<close> was set.
\<close>

definition bebop_util_parse_float :: "(byte list \<Rightarrow> u64 \<times> nat \<times> bool) \<Rightarrow> byte list option \<Rightarrow> u64 option" where
  "bebop_util_parse_float strtod str =
     (case str of
        None \<Rightarrow> None
      | Some [] \<Rightarrow> None
      | Some s \<Rightarrow>
          if bebop_streqni ''inf'' s then Some DOUBLE_INFINITY
          else if bebop_streqni ''nan'' s then Some DOUBLE_NAN
          else if bebop_streqni ''-inf'' s then Some DOUBLE_MINUS_INFINITY
          else if bebop_streqni ''+inf'' s then Some DOUBLE_INFINITY
          else if length s \<ge> 64 then None
          else
            (case strtod (s @ [0]) of
               (val, endptr, errno) \<Rightarrow> if errno \<or> endptr \<noteq> length s then None else Some val))"

section \<open>UUID literals\<close>

definition bebop__util_parse_hex_byte :: "byte list \<Rightarrow> nat \<Rightarrow> byte option" where
  "bebop__util_parse_hex_byte s i =
     (let hi = BEBOP_HEX_VALUE (s ! i); lo = BEBOP_HEX_VALUE (s ! (i + 1))
      in if hi < 0 \<or> lo < 0 then None else Some (word_of_int (push_bit 4 hi OR lo)))"

text \<open>The hexadecimal bytes at a list of positions, in order.\<close>

fun parse_hex_bytes :: "byte list \<Rightarrow> nat list \<Rightarrow> byte list option" where
  "parse_hex_bytes s [] = Some []"
| "parse_hex_bytes s (i # js) =
     (case bebop__util_parse_hex_byte s i of
        None \<Rightarrow> None
      | Some b \<Rightarrow> (case parse_hex_bytes s js of None \<Rightarrow> None | Some bs \<Rightarrow> Some (b # bs)))"

definition uuid_dashed_positions :: "nat list" where
  "uuid_dashed_positions = [0, 2, 4, 6, 9, 11, 14, 16, 19, 21, 24, 26, 28, 30, 32, 34]"

definition bebop_util_parse_uuid :: "byte list option \<Rightarrow> byte list option" where
  "bebop_util_parse_uuid str =
     (case str of
        None \<Rightarrow> None
      | Some s \<Rightarrow>
          if length s = 36 then
            (if s ! 8 \<noteq> 0x2D \<or> s ! 13 \<noteq> 0x2D \<or> s ! 18 \<noteq> 0x2D \<or> s ! 23 \<noteq> 0x2D then None
             else parse_hex_bytes s uuid_dashed_positions)
          else if length s = 32 then parse_hex_bytes s (map (\<lambda>i. i * 2) [0..<16])
          else None)"

section \<open>Classifying literals\<close>

definition skip_digits :: "byte \<Rightarrow> byte list \<Rightarrow> byte list" where
  "skip_digits base p = dropWhile (\<lambda>c. digit_val c < base) p"

definition bebop_util_scan_int :: "byte list option \<Rightarrow> bool" where
  "bebop_util_scan_int str =
     (case str of
        None \<Rightarrow> False
      | Some [] \<Rightarrow> False
      | Some s \<Rightarrow>
          let p = (if s ! 0 = 0x2B \<or> s ! 0 = 0x2D then drop 1 s else s)
          in if p = [] then False
             else if 1 < length p \<and> p ! 0 = 0x30 \<and> (p ! 1 = 0x78 \<or> p ! 1 = 0x58) then
               let p = drop 2 p
               in if p = [] \<or> digit_val (p ! 0) \<ge> 16 then False else skip_digits 16 p = []
             else if digit_val (p ! 0) \<ge> 10 then False
             else skip_digits 10 p = [])"

definition bebop_util_scan_float :: "byte list option \<Rightarrow> bool" where
  "bebop_util_scan_float str =
     (case str of
        None \<Rightarrow> False
      | Some [] \<Rightarrow> False
      | Some s \<Rightarrow>
          let p = (if s ! 0 = 0x2B \<or> s ! 0 = 0x2D then drop 1 s else s)
          in if p = [] then False
             else
               let q = skip_digits 10 p;
                   has_dot = (q \<noteq> [] \<and> q ! 0 = 0x2E);
                   r = (if has_dot then skip_digits 10 (drop 1 q) else q);
                   has_digits = (q \<noteq> p \<or> has_dot \<and> r \<noteq> drop 1 q)
               in if \<not> has_digits then False
                  else
                    let has_exp = (r \<noteq> [] \<and> (r ! 0 = 0x65 \<or> r ! 0 = 0x45))
                    in if has_exp then
                         let e = drop 1 r;
                             e = (if e \<noteq> [] \<and> (e ! 0 = 0x2B \<or> e ! 0 = 0x2D) then drop 1 e else e)
                         in if e = [] \<or> digit_val (e ! 0) \<ge> 10 then False else skip_digits 10 e = []
                       else r = [] \<and> has_dot)"

section \<open>Method identifiers\<close>

definition hash_mix_block :: "u32 \<Rightarrow> u32" where
  "hash_mix_block block =
     (let block = block * 0xcc9e2d51; block = push_bit 15 block OR drop_bit 17 block in block * 0x1b873593)"

function hash_blocks :: "byte list \<Rightarrow> nat \<Rightarrow> u32 \<Rightarrow> nat \<times> u32" where
  "hash_blocks input idx hash =
     (if idx + 4 \<le> length input
      then
        let block = ucast (input ! idx) OR push_bit 8 (ucast (input ! (idx + 1))) OR
              push_bit 16 (ucast (input ! (idx + 2))) OR push_bit 24 (ucast (input ! (idx + 3)));
            hash = hash XOR hash_mix_block block;
            hash = push_bit 13 hash OR drop_bit 19 hash
        in hash_blocks input (idx + 4) (hash * 5 + 0xe6546b64)
      else (idx, hash))"
  by pat_completeness auto
termination
  by (relation "measure (\<lambda>(input, idx, _). length input - idx)") auto

declare hash_blocks.simps [simp del]

definition hash_tail :: "byte list \<Rightarrow> nat \<Rightarrow> u32 \<Rightarrow> u32" where
  "hash_tail input idx hash =
     (let remaining = length input - idx;
          tail = (if remaining = 3 then push_bit 16 (ucast (input ! (idx + 2))) else 0);
          tail = (if remaining = 3 \<or> remaining = 2 then tail OR push_bit 8 (ucast (input ! (idx + 1))) else tail)
      in if 1 \<le> remaining \<and> remaining \<le> 3 then hash XOR hash_mix_block (tail OR ucast (input ! idx)) else hash)"

definition bebop_util_hash_method_id :: "byte list \<Rightarrow> u32" where
  "bebop_util_hash_method_id input =
     (case hash_blocks input 0 0x5AFE5EED of
        (idx, hash) \<Rightarrow>
          let hash = hash_tail input idx hash;
              hash = hash XOR drop_bit 16 hash;
              hash = hash * 0x7feb352d;
              hash = hash XOR drop_bit 15 hash;
              hash = hash * 0x846ca68b
          in hash XOR drop_bit 16 hash)"

section \<open>Values of literals\<close>

text \<open>
  The value of a digit, of a digit sequence and of an integer literal, over unbounded numbers. These say
  what the literals mean without reference to the table of the code; \<open>digit_val_value\<close> shows that the table
  holds these values.
\<close>

definition digit_value :: "byte \<Rightarrow> nat" where
  "digit_value c =
     (let n = unat c
      in if 48 \<le> n \<and> n \<le> 57 then n - 48 else if 65 \<le> n \<and> n \<le> 70 then n - 55
         else if 97 \<le> n \<and> n \<le> 102 then n - 87 else 255)"

definition positional :: "nat \<Rightarrow> nat \<Rightarrow> byte list \<Rightarrow> nat" where
  positional_value: "positional base = foldl (\<lambda>v c. v * base + digit_value c)"

definition digits_in :: "nat \<Rightarrow> byte list \<Rightarrow> bool" where
  digits_in_value: "digits_in base p \<longleftrightarrow> p \<noteq> [] \<and> list_all (\<lambda>c. digit_value c < base) p"

definition magnitude :: "byte list \<Rightarrow> nat option" where
  "magnitude p =
     (if 2 \<le> length p \<and> p ! 0 = 0x30 \<and> (p ! 1 = 0x78 \<or> p ! 1 = 0x58)
      then if digits_in 16 (drop 2 p) then Some (positional 16 0 (drop 2 p)) else None
      else if digits_in 10 p then Some (positional 10 0 p) else None)"

fun int_literal :: "byte list \<Rightarrow> int option" where
  "int_literal (c # p) =
     (if c = 0x2D then map_option (\<lambda>v. - int v) (magnitude p)
      else if c = 0x2B then map_option int (magnitude p)
      else map_option int (magnitude (c # p)))"
| "int_literal [] = None"

lemma digit_val_unat:
  "unat (digit_val c) =
     (let n = unat c
      in if 48 \<le> n \<and> n \<le> 57 then n - 48 else if 65 \<le> n \<and> n \<le> 70 then n - 55
         else if 97 \<le> n \<and> n \<le> 102 then n - 87 else 255)"
proof -
  have "list_all (\<lambda>n. unat (digit_val (of_nat n)) =
      (if 48 \<le> n \<and> n \<le> 57 then n - 48 else if 65 \<le> n \<and> n \<le> 70 then n - 55
       else if 97 \<le> n \<and> n \<le> 102 then n - 87 else 255)) [0..<256]"
    by code_simp
  from byte_all [OF this, of c] show ?thesis
    by (simp add: Let_def)
qed

lemma digit_val_value: "unat (digit_val c) = digit_value c"
  by (simp only: digit_val_unat digit_value_def)

lemma positional_def: "positional base = foldl (\<lambda>v c. v * base + unat (digit_val c))"
  by (simp only: positional_value digit_val_value)

lemma digits_in_def: "digits_in base p \<longleftrightarrow> p \<noteq> [] \<and> list_all (\<lambda>c. unat (digit_val c) < base) p"
  by (simp only: digits_in_value digit_val_value)

lemma digit_less [simp]:
  "digit_val c < 10 \<longleftrightarrow> unat (digit_val c) < 10" "digit_val c < 16 \<longleftrightarrow> unat (digit_val c) < 16"
  "10 \<le> digit_val c \<longleftrightarrow> 10 \<le> unat (digit_val c)" "16 \<le> digit_val c \<longleftrightarrow> 16 \<le> unat (digit_val c)"
  by (simp_all add: word_less_nat_alt word_le_nat_alt)

lemma unat_ucast_digit [simp]: "unat (ucast (digit_val c) :: u64) = unat (digit_val c)"
  using byte_less [of "digit_val c"] by (simp add: unsigned_ucast_eq take_bit_nat_eq_self)

lemma step_ge: "1 \<le> base \<Longrightarrow> v \<le> v * base + (d :: nat)"
  by (simp add: trans_le_add1)

lemma positional_ge: "1 \<le> base \<Longrightarrow> v \<le> positional base v p"
proof (induction p arbitrary: v)
  case (Cons c p)
  show ?case
    using step_ge [OF Cons.prems, of v "unat (digit_val c)"] Cons.IH [OF Cons.prems, of "v * base + unat (digit_val c)"]
    by (simp add: positional_def)
qed (simp add: positional_def)

lemma ucast_digit: "ucast (digit_val c) = (of_nat (unat (digit_val c)) :: u64)"
  by (simp add: word_unat_eq_iff unsigned_of_nat take_bit_nat_eq_self)

lemma positional_Cons: "positional base v (c # p) = positional base (v * base + unat (digit_val c)) p"
  by (simp add: positional_def)

text \<open>
  Both loops stop at the first byte that is not a digit, hold the value of the digits modulo \<^term>\<open>2 ^ 64\<close>, and do not
  raise the flag while the value fits.
\<close>

lemma no_wrap:
  assumes "v * base + d < 2 ^ 64" "1 \<le> base"
  shows "\<not> (of_nat (v * base + d) :: u64) < of_nat v"
proof -
  have "unat (of_nat v :: u64) = v" "unat (of_nat (v * base + d) :: u64) = v * base + d"
    using step_ge [OF assms(2), of v d] assms(1) by (simp_all add: unsigned_of_nat take_bit_nat_eq_self del: of_nat_add of_nat_mult)
  then show ?thesis
    using step_ge [OF assms(2), of v d] by (simp add: word_less_nat_alt del: of_nat_add of_nat_mult)
qed

lemma decimal_step: "of_nat v * 10 + ucast (digit_val c) = (of_nat (v * 10 + unat (digit_val c)) :: u64)"
  by (simp only: ucast_digit of_nat_add of_nat_mult of_nat_numeral)

lemma decimal_loop_Cons:
  "parse_decimal_loop (c # p) (of_nat v) ov =
     (if unat (digit_val c) < 10
      then parse_decimal_loop p (of_nat (v * 10 + unat (digit_val c)))
        (ov \<or> (of_nat (v * 10 + unat (digit_val c)) :: u64) < of_nat v)
      else (c # p, of_nat v, ov))"
  by (simp only: parse_decimal_loop.simps Let_def decimal_step digit_less)

text \<open>The part of the input the loop with base \<open>b\<close> reads.\<close>

abbreviation digit_run :: "nat \<Rightarrow> byte list \<Rightarrow> byte list" where
  "digit_run b \<equiv> takeWhile (\<lambda>c. unat (digit_val c) < b)"

lemma skip_digits_run:
  "skip_digits 10 p = dropWhile (\<lambda>c. unat (digit_val c) < 10) p" "skip_digits 16 p = dropWhile (\<lambda>c. unat (digit_val c) < 16) p"
  by (simp_all add: skip_digits_def)

lemma decimal_loop:
  "\<exists>ov'. parse_decimal_loop p (of_nat v) ov = (skip_digits 10 p, of_nat (positional 10 v (digit_run 10 p)), ov')
     \<and> (positional 10 v (digit_run 10 p) < 2 ^ 64 \<longrightarrow> ov' = ov)"
proof (induction p arbitrary: v ov)
  case Nil
  show ?case
    by (simp add: skip_digits_run positional_def)
next
  case (Cons c p)
  let ?w = "v * 10 + unat (digit_val c)"
  show ?case
  proof (cases "unat (digit_val c) < 10")
    case True
    then have run: "positional 10 v (digit_run 10 (c # p)) = positional 10 ?w (digit_run 10 p)"
      by (simp add: positional_Cons)
    have "\<not> (of_nat ?w :: u64) < of_nat v" if "positional 10 ?w (digit_run 10 p) < 2 ^ 64"
      using that positional_ge [of 10 ?w] by (intro no_wrap) (auto intro: le_less_trans)
    then show ?thesis
      using Cons.IH [of ?w "ov \<or> (of_nat ?w :: u64) < of_nat v"] True
      unfolding run decimal_loop_Cons skip_digits_run by (simp del: of_nat_add of_nat_mult)
  next
    case False
    then show ?thesis
      by (simp only: decimal_loop_Cons) (simp add: skip_digits_run positional_def)
  qed
qed

lemma hex_step:
  assumes "unat (digit_val c) < 16"
  shows "push_bit 4 (of_nat v) OR ucast (digit_val c) = (of_nat (v * 16 + unat (digit_val c)) :: u64)"
proof -
  let ?d = "ucast (digit_val c) :: u64"
  have "take_bit 4 ?d = ?d"
    using assms by (simp add: word_unat_eq_iff unsigned_take_bit_eq take_bit_nat_eq_self)
  then have "\<not> bit ?d n" if "4 \<le> n" for n
    using that by (metis bit_take_bit_iff not_le)
  then have "push_bit 4 (of_nat v) AND ?d = 0"
    by (intro bit_eqI) (auto simp only: bit_push_bit_iff bit_and_iff bit_0_eq bot_apply bot_bool_def not_le)
  then have "push_bit 4 (of_nat v) OR ?d = push_bit 4 (of_nat v) + ?d"
    by (rule disjunctive_add_eq_or [symmetric])
  also have "\<dots> = of_nat (v * 16 + unat (digit_val c))"
    unfolding push_bit_eq_mult ucast_digit by simp
  finally show ?thesis .
qed

lemma hex_loop_Cons:
  "parse_hex_loop (c # p) (of_nat v) ov =
     (if unat (digit_val c) < 16
      then parse_hex_loop p (of_nat (v * 16 + unat (digit_val c)))
        (ov \<or> (of_nat (v * 16 + unat (digit_val c)) :: u64) < of_nat v)
      else (c # p, of_nat v, ov))"
  by (simp only: parse_hex_loop.simps Let_def digit_less hex_step cong: if_cong)

lemma hex_loop:
  "\<exists>ov'. parse_hex_loop p (of_nat v) ov = (skip_digits 16 p, of_nat (positional 16 v (digit_run 16 p)), ov')
     \<and> (positional 16 v (digit_run 16 p) < 2 ^ 64 \<longrightarrow> ov' = ov)"
proof (induction p arbitrary: v ov)
  case Nil
  show ?case
    by (simp add: skip_digits_run positional_def)
next
  case (Cons c p)
  let ?w = "v * 16 + unat (digit_val c)"
  show ?case
  proof (cases "unat (digit_val c) < 16")
    case True
    then have run: "positional 16 v (digit_run 16 (c # p)) = positional 16 ?w (digit_run 16 p)"
      by (simp add: positional_Cons)
    have "\<not> (of_nat ?w :: u64) < of_nat v" if "positional 16 ?w (digit_run 16 p) < 2 ^ 64"
      using that positional_ge [of 16 ?w] by (intro no_wrap) (auto intro: le_less_trans)
    then show ?thesis
      using Cons.IH [of ?w "ov \<or> (of_nat ?w :: u64) < of_nat v"] True
      unfolding run hex_loop_Cons skip_digits_run by (simp del: of_nat_add of_nat_mult)
  next
    case False
    then show ?thesis
      by (simp only: hex_loop_Cons) (simp add: skip_digits_run positional_def)
  qed
qed

lemma digits_run: "list_all (\<lambda>c. unat (digit_val c) < b) p \<longleftrightarrow> dropWhile (\<lambda>c. unat (digit_val c) < b) p = []"
  by (simp add: list_all_iff dropWhile_eq_Nil_conv)

lemma run_all: "list_all (\<lambda>c. unat (digit_val c) < b) p \<Longrightarrow> digit_run b p = p"
  by (simp add: list_all_iff takeWhile_eq_all_conv)

lemma parse_run:
  "\<exists>ov. bebop__util_parse_decimal p = (skip_digits 10 p, if ov then - 1 else of_nat (positional 10 0 (digit_run 10 p)), ov)
     \<and> (positional 10 0 (digit_run 10 p) < 2 ^ 64 \<longrightarrow> ov = False)"
  "\<exists>ov. bebop__util_parse_hex p = (skip_digits 16 p, if ov then - 1 else of_nat (positional 16 0 (digit_run 16 p)), ov)
     \<and> (positional 16 0 (digit_run 16 p) < 2 ^ 64 \<longrightarrow> ov = False)"
proof -
  obtain ov1 where d: "parse_decimal_loop p 0 False = (skip_digits 10 p, of_nat (positional 10 0 (digit_run 10 p)), ov1)"
      "positional 10 0 (digit_run 10 p) < 2 ^ 64 \<longrightarrow> ov1 = False"
    using decimal_loop [of p 0 False] unfolding semiring_1_class.of_nat_0 by blast
  obtain ov2 where h: "parse_hex_loop p 0 False = (skip_digits 16 p, of_nat (positional 16 0 (digit_run 16 p)), ov2)"
      "positional 16 0 (digit_run 16 p) < 2 ^ 64 \<longrightarrow> ov2 = False"
    using hex_loop [of p 0 False] unfolding semiring_1_class.of_nat_0 by blast
  show "\<exists>ov. bebop__util_parse_decimal p = (skip_digits 10 p, if ov then - 1 else of_nat (positional 10 0 (digit_run 10 p)), ov)
     \<and> (positional 10 0 (digit_run 10 p) < 2 ^ 64 \<longrightarrow> ov = False)"
    unfolding bebop__util_parse_decimal_def d(1) prod.case by (intro exI [of _ ov1] conjI d(2) refl)
  show "\<exists>ov. bebop__util_parse_hex p = (skip_digits 16 p, if ov then - 1 else of_nat (positional 16 0 (digit_run 16 p)), ov)
     \<and> (positional 16 0 (digit_run 16 p) < 2 ^ 64 \<longrightarrow> ov = False)"
    unfolding bebop__util_parse_hex_def h(1) prod.case by (intro exI [of _ ov2] conjI h(2) refl)
qed

lemma head_digit:
  "p \<noteq> [] \<Longrightarrow> digits_in b p \<longleftrightarrow> unat (digit_val (p ! 0)) < b \<and> dropWhile (\<lambda>c. unat (digit_val c) < b) p = []"
  by (cases p) (auto simp: digits_in_def digits_run)

text \<open>What the shared text of the integer parsers computes: it succeeds without rest exactly on literals.\<close>

abbreviation hex_prefix :: "byte list \<Rightarrow> bool" where
  "hex_prefix p \<equiv> 2 \<le> length p \<and> p ! 0 = 0x30 \<and> (p ! 1 = 0x78 \<or> p ! 1 = 0x58)"

lemma parse_magnitude_hex:
  assumes "hex_prefix p"
  shows "parse_magnitude p =
      (if drop 2 p = [] \<or> 16 \<le> unat (digit_val (drop 2 p ! 0)) then None else Some (bebop__util_parse_hex (drop 2 p)))"
    and "magnitude p = (if digits_in 16 (drop 2 p) then Some (positional 16 0 (drop 2 p)) else None)"
  using assms unfolding parse_magnitude_def magnitude_def Let_def digit_less by (simp_all only: if_True simp_thms)

lemma parse_magnitude_decimal:
  assumes "\<not> hex_prefix p"
  shows "parse_magnitude p = (if 10 \<le> unat (digit_val (p ! 0)) then None else Some (bebop__util_parse_decimal p))"
    and "magnitude p = (if digits_in 10 p then Some (positional 10 0 p) else None)"
  using assms unfolding parse_magnitude_def magnitude_def Let_def digit_less by (simp_all only: if_False simp_thms)

lemma parse_magnitude_none:
  assumes "p \<noteq> []" "magnitude p = None" "parse_magnitude p = Some (r, v, ov)"
  shows "r \<noteq> []"
proof (cases "hex_prefix p")
  case True
  note eqs = parse_magnitude_hex [OF True]
  have p: "drop 2 p \<noteq> []" "unat (digit_val (drop 2 p ! 0)) < 16" "bebop__util_parse_hex (drop 2 p) = (r, v, ov)"
    using assms(3) unfolding eqs(1) by (simp_all only: not_le de_Morgan_disj option.inject option.distinct simp_thms split: if_splits)
  have "dropWhile (\<lambda>c. unat (digit_val c) < 16) (drop 2 p) \<noteq> []"
    using assms(2) head_digit [OF p(1), of 16] p(2) unfolding eqs(2) by (metis option.distinct(1))
  then show ?thesis
    using parse_run(2) [of "drop 2 p"] p(3) unfolding skip_digits_run by (metis prod.inject)
next
  case False
  note eqs = parse_magnitude_decimal [OF False]
  have p: "unat (digit_val (p ! 0)) < 10" "bebop__util_parse_decimal p = (r, v, ov)"
    using assms(3) unfolding eqs(1) by (simp_all only: not_le de_Morgan_disj option.inject option.distinct simp_thms split: if_splits)
  have "dropWhile (\<lambda>c. unat (digit_val c) < 10) p \<noteq> []"
    using assms(2) head_digit [OF assms(1), of 10] p(1) unfolding eqs(2) by (metis option.distinct(1))
  then show ?thesis
    using parse_run(1) [of p] p(2) unfolding skip_digits_run by (metis prod.inject)
qed

lemma parse_magnitude_some:
  assumes "p \<noteq> []" "magnitude p = Some n"
  shows "\<exists>ov. parse_magnitude p = Some ([], if ov then - 1 else of_nat n, ov) \<and> (n < 2 ^ 64 \<longrightarrow> ov = False)"
proof (cases "hex_prefix p")
  case True
  note eqs = parse_magnitude_hex [OF True]
  have d: "digits_in 16 (drop 2 p)" "n = positional 16 0 (drop 2 p)"
    using assms(2) unfolding eqs(2) by (simp_all split: if_splits)
  then have r: "drop 2 p \<noteq> []" "digit_run 16 (drop 2 p) = drop 2 p" "skip_digits 16 (drop 2 p) = []"
    unfolding digits_in_def skip_digits_run digits_run [symmetric] by (blast intro: run_all)+
  then have "unat (digit_val (drop 2 p ! 0)) < 16"
    using head_digit [OF r(1), of 16] d(1) by blast
  then have "parse_magnitude p = Some (bebop__util_parse_hex (drop 2 p))"
    unfolding eqs(1) using r(1) by (simp only: not_le [symmetric] if_False simp_thms)
  with parse_run(2) [of "drop 2 p"] show ?thesis
    unfolding r d(2) by metis
next
  case False
  note eqs = parse_magnitude_decimal [OF False]
  have d: "digits_in 10 p" "n = positional 10 0 p"
    using assms(2) unfolding eqs(2) by (simp_all split: if_splits)
  then have r: "digit_run 10 p = p" "skip_digits 10 p = []"
    unfolding digits_in_def skip_digits_run digits_run [symmetric] by (blast intro: run_all)+
  have "unat (digit_val (p ! 0)) < 10"
    using head_digit [OF assms(1), of 10] d(1) by blast
  then have "parse_magnitude p = Some (bebop__util_parse_decimal p)"
    unfolding eqs(1) by (simp only: not_le [symmetric] if_False simp_thms)
  with parse_run(1) [of p] show ?thesis
    unfolding r d(2) by metis
qed

section \<open>Properties\<close>

lemma int_of_magnitude:
  fixes n :: nat
  assumes "n < 2 ^ 64"
  shows "unat (of_nat n :: u64) = n"
  using assms by (simp add: unsigned_of_nat take_bit_nat_eq_self)

definition parse_signed :: "bool \<Rightarrow> byte list \<Rightarrow> int option" where
  "parse_signed neg p =
     (if p = [] then None
      else
        (case parse_magnitude p of
           None \<Rightarrow> None
         | Some (rest, uval, overflow) \<Rightarrow>
             if rest \<noteq> [] \<or> overflow then None
             else if neg then (if unat uval > INT64_MAX + 1 then None else Some (- int (unat uval)))
             else (if unat uval > INT64_MAX then None else Some (int (unat uval)))))"

lemma parse_int_signed:
  "bebop_util_parse_int (Some (c # s)) = parse_signed (c = 0x2D) (if c = 0x2D \<or> c = 0x2B then s else c # s)"
  unfolding bebop_util_parse_int_def parse_signed_def Let_def option.case list.case nth_Cons_0 drop_Suc_Cons drop_0 One_nat_def
  by (rule refl)

lemma parse_signed_none:
  assumes "magnitude p = None"
  shows "parse_signed neg p = None"
proof (cases "p = [] \<or> parse_magnitude p = None")
  case False
  then obtain r v ov where m: "parse_magnitude p = Some (r, v, ov)"
    by (metis option.exhaust prod_cases3)
  have "r \<noteq> []"
    using parse_magnitude_none [OF _ assms m] False by blast
  then show ?thesis
    using False by (simp only: parse_signed_def m option.case prod.case if_True simp_thms split: if_split)
qed (auto simp: parse_signed_def)

lemma parse_signed_some:
  assumes "p \<noteq> []" "magnitude p = Some n"
  shows "n < 2 ^ 64 \<Longrightarrow> parse_signed neg p =
      (if neg then (if n \<le> 2 ^ 63 then Some (- int n) else None) else (if n < 2 ^ 63 then Some (int n) else None))"
    and "parse_signed neg p = Some i \<Longrightarrow> \<bar>i\<bar> = int (n mod 2 ^ 64) \<and> - (2 ^ 63) \<le> i \<and> i < 2 ^ 63"
proof -
  obtain ov where m: "parse_magnitude p = Some ([], if ov then - 1 else of_nat n, ov)" "n < 2 ^ 64 \<longrightarrow> ov = False"
    using parse_magnitude_some [OF assms] by blast
  have form: "parse_signed neg p = (if ov then None else
      if neg then (if unat (of_nat n :: u64) > INT64_MAX + 1 then None else Some (- int (unat (of_nat n :: u64))))
      else (if unat (of_nat n :: u64) > INT64_MAX then None else Some (int (unat (of_nat n :: u64)))))"
    using assms(1) by (cases ov) (simp_all only: parse_signed_def m(1) option.case prod.case if_True if_False simp_thms)
  show "parse_signed neg p =
      (if neg then (if n \<le> 2 ^ 63 then Some (- int n) else None) else (if n < 2 ^ 63 then Some (int n) else None))"
    if "n < 2 ^ 64"
    unfolding form int_of_magnitude [OF that] INT64_MAX_def using m(2) that by auto
  have mod: "unat (of_nat n :: u64) = n mod 2 ^ 64"
    by (simp add: unsigned_of_nat take_bit_eq_mod)
  show "\<bar>i\<bar> = int (n mod 2 ^ 64) \<and> - (2 ^ 63) \<le> i \<and> i < 2 ^ 63" if "parse_signed neg p = Some i"
    using that unfolding form mod INT64_MAX_def by (auto split: if_splits)
qed

lemma parse_int_value:
  shows "int_literal s = None \<Longrightarrow> bebop_util_parse_int (Some s) = None"
    and "int_literal s = Some j \<Longrightarrow> \<bar>j\<bar> < 2 ^ 64 \<Longrightarrow>
      bebop_util_parse_int (Some s) = (if - (2 ^ 63) \<le> j \<and> j < 2 ^ 63 then Some j else None)"
    and "int_literal s = Some j \<Longrightarrow> bebop_util_parse_int (Some s) = Some i \<Longrightarrow>
      \<bar>i\<bar> = \<bar>j\<bar> mod 2 ^ 64 \<and> - (2 ^ 63) \<le> i \<and> i < 2 ^ 63"
proof -
  consider "s = []" | c p where "s = c # p"
    by (cases s) auto
  then have "(int_literal s = None \<longrightarrow> bebop_util_parse_int (Some s) = None) \<and>
    (\<forall>j. int_literal s = Some j \<longrightarrow> \<bar>j\<bar> < 2 ^ 64 \<longrightarrow>
      bebop_util_parse_int (Some s) = (if - (2 ^ 63) \<le> j \<and> j < 2 ^ 63 then Some j else None)) \<and>
    (\<forall>i j. int_literal s = Some j \<longrightarrow> bebop_util_parse_int (Some s) = Some i \<longrightarrow>
      \<bar>i\<bar> = \<bar>j\<bar> mod 2 ^ 64 \<and> - (2 ^ 63) \<le> i \<and> i < 2 ^ 63)"
  proof cases
    case 1
    then show ?thesis
      by (simp add: bebop_util_parse_int_def)
  next
    case 2
    define q where "q = (if c = 0x2D \<or> c = 0x2B then p else c # p)"
    have parse: "bebop_util_parse_int (Some s) = parse_signed (c = 0x2D) q"
      unfolding 2 parse_int_signed q_def ..
    have lit: "int_literal s = map_option (\<lambda>v. if c = 0x2D then - int v else int v) (magnitude q)"
      unfolding 2 q_def by (auto intro: option.map_cong)
    have empty: "magnitude [] = None"
      by (simp add: magnitude_def digits_in_def)
    show ?thesis
    proof (cases "magnitude q")
      case None
      then show ?thesis
        unfolding parse lit by (simp add: parse_signed_none)
    next
      case (Some n)
      then have "q \<noteq> []"
        using empty by auto
      from parse_signed_some [OF this Some, of "c = 0x2D"] show ?thesis
        unfolding parse lit Some by (auto simp: nat_mod_as_int zmod_int)
    qed
  qed
  then show "int_literal s = None \<Longrightarrow> bebop_util_parse_int (Some s) = None"
    and "int_literal s = Some j \<Longrightarrow> \<bar>j\<bar> < 2 ^ 64 \<Longrightarrow>
      bebop_util_parse_int (Some s) = (if - (2 ^ 63) \<le> j \<and> j < 2 ^ 63 then Some j else None)"
    and "int_literal s = Some j \<Longrightarrow> bebop_util_parse_int (Some s) = Some i \<Longrightarrow>
      \<bar>i\<bar> = \<bar>j\<bar> mod 2 ^ 64 \<and> - (2 ^ 63) \<le> i \<and> i < 2 ^ 63"
    by blast+
qed

lemma scan_int_magnitude:
  "bebop_util_scan_int (Some (c # s)) \<longleftrightarrow> magnitude (if c = 0x2B \<or> c = 0x2D then s else c # s) \<noteq> None"
proof -
  define p where "p = (if c = 0x2B \<or> c = 0x2D then s else c # s)"
  have scan: "bebop_util_scan_int (Some (c # s)) =
      (if p = [] then False
       else if hex_prefix p then
         if drop 2 p = [] \<or> 16 \<le> unat (digit_val (drop 2 p ! 0)) then False else skip_digits 16 (drop 2 p) = []
       else if 10 \<le> unat (digit_val (p ! 0)) then False else skip_digits 10 p = [])"
    unfolding bebop_util_scan_int_def p_def Let_def option.case list.case nth_Cons_0 drop_Suc_Cons drop_0 One_nat_def
    by (simp only: digit_less numeral_2_eq_2 Suc_le_eq)
  show ?thesis
    unfolding scan p_def [symmetric]
    using head_digit [of "drop 2 p" 16] head_digit [of p 10] parse_magnitude_hex(2) [of p] parse_magnitude_decimal(2) [of p]
    by (cases "p = []"; cases "hex_prefix p"; cases "drop 2 p = []")
      (auto simp: skip_digits_run magnitude_def digits_in_def not_le)
qed

text \<open>
  C22: integer literals. Scanning accepts exactly the literals: an optional sign, then \<^verbatim>\<open>0x\<close> and hexadecimal digits
  or decimal digits. Parsing rejects everything else, gives the value of every literal that an \<^verbatim>\<open>int64_t\<close> can hold, rejects
  every other literal whose magnitude is below \<^term>\<open>2 ^ 64\<close>, and never gives a value other than the literal's
  modulo \<^term>\<open>2 ^ 64\<close>.
\<close>

theorem parse_int_exact:
  "(bebop_util_scan_int (Some s) \<longleftrightarrow> int_literal s \<noteq> None) \<and>
   (int_literal s = None \<longrightarrow> bebop_util_parse_int (Some s) = None) \<and>
   (\<forall>j. int_literal s = Some j \<and> \<bar>j\<bar> < 2 ^ 64 \<longrightarrow>
      bebop_util_parse_int (Some s) = (if - (2 ^ 63) \<le> j \<and> j < 2 ^ 63 then Some j else None)) \<and>
   (\<forall>i j. int_literal s = Some j \<and> bebop_util_parse_int (Some s) = Some i \<longrightarrow>
      \<bar>i\<bar> = \<bar>j\<bar> mod 2 ^ 64 \<and> - (2 ^ 63) \<le> i \<and> i < 2 ^ 63)"
proof -
  have "bebop_util_scan_int (Some s) \<longleftrightarrow> int_literal s \<noteq> None"
  proof (cases s)
    case (Cons c p)
    show ?thesis
      unfolding Cons scan_int_magnitude by simp
  qed (simp add: bebop_util_scan_int_def)
  then show ?thesis
    using parse_int_value(1) [of s] parse_int_value(2,3) [of s] by (intro conjI allI impI) (assumption | elim conjE; assumption | blast)+
qed

lemmas literal_eval = magnitude_def digits_in_def positional_def ascii_def digit_val_unat Let_def ucast_digit
  parse_magnitude_def bebop__util_parse_decimal_def bebop__util_parse_hex_def INT64_MAX_def

theorem parse_int_exact_witness:
  "bebop_util_parse_int (Some (ascii ''-0x10'')) = Some (- 16) \<and> bebop_util_parse_int (Some (ascii ''9223372036854775808'')) = None"
proof -
  have l: "int_literal (ascii ''-0x10'') = Some (- 16)" "int_literal (ascii ''9223372036854775808'') = Some (2 ^ 63)"
    by (simp_all add: literal_eval)
  show ?thesis
    using parse_int_exact [of "ascii ''-0x10''"] parse_int_exact [of "ascii ''9223372036854775808''"] unfolding l by simp
qed

text \<open>The loops on digits of which all but the last have a value that fits.\<close>

lemma positional_snoc: "positional base v (q @ [c]) = positional base v q * base + unat (digit_val c)"
  by (simp add: positional_def)

lemma loop_snoc_no_wrap:
  assumes "positional base (v * base + d) q < 2 ^ 64" "1 \<le> base"
  shows "\<not> (of_nat (v * base + d) :: u64) < of_nat v"
  using positional_ge [OF assms(2), of "v * base + d" q] assms by (intro no_wrap) linarith+

lemma decimal_loop_snoc:
  assumes "list_all (\<lambda>c. unat (digit_val c) < 10) (q @ [c])" "positional 10 v q < 2 ^ 64"
  shows "parse_decimal_loop (q @ [c]) (of_nat v) ov =
    ([], of_nat (positional 10 v (q @ [c])), ov \<or> (of_nat (positional 10 v (q @ [c])) :: u64) < of_nat (positional 10 v q))"
  using assms
proof (induction q arbitrary: v ov)
  case Nil
  then have "unat (digit_val c) < 10"
    by simp
  then show ?case
    by (simp only: append_Nil decimal_loop_Cons if_True parse_decimal_loop.simps(1) positional_def foldl_Cons foldl_Nil)
next
  case (Cons a q)
  let ?w = "v * 10 + unat (digit_val a)"
  have p: "unat (digit_val a) < 10" "positional 10 ?w q < 2 ^ 64"
    using Cons.prems by (simp_all add: positional_Cons)
  note nw = loop_snoc_no_wrap [OF p(2)]
  show ?case
    using Cons.IH [of ?w ov] Cons.prems(1) p nw
    by (simp only: append_Cons decimal_loop_Cons positional_Cons if_True simp_thms list.pred_inject one_le_numeral)
qed

lemma hex_loop_snoc:
  assumes "list_all (\<lambda>c. unat (digit_val c) < 16) (q @ [c])" "positional 16 v q < 2 ^ 64"
  shows "parse_hex_loop (q @ [c]) (of_nat v) ov =
    ([], of_nat (positional 16 v (q @ [c])), ov \<or> (of_nat (positional 16 v (q @ [c])) :: u64) < of_nat (positional 16 v q))"
  using assms
proof (induction q arbitrary: v ov)
  case Nil
  then have "unat (digit_val c) < 16"
    by simp
  then show ?case
    by (simp only: append_Nil hex_loop_Cons if_True parse_hex_loop.simps(1) positional_def foldl_Cons foldl_Nil)
next
  case (Cons a q)
  let ?w = "v * 16 + unat (digit_val a)"
  have p: "unat (digit_val a) < 16" "positional 16 ?w q < 2 ^ 64"
    using Cons.prems by (simp_all add: positional_Cons)
  note nw = loop_snoc_no_wrap [OF p(2)]
  show ?case
    using Cons.IH [of ?w ov] Cons.prems(1) p nw
    by (simp only: append_Cons hex_loop_Cons positional_Cons if_True simp_thms list.pred_inject one_le_numeral)
qed

lemma wrapped_less: "v < 2 ^ 64 \<Longrightarrow> (of_nat n :: u64) < of_nat v \<longleftrightarrow> n mod 2 ^ 64 < v"
  by (simp add: word_less_nat_alt unsigned_of_nat take_bit_eq_mod)

lemma digit_neq:
  assumes "unat (digit_val c) < 16"
  shows "c \<noteq> 0x2D" "c \<noteq> 0x2B" "c \<noteq> 0x78" "c \<noteq> 0x58"
  using assms by (auto simp: digit_val_unat)

text \<open>
  C38: the overflow test of the integer parsers compares the accumulator with its value before the digit,
  which does not catch every overflow. Take any decimal literal, or hexadecimal literal after \<^verbatim>\<open>0x\<close>, whose
  digits but the last have a value below \<^term>\<open>2 ^ 64\<close> (so every one of at most twenty, or seventeen,
  digits). It is refused only if its value \<open>N\<close> modulo \<^term>\<open>2 ^ 64\<close> is below the value of the digits before the
  last; in every other case, also where \<open>N\<close> does not fit, it is accepted with the value \<open>N\<close> modulo
  \<^term>\<open>2 ^ 64\<close>.
\<close>

theorem parse_uint_misses_overflow:
  assumes "base = 10 \<and> lit = q @ [c] \<or> base = 16 \<and> lit = [0x30, 0x78] @ q @ [c]"
    and "q \<noteq> []" "digits_in base (q @ [c])" "positional base 0 q < 2 ^ 64" "N = positional base 0 (q @ [c])"
  shows "int_literal lit = Some (int N)
    \<and> bebop_util_parse_uint (Some lit) =
        (if N mod 2 ^ 64 < positional base 0 q then None else Some (of_nat N))"
proof -
  have digs: "list_all (\<lambda>c. unat (digit_val c) < base) (q @ [c])"
    using assms(3) by (simp add: digits_in_def)
  obtain a q' where q: "q = a # q'"
    using assms(2) by (cases q) auto
  have sixteen: "base = 10 \<or> base = 16"
    using assms(1) by blast
  have a: "unat (digit_val a) < base"
    using digs q by simp
  obtain b r where br: "q @ [c] = a # b # r" "unat (digit_val b) < base"
    using digs q by (cases q') auto
  note neq = digit_neq [of a] digit_neq [of b]
  show ?thesis
  proof (cases "base = 10")
    case True
    have lit: "lit = q @ [c]"
      using assms(1) True by auto
    have nohex: "\<not> hex_prefix lit"
      using neq br True unfolding lit br(1) by auto
    have mag: "magnitude lit = Some N" "parse_magnitude lit = Some (bebop__util_parse_decimal lit)"
      using assms(3,5) True a unfolding parse_magnitude_decimal [OF nohex] unfolding lit br(1) by (simp_all add: not_le)
    have "bebop__util_parse_decimal lit =
        ([], if N mod 2 ^ 64 < positional base 0 q then - 1 else of_nat N, N mod 2 ^ 64 < positional base 0 q)"
      using decimal_loop_snoc [of q c 0 False] digs assms(4,5) True wrapped_less [of "positional base 0 q" N]
      unfolding bebop__util_parse_decimal_def lit by simp
    then show ?thesis
      using mag neq a br True unfolding lit br(1) by (simp add: bebop_util_parse_uint_def)
  next
    case False
    then have b16: "base = 16" and lit: "lit = [0x30, 0x78] @ q @ [c]"
      using assms(1) by auto
    have hex: "hex_prefix lit" "drop 2 lit = q @ [c]"
      unfolding lit by simp_all
    have mag: "magnitude lit = Some N" "parse_magnitude lit = Some (bebop__util_parse_hex (q @ [c]))"
      using assms(3,5) b16 a unfolding parse_magnitude_hex [OF hex(1)] unfolding hex(2) br(1) by (simp_all add: not_le)
    have "bebop__util_parse_hex (q @ [c]) =
        ([], if N mod 2 ^ 64 < positional base 0 q then - 1 else of_nat N, N mod 2 ^ 64 < positional base 0 q)"
      using hex_loop_snoc [of q c 0 False] digs assms(4,5) b16 wrapped_less [of "positional base 0 q" N]
      unfolding bebop__util_parse_hex_def by simp
    then show ?thesis
      using mag unfolding lit by (simp add: bebop_util_parse_uint_def)
  qed
qed

text \<open>Two literals above \<^term>\<open>2 ^ 64\<close>, of twenty decimal and of seventeen hexadecimal digits, are accepted.\<close>

theorem parse_uint_misses_overflow_witness:
  "int_literal (ascii ''30000000000000000000'') = Some 30000000000000000000
   \<and> bebop_util_parse_uint (Some (ascii ''30000000000000000000'')) = Some 11553255926290448384
   \<and> int_literal (ascii ''0x1FFFFFFFFFFFFFFFF'') = Some 0x1FFFFFFFFFFFFFFFF
   \<and> bebop_util_parse_uint (Some (ascii ''0x1FFFFFFFFFFFFFFFF'')) = Some 0xFFFFFFFFFFFFFFFF"
proof -
  have d: "digits_in 10 (ascii ''3000000000000000000'' @ ascii ''0'')" "positional 10 0 (ascii ''3000000000000000000'') = 3000000000000000000"
      "30000000000000000000 = positional 10 0 (ascii ''3000000000000000000'' @ ascii ''0'')"
    by (simp_all add: literal_eval)
  have h: "digits_in 16 (ascii ''1FFFFFFFFFFFFFFF'' @ ascii ''F'')" "positional 16 0 (ascii ''1FFFFFFFFFFFFFFF'') = 0x1FFFFFFFFFFFFFFF"
      "0x1FFFFFFFFFFFFFFFF = positional 16 0 (ascii ''1FFFFFFFFFFFFFFF'' @ ascii ''F'')"
    by (simp_all add: literal_eval)
  show ?thesis
    using parse_uint_misses_overflow [where base = 10 and lit = "ascii ''30000000000000000000''" and q = "ascii ''3000000000000000000''"
        and c = "0x30" and N = 30000000000000000000]
      parse_uint_misses_overflow [where base = 16 and lit = "ascii ''0x1FFFFFFFFFFFFFFFF''" and q = "ascii ''1FFFFFFFFFFFFFFF''"
        and c = "0x46" and N = "0x1FFFFFFFFFFFFFFFF"] d h
    by (simp add: ascii_def)
qed

text \<open>Unsigned literals: a sign other than plus is refused, and the value is exact below \<^term>\<open>2 ^ 64\<close>.\<close>

lemma parse_uint_value:
  assumes "int_literal (c # s) = Some j" "\<bar>j\<bar> < 2 ^ 64"
  shows "bebop_util_parse_uint (Some (c # s)) = (if c = 0x2D then None else Some (word_of_int j))"
proof (cases "c = 0x2D")
  case False
  define q where "q = (if c = 0x2B then s else c # s)"
  have parse: "bebop_util_parse_uint (Some (c # s)) = (if q = [] then None else
      (case parse_magnitude q of None \<Rightarrow> None
       | Some (rest, val, overflow) \<Rightarrow> if rest \<noteq> [] \<or> overflow then None else Some val))"
    unfolding bebop_util_parse_uint_def q_def Let_def using False by simp
  obtain n where n: "magnitude q = Some n" "j = int n"
    using assms(1) False by (auto simp: q_def split: if_splits)
  then have q: "q \<noteq> []"
    by (auto simp: magnitude_def digits_in_def)
  obtain ov where "parse_magnitude q = Some ([], if ov then - 1 else of_nat n, ov)" "n < 2 ^ 64 \<longrightarrow> ov = False"
    using parse_magnitude_some [OF q n(1)] by blast
  then show ?thesis
    using False q n(2) assms(2) unfolding parse by (simp split: if_splits)
qed (simp add: bebop_util_parse_uint_def)

section \<open>UUID literals and the runtime\<close>

lemma hex_value_facts:
  "0 \<le> BEBOP_HEX_VALUE c \<longleftrightarrow> isxdigit c" "isxdigit c \<Longrightarrow> word_of_int (BEBOP_HEX_VALUE c) = hex_value c"
  "isxdigit c \<Longrightarrow> BEBOP_HEX_VALUE c < 16"
proof -
  show "0 \<le> BEBOP_HEX_VALUE c \<longleftrightarrow> isxdigit c" "isxdigit c \<Longrightarrow> BEBOP_HEX_VALUE c < 16"
    by (auto simp: BEBOP_HEX_VALUE_def isxdigit_def word_le_def)
  have "list_all (\<lambda>n. word_of_int (BEBOP_HEX_VALUE (of_nat n)) = hex_value (of_nat n)) ([48..<58] @ [65..<71] @ [97..<103])"
    by code_simp
  moreover have "unat c \<in> set ([48..<58] @ [65..<71] @ [97..<103])" if "isxdigit c"
    using that unfolding isxdigit_def word_le_nat_alt set_append set_upt by simp linarith
  ultimately show "isxdigit c \<Longrightarrow> word_of_int (BEBOP_HEX_VALUE c) = hex_value c"
    unfolding list_all_iff by (metis of_nat_unat ucast_id)
qed

lemma hex_byte_some:
  "bebop__util_parse_hex_byte s i = Some b \<longleftrightarrow>
     isxdigit (s ! i) \<and> isxdigit (s ! (i + 1)) \<and> b = push_bit 4 (hex_value (s ! i)) OR hex_value (s ! (i + 1))"
proof -
  have "word_of_int (push_bit 4 (BEBOP_HEX_VALUE x) OR BEBOP_HEX_VALUE y) = (push_bit 4 (hex_value x) OR hex_value y)"
    if "isxdigit x" "isxdigit y" for x y
    using that by (simp add: hex_value_facts(2) [symmetric] of_int_or_eq push_bit_of_int)
  then show ?thesis
    using hex_value_facts(1) by (auto simp: bebop__util_parse_hex_byte_def Let_def not_less [symmetric])
qed

text \<open>Positions of pairs one after the other from a position on, with at most one dash before each.\<close>

fun laid_out :: "byte list \<Rightarrow> nat \<Rightarrow> nat list \<Rightarrow> bool" where
  "laid_out s i [] \<longleftrightarrow> i = length s"
| "laid_out s i (j # js) \<longleftrightarrow> j + 2 \<le> length s \<and> (j = i \<or> j = i + 1 \<and> s ! i = 0x2D) \<and> laid_out s (j + 2) js"

lemma hex_bytes_text: "laid_out s i js \<Longrightarrow> parse_hex_bytes s js = Some bs \<Longrightarrow> uuid_text (drop i s) bs \<and> length bs = length js"
proof (induction js arbitrary: i bs)
  case Nil
  then show ?case
    by (simp add: uuid_text.Nil)
next
  case (Cons j js)
  obtain b cs where b: "bebop__util_parse_hex_byte s j = Some b" "parse_hex_bytes s js = Some cs" "bs = b # cs"
    using Cons.prems(2) by (auto split: option.splits)
  have "drop j s = s ! j # s ! (j + 1) # drop (j + 2) s"
    using Cons.prems(1) by (simp add: Cons_nth_drop_Suc)
  then have t: "uuid_text (drop j s) bs"
    using Cons.IH [of "j + 2" cs] Cons.prems(1) b uuid_text.Pair hex_byte_some [of s j b] by auto
  moreover have "drop i s = 0x2D # drop j s" if "j \<noteq> i"
    using that Cons.prems(1) by (auto simp: Cons_nth_drop_Suc [symmetric])
  ultimately have "uuid_text (drop i s) bs"
    using uuid_text.Dash by (cases "j = i") auto
  then show ?case
    using Cons.IH [of "j + 2" cs] Cons.prems(1) b by auto
qed

lemma schema_uuid_text:
  assumes "bebop_util_parse_uuid (Some s) = Some bs"
  shows "uuid_text s bs \<and> length bs = 16"
proof -
  consider "length s = 36" "s ! 8 = 0x2D" "s ! 13 = 0x2D" "s ! 18 = 0x2D" "s ! 23 = 0x2D" "parse_hex_bytes s uuid_dashed_positions = Some bs"
    | "length s = 32" "parse_hex_bytes s (map (\<lambda>i. i * 2) [0..<16]) = Some bs"
    using assms by (auto simp: bebop_util_parse_uuid_def split: if_splits)
  then show ?thesis
  proof cases
    case 1
    then have "laid_out s 0 uuid_dashed_positions"
      by (simp add: uuid_dashed_positions_def)
    from hex_bytes_text [OF this 1(6)] show ?thesis
      by (simp add: uuid_dashed_positions_def)
  next
    case 2
    then have "laid_out s 0 (map (\<lambda>i. i * 2) [0..<16])"
      by (simp add: upt_rec)
    from hex_bytes_text [OF this 2(2)] show ?thesis
      by simp
  qed
qed

lemma upt_16: "[0..<16] = [0, 1, 2, 3, 4, 5, 6, 7, 8, 9, 10, 11, 12, 13, 14, 15 :: nat]"
  by code_simp

lemma uuid_chars_list:
  "uuid_chars u = concat (map (\<lambda>i. (if i = 4 \<or> i = 6 \<or> i = 8 \<or> i = 10 then [0x2D] else []) @
     [bebop__wire_hex_chars ! unat (drop_bit 4 (u ! i) AND 0xF), bebop__wire_hex_chars ! unat (u ! i AND 0xF)])
     [0, 1, 2, 3, 4, 5, 6, 7, 8, 9, 10, 11, 12, 13, 14, 15])"
  unfolding uuid_chars_def upt_16 by (rule refl)

lemma hex_byte_chars:
  assumes "s ! i = bebop__wire_hex_chars ! unat (drop_bit 4 b AND 0xF)" "s ! (i + 1) = bebop__wire_hex_chars ! unat (b AND 0xF)"
  shows "bebop__util_parse_hex_byte s i = Some b"
proof -
  note hi = hex_chars [OF nibble(1) [of "drop_bit 4 b"]] and lo = hex_chars [OF nibble(1) [of b]]
  have "hex_value (s ! i) = drop_bit 4 b AND 0xF" "hex_value (s ! (i + 1)) = b AND 0xF"
    using hi lo by (simp_all only: assms word_unat_eq_iff)
  then have "b = push_bit 4 (hex_value (s ! i)) OR hex_value (s ! (i + 1))"
    using nibble(2) [of b] by (simp only:)
  then show ?thesis
    unfolding hex_byte_some using hi lo by (simp only: assms simp_thms)
qed

text \<open>
  C39: the compiler and the runtime read UUIDs alike. The bytes the compiler parses a UUID literal to are the
  bytes the runtime parses the same text to, and the compiler parses the runtime's text form of any UUID
  back to it.
\<close>

theorem schema_uuid_agrees:
  "(\<forall>s bs. bebop_util_parse_uuid (Some s) = Some bs \<longrightarrow> length bs = 16 \<and> bebop_uuid_parse (Some s) = bs) \<and>
   (\<forall>u. length u = 16 \<longrightarrow> bebop_util_parse_uuid (Some (uuid_chars u)) = Some u)"
proof (intro conjI allI impI)
  fix s bs
  assume "bebop_util_parse_uuid (Some s) = Some bs"
  from schema_uuid_text [OF this] show "length bs = 16" "bebop_uuid_parse (Some s) = bs"
    using parse_loop_complete [of s bs "[]" "[]" "[]"] by (simp_all add: bebop_uuid_parse_def)
next
  fix u :: "byte list"
  assume u: "length u = 16"
  have "u = map ((!) u) [0..<16]"
    using u map_nth by metis
  then have list: "u = map ((!) u) [0, 1, 2, 3, 4, 5, 6, 7, 8, 9, 10, 11, 12, 13, 14, 15]"
    unfolding upt_16 .
  have "parse_hex_bytes (uuid_chars u) uuid_dashed_positions = Some (map ((!) u) [0, 1, 2, 3, 4, 5, 6, 7, 8, 9, 10, 11, 12, 13, 14, 15])"
    unfolding uuid_dashed_positions_def
    by (simp add: hex_byte_chars [of _ _ "u ! _"] uuid_chars_list hex_byte_chars)
  then show "bebop_util_parse_uuid (Some (uuid_chars u)) = Some u"
    unfolding list [symmetric] by (simp add: bebop_util_parse_uuid_def length_uuid_chars) (simp add: uuid_chars_list)
qed

theorem schema_uuid_agrees_witness:
  "bebop_uuid_parse (Some (ascii ''00112233-4455-6677-8899-aAbBcCdDeEfF'')) =
     [0x00, 0x11, 0x22, 0x33, 0x44, 0x55, 0x66, 0x77, 0x88, 0x99, 0xAA, 0xBB, 0xCC, 0xDD, 0xEE, 0xFF]"
proof -
  have "bebop_util_parse_uuid (Some (ascii ''00112233-4455-6677-8899-aAbBcCdDeEfF'')) =
      Some [0x00, 0x11, 0x22, 0x33, 0x44, 0x55, 0x66, 0x77, 0x88, 0x99, 0xAA, 0xBB, 0xCC, 0xDD, 0xEE, 0xFF]"
    by code_simp
  with schema_uuid_agrees show ?thesis
    by blast
qed

end
