(* ===== verification/Schema_Time.thy ===== *)
theory Schema_Time
  imports Schema_Numbers "HOL-Library.Monad_Syntax" "HOL-Library.Signed_Division"
begin

text \<open>
  Timestamp literals, from \<^verbatim>\<open>bebop/src/bebop_utils.c\<close>. As for numbers, a pair of pointers is the list of
  bytes between them, and a function that returns \<^verbatim>\<open>false\<close> returns \<^term>\<open>None\<close>. The \<^verbatim>\<open>int\<close>, \<^verbatim>\<open>int32_t\<close> and \<^verbatim>\<open>int64_t\<close> values are
  integers, divided with the truncating division of C; at most nine digits make a fraction and four a year, so
  none of the sums leaves the range of its type.
\<close>

section \<open>Pieces of a literal\<close>

definition check :: "bool \<Rightarrow> unit option" where
  "check b = (if b then Some () else None)"

text \<open>The byte that must come next, as the code tests it before it advances.\<close>

definition expect :: "byte list \<Rightarrow> byte list \<Rightarrow> byte list option" where
  "expect cs p = (if p = [] \<or> p ! 0 \<notin> set cs then None else Some (drop 1 p))"

definition bebop__util_parse_2digit :: "byte list \<Rightarrow> (int \<times> byte list) option" where
  "bebop__util_parse_2digit p =
     (if length p < 2 then None
      else
        let d0 = digit_val (p ! 0); d1 = digit_val (p ! 1)
        in if d0 \<ge> 10 \<or> d1 \<ge> 10 then None else Some (uint d0 * 10 + uint d1, drop 2 p))"

definition bebop__util_parse_4digit :: "byte list \<Rightarrow> (int \<times> byte list) option" where
  "bebop__util_parse_4digit p =
     (if length p < 4 then None
      else
        let d0 = digit_val (p ! 0); d1 = digit_val (p ! 1); d2 = digit_val (p ! 2); d3 = digit_val (p ! 3)
        in if d0 \<ge> 10 \<or> d1 \<ge> 10 \<or> d2 \<ge> 10 \<or> d3 \<ge> 10 then None
           else Some (uint d0 * 1000 + uint d1 * 100 + uint d2 * 10 + uint d3, drop 4 p))"

text \<open>
  The fraction after a dot: at most \<open>n\<close> digits are read, the number is scaled to \<open>n\<close> digits, and further digits are
  skipped.
\<close>

fun frac_loop :: "nat \<Rightarrow> byte list \<Rightarrow> nat \<Rightarrow> nat \<Rightarrow> byte list \<times> nat \<times> nat" where
  "frac_loop n [] frac digits = ([], frac, digits)"
| "frac_loop n (c # p) frac digits =
     (if digits < n
      then
        let d = digit_val c
        in if d \<ge> 10 then (c # p, frac, digits) else frac_loop n p (frac * 10 + unat d) (digits + 1)
      else (c # p, frac, digits))"

fun scale_frac :: "nat \<Rightarrow> nat \<Rightarrow> nat" where
  "scale_frac 0 frac = frac"
| "scale_frac (Suc k) frac = scale_frac k (frac * 10)"

definition parse_fraction :: "nat \<Rightarrow> byte list \<Rightarrow> nat \<times> byte list" where
  "parse_fraction n p = (case frac_loop n p 0 0 of (p, frac, digits) \<Rightarrow> (scale_frac (n - digits) frac, skip_digits 10 p))"

section \<open>Timestamps\<close>

definition bebop__util_days_from_civil :: "int \<Rightarrow> int \<Rightarrow> int \<Rightarrow> int" where
  "bebop__util_days_from_civil y m d =
     (let y = y - (if m \<le> 2 then 1 else 0);
          era = (if y \<ge> 0 then y else y - 399) sdiv 400;
          yoe = y - era * 400;
          doy = (153 * (m + (if m > 2 then - 3 else 9)) + 2) sdiv 5 + d - 1;
          doe = yoe * 365 + yoe sdiv 4 - yoe sdiv 100 + doy
      in era * 146097 + doe - 719468)"

definition bebop__month_days :: "int list" where
  "bebop__month_days = [31, 28, 31, 30, 31, 30, 31, 31, 30, 31, 30, 31]"

definition timestamp_max_day :: "int \<Rightarrow> int \<Rightarrow> int" where
  "timestamp_max_day year month =
     (if month = 2 \<and> (year smod 4 = 0 \<and> year smod 100 \<noteq> 0 \<or> year smod 400 = 0) then 29
      else bebop__month_days ! nat (month - 1))"

definition timestamp_date :: "byte list \<Rightarrow> (int \<times> int \<times> int \<times> byte list) option" where
  "timestamp_date p = do {
     (year, p) \<leftarrow> bebop__util_parse_4digit p;
     p \<leftarrow> expect [0x2D] p;
     (month, p) \<leftarrow> bebop__util_parse_2digit p;
     check (\<not> (month < 1 \<or> month > 12));
     p \<leftarrow> expect [0x2D] p;
     (day, p) \<leftarrow> bebop__util_parse_2digit p;
     check (\<not> (day < 1 \<or> day > timestamp_max_day year month));
     Some (year, month, day, p)
   }"

definition timestamp_clock :: "byte list \<Rightarrow> (int \<times> int \<times> int \<times> byte list) option" where
  "timestamp_clock p = do {
     (hour, p) \<leftarrow> bebop__util_parse_2digit p;
     check (\<not> hour > 23);
     p \<leftarrow> expect [0x3A] p;
     (minute, p) \<leftarrow> bebop__util_parse_2digit p;
     check (\<not> minute > 59);
     p \<leftarrow> expect [0x3A] p;
     (second, p) \<leftarrow> bebop__util_parse_2digit p;
     check (\<not> second > 60);
     Some (hour, minute, second, p)
   }"

definition timestamp_nanos :: "byte list \<Rightarrow> int \<times> byte list" where
  "timestamp_nanos p =
     (if p \<noteq> [] \<and> p ! 0 = 0x2E then (case parse_fraction 9 (drop 1 p) of (frac, p) \<Rightarrow> (int frac, p)) else (0, p))"

text \<open>Two digits below a bound, where there is a digit; nothing otherwise.\<close>

definition zone_part :: "int \<Rightarrow> byte list \<Rightarrow> (int \<times> byte list) option" where
  "zone_part bound p =
     (if p \<noteq> [] \<and> digit_val (p ! 0) < 10
      then do {
        (v, p) \<leftarrow> bebop__util_parse_2digit p;
        check (\<not> v > bound);
        Some (v, p)
      }
      else Some (0, p))"

definition zone_millis :: "byte list \<Rightarrow> int \<times> byte list" where
  "zone_millis p =
     (if p \<noteq> [] \<and> p ! 0 = 0x2E then (case parse_fraction 3 (drop 1 p) of (frac, p) \<Rightarrow> (int frac, p)) else (0, p))"

text \<open>The zone: the offset in seconds, the offset in milliseconds and the rest.\<close>

definition timestamp_zone :: "byte list \<Rightarrow> (int \<times> int \<times> byte list) option" where
  "timestamp_zone p =
     (if p = [] then Some (0, 0, p)
      else if p ! 0 = 0x5A \<or> p ! 0 = 0x7A then Some (0, 0, drop 1 p)
      else if p ! 0 = 0x2B \<or> p ! 0 = 0x2D then do {
        let neg = (p ! 0 = 0x2D);
        (tz_hour, p) \<leftarrow> bebop__util_parse_2digit (drop 1 p);
        check (\<not> tz_hour > 23);
        let p = (if p \<noteq> [] \<and> p ! 0 = 0x3A then drop 1 p else p);
        (tz_min, p) \<leftarrow> zone_part 59 p;
        (tz_sec, p) \<leftarrow> (if p \<noteq> [] \<and> p ! 0 = 0x3A then zone_part 59 (drop 1 p) else Some (0, p));
        let (tz_ms, p) = zone_millis p;
        let tz_offset = tz_hour * 3600 + tz_min * 60 + tz_sec;
        let offset_ms = tz_hour * 3600000 + tz_min * 60000 + tz_sec * 1000 + tz_ms;
        let tz_offset = (if neg then - tz_offset else tz_offset);
        let offset_ms = (if neg then - offset_ms else offset_ms);
        check (\<not> (offset_ms < - 86400000 \<or> offset_ms > 86400000));
        Some (tz_offset, offset_ms, p)
      }
      else Some (0, 0, p))"

text \<open>Seconds since the epoch, nanoseconds and the offset in milliseconds.\<close>

definition bebop_util_parse_timestamp :: "byte list option \<Rightarrow> (int \<times> int \<times> int) option" where
  "bebop_util_parse_timestamp str = do {
     p \<leftarrow> str;
     check (\<not> length p < 19);
     (year, month, day, p) \<leftarrow> timestamp_date p;
     p \<leftarrow> expect [0x54, 0x74, 0x20] p;
     (hour, minute, second, p) \<leftarrow> timestamp_clock p;
     let (nanos, p) = timestamp_nanos p;
     (tz_offset, offset_ms, p) \<leftarrow> timestamp_zone p;
     check (\<not> p \<noteq> []);
     let days = bebop__util_days_from_civil year month day;
     let secs = days * 86400 + hour * 3600 + minute * 60 + second - tz_offset;
     Some (secs, nanos, offset_ms)
   }"

section \<open>The calendar\<close>

text \<open>The Gregorian calendar, counted day by day.\<close>

definition is_leap :: "int \<Rightarrow> bool" where
  "is_leap y \<longleftrightarrow> 4 dvd y \<and> \<not> 100 dvd y \<or> 400 dvd y"

definition month_length :: "int \<Rightarrow> int \<Rightarrow> int" where
  "month_length y m = (if m = 2 then if is_leap y then 29 else 28 else if m \<in> {4, 6, 9, 11} then 30 else 31)"

definition valid_date :: "int \<Rightarrow> int \<Rightarrow> int \<Rightarrow> bool" where
  "valid_date y m d \<longleftrightarrow> 1 \<le> m \<and> m \<le> 12 \<and> 1 \<le> d \<and> d \<le> month_length y m"

definition next_day :: "int \<times> int \<times> int \<Rightarrow> int \<times> int \<times> int" where
  "next_day = (\<lambda>(y, m, d).
     if d < month_length y m then (y, m, d + 1) else if m < 12 then (y, m + 1, 1) else (y + 1, 1, 1))"

lemma month_cases:
  assumes "1 \<le> m" "m \<le> (12 :: int)"
  obtains "m = 1" | "m = 2" | "m = 3" | "m = 4" | "m = 5" | "m = 6" | "m = 7" | "m = 8" | "m = 9" | "m = 10" | "m = 11" | "m = 12"
proof -
  have "m = 1 \<or> m = 2 \<or> m = 3 \<or> m = 4 \<or> m = 5 \<or> m = 6 \<or> m = 7 \<or> m = 8 \<or> m = 9 \<or> m = 10 \<or> m = 11 \<or> m = 12"
    using assms by presburger
  then show ?thesis
    using that by blast
qed

lemma max_day_length:
  assumes "0 \<le> y" "1 \<le> m" "m \<le> 12"
  shows "timestamp_max_day y m = month_length y m"
proof -
  have "y smod k = 0 \<longleftrightarrow> k dvd y" if "0 < k" for k
    using assms(1) that by (simp add: signed_modulo_int_def signed_divide_int_def sgn_if abs_if mod_eq_0_iff_dvd minus_mult_div_eq_mod)
  then show ?thesis
    using assms(2,3) by (elim month_cases) (auto simp: timestamp_max_day_def month_length_def is_leap_def bebop__month_days_def)
qed

lemma sdiv_nonneg: "0 \<le> a \<Longrightarrow> 0 < b \<Longrightarrow> a sdiv b = a div (b :: int)"
  by (cases "a = 0") (simp_all add: signed_divide_int_def)

lemma floor_era: "(if y \<ge> 0 then y else y - 399) sdiv 400 = y div (400 :: int)"
proof (cases "y \<ge> 0")
  case False
  then have "(y - 399) sdiv 400 = - ((399 - y) div 400)"
    by (simp add: signed_divide_int_def)
  also have "(399 - y) div 400 = - (y div 400)"
    using mult_div_mod_eq [of 400 y] pos_mod_bound [of 400 y] pos_mod_sign [of 400 y]
    by (intro int_div_pos_eq [of _ _ _ "399 - y mod 400"]) linarith+
  finally show ?thesis
    using False by simp
qed (simp add: sdiv_nonneg)

text \<open>Days before the first of March of a year, from the first of March of the year zero.\<close>

definition march_days :: "int \<Rightarrow> int" where
  "march_days y = 365 * y + y div 4 - y div 100 + y div 400"

lemma era_days:
  fixes y :: int
  shows "y div 400 * 146097 + ((y - y div 400 * 400) * 365 + (y - y div 400 * 400) sdiv 4 - (y - y div 400 * 400) sdiv 100) =
    march_days y"
proof -
  define q r where "q = y div 400" and "r = y - q * 400"
  have "0 \<le> r"
    unfolding r_def q_def minus_div_mult_eq_mod by (rule pos_mod_sign) simp
  then have s: "r sdiv 4 = r div 4" "r sdiv 100 = r div 100"
    by (simp_all add: sdiv_nonneg)
  have y: "y = r + q * 100 * 4" "y = r + q * 4 * 100"
    by (simp_all add: r_def)
  have "y div 4 = q * 100 + r div 4"
    by (subst y(1)) (rule div_mult_self1, simp)
  moreover have "y div 100 = q * 4 + r div 100"
    by (subst y(2)) (rule div_mult_self1, simp)
  ultimately show ?thesis
    unfolding march_days_def q_def [symmetric] r_def [symmetric] s by (simp add: r_def)
qed

lemma days_march:
  assumes "1 \<le> m" "m \<le> 12"
  shows "bebop__util_days_from_civil y m d =
    march_days (if m \<le> 2 then y - 1 else y) + (153 * (if m > 2 then m - 3 else m + 9) + 2) div 5 + d - 1 - 719468"
proof -
  define z where "z = (if m \<le> 2 then y - 1 else y)"
  have "bebop__util_days_from_civil y m d =
      (let yoe = z - z div 400 * 400 in z div 400 * 146097 + (yoe * 365 + yoe sdiv 4 - yoe sdiv 100)) +
        (153 * (if m > 2 then m - 3 else m + 9) + 2) sdiv 5 + d - 1 - 719468"
    unfolding bebop__util_days_from_civil_def Let_def z_def floor_era by simp
  then show ?thesis
    using assms unfolding Let_def era_days z_def by (simp add: sdiv_nonneg)
qed

lemma march_days_step: "march_days y - march_days (y - 1) = (if is_leap y then 366 else 365)"
proof -
  have step: "y div k = (y - 1) div k + (if k dvd y then 1 else 0)" if k: "0 < k" for k
  proof (cases "y mod k = 0")
    case True
    then have "k * (y div k) = y"
      using mult_div_mod_eq [of k y] by simp
    then have "(y - 1) div k = y div k - 1"
      using k by (intro int_div_pos_eq [of _ _ _ "k - 1"]) (simp_all add: right_diff_distrib)
    then show ?thesis
      using True by (simp add: dvd_eq_mod_eq_0)
  next
    case False
    moreover have "0 \<le> y mod k" "y mod k < k"
      using k by simp_all
    ultimately have "(y - 1) div k = y div k"
      by (intro int_div_pos_eq [of _ _ _ "y mod k - 1"]) simp_all
    then show ?thesis
      using False by (simp add: dvd_eq_mod_eq_0)
  qed
  have "100 dvd y \<Longrightarrow> 4 dvd y" "400 dvd y \<Longrightarrow> 100 dvd y"
    using dvd_trans [of 4 100 y] dvd_trans [of 100 400 y] by simp_all
  then show ?thesis
    unfolding march_days_def is_leap_def step [of 4, simplified] step [of 100, simplified] step [of 400, simplified]
    by (simp only: split: if_split) auto
qed

text \<open>
  C26: the day number of a date is the number of days since 1970-01-01 in the Gregorian calendar: it is zero
  there, and it grows by one from each date of the calendar to the next, for every year.
\<close>

theorem days_from_civil_counts:
  "bebop__util_days_from_civil 1970 1 1 = 0 \<and>
   (\<forall>y m d y' m' d'. valid_date y m d \<and> next_day (y, m, d) = (y', m', d') \<longrightarrow>
      valid_date y' m' d' \<and> bebop__util_days_from_civil y' m' d' = bebop__util_days_from_civil y m d + 1)"
proof (intro conjI allI impI)
  show "bebop__util_days_from_civil 1970 1 1 = 0"
    by code_simp
next
  fix y m d y' m' d'
  assume a: "valid_date y m d \<and> next_day (y, m, d) = (y', m', d')"
  then have m: "1 \<le> m" "m \<le> 12" and d: "1 \<le> d" "d \<le> month_length y m"
    by (auto simp: valid_date_def)
  show "valid_date y' m' d'"
    using a m d by (auto simp: valid_date_def next_day_def month_length_def split: if_splits)
  show "bebop__util_days_from_civil y' m' d' = bebop__util_days_from_civil y m d + 1"
  proof (cases "d < month_length y m")
    case True
    then show ?thesis
      using a m by (auto simp: next_day_def days_march)
  next
    case False
    then have last: "d = month_length y m" "next_day (y, m, d) = (if m < 12 then (y, m + 1, 1) else (y + 1, 1, 1))"
      using d by (auto simp: next_day_def)
    from m show ?thesis
      by (cases rule: month_cases) (use a last march_days_step [of y] in \<open>auto simp: days_march month_length_def split: if_splits\<close>)
  qed
qed

theorem days_from_civil_counts_witness:
  "bebop__util_days_from_civil 2024 3 1 = bebop__util_days_from_civil 2024 2 29 + 1 \<and> valid_date 2024 2 29"
proof -
  have "valid_date 2024 2 29 \<and> next_day (2024, 2, 29) = (2024, 3, 1)"
    by (simp add: valid_date_def next_day_def month_length_def is_leap_def)
  with days_from_civil_counts show ?thesis
    by blast
qed

section \<open>Timestamp literals\<close>

text \<open>Decimal text of fixed width.\<close>

definition digit_char :: "int \<Rightarrow> byte" where
  "digit_char n = word_of_int (48 + n mod 10)"

definition digits2 :: "int \<Rightarrow> byte list" where
  "digits2 n = [digit_char (n div 10), digit_char n]"

definition digits4 :: "int \<Rightarrow> byte list" where
  "digits4 n = digits2 (n div 100) @ digits2 (n mod 100)"

definition digits9 :: "int \<Rightarrow> byte list" where
  "digits9 n = map (\<lambda>k. digit_char (n div 10 ^ k)) [8, 7, 6, 5, 4, 3, 2, 1, 0]"

text \<open>The documented forms: date and time, nanoseconds, and a zone in minutes, which is \<^verbatim>\<open>Z\<close> for zero.\<close>

definition zone_text :: "int \<Rightarrow> byte list" where
  "zone_text zone =
     (if zone = 0 then [0x5A]
      else [if zone < 0 then 0x2D else 0x2B] @ digits2 (\<bar>zone\<bar> div 60) @ [0x3A] @ digits2 (\<bar>zone\<bar> mod 60))"

definition timestamp_text :: "int \<Rightarrow> int \<Rightarrow> int \<Rightarrow> int \<Rightarrow> int \<Rightarrow> int \<Rightarrow> int \<Rightarrow> int \<Rightarrow> byte list" where
  "timestamp_text y mo d h mi s ns zone =
     digits4 y @ [0x2D] @ digits2 mo @ [0x2D] @ digits2 d @ [0x54] @
     digits2 h @ [0x3A] @ digits2 mi @ [0x3A] @ digits2 s @ [0x2E] @ digits9 ns @ zone_text zone"

lemma digit_val_char: "digit_val (digit_char n) = word_of_int (n mod 10)"
proof -
  have "list_all (\<lambda>n. digit_val (word_of_int (48 + int n)) = word_of_int (int n)) [0..<10]"
    by code_simp
  moreover have "nat (n mod 10) < 10"
    by simp
  ultimately have "digit_val (word_of_int (48 + int (nat (n mod 10)))) = word_of_int (int (nat (n mod 10)))"
    unfolding list_all_iff by (metis atLeastLessThan_iff le0 set_upt)
  then show ?thesis
    by (simp add: digit_char_def)
qed

lemma uint_digit_char: "uint (digit_val (digit_char n)) = n mod 10" "unat (digit_val (digit_char n)) = nat (n mod 10)"
proof -
  have "0 \<le> n mod 10" "n mod 10 < 10"
    by simp_all
  then have "n mod 10 mod 256 = n mod 10"
    by (intro mod_pos_pos_trivial) linarith+
  then show "uint (digit_val (digit_char n)) = n mod 10"
    by (simp add: digit_val_char uint_word_of_int)
  then show "unat (digit_val (digit_char n)) = nat (n mod 10)"
    by (simp add: unat_eq_nat_uint)
qed

lemma digit_char_less [simp]: "unat (digit_val (digit_char n)) < 10" "\<not> 10 \<le> unat (digit_val (digit_char n))"
proof -
  have "n mod 10 < 10"
    by simp
  then show "unat (digit_val (digit_char n)) < 10" "\<not> 10 \<le> unat (digit_val (digit_char n))"
    unfolding uint_digit_char by linarith+
qed

lemma two_digits: "0 \<le> n \<Longrightarrow> n < 100 \<Longrightarrow> n div 10 mod 10 * 10 + n mod 10 = (n :: int)"
  by simp

lemma parse_2digit_text: "0 \<le> n \<Longrightarrow> n < 100 \<Longrightarrow> bebop__util_parse_2digit (digits2 n @ r) = Some (n, r)"
  by (simp add: bebop__util_parse_2digit_def digits2_def Let_def uint_digit_char(1))

lemma parse_4digit_pairs:
  assumes "0 \<le> a" "a < 100" "0 \<le> b" "b < 100"
  shows "bebop__util_parse_4digit (digits2 a @ digits2 b @ r) = Some (a * 100 + b, r)"
proof -
  have "a div 10 mod 10 * 1000 + a mod 10 * 100 + b div 10 mod 10 * 10 + b mod 10 =
      (a div 10 mod 10 * 10 + a mod 10) * 100 + (b div 10 mod 10 * 10 + b mod 10)"
    by (simp only: distrib_right mult.assoc)
  then show ?thesis
    unfolding two_digits [OF assms(1,2)] two_digits [OF assms(3,4)]
    by (simp add: bebop__util_parse_4digit_def digits2_def Let_def uint_digit_char(1))
qed

lemma parse_4digit_text:
  assumes "0 \<le> n" "n < 10000"
  shows "bebop__util_parse_4digit (digits4 n @ r) = Some (n, r)"
  using parse_4digit_pairs [of "n div 100" "n mod 100" r] assms by (simp add: digits4_def)

lemma expect_hit [simp]: "c \<in> set cs \<Longrightarrow> expect cs (c # p) = Some p"
  by (simp add: expect_def)

lemma check_simps [simp]: "check True = Some ()" "check False = None"
  by (simp_all add: check_def)

lemma frac_loop_digits:
  "k + length ms \<le> n \<Longrightarrow> frac_loop n (map digit_char ms @ r) f k =
     frac_loop n r (foldl (\<lambda>f m. f * 10 + nat (m mod 10)) f ms) (k + length ms)"
proof (induction ms arbitrary: f k)
  case (Cons m ms)
  have "frac_loop n (digit_char m # p) f k = frac_loop n p (f * 10 + nat (m mod 10)) (k + 1)" for p
    using Cons.prems by (simp only: frac_loop.simps Let_def digit_less digit_char_less if_False) (simp add: uint_digit_char(2))
  with Cons show ?case
    by simp
qed simp

lemma frac_loop_stop [simp]: "frac_loop n p f n = (p, f, n)"
  by (cases p) simp_all

lemma nat_digit:
  assumes "0 \<le> z"
  shows "nat (z div 10) * 10 + nat (z mod 10) = nat z"
  using assms by (simp add: nat_div_distrib nat_mod_distrib)

lemma fraction_text:
  assumes "0 \<le> ns" "ns < 1000000000" "r = [] \<or> 10 \<le> unat (digit_val (r ! 0))"
  shows "parse_fraction 9 (digits9 ns @ r) = (nat ns, r)"
proof -
  define z where "z k = ns div 10 ^ k" for k
  have step: "nat (z j) * 10 + nat (z k mod 10) = nat (z k)" if "j = Suc k" for j k
  proof -
    have "z j = z k div 10"
      unfolding z_def that power_Suc2 by (rule zdiv_zmult2_eq) simp
    moreover have "0 \<le> z k"
      unfolding z_def using assms(1) by (simp add: pos_imp_zdiv_nonneg_iff)
    ultimately show ?thesis
      by (simp only: nat_digit)
  qed
  have chain: "nat (z 8) * 10 + nat (z 7 mod 10) = nat (z 7)" "nat (z 7) * 10 + nat (z 6 mod 10) = nat (z 6)"
    "nat (z 6) * 10 + nat (z 5 mod 10) = nat (z 5)" "nat (z 5) * 10 + nat (z 4 mod 10) = nat (z 4)"
    "nat (z 4) * 10 + nat (z 3 mod 10) = nat (z 3)" "nat (z 3) * 10 + nat (z 2 mod 10) = nat (z 2)"
    "nat (z 2) * 10 + nat (z 1 mod 10) = nat (z 1)" "nat (z 1) * 10 + nat (z 0 mod 10) = nat (z 0)"
    by (rule step; simp)+
  have top: "z 8 mod 10 = z 8" and bot: "z 0 = ns"
    using assms(1,2) by (simp_all add: z_def)
  have chars: "digits9 ns = map digit_char [z 8, z 7, z 6, z 5, z 4, z 3, z 2, z 1, z 0]"
    by (simp add: digits9_def z_def)
  have len: "length [z 8, z 7, z 6, z 5, z 4, z 3, z 2, z 1, z 0] = 9"
    by simp
  have "frac_loop 9 (digits9 ns @ r) 0 0 = frac_loop 9 r (nat (z 0)) 9"
    using frac_loop_digits [of 0 "[z 8, z 7, z 6, z 5, z 4, z 3, z 2, z 1, z 0]" 9 r 0]
    unfolding chars len by (simp only: foldl_Cons foldl_Nil mult_0 add_0 top chain le_refl)
  then have "frac_loop 9 (digits9 ns @ r) 0 0 = (r, nat ns, 9)"
    unfolding bot by simp
  then show ?thesis
    using assms(3) by (cases r) (simp_all add: parse_fraction_def skip_digits_def)
qed

lemma zone_part_text:
  assumes "0 \<le> n" "n < 100" "n \<le> bound"
  shows "zone_part bound (digits2 n @ r) = Some (n, r)"
proof -
  have "digits2 n @ r \<noteq> [] \<and> digit_val ((digits2 n @ r) ! 0) < 10"
    by (simp add: digits2_def)
  then show ?thesis
    using assms by (simp add: zone_part_def parse_2digit_text)
qed

lemma zone_text_parse:
  assumes "\<bar>zone\<bar> < 1440"
  shows "timestamp_zone (zone_text zone) = Some (zone * 60, zone * 60000, [])"
proof (cases "zone = 0")
  case True
  then show ?thesis
    by (simp add: zone_text_def timestamp_zone_def)
next
  case False
  define a where "a = \<bar>zone\<bar>"
  have a: "0 \<le> a div 60" "a div 60 < 24" "0 \<le> a mod 60" "a mod 60 < 60" "a div 60 * 60 + a mod 60 = a"
    using assms by (simp_all add: a_def div_less_iff_less_mult pos_imp_zdiv_nonneg_iff)
  define p where "p = digits2 (a div 60) @ 0x3A # digits2 (a mod 60)"
  have zt: "zone_text zone = (if zone < 0 then 0x2D else 0x2B) # p"
    using False by (simp add: zone_text_def a_def p_def)
  have hour: "bebop__util_parse_2digit p = Some (a div 60, 0x3A # digits2 (a mod 60))"
    unfolding p_def using a by (intro parse_2digit_text) linarith+
  have min: "zone_part 59 (digits2 (a mod 60)) = Some (a mod 60, [])"
    using zone_part_text [of "a mod 60" 59 "[]"] a by simp
  have total: "a div 60 * 3600 + a mod 60 * 60 = a * 60" "a div 60 * 3600000 + a mod 60 * 60000 = a * 60000"
    using a(5) [THEN arg_cong [where f = "\<lambda>x. x * 60"]] a(5) [THEN arg_cong [where f = "\<lambda>x. x * 60000"]]
    unfolding distrib_right mult.assoc by simp_all
  have "\<not> 59 < a mod 60" "\<not> 23 < a div 60" "a * 60000 < 86400000"
    using a assms a_def by linarith+
  moreover have "(if zone < 0 then - (a * 60) else a * 60) = zone * 60"
    "(if zone < 0 then - (a * 60000) else a * 60000) = zone * 60000"
    by (auto simp: a_def)
  ultimately show ?thesis
    unfolding zt timestamp_zone_def using assms hour min total a(1,3) by (auto simp: a_def zone_millis_def)
qed

lemma date_text:
  assumes "0 \<le> y" "y \<le> 9999" "valid_date y mo d"
  shows "timestamp_date (digits4 y @ [0x2D] @ digits2 mo @ [0x2D] @ digits2 d @ r) = Some (y, mo, d, r)"
proof -
  have m: "1 \<le> mo" "mo \<le> 12" "1 \<le> d" "d \<le> month_length y mo" "month_length y mo \<le> 31"
    using assms(3) by (auto simp: valid_date_def month_length_def)
  have "timestamp_max_day y mo = month_length y mo"
    using m(1,2) assms(1) by (rule max_day_length [rotated])
  with m show ?thesis
    using assms(1,2) by (simp add: timestamp_date_def parse_4digit_text parse_2digit_text)
qed

lemma clock_text:
  assumes "0 \<le> h" "h \<le> 23" "0 \<le> mi" "mi \<le> 59" "0 \<le> s" "s \<le> 60"
  shows "timestamp_clock (digits2 h @ [0x3A] @ digits2 mi @ [0x3A] @ digits2 s @ r) = Some (h, mi, s, r)"
  using assms by (simp add: timestamp_clock_def parse_2digit_text)

lemma zone_text_start: "zone_text zone \<noteq> []" "10 \<le> unat (digit_val (zone_text zone ! 0))"
  by (simp_all add: zone_text_def digit_val_unat)

lemma nanos_text:
  assumes "0 \<le> ns" "ns < 1000000000"
  shows "timestamp_nanos (0x2E # digits9 ns @ zone_text zone) = (ns, zone_text zone)"
  using assms fraction_text [OF assms, of "zone_text zone"] zone_text_start by (simp add: timestamp_nanos_def)

text \<open>
  C24: timestamp literals. The documented text form of every date of the years 0 to 9999, time of day with nanoseconds, and
  zone of up to a day parses to the second count of the calendar with the zone applied, the nanoseconds, and
  the zone in milliseconds.
\<close>

theorem timestamp_text_parses:
  assumes "0 \<le> y" "y \<le> 9999" "valid_date y mo d" "0 \<le> h" "h \<le> 23" "0 \<le> mi" "mi \<le> 59" "0 \<le> s" "s \<le> 60"
    "0 \<le> ns" "ns < 1000000000" "\<bar>zone\<bar> < 1440"
  shows "bebop_util_parse_timestamp (Some (timestamp_text y mo d h mi s ns zone)) =
    Some (bebop__util_days_from_civil y mo d * 86400 + h * 3600 + mi * 60 + s - zone * 60, ns, zone * 60000)"
proof -
  define r where "r = digits2 h @ [0x3A] @ digits2 mi @ [0x3A] @ digits2 s @ 0x2E # digits9 ns @ zone_text zone"
  have parts: "timestamp_text y mo d h mi s ns zone = digits4 y @ [0x2D] @ digits2 mo @ [0x2D] @ digits2 d @ 0x54 # r"
    by (simp add: timestamp_text_def r_def)
  have "\<not> length (timestamp_text y mo d h mi s ns zone) < 19"
    by (simp add: timestamp_text_def digits4_def digits2_def digits9_def)
  moreover have "timestamp_clock r = Some (h, mi, s, 0x2E # digits9 ns @ zone_text zone)"
    unfolding r_def using clock_text [OF assms(4-9)] .
  ultimately show ?thesis
    unfolding bebop_util_parse_timestamp_def parts
    using date_text [OF assms(1-3), of "0x54 # r"] nanos_text [OF assms(10,11), of zone] zone_text_parse [OF assms(12)] by simp
qed

theorem timestamp_text_parses_witness:
  "bebop_util_parse_timestamp (Some (ascii ''2024-02-29T10:30:00.123456789-05:30'')) = Some (1709222400, 123456789, - 19800000)"
proof -
  have t: "timestamp_text 2024 2 29 10 30 0 123456789 (- 330) = ascii ''2024-02-29T10:30:00.123456789-05:30''"
    "bebop__util_days_from_civil 2024 2 29 = 19782"
    by code_simp+
  have "valid_date 2024 2 29"
    by (simp add: valid_date_def month_length_def is_leap_def)
  from timestamp_text_parses [OF _ _ this, of 10 30 0 123456789 "- 330"] show ?thesis
    unfolding t by simp
qed

lemma frac_loop_bound:
  "frac_loop n p frac digits = (r, frac', digits') \<Longrightarrow> frac < 10 ^ digits \<Longrightarrow> digits \<le> n \<Longrightarrow> frac' < 10 ^ digits' \<and> digits' \<le> n"
proof (induction n p frac digits rule: frac_loop.induct)
  case (2 n c p frac digits)
  show ?case
  proof (cases "digits < n \<and> unat (digit_val c) < 10")
    case True
    have "frac * 10 + unat (digit_val c) < 10 ^ (digits + 1)"
      using "2.prems"(2) True by simp
    then show ?thesis
      using 2 True by (simp add: Let_def)
  next
    case False
    then show ?thesis
      using 2 by (auto simp: Let_def split: if_splits)
  qed
qed simp

lemma scale_frac_power: "scale_frac k f = f * 10 ^ k"
  by (induction k f rule: scale_frac.induct) simp_all

lemma parse_fraction_bound:
  assumes "parse_fraction n p = (f, r)"
  shows "f < 10 ^ n"
proof -
  obtain q g k where l: "frac_loop n p 0 0 = (q, g, k)"
    by (metis prod_cases3)
  have b: "g < 10 ^ k" "k \<le> n"
    using frac_loop_bound [OF l] by simp_all
  have "f = g * 10 ^ (n - k)"
    using assms by (simp add: parse_fraction_def l scale_frac_power)
  also have "\<dots> < 10 ^ k * 10 ^ (n - k)"
    using b(1) by simp
  finally show ?thesis
    using b(2) by (simp add: power_add [symmetric])
qed

lemma digit_uint: "0 \<le> uint (digit_val c)" "unat (digit_val c) < 10 \<Longrightarrow> uint (digit_val c) \<le> 9"
  using uint_ge_0 [of "digit_val c"] unfolding unat_eq_nat_uint by linarith+

lemma parse_2digit_bound:
  assumes "bebop__util_parse_2digit p = Some (n, r)"
  shows "0 \<le> n \<and> n \<le> 99"
proof -
  have "unat (digit_val (p ! 0)) < 10" "unat (digit_val (p ! 1)) < 10" "n = uint (digit_val (p ! 0)) * 10 + uint (digit_val (p ! 1))"
    using assms by (simp_all add: bebop__util_parse_2digit_def Let_def not_le split: if_splits)
  then show ?thesis
    using digit_uint [of "p ! 0"] digit_uint [of "p ! 1"] by linarith
qed

lemma parse_4digit_bound:
  assumes "bebop__util_parse_4digit p = Some (n, r)"
  shows "0 \<le> n \<and> n \<le> 9999"
proof -
  have "unat (digit_val (p ! 0)) < 10" "unat (digit_val (p ! 1)) < 10" "unat (digit_val (p ! 2)) < 10" "unat (digit_val (p ! 3)) < 10"
    "n = uint (digit_val (p ! 0)) * 1000 + uint (digit_val (p ! 1)) * 100 + uint (digit_val (p ! 2)) * 10 + uint (digit_val (p ! 3))"
    using assms by (simp_all add: bebop__util_parse_4digit_def Let_def not_le split: if_splits)
  then show ?thesis
    using digit_uint [of "p ! 0"] digit_uint [of "p ! 1"] digit_uint [of "p ! 2"] digit_uint [of "p ! 3"] by linarith
qed

lemma check_some [simp]: "check b = Some u \<longleftrightarrow> b"
  by (simp add: check_def)

lemma date_valid: "timestamp_date p = Some (y, mo, d, r) \<Longrightarrow> 0 \<le> y \<and> y \<le> 9999 \<and> valid_date y mo d"
  by (auto simp: timestamp_date_def bind_eq_Some_conv valid_date_def max_day_length dest!: parse_4digit_bound)

lemma clock_valid:
  "timestamp_clock p = Some (h, mi, s, r) \<Longrightarrow> 0 \<le> h \<and> h \<le> 23 \<and> 0 \<le> mi \<and> mi \<le> 59 \<and> 0 \<le> s \<and> s \<le> 60"
  by (auto simp: timestamp_clock_def bind_eq_Some_conv dest!: parse_2digit_bound)

lemma zone_part_bound: "zone_part bound p = Some (v, r) \<Longrightarrow> 0 \<le> bound \<Longrightarrow> 0 \<le> v \<and> v \<le> bound"
  by (auto simp: zone_part_def bind_eq_Some_conv split: if_splits dest!: parse_2digit_bound)

lemma sdiv_1000: "0 \<le> m \<Longrightarrow> m < 1000 \<Longrightarrow> 0 \<le> s \<Longrightarrow> (s * 1000 + m) sdiv 1000 = s \<and> (- (s * 1000 + m)) sdiv 1000 = - s"
  for s m :: int
proof -
  assume "0 \<le> m" "m < 1000" "0 \<le> s"
  then have "(s * 1000 + m) sdiv 1000 = s"
    by (simp add: sdiv_nonneg)
  moreover have "(- x) sdiv 1000 = - (x sdiv 1000)" for x :: int
    by (simp add: signed_divide_int_def sgn_minus)
  then have "(- (s * 1000 + m)) sdiv 1000 = - ((s * 1000 + m) sdiv 1000)" .
  ultimately show "(s * 1000 + m) sdiv 1000 = s \<and> (- (s * 1000 + m)) sdiv 1000 = - s"
    by (simp only: simp_thms)
qed

lemma zone_valid:
  assumes "timestamp_zone p = Some (tz, off, r)"
  shows "tz = off sdiv 1000 \<and> \<bar>off\<bar> < 86400000"
proof (cases "p \<noteq> [] \<and> (p ! 0 = 0x2B \<or> p ! 0 = 0x2D)")
  case True
  then have sign: "p \<noteq> []" "\<not> (p ! 0 = 0x5A \<or> p ! 0 = 0x7A)" "p ! 0 = 0x2B \<or> p ! 0 = 0x2D"
    by auto
  obtain h m s ms p1 p2 p3 p4 where z: "bebop__util_parse_2digit (drop 1 p) = Some (h, p1)" "h \<le> 23"
      "zone_part 59 p2 = Some (m, p3)" "(if p3 \<noteq> [] \<and> p3 ! 0 = 0x3A then zone_part 59 (drop 1 p3) else Some (0, p3)) = Some (s, p4)"
      "ms = fst (zone_millis p4)"
      "tz = (if p ! 0 = 0x2D then - (h * 3600 + m * 60 + s) else h * 3600 + m * 60 + s)"
      "off = (if p ! 0 = 0x2D then - (h * 3600000 + m * 60000 + s * 1000 + ms) else h * 3600000 + m * 60000 + s * 1000 + ms)"
    using assms sign unfolding timestamp_zone_def Let_def
    by (simp only: if_True if_False simp_thms bind_eq_Some_conv case_prod_unfold check_some split_paired_Ex fst_conv snd_conv
        option.inject prod.inject not_less) (elim exE conjE, rule that, (assumption | rule refl | erule sym)+)
  have b: "0 \<le> h" "0 \<le> m" "m \<le> 59" "0 \<le> s" "s \<le> 59" "0 \<le> ms" "ms < 1000"
    using parse_2digit_bound [OF z(1)] zone_part_bound [OF z(3)] zone_part_bound [of 59 "drop 1 p3" s p4] z(4,5)
      parse_fraction_bound [of 3 "drop 1 p4"]
    by (auto simp: zone_millis_def split: if_splits prod.splits)
  define t where "t = h * 3600 + m * 60 + s"
  have t: "h * 3600000 + m * 60000 + s * 1000 + ms = t * 1000 + ms" "0 \<le> t" "t < 86400"
    using b z(2) by (simp_all add: t_def)
  then have "tz = off sdiv 1000"
    using sdiv_1000 [OF b(6,7) t(2)] unfolding z(6,7) t(1) t_def [symmetric] by (cases "p ! 0 = 45") (simp_all only: if_True if_False simp_thms)
  then show ?thesis
    using z(7) b(6,7) t by auto
next
  case False
  then show ?thesis
    using assms by (auto simp: timestamp_zone_def signed_divide_int_def split: if_splits)
qed

section \<open>What an accepted literal says\<close>

text \<open>
  The syntax of the parts after the seconds, with their values. The digits of a fraction count as its
  first \<open>n\<close> places, filled up with zeros. A zone is a sign, two digits of hours, minutes with or without a
  colon before them, seconds after a second colon, and a fraction for milliseconds; minutes and seconds
  may be missing.
\<close>

definition is_digit :: "byte \<Rightarrow> bool" where
  "is_digit c \<longleftrightarrow> 0x30 \<le> c \<and> c \<le> 0x39"

definition decimal :: "byte list \<Rightarrow> nat" where
  "decimal ds = foldl (\<lambda>v c. v * 10 + (unat c - 48)) 0 ds"

definition fraction_literal :: "nat \<Rightarrow> byte list \<Rightarrow> int \<Rightarrow> bool" where
  "fraction_literal n p v \<longleftrightarrow>
     p = [] \<and> v = 0
     \<or> (\<exists>ds. p = 0x2E # ds \<and> list_all is_digit ds \<and> v = int (decimal (take n (ds @ replicate n 0x30))))"

definition zone_field :: "byte list \<Rightarrow> int \<Rightarrow> bool" where
  "zone_field p v \<longleftrightarrow> p = [] \<and> v = 0 \<or> 0 \<le> v \<and> v \<le> 59 \<and> p = digits2 v"

definition zone_literal :: "byte list \<Rightarrow> int \<Rightarrow> int \<Rightarrow> bool" where
  "zone_literal p seconds millis \<longleftrightarrow>
     (p = [] \<or> p = [0x5A] \<or> p = [0x7A]) \<and> seconds = 0 \<and> millis = 0
     \<or> (\<exists>sign h m s ms colon mt st ft.
          0 \<le> h \<and> h \<le> 23 \<and> zone_field mt m \<and> fraction_literal 3 ft ms
          \<and> p = (if sign < 0 then 0x2D else 0x2B) # digits2 h @ colon @ mt @ st @ ft
          \<and> sign \<in> {1, - 1} \<and> colon \<in> {[], [0x3A]}
          \<and> (st = [] \<and> s = 0 \<or> (\<exists>t. st = 0x3A # t \<and> zone_field t s \<and> (colon = [] \<longrightarrow> mt \<noteq> [])))
          \<and> seconds = sign * (h * 3600 + m * 60 + s)
          \<and> millis = sign * ((h * 3600 + m * 60 + s) * 1000 + ms))"

lemma digit_val_digit: "unat (digit_val c) < 10 \<longleftrightarrow> is_digit c" "is_digit c \<Longrightarrow> unat (digit_val c) = unat c - 48"
  by (auto simp: digit_val_unat is_digit_def word_le_nat_alt Let_def)

lemma digit_char_val:
  assumes "is_digit c"
  shows "digit_char (uint (digit_val c)) = c"
proof -
  have "list_all (\<lambda>n. is_digit (of_nat n) \<longrightarrow> digit_char (uint (digit_val (of_nat n))) = of_nat n) [0..<256]"
    by code_simp
  from byte_all [OF this, of c] show ?thesis
    using assms by simp
qed

lemma digit_chars:
  assumes "is_digit a" "is_digit b"
  shows "digits2 (uint (digit_val a) * 10 + uint (digit_val b)) = [a, b]"
proof -
  define n m where "n = uint (digit_val a)" and "m = uint (digit_val b)"
  have "0 \<le> m" "m \<le> 9"
    using assms digit_uint digit_val_digit(1) unfolding m_def by auto
  then have "(n * 10 + m) div 10 = n"
    by simp
  moreover have "digit_char (n * 10 + m) = digit_char m"
    by (simp add: digit_char_def mod_add_left_eq [symmetric])
  ultimately show ?thesis
    using digit_char_val [OF assms(1)] digit_char_val [OF assms(2)]
    unfolding digits2_def n_def [symmetric] m_def [symmetric] by simp
qed

lemma two_bytes: "2 \<le> length p \<Longrightarrow> p = [p ! 0, p ! 1] @ drop 2 p"
  by (cases p; cases "tl p") auto

lemma parse_2digit_inverse:
  assumes "bebop__util_parse_2digit p = Some (n, r)"
  shows "p = digits2 n @ r \<and> 0 \<le> n \<and> n \<le> 99"
proof -
  have d: "2 \<le> length p" "is_digit (p ! 0)" "is_digit (p ! 1)" "n = uint (digit_val (p ! 0)) * 10 + uint (digit_val (p ! 1))" "r = drop 2 p"
    using assms by (auto simp: bebop__util_parse_2digit_def Let_def not_le digit_val_digit split: if_splits)
  show ?thesis
    using digit_chars [OF d(2,3)] two_bytes [OF d(1)] parse_2digit_bound [OF assms] unfolding d(4,5) by simp
qed

lemma parse_4digit_inverse:
  assumes "bebop__util_parse_4digit p = Some (n, r)"
  shows "p = digits4 n @ r \<and> 0 \<le> n \<and> n \<le> 9999"
proof -
  have d: "4 \<le> length p" "is_digit (p ! 0)" "is_digit (p ! 1)" "is_digit (p ! 2)" "is_digit (p ! 3)" "r = drop 4 p"
      "n = uint (digit_val (p ! 0)) * 1000 + uint (digit_val (p ! 1)) * 100 + uint (digit_val (p ! 2)) * 10 + uint (digit_val (p ! 3))"
    using assms by (auto simp: bebop__util_parse_4digit_def Let_def not_le digit_val_digit split: if_splits)
  define a b where "a = uint (digit_val (p ! 0)) * 10 + uint (digit_val (p ! 1))"
    and "b = uint (digit_val (p ! 2)) * 10 + uint (digit_val (p ! 3))"
  have "0 \<le> b" "b < 100"
    using d(4,5) digit_uint [of "p ! 2"] digit_uint [of "p ! 3"] digit_val_digit(1) unfolding b_def by fastforce+
  moreover have n: "n = a * 100 + b"
    unfolding d(7) a_def b_def by simp
  ultimately have "n div 100 = a" "n mod 100 = b"
    by simp_all
  then have "digits4 n = [p ! 0, p ! 1] @ [p ! 2, p ! 3]"
    using digit_chars [OF d(2,3)] digit_chars [OF d(4,5)] unfolding digits4_def a_def b_def by simp
  moreover have "p = [p ! 0, p ! 1] @ [p ! 2, p ! 3] @ drop 4 p"
    using two_bytes [of p] two_bytes [of "drop 2 p"] d(1) by simp
  ultimately show ?thesis
    using parse_4digit_bound [OF assms] unfolding d(6) by simp
qed

lemma expect_inverse: "expect cs p = Some r \<longleftrightarrow> (\<exists>c\<in>set cs. p = c # r)"
  by (cases p) (auto simp: expect_def)

lemma date_literal:
  assumes "timestamp_date p = Some (y, mo, d, r)"
  shows "p = digits4 y @ [0x2D] @ digits2 mo @ [0x2D] @ digits2 d @ r \<and> 0 \<le> y \<and> y \<le> 9999 \<and> valid_date y mo d"
  using assms date_valid [OF assms]
  by (auto simp: timestamp_date_def bind_eq_Some_conv expect_inverse dest!: parse_4digit_inverse parse_2digit_inverse)

lemma clock_literal:
  assumes "timestamp_clock p = Some (h, mi, s, r)"
  shows "p = digits2 h @ [0x3A] @ digits2 mi @ [0x3A] @ digits2 s @ r"
  using assms
  by (auto simp: timestamp_clock_def bind_eq_Some_conv expect_inverse dest!: parse_2digit_inverse)

lemma frac_loop_literal:
  "frac_loop n p f k = (r, f', k') \<Longrightarrow> k \<le> n \<Longrightarrow>
     \<exists>ds. p = ds @ r \<and> list_all is_digit ds \<and> k' = k + length ds \<and> k' \<le> n
       \<and> f' = foldl (\<lambda>v c. v * 10 + (unat c - 48)) f ds \<and> (k' < n \<longrightarrow> r = [] \<or> \<not> is_digit (hd r))"
proof (induction n p f k rule: frac_loop.induct)
  case (2 n c p f k)
  show ?case
  proof (cases "k < n \<and> is_digit c")
    case True
    then have step: "frac_loop n p (f * 10 + unat (digit_val c)) (k + 1) = (r, f', k')" "k + 1 \<le> n"
      using "2.prems"(1) by (auto simp: Let_def digit_val_digit(1) [symmetric])
    obtain ds where "p = ds @ r" "list_all is_digit ds" "k' = k + 1 + length ds" "k' \<le> n"
        "f' = foldl (\<lambda>v c. v * 10 + (unat c - 48)) (f * 10 + unat (digit_val c)) ds" "k' < n \<longrightarrow> r = [] \<or> \<not> is_digit (hd r)"
      using "2.IH" [OF _ refl _ step] True by (auto simp: digit_val_digit(1) not_le)
    then show ?thesis
      using True digit_val_digit(2) [of c] by (intro exI [of _ "c # ds"]) simp
  next
    case False
    then have "r = c # p" "f' = f" "k' = k"
      using "2.prems"(1) by (auto simp: Let_def digit_val_digit(1) [symmetric] split: if_splits)
    then show ?thesis
      using False "2.prems"(2) by (intro exI [of _ "[]"]) auto
  qed
qed simp

lemma decimal_zeros: "foldl (\<lambda>v c. v * 10 + (unat c - 48)) v (replicate m (0x30 :: byte)) = v * 10 ^ m"
  by (induction m arbitrary: v) simp_all

lemma parse_fraction_literal:
  assumes "parse_fraction n p = (f, r)"
  shows "\<exists>ds. p = ds @ r \<and> list_all is_digit ds \<and> f = decimal (take n (ds @ replicate n 0x30))"
proof -
  obtain q g k where l: "frac_loop n p 0 0 = (q, g, k)"
    by (metis prod_cases3)
  obtain ds where ds: "p = ds @ q" "list_all is_digit ds" "k = length ds" "k \<le> n" "g = decimal ds"
      "k < n \<longrightarrow> q = [] \<or> \<not> is_digit (hd q)"
    using frac_loop_literal [OF l] by (auto simp: decimal_def)
  define es where "es = takeWhile is_digit q"
  have r: "f = g * 10 ^ (n - k)" "r = dropWhile is_digit q"
    using assms unfolding parse_fraction_def l skip_digits_def digit_less(1) digit_val_digit(1) scale_frac_power by auto
  have "f = decimal (take n ((ds @ es) @ replicate n 0x30))"
  proof (cases "k < n")
    case True
    then have "es = []"
      using ds(6) unfolding es_def by (cases q) auto
    moreover have "take n (ds @ replicate n 0x30) = ds @ replicate (n - k) 0x30"
      using ds(3,4) by simp
    ultimately show ?thesis
      unfolding r(1) ds(5) decimal_def by (simp only: append_Nil2 foldl_append decimal_zeros)
  next
    case False
    then show ?thesis
      using ds(3,4) unfolding r(1) ds(5) by simp
  qed
  moreover have "p = (ds @ es) @ r" "list_all is_digit (ds @ es)"
    using ds(1,2) r(2) by (auto simp: es_def list_all_iff dest: set_takeWhileD)
  ultimately show ?thesis
    by blast
qed

lemma nanos_literal:
  assumes "timestamp_nanos p = (v, r)"
  shows "\<exists>ft. p = ft @ r \<and> fraction_literal 9 ft v"
proof (cases "p \<noteq> [] \<and> p ! 0 = 0x2E")
  case True
  then obtain q where q: "p = 0x2E # q"
    by (cases p) auto
  obtain f where f: "parse_fraction 9 q = (f, r)" "v = int f"
    using assms q by (auto simp: timestamp_nanos_def split: prod.splits)
  obtain ds where "q = ds @ r" "list_all is_digit ds" "f = decimal (take 9 (ds @ replicate 9 0x30))"
    using parse_fraction_literal [OF f(1)] by blast
  then show ?thesis
    using q f(2) by (intro exI [of _ "0x2E # ds"]) (auto simp: fraction_literal_def)
next
  case False
  then have "timestamp_nanos p = (0, p)"
    by (simp only: timestamp_nanos_def if_False)
  then show ?thesis
    using assms by (intro exI [of _ "[]"]) (simp add: fraction_literal_def)
qed

lemma millis_literal:
  assumes "zone_millis p = (v, [])"
  shows "fraction_literal 3 p v"
proof (cases "p \<noteq> [] \<and> p ! 0 = 0x2E")
  case True
  then obtain q where q: "p = 0x2E # q"
    by (cases p) auto
  obtain f where f: "parse_fraction 3 q = (f, [])" "v = int f"
    using assms q by (auto simp: zone_millis_def split: prod.splits)
  then show ?thesis
    using q parse_fraction_literal [OF f(1)] by (auto simp: fraction_literal_def)
next
  case False
  then have "zone_millis p = (0, p)"
    by (simp only: zone_millis_def if_False)
  then show ?thesis
    using assms by (simp add: fraction_literal_def)
qed

lemma zone_part_literal:
  assumes "zone_part 59 p = Some (v, r)"
  shows "\<exists>t. p = t @ r \<and> zone_field t v"
proof (cases "p \<noteq> [] \<and> digit_val (p ! 0) < 10")
  case True
  then have "bebop__util_parse_2digit p = Some (v, r)" "v \<le> 59"
    using assms by (auto simp: zone_part_def bind_eq_Some_conv)
  then show ?thesis
    using parse_2digit_inverse [of p v r] by (intro exI [of _ "digits2 v"]) (simp add: zone_field_def)
next
  case False
  then show ?thesis
    using assms by (intro exI [of _ "[]"]) (auto simp: zone_part_def zone_field_def)
qed

lemma zone_reads_literal:
  assumes "timestamp_zone p = Some (tz, off, [])"
  shows "zone_literal p tz off"
proof (cases "p \<noteq> [] \<and> (p ! 0 = 0x2B \<or> p ! 0 = 0x2D)")
  case True
  then have sign: "p \<noteq> []" "\<not> (p ! 0 = 0x5A \<or> p ! 0 = 0x7A)" "p ! 0 = 0x2B \<or> p ! 0 = 0x2D"
    by auto
  define sg where "sg = (if p ! 0 = 0x2D then - 1 else 1 :: int)"
  obtain h m s ms p1 p2 p3 p4 where z: "bebop__util_parse_2digit (drop 1 p) = Some (h, p1)" "h \<le> 23"
      "p2 = (if p1 \<noteq> [] \<and> p1 ! 0 = 0x3A then drop 1 p1 else p1)"
      "zone_part 59 p2 = Some (m, p3)" "(if p3 \<noteq> [] \<and> p3 ! 0 = 0x3A then zone_part 59 (drop 1 p3) else Some (0, p3)) = Some (s, p4)"
      "ms = fst (zone_millis p4)" "snd (zone_millis p4) = []"
      "tz = (if p ! 0 = 0x2D then - (h * 3600 + m * 60 + s) else h * 3600 + m * 60 + s)"
      "off = (if p ! 0 = 0x2D then - (h * 3600000 + m * 60000 + s * 1000 + ms) else h * 3600000 + m * 60000 + s * 1000 + ms)"
    using assms sign unfolding timestamp_zone_def Let_def
    by (simp only: if_True if_False simp_thms bind_eq_Some_conv case_prod_unfold check_some split_paired_Ex fst_conv snd_conv
        option.inject prod.inject not_less) (elim exE conjE, rule that, (assumption | rule refl | erule sym)+)
  have h: "drop 1 p = digits2 h @ p1" "0 \<le> h"
    using parse_2digit_inverse [OF z(1)] by auto
  obtain mt where mt: "p2 = mt @ p3" "zone_field mt m"
    using zone_part_literal [OF z(4)] by blast
  have ms: "fraction_literal 3 p4 ms"
    using millis_literal [of p4 ms] z(6,7) by (simp add: prod_eq_iff)
  define colon where "colon = (if p1 \<noteq> [] \<and> p1 ! 0 = 0x3A then [0x3A] else [] :: byte list)"
  have colon: "p1 = colon @ p2" "colon \<in> {[], [0x3A]}" "colon = [] \<longrightarrow> p1 = [] \<or> p1 ! 0 \<noteq> 0x3A"
    unfolding z(3) colon_def by (cases p1; simp)+
  obtain st where st: "p3 = st @ p4" "st = [] \<and> s = 0 \<or> (\<exists>t. st = 0x3A # t \<and> zone_field t s \<and> (colon = [] \<longrightarrow> mt \<noteq> []))"
  proof (cases "p3 \<noteq> [] \<and> p3 ! 0 = 0x3A")
    case True
    then obtain q where q: "p3 = 0x3A # q"
      by (cases p3) auto
    then have "zone_part 59 q = Some (s, p4)"
      using z(5) by simp
    then obtain t where t: "q = t @ p4" "zone_field t s"
      using zone_part_literal by blast
    have "colon = [] \<longrightarrow> mt \<noteq> []"
      using colon(1,3) mt(1) q by auto
    then show thesis
      using that [of "0x3A # t"] q t by simp
  next
    case False
    then show thesis
      using that [of "[]"] z(5) by (simp only: if_False) simp
  qed
  have p: "p = (if sg < 0 then 0x2D else 0x2B) # digits2 h @ colon @ mt @ st @ p4"
    using h(1) colon(1) mt(1) st(1) sign(1,3) unfolding sg_def by (cases p) auto
  have sum: "h * 3600000 + m * 60000 + s * 1000 + ms = (h * 3600 + m * 60 + s) * 1000 + ms"
    by simp
  have vals: "tz = sg * (h * 3600 + m * 60 + s)" "off = sg * ((h * 3600 + m * 60 + s) * 1000 + ms)"
    unfolding z(8,9) sum sg_def by simp_all
  have sg: "sg \<in> {1, - 1}"
    by (simp add: sg_def)
  show ?thesis
    unfolding zone_literal_def
    by (rule disjI2, rule exI [of _ sg], rule exI [of _ h], rule exI [of _ m], rule exI [of _ s], rule exI [of _ ms],
        rule exI [of _ colon], rule exI [of _ mt], rule exI [of _ st], rule exI [of _ p4])
       (intro conjI h(2) z(2) mt(2) ms p sg colon(2) st(2) vals)
next
  case False
  then show ?thesis
    using assms by (cases p) (auto simp: timestamp_zone_def zone_literal_def split: if_splits)
qed

text \<open>
  C25: what a parsed timestamp means. Every accepted literal consists of a date of the calendar of the
  years 0 to 9999, one of the three separators, a time of day (with a leap second), an optional fraction
  and an optional zone, and the result is what these parts of the literal say: the nanoseconds are the
  first nine places of the fraction, the offset is that of the zone in milliseconds, and the second count
  is that of the date and time less the whole seconds of the zone; the milliseconds of the zone are
  recorded in the offset only. Nanoseconds and offset are in the ranges that the wire format requires.
\<close>

theorem parse_timestamp_sound:
  assumes "bebop_util_parse_timestamp (Some lit) = Some (secs, nanos, offset_ms)"
  shows "(\<exists>y mo d sep h mi s ft zt zone.
      lit = digits4 y @ [0x2D] @ digits2 mo @ [0x2D] @ digits2 d @ [sep] @
            digits2 h @ [0x3A] @ digits2 mi @ [0x3A] @ digits2 s @ ft @ zt
      \<and> 0 \<le> y \<and> y \<le> 9999 \<and> valid_date y mo d \<and> sep \<in> {0x54, 0x74, 0x20}
      \<and> 0 \<le> h \<and> h \<le> 23 \<and> 0 \<le> mi \<and> mi \<le> 59 \<and> 0 \<le> s \<and> s \<le> 60
      \<and> fraction_literal 9 ft nanos \<and> zone_literal zt zone offset_ms
      \<and> secs = bebop__util_days_from_civil y mo d * 86400 + h * 3600 + mi * 60 + s - zone)
    \<and> 0 \<le> nanos \<and> nanos \<le> 999999999 \<and> - 86400000 \<le> offset_ms \<and> offset_ms \<le> 86400000"
proof -
  obtain y mo d p1 p2 h mi s p3 tz where t: "timestamp_date lit = Some (y, mo, d, p1)"
      "expect [0x54, 0x74, 0x20] p1 = Some p2" "timestamp_clock p2 = Some (h, mi, s, p3)" "fst (timestamp_nanos p3) = nanos"
      "timestamp_zone (snd (timestamp_nanos p3)) = Some (tz, offset_ms, [])"
      "secs = bebop__util_days_from_civil y mo d * 86400 + h * 3600 + mi * 60 + s - tz"
    using assms unfolding bebop_util_parse_timestamp_def Let_def
    by (simp only: bind_eq_Some_conv case_prod_unfold check_some option.inject split_paired_Ex fst_conv snd_conv prod.inject
        not_not) (elim exE conjE, rule that, (assumption | simp)+)
  define p4 where "p4 = snd (timestamp_nanos p3)"
  have t4: "timestamp_nanos p3 = (nanos, p4)"
    using t(4) unfolding p4_def by (metis prod.collapse)
  note t5 = t(5) [folded p4_def]
  have ns: "0 \<le> nanos \<and> nanos \<le> 999999999"
    using t4 parse_fraction_bound [of 9 "drop 1 p3"] by (auto simp: timestamp_nanos_def split: if_splits prod.splits)
  have off: "- 86400000 \<le> offset_ms \<and> offset_ms \<le> 86400000"
    using zone_valid [OF t5] by auto
  obtain sep where sep: "p1 = sep # p2" "sep \<in> {0x54, 0x74, 0x20}"
    using t(2) by (auto simp: expect_inverse)
  obtain ft where ft: "p3 = ft @ p4" "fraction_literal 9 ft nanos"
    using nanos_literal [OF t4] by blast
  have lit: "lit = digits4 y @ [0x2D] @ digits2 mo @ [0x2D] @ digits2 d @ [sep] @
      digits2 h @ [0x3A] @ digits2 mi @ [0x3A] @ digits2 s @ ft @ p4"
    using date_literal [OF t(1)] clock_literal [OF t(3)] sep(1) ft(1) by simp
  have date: "0 \<le> y" "y \<le> 9999" "valid_date y mo d"
    using date_literal [OF t(1)] by auto
  have clock: "0 \<le> h" "h \<le> 23" "0 \<le> mi" "mi \<le> 59" "0 \<le> s" "s \<le> 60"
    using clock_valid [OF t(3)] by auto
  show ?thesis
    by (intro conjI, rule exI [of _ y], rule exI [of _ mo], rule exI [of _ d], rule exI [of _ sep], rule exI [of _ h],
        rule exI [of _ mi], rule exI [of _ s], rule exI [of _ ft], rule exI [of _ p4], rule exI [of _ tz])
       (intro conjI lit date sep(2) clock ft(2) zone_reads_literal [OF t5] t(6) conjunct1 [OF ns] conjunct2 [OF ns]
          conjunct1 [OF off] conjunct2 [OF off])+
qed

theorem parse_timestamp_sound_witness:
  "bebop_util_parse_timestamp (Some (ascii ''1970-01-01T00:00:00+00:00:01.500'')) = Some (- 1, 0, 1500)
   \<and> (\<exists>y mo d h mi s ft zt zone. valid_date y mo d \<and> fraction_literal 9 ft 0 \<and> zone_literal zt zone 1500
      \<and> - 1 = bebop__util_days_from_civil y mo d * 86400 + h * 3600 + mi * 60 + s - zone)"
proof -
  have t: "bebop_util_parse_timestamp (Some (ascii ''1970-01-01T00:00:00+00:00:01.500'')) = Some (- 1, 0, 1500)"
    by code_simp
  from parse_timestamp_sound [OF this] t show ?thesis
    by blast
qed

end
