(* ===== verification/Schema_Duration.thy ===== *)
theory Schema_Duration
  imports Schema_Time
begin

text \<open>
  Duration literals, from \<^verbatim>\<open>bebop/src/bebop_utils.c\<close>. The \<^verbatim>\<open>uint64_t\<close> values are natural numbers, wrapped where the code
  multiplies or adds; the total is the \<^verbatim>\<open>int64_t\<close> that the code accumulates, which is never negative before the sign
  is applied.
\<close>

section \<open>Durations\<close>

definition UINT64_MAX :: nat where
  "UINT64_MAX = 2 ^ 64 - 1"

text \<open>The digits before the dot or the unit: value, number of digits and rest, unless the value overflows.\<close>

fun duration_digits :: "byte list \<Rightarrow> nat \<Rightarrow> nat \<Rightarrow> (nat \<times> nat \<times> byte list) option" where
  "duration_digits [] val digits = Some (val, digits, [])"
| "duration_digits (c # p) val digits =
     (let d = unat (digit_val c)
      in if d < 10
         then if val > (UINT64_MAX - d) div 10 then None
              else duration_digits p (size_wrap (val * 10 + d)) (digits + 1)
         else Some (val, digits, c # p))"

text \<open>The nanoseconds of a unit, and the rest after the letters of the unit.\<close>

definition duration_unit :: "byte \<Rightarrow> byte list \<Rightarrow> (nat \<times> byte list) option" where
  "duration_unit unit p =
     (let second_letter = (p \<noteq> [] \<and> (p ! 0 = 0x73 \<or> p ! 0 = 0x53))
      in if unit = 0x68 \<or> unit = 0x48 then Some (3600000000000, p)
         else if unit = 0x6D \<or> unit = 0x4D then
           (if second_letter then Some (1000000, drop 1 p) else Some (60000000000, p))
         else if unit = 0x73 \<or> unit = 0x53 then Some (1000000000, p)
         else if unit = 0x75 then Some (1000, if second_letter then drop 1 p else p)
         else if unit = 0x6E then Some (1, if second_letter then drop 1 p else p)
         else None)"

text \<open>The fraction after the digits: nanoseconds of a second, its number of digits after scaling, and the rest.\<close>

definition duration_fraction :: "byte list \<Rightarrow> nat \<times> nat \<times> byte list" where
  "duration_fraction p =
     (if p \<noteq> [] \<and> p ! 0 = 0x2E then (case parse_fraction 9 (drop 1 p) of (frac, p) \<Rightarrow> (frac, 9, p)) else (0, 0, p))"

text \<open>What one value with its unit adds, unless it overflows.\<close>

definition duration_add :: "nat \<Rightarrow> nat \<Rightarrow> nat \<Rightarrow> nat \<Rightarrow> nat option" where
  "duration_add val frac_nanos frac_digits multiplier_ns =
     (if val > INT64_MAX div multiplier_ns then None
      else
        let add = size_wrap (val * multiplier_ns)
        in if frac_digits > 0 then
             let frac_contrib =
                   (if multiplier_ns \<ge> 1000000000 then size_wrap (frac_nanos * (multiplier_ns div 1000000000))
                    else frac_nanos div (1000000000 div multiplier_ns))
             in if frac_contrib > INT64_MAX - add then None else Some (size_wrap (add + frac_contrib))
           else Some add)"

text \<open>The value without a unit at the end of the literal.\<close>

definition duration_bare :: "nat \<Rightarrow> nat \<Rightarrow> nat option" where
  "duration_bare val frac_nanos =
     (if val > INT64_MAX div 1000000000 then None
      else
        let whole = size_wrap (val * 1000000000)
        in if frac_nanos > INT64_MAX - whole then None else Some (size_wrap (whole + frac_nanos)))"

lemma duration_digits_length: "duration_digits p val digits = Some (val', digits', r) \<Longrightarrow> length r \<le> length p"
  by (induction p val digits rule: duration_digits.induct) (auto simp: Let_def split: if_splits)

lemma frac_loop_length: "frac_loop n p frac digits = (r, frac', digits') \<Longrightarrow> length r \<le> length p"
  by (induction n p frac digits rule: frac_loop.induct) (auto simp: Let_def split: if_splits)

lemma parse_fraction_length: "parse_fraction n p = (frac, r) \<Longrightarrow> length r \<le> length p"
  using frac_loop_length [of n p 0 0] length_dropWhile_le
  by (auto simp: parse_fraction_def skip_digits_def split: prod.splits intro: le_trans)

lemma duration_fraction_length: "duration_fraction p = (frac, n, r) \<Longrightarrow> length r \<le> length p"
  using parse_fraction_length [of 9 "drop 1 p"] by (auto simp: duration_fraction_def split: if_splits prod.splits)

lemma duration_unit_length: "duration_unit c p = Some (m, r) \<Longrightarrow> length r \<le> length p"
  by (auto simp: duration_unit_def Let_def split: if_splits)

function duration_loop :: "byte list \<Rightarrow> nat \<Rightarrow> bool \<Rightarrow> (nat \<times> bool) option" where
  "duration_loop p total_nanos had_value =
     (if p = [] then Some (total_nanos, had_value)
      else
        (case duration_digits p 0 0 of
           None \<Rightarrow> None
         | Some (val, digits, p1) \<Rightarrow>
             (case duration_fraction p1 of
                (frac_nanos, frac_digits, p2) \<Rightarrow>
                  if digits = 0 \<and> frac_digits = 0 then None
                  else if p2 = [] then
                    (if \<not> had_value
                     then (case duration_bare val frac_nanos of None \<Rightarrow> None | Some whole \<Rightarrow> Some (whole, True))
                     else Some (total_nanos, had_value))
                  else
                    (case duration_unit (p2 ! 0) (drop 1 p2) of
                       None \<Rightarrow> None
                     | Some (multiplier_ns, p3) \<Rightarrow>
                         (case duration_add val frac_nanos frac_digits multiplier_ns of
                            None \<Rightarrow> None
                          | Some add \<Rightarrow>
                              if add > INT64_MAX - total_nanos then None
                              else duration_loop p3 (total_nanos + add) True)))))"
  by pat_completeness auto
termination
  by (relation "measure (\<lambda>(p, _). length p)")
    (auto dest!: duration_digits_length duration_fraction_length [OF sym] duration_unit_length simp: neq_Nil_conv)

declare duration_loop.simps [simp del]

definition bebop_util_parse_duration :: "byte list option \<Rightarrow> (int \<times> int) option" where
  "bebop_util_parse_duration str =
     (case str of
        None \<Rightarrow> None
      | Some [] \<Rightarrow> None
      | Some s \<Rightarrow>
          let neg = (s ! 0 = 0x2D);
              p = (if s ! 0 = 0x2D \<or> s ! 0 = 0x2B then drop 1 s else s)
          in if p = [] then None
             else
               (case duration_loop p 0 False of
                  None \<Rightarrow> None
                | Some (tn, had_value) \<Rightarrow>
                    if \<not> had_value then None
                    else
                      let total_nanos = (if neg then - int tn else int tn);
                          out_seconds = total_nanos sdiv 1000000000;
                          out_nanos = total_nanos smod 1000000000
                      in if out_nanos < 0 \<and> out_seconds > 0 then Some (out_seconds - 1, out_nanos + 1000000000)
                         else if out_nanos > 0 \<and> out_seconds < 0 then Some (out_seconds + 1, out_nanos - 1000000000)
                         else Some (out_seconds, out_nanos)))"


section \<open>What a duration literal means\<close>

text \<open>
  A part of a literal: its digits, the digits after the dot when there is one, and its unit. The part of one
  unit is the value of its digits in nanoseconds, with the first nine digits of the fraction.
\<close>

datatype duration_suffix = Hours | Minutes | Seconds | Millis | Micros | Nanos

primrec suffix_text :: "duration_suffix \<Rightarrow> byte list" where
  "suffix_text Hours = [0x68]"
| "suffix_text Minutes = [0x6D]"
| "suffix_text Seconds = [0x73]"
| "suffix_text Millis = [0x6D, 0x73]"
| "suffix_text Micros = [0x75, 0x73]"
| "suffix_text Nanos = [0x6E, 0x73]"

primrec suffix_nanos :: "duration_suffix \<Rightarrow> nat" where
  "suffix_nanos Hours = 3600000000000"
| "suffix_nanos Minutes = 60000000000"
| "suffix_nanos Seconds = 1000000000"
| "suffix_nanos Millis = 1000000"
| "suffix_nanos Micros = 1000"
| "suffix_nanos Nanos = 1"

type_synonym duration_part = "byte list \<times> byte list option \<times> duration_suffix"

definition frac_value :: "byte list option \<Rightarrow> nat" where
  "frac_value fs = (case fs of None \<Rightarrow> 0 | Some ds \<Rightarrow> positional 10 0 (take 9 ds) * 10 ^ (9 - length ds))"

definition frac_text :: "byte list option \<Rightarrow> byte list" where
  "frac_text fs = (case fs of None \<Rightarrow> [] | Some ds \<Rightarrow> 0x2E # ds)"

definition part_text :: "duration_part \<Rightarrow> byte list" where
  "part_text = (\<lambda>(ds, fs, u). ds @ frac_text fs @ suffix_text u)"

definition part_nanos :: "duration_part \<Rightarrow> nat" where
  "part_nanos = (\<lambda>(ds, fs, u). positional 10 0 ds * suffix_nanos u + frac_value fs * suffix_nanos u div 1000000000)"

definition valid_part :: "duration_part \<Rightarrow> bool" where
  "valid_part = (\<lambda>(ds, fs, u). digits_in 10 ds \<and> (case fs of None \<Rightarrow> True | Some es \<Rightarrow> digits_in 10 es))"

definition duration_text :: "duration_part list \<Rightarrow> byte list" where
  "duration_text ps = concat (map part_text ps)"

definition duration_nanos :: "duration_part list \<Rightarrow> nat" where
  "duration_nanos ps = sum_list (map part_nanos ps)"

lemma duration_digits_run:
  assumes "list_all (\<lambda>c. unat (digit_val c) < 10) ds" "r = [] \<or> \<not> unat (digit_val (r ! 0)) < 10" "val \<le> UINT64_MAX"
  shows "duration_digits (ds @ r) val k =
    (if positional 10 val ds > UINT64_MAX then None else Some (positional 10 val ds, k + length ds, r))"
  using assms(1,3)
proof (induction ds arbitrary: val k)
  case Nil
  then show ?case
    using assms(2) by (cases r) (simp_all add: positional_def)
next
  case (Cons c ds)
  define d where "d = unat (digit_val c)"
  have d: "d < 10"
    using Cons.prems by (simp add: d_def)
  then have "d \<le> UINT64_MAX"
    by (simp add: UINT64_MAX_def)
  then have test: "val > (UINT64_MAX - d) div 10 \<longleftrightarrow> val * 10 + d > UINT64_MAX"
    by (simp add: div_less_iff_less_mult less_diff_conv2)
  have step: "duration_digits ((c # ds) @ r) val k =
      (if val * 10 + d > UINT64_MAX then None else duration_digits (ds @ r) (size_wrap (val * 10 + d)) (k + 1))"
    using d by (simp only: append_Cons duration_digits.simps Let_def d_def [symmetric] test if_True)
  show ?case
  proof (cases "val * 10 + d > UINT64_MAX")
    case True
    then have "positional 10 val (c # ds) > UINT64_MAX"
      using positional_ge [of 10 "val * 10 + d" ds] by (simp add: positional_Cons d_def)
    then show ?thesis
      unfolding step using True by simp
  next
    case False
    then have "size_wrap (val * 10 + d) = val * 10 + d"
      by (intro size_wrap_id) (simp add: UINT64_MAX_def)
    then show ?thesis
      unfolding step using False Cons.IH [of "val * 10 + d" "k + 1"] Cons.prems(1) by (simp add: positional_Cons d_def)
  qed
qed

lemma frac_loop_run:
  assumes "list_all (\<lambda>c. unat (digit_val c) < 10) es" "r = [] \<or> \<not> unat (digit_val (r ! 0)) < 10" "k \<le> n"
  shows "frac_loop n (es @ r) f k = (drop (n - k) es @ r, positional 10 f (take (n - k) es), k + min (n - k) (length es))"
  using assms(1,3)
proof (induction es arbitrary: f k)
  case Nil
  then show ?case
    using assms(2) by (cases r) (simp_all add: positional_def Let_def)
next
  case (Cons c es)
  show ?case
  proof (cases "k < n")
    case True
    then have n: "n - k = Suc (n - Suc k)"
      by simp
    show ?thesis
      using True Cons by (simp add: n Let_def positional_Cons)
  next
    case False
    then show ?thesis
      using Cons.prems by (simp add: positional_def)
  qed
qed

lemma fraction_run:
  assumes "list_all (\<lambda>c. unat (digit_val c) < 10) es" "r = [] \<or> \<not> unat (digit_val (r ! 0)) < 10"
  shows "parse_fraction 9 (es @ r) = (frac_value (Some es), r)"
proof -
  have "skip_digits 10 (drop 9 es @ r) = r"
    using assms by (cases r) (simp_all add: skip_digits_run list_all_iff in_set_dropD)
  moreover have "9 - min 9 (length es) = 9 - length es"
    by simp
  ultimately show ?thesis
    using frac_loop_run [OF assms, of 0 9 0]
    by (simp add: parse_fraction_def scale_frac_power frac_value_def)
qed

text \<open>The letters of a unit are read as that unit, whatever may follow a part.\<close>

lemma unit_run:
  assumes "r = [] \<or> r ! 0 \<noteq> 0x73 \<and> r ! 0 \<noteq> 0x53"
  shows "duration_unit ((suffix_text u @ r) ! 0) (drop 1 (suffix_text u @ r)) = Some (suffix_nanos u, r)"
  using assms by (cases u) (auto simp: duration_unit_def)

lemma suffix_start:
  "suffix_text u \<noteq> []" "\<not> unat (digit_val ((suffix_text u @ r) ! 0)) < 10" "(suffix_text u @ r) ! 0 \<noteq> 0x2E"
  by (cases u; simp add: digit_val_unat)+

lemma fraction_part:
  assumes "case fs of None \<Rightarrow> True | Some es \<Rightarrow> digits_in 10 es"
  shows "duration_fraction (frac_text fs @ suffix_text u @ r) =
    (frac_value fs, if fs = None then 0 else 9, suffix_text u @ r)"
proof (cases fs)
  case None
  then show ?thesis
    using suffix_start by (simp add: duration_fraction_def frac_text_def frac_value_def)
next
  case (Some es)
  then have "list_all (\<lambda>c. unat (digit_val c) < 10) es"
    using assms by (simp add: digits_in_def)
  from fraction_run [OF this, of "suffix_text u @ r"] show ?thesis
    using suffix_start by (simp add: duration_fraction_def frac_text_def Some)
qed

lemma suffix_nanos_cases:
  "0 < suffix_nanos u" "suffix_nanos u \<ge> 1000000000 \<Longrightarrow> 1000000000 * (suffix_nanos u div 1000000000) = suffix_nanos u"
  "suffix_nanos u < 1000000000 \<Longrightarrow> suffix_nanos u * (1000000000 div suffix_nanos u) = 1000000000"
  "suffix_nanos u \<le> 3600000000000"
  by (cases u; simp)+

lemma frac_contrib:
  "(if suffix_nanos u \<ge> 1000000000 then f * (suffix_nanos u div 1000000000) else f div (1000000000 div suffix_nanos u)) =
     f * suffix_nanos u div 1000000000"
  by (cases u) (simp_all add: div_mult2_eq [symmetric])

lemma frac_value_less: "frac_value fs < 1000000000" if "case fs of None \<Rightarrow> True | Some es \<Rightarrow> digits_in 10 es"
proof (cases fs)
  case (Some es)
  then have "list_all (\<lambda>c. unat (digit_val c) < 10) es"
    using that by (simp add: digits_in_def)
  from fraction_run [OF this, of "[]"] parse_fraction_bound [of 9 es "frac_value fs" "[]"] show ?thesis
    by (simp add: Some)
qed (simp add: frac_value_def)

lemma duration_add_exact:
  fixes val :: nat and u :: duration_suffix and fs :: "byte list option"
  assumes "case fs of None \<Rightarrow> True | Some es \<Rightarrow> digits_in 10 es" "val \<le> UINT64_MAX"
  defines "ns \<equiv> val * suffix_nanos u + frac_value fs * suffix_nanos u div 1000000000"
  shows "duration_add val (frac_value fs) (if fs = None then 0 else 9) (suffix_nanos u) = (if ns \<le> INT64_MAX then Some ns else None)"
proof (cases "val > INT64_MAX div suffix_nanos u")
  case True
  then have "INT64_MAX < val * suffix_nanos u"
    using suffix_nanos_cases(1) by (simp add: div_less_iff_less_mult)
  then show ?thesis
    using True by (simp add: duration_add_def ns_def)
next
  case False
  then have le: "val * suffix_nanos u \<le> INT64_MAX"
    using suffix_nanos_cases(1) by (simp add: div_less_iff_less_mult not_less)
  then have w: "size_wrap (val * suffix_nanos u) = val * suffix_nanos u"
    by (intro size_wrap_id) (simp add: INT64_MAX_def)
  have "frac_value fs * (suffix_nanos u div 1000000000) < 2 ^ 64"
    using mult_strict_mono [of "frac_value fs" 1000000000 "suffix_nanos u div 1000000000" 3601] frac_value_less [OF assms(1)]
      suffix_nanos_cases(4) [of u] by (cases u) simp_all
  then have c: "(if suffix_nanos u \<ge> 1000000000 then size_wrap (frac_value fs * (suffix_nanos u div 1000000000))
      else frac_value fs div (1000000000 div suffix_nanos u)) = frac_value fs * suffix_nanos u div 1000000000"
    unfolding frac_contrib [symmetric] by simp
  show ?thesis
  proof (cases "fs = None")
    case True
    then show ?thesis
      using False le w by (simp add: duration_add_def ns_def frac_value_def)
  next
    case some: False
    define f where "f = frac_value fs * suffix_nanos u div 1000000000"
    have wrap: "size_wrap (val * suffix_nanos u + f) = ns" if "ns \<le> INT64_MAX"
      using that by (simp add: ns_def f_def INT64_MAX_def)
    have "f > INT64_MAX - val * suffix_nanos u \<longleftrightarrow> \<not> ns \<le> INT64_MAX"
      using le by (auto simp: ns_def f_def)
    then show ?thesis
      unfolding duration_add_def Let_def w c f_def [symmetric] using some False wrap by auto
  qed
qed

lemma duration_text_start:
  assumes "list_all valid_part ps"
  shows "duration_text ps = [] \<or> unat (digit_val (duration_text ps ! 0)) < 10"
proof (cases ps)
  case (Cons p qs)
  then obtain c ds fs u where "p = (c # ds, fs, u)" "unat (digit_val c) < 10"
    using assms by (cases p) (auto simp: valid_part_def digits_in_def neq_Nil_conv)
  then show ?thesis
    by (simp add: Cons duration_text_def part_text_def)
qed (simp add: duration_text_def)

lemma digit_not_s: "unat (digit_val c) < 10 \<Longrightarrow> c \<noteq> 0x73 \<and> c \<noteq> 0x53"
  by (auto simp: digit_val_unat)

text \<open>One turn of the loop over a part, with anything after it that does not extend its unit.\<close>

lemma duration_loop_part:
  assumes "valid_part (ds, fs, u)" "r = [] \<or> unat (digit_val (r ! 0)) < 10" "tn \<le> INT64_MAX"
  defines "ns \<equiv> part_nanos (ds, fs, u)"
  shows "duration_loop (part_text (ds, fs, u) @ r) tn had = (if tn + ns \<le> INT64_MAX then duration_loop r (tn + ns) True else None)"
proof -
  define q where "q = frac_text fs @ suffix_text u @ r"
  define val where "val = positional 10 0 ds"
  have ds: "list_all (\<lambda>c. unat (digit_val c) < 10) ds" "ds \<noteq> []" and fs: "case fs of None \<Rightarrow> True | Some es \<Rightarrow> digits_in 10 es"
    using assms(1) by (simp_all add: valid_part_def digits_in_def)
  have body: "part_text (ds, fs, u) @ r = ds @ q" "ds @ q \<noteq> []"
    using ds(2) by (simp_all add: part_text_def q_def)
  have "unat (digit_val 0x2E) = 255"
    by (simp add: digit_val_unat)
  then have "\<not> unat (digit_val (q ! 0)) < 10"
    using suffix_start [of u] by (cases fs) (simp_all add: q_def frac_text_def)
  from duration_digits_run [OF ds(1), of q 0 0] this
  have digits: "duration_digits (ds @ q) 0 0 = (if val > UINT64_MAX then None else Some (val, length ds, q))"
    by (simp add: val_def)
  have ns: "ns = val * suffix_nanos u + frac_value fs * suffix_nanos u div 1000000000"
    by (simp add: ns_def part_nanos_def val_def)
  have unit: "duration_unit ((suffix_text u @ r) ! 0) (drop 1 (suffix_text u @ r)) = Some (suffix_nanos u, r)"
    using assms(2) digit_not_s by (intro unit_run) blast
  show ?thesis
  proof (cases "val > UINT64_MAX")
    case True
    have "val * 1 \<le> val * suffix_nanos u"
      using suffix_nanos_cases(1) [of u] by (intro mult_le_mono2) simp
    moreover have "INT64_MAX < UINT64_MAX"
      by (simp add: INT64_MAX_def UINT64_MAX_def)
    ultimately have "\<not> tn + ns \<le> INT64_MAX"
      using True unfolding ns mult_1_right by linarith
    then show ?thesis
      unfolding body(1) using True body(2) by (subst duration_loop.simps) (simp add: digits)
  next
    case False
    then have run: "duration_digits (ds @ q) 0 0 = Some (val, length ds, q)"
        "duration_fraction q = (frac_value fs, if fs = None then 0 else 9, suffix_text u @ r)"
        "duration_add val (frac_value fs) (if fs = None then 0 else 9) (suffix_nanos u) = (if ns \<le> INT64_MAX then Some ns else None)"
      using digits fraction_part [OF fs, of u r] duration_add_exact [OF fs, of val u] by (simp_all add: q_def ns)
    have "duration_loop (ds @ q) tn had =
        (case (if ns \<le> INT64_MAX then Some ns else None) of None \<Rightarrow> None
         | Some add \<Rightarrow> if add > INT64_MAX - tn then None else duration_loop r (tn + add) True)"
      using body(2) ds(2) suffix_start(1) [of u]
      by (subst duration_loop.simps) (simp only: run unit if_False if_True option.case prod.case
          length_0_conv simp_thms append_is_Nil_conv not_less)
    then show ?thesis
      unfolding body(1) using assms(3) by (auto split: if_splits)
  qed
qed

lemma duration_loop_parts:
  assumes "list_all valid_part ps" "tn \<le> INT64_MAX"
  shows "duration_loop (duration_text ps) tn had =
    (if tn + duration_nanos ps \<le> INT64_MAX then Some (tn + duration_nanos ps, had \<or> ps \<noteq> []) else None)"
  using assms
proof (induction ps arbitrary: tn had)
  case Nil
  then show ?case
    by (subst duration_loop.simps) (simp add: duration_text_def duration_nanos_def)
next
  case (Cons p ps)
  obtain ds fs u where p: "p = (ds, fs, u)"
    by (cases p)
  have "duration_text (p # ps) = part_text (ds, fs, u) @ duration_text ps" "duration_nanos (p # ps) = part_nanos p + duration_nanos ps"
    by (simp_all add: duration_text_def duration_nanos_def p)
  then show ?case
    using duration_loop_part [of ds fs u "duration_text ps" tn had] duration_text_start [of ps] Cons by (simp add: p)
qed

text \<open>The last step of the parser: the sign and the division into seconds and nanoseconds.\<close>

definition split_nanos :: "bool \<Rightarrow> nat \<Rightarrow> int \<times> int" where
  "split_nanos neg n = (let s = int (n div 1000000000); r = int (n mod 1000000000) in if neg then (- s, - r) else (s, r))"

lemma parse_duration_body:
  assumes "p \<noteq> []" "duration_loop p 0 False = (if n \<le> INT64_MAX then Some (n, True) else None)" "p ! 0 \<noteq> 0x2D" "p ! 0 \<noteq> 0x2B"
  shows "bebop_util_parse_duration (Some p) = (if n \<le> INT64_MAX then Some (split_nanos False n) else None)"
    and "bebop_util_parse_duration (Some (0x2B # p)) = (if n \<le> INT64_MAX then Some (split_nanos False n) else None)"
    and "bebop_util_parse_duration (Some (0x2D # p)) = (if n \<le> INT64_MAX then Some (split_nanos True n) else None)"
proof -
  have div: "int n sdiv 1000000000 = int (n div 1000000000)" "(- int n) sdiv 1000000000 = - int (n div 1000000000)"
    by (simp_all add: signed_divide_int_def sgn_if zdiv_int)
  have mod: "int n smod 1000000000 = int (n mod 1000000000)" "(- int n) smod 1000000000 = - int (n mod 1000000000)"
    unfolding signed_modulo_int_def div by (simp_all add: minus_mult_div_eq_mod [symmetric] zdiv_int zmod_int of_nat_mult of_nat_diff algebra_simps)
  show "bebop_util_parse_duration (Some p) = (if n \<le> INT64_MAX then Some (split_nanos False n) else None)"
    using assms by (cases p) (simp_all add: bebop_util_parse_duration_def Let_def div mod split_nanos_def)
  show "bebop_util_parse_duration (Some (0x2B # p)) = (if n \<le> INT64_MAX then Some (split_nanos False n) else None)"
    using assms by (simp add: bebop_util_parse_duration_def Let_def div mod split_nanos_def)
  show "bebop_util_parse_duration (Some (0x2D # p)) = (if n \<le> INT64_MAX then Some (split_nanos True n) else None)"
    using assms by (simp add: bebop_util_parse_duration_def Let_def div mod split_nanos_def)
qed

text \<open>
  C23: duration literals. A literal of one or more parts, each with digits, an optional fraction and a unit, and an optional
  sign, parses to the exact sum of its parts when that fits in an \<^verbatim>\<open>int64_t\<close> of nanoseconds, and is rejected when it does not:
  no step of the computation wraps around. Seconds and nanoseconds carry the same sign, as the wire format asks.
\<close>

theorem parse_duration_exact:
  assumes "ps \<noteq> []" "list_all valid_part ps"
  shows "bebop_util_parse_duration (Some ((if neg then [0x2D] else if pos then [0x2B] else []) @ duration_text ps)) =
    (if duration_nanos ps \<le> INT64_MAX
     then Some (let s = int (duration_nanos ps div 1000000000); n = int (duration_nanos ps mod 1000000000)
                in if neg then (- s, - n) else (s, n))
     else None)"
proof -
  have "duration_text ps \<noteq> []"
    using assms by (cases ps) (auto simp: duration_text_def part_text_def valid_part_def digits_in_def)
  moreover from this have "unat (digit_val (duration_text ps ! 0)) < 10"
    using duration_text_start [OF assms(2)] by simp
  then have "duration_text ps ! 0 \<noteq> 0x2D" "duration_text ps ! 0 \<noteq> 0x2B"
    by (auto simp: digit_val_unat)
  moreover have "duration_loop (duration_text ps) 0 False =
      (if duration_nanos ps \<le> INT64_MAX then Some (duration_nanos ps, True) else None)"
    using duration_loop_parts [OF assms(2), of 0 False] assms(1) by simp
  ultimately show ?thesis
    using parse_duration_body [of "duration_text ps" "duration_nanos ps"] by (simp add: split_nanos_def)
qed

theorem parse_duration_exact_witness:
  "bebop_util_parse_duration (Some (ascii ''-1h30m1.5s'')) = Some (- 5401, - 500000000)"
proof -
  let ?ps = "[(ascii ''1'', None, Hours), (ascii ''30'', None, Minutes), (ascii ''1'', Some (ascii ''5''), Seconds)]"
  have "list_all valid_part ?ps"
    by (simp add: valid_part_def literal_eval)
  moreover have "[0x2D] @ duration_text ?ps = ascii ''-1h30m1.5s''"
    by (simp add: duration_text_def part_text_def frac_text_def ascii_def)
  moreover have "duration_nanos ?ps = 5401500000000"
    by (simp add: duration_nanos_def part_nanos_def frac_value_def literal_eval)
  ultimately show ?thesis
    using parse_duration_exact [of ?ps True False] by (simp add: INT64_MAX_def)
qed

lemma duration_loop_bare:
  assumes "digits_in 10 ds" "positional 10 0 ds \<le> UINT64_MAX"
  shows "duration_loop ds tn True = Some (tn, True)"
proof -
  have "duration_digits ds 0 0 = Some (positional 10 0 ds, length ds, [])"
    using duration_digits_run [of ds "[]" 0 0] assms by (simp add: digits_in_def)
  then show ?thesis
    using assms(1) by (subst duration_loop.simps) (simp add: digits_in_def duration_fraction_def)
qed

text \<open>
  A value without a unit after the first part is dropped without an error, whatever it is: \<^verbatim>\<open>1h30\<close> is one hour, not
  an error and not an hour and a half.
\<close>

theorem parse_duration_drops_tail:
  "bebop_util_parse_duration (Some (ascii ''1h30'')) = Some (3600, 0) \<and>
   bebop_util_parse_duration (Some (ascii ''1h30'')) = bebop_util_parse_duration (Some (ascii ''1h''))"
proof -
  have part: "valid_part (ascii ''1'', None, Hours)" "part_nanos (ascii ''1'', None, Hours) = 3600000000000"
    by (simp_all add: valid_part_def part_nanos_def frac_value_def literal_eval)
  have chars: "ascii ''1h30'' = part_text (ascii ''1'', None, Hours) @ ascii ''30''" "ascii ''1h'' = part_text (ascii ''1'', None, Hours) @ []"
    by (simp_all add: part_text_def frac_text_def ascii_def)
  have start: "ascii ''30'' \<noteq> [] \<and> unat (digit_val (ascii ''30'' ! 0)) < 10"
    by (simp add: literal_eval)
  have "duration_loop (ascii ''30'') 3600000000000 True = Some (3600000000000, True)"
    by (rule duration_loop_bare) (simp_all add: literal_eval UINT64_MAX_def)
  moreover have "duration_loop [] 3600000000000 True = Some (3600000000000, True)"
    by (simp add: duration_loop.simps)
  ultimately have loops: "duration_loop (ascii ''1h30'') 0 False = Some (3600000000000, True)"
      "duration_loop (ascii ''1h'') 0 False = Some (3600000000000, True)"
    using duration_loop_part [OF part(1), of "ascii ''30''" 0 False] duration_loop_part [OF part(1), of "[]" 0 False] start part(2)
    unfolding chars by (simp_all add: INT64_MAX_def)
  have sign: "ascii ''1h30'' ! 0 \<noteq> 0x2D" "ascii ''1h30'' ! 0 \<noteq> 0x2B" "ascii ''1h'' ! 0 \<noteq> 0x2D" "ascii ''1h'' ! 0 \<noteq> 0x2B"
      "ascii ''1h30'' \<noteq> []" "ascii ''1h'' \<noteq> []"
    by (simp_all add: ascii_def)
  show ?thesis
    using parse_duration_body(1) [of "ascii ''1h30''" 3600000000000] parse_duration_body(1) [of "ascii ''1h''" 3600000000000] loops sign
    by (simp add: INT64_MAX_def split_nanos_def)
qed

end
