(* ===== verification/Schema_Distance.thy ===== *)
theory Schema_Distance
  imports Wire_Values
begin

text \<open>
  Suggestions for misspelt names, from \<^verbatim>\<open>bebop/src/bebop_utils.c\<close>: the edit distance of two strings and the search for the
  closest candidate. The matrix of the distance is a function of the two indices that the loops update cell by
  cell; its entries are at most 126, so only the conversions and the additions on the bound can wrap, and those
  are written out modulo \<^term>\<open>2 ^ 32\<close>.
\<close>

type_synonym matrix = "nat \<Rightarrow> nat \<Rightarrow> nat"

definition set_cell :: "nat \<Rightarrow> nat \<Rightarrow> nat \<Rightarrow> matrix \<Rightarrow> matrix" where
  "set_cell i j v d = d(i := (d i)(j := v))"

text \<open>One cell from its neighbours; the matrix is not initialised before the loops, so it starts arbitrary.\<close>

definition levenshtein_cell :: "byte list \<Rightarrow> byte list \<Rightarrow> nat \<Rightarrow> nat \<Rightarrow> matrix \<Rightarrow> matrix" where
  "levenshtein_cell a b i j d =
     (let cost = (if a ! (i - 1) = b ! (j - 1) then 0 else 1);
          del = d (i - 1) j + 1;
          ins = d i (j - 1) + 1;
          sub = d (i - 1) (j - 1) + cost;
          d = set_cell i j (if del < ins then del else ins) d;
          d = (if sub < d i j then set_cell i j sub d else d)
      in if i > 1 \<and> j > 1 \<and> a ! (i - 1) = b ! (j - 2) \<and> a ! (i - 2) = b ! (j - 1)
         then
           let trans = d (i - 2) (j - 2) + 1
           in if trans < d i j then set_cell i j trans d else d
         else d)"

definition levenshtein_border :: "nat \<Rightarrow> nat \<Rightarrow> matrix \<Rightarrow> matrix" where
  "levenshtein_border a_len b_len d =
     fold (\<lambda>j d. set_cell 0 j j d) [0..<b_len + 1] (fold (\<lambda>i d. set_cell i 0 i d) [0..<a_len + 1] d)"

definition levenshtein_table :: "byte list \<Rightarrow> byte list \<Rightarrow> matrix \<Rightarrow> matrix" where
  "levenshtein_table a b d =
     fold (\<lambda>i d. fold (\<lambda>j d. levenshtein_cell a b i j d) [1..<length b + 1] d) [1..<length a + 1]
       (levenshtein_border (length a) (length b) d)"

definition u32_wrap :: "nat \<Rightarrow> nat" where
  "u32_wrap n = n mod 2 ^ 32"

definition bebop_util_levenshtein :: "matrix \<Rightarrow> byte list \<Rightarrow> byte list \<Rightarrow> nat \<Rightarrow> nat" where
  "bebop_util_levenshtein stack a b max_dist =
     (if length a = 0 then u32_wrap (length b)
      else if length b = 0 then u32_wrap (length a)
      else
        let len_diff = (if length a > length b then length a - length b else length b - length a)
        in if len_diff > max_dist then u32_wrap (max_dist + 1)
           else if length a + 1 > 64 \<or> length b + 1 > 64 then u32_wrap (max_dist + 1)
           else
             let d = levenshtein_table a b stack
             in if d (length a) (length b) > max_dist then u32_wrap (max_dist + 1) else d (length a) (length b))"

text \<open>
  The candidates are C strings, possibly null. The search returns the position of the match; the loop carries
  the best position and its distance.
\<close>

fun fuzzy_loop :: "matrix \<Rightarrow> byte list \<Rightarrow> (nat \<times> cstring option) list \<Rightarrow> nat option \<Rightarrow> nat \<Rightarrow> nat option" where
  "fuzzy_loop stack input [] best best_dist = best"
| "fuzzy_loop stack input ((i, None) # cs) best best_dist = fuzzy_loop stack input cs best best_dist"
| "fuzzy_loop stack input ((i, Some c) # cs) best best_dist =
     (let dist = bebop_util_levenshtein stack input (take (strlen c) c) (u32_wrap (best_dist + 2 ^ 32 - 1))
      in if dist < best_dist
         then if dist = 0 then Some i else fuzzy_loop stack input cs (Some i) dist
         else fuzzy_loop stack input cs best best_dist)"

definition bebop_util_fuzzy_match ::
  "matrix \<Rightarrow> byte list option \<Rightarrow> cstring option list option \<Rightarrow> nat \<Rightarrow> nat option" where
  "bebop_util_fuzzy_match stack input candidates max_distance =
     (case (input, candidates) of
        (Some s, Some cs) \<Rightarrow>
          if s = [] \<or> cs = [] then None
          else fuzzy_loop stack s (enumerate 0 cs) None (u32_wrap (max_distance + 1))
      | _ \<Rightarrow> None)"

section \<open>Edit distance\<close>

text \<open>
  The specification: alignments of two strings with insertions, deletions, substitutions and swaps of two
  neighbours, each of cost one, and the distance as a recursion on prefixes. An alignment edits each
  position at most once, so the two bytes of a swap stay next to each other: this is the restricted
  distance (optimal string alignment), which can exceed the number of edits when edits may be applied to
  the result of others. From \<^verbatim>\<open>CA\<close> to \<^verbatim>\<open>ABC\<close> it is 3, while a swap and an insertion between the swapped
  letters would do.
\<close>

inductive align :: "'a list \<Rightarrow> 'a list \<Rightarrow> nat \<Rightarrow> bool" where
  Empty: "align [] [] 0"
| Keep: "align xs ys n \<Longrightarrow> align (xs @ [c]) (ys @ [c]) n"
| Substitute: "align xs ys n \<Longrightarrow> align (xs @ [c]) (ys @ [d]) (n + 1)"
| Delete: "align xs ys n \<Longrightarrow> align (xs @ [c]) ys (n + 1)"
| Insert: "align xs ys n \<Longrightarrow> align xs (ys @ [d]) (n + 1)"
| Swap: "align xs ys n \<Longrightarrow> align (xs @ [c, d]) (ys @ [d, c]) (n + 1)"

fun dist :: "'a list \<Rightarrow> 'a list \<Rightarrow> nat \<Rightarrow> nat \<Rightarrow> nat" where
  "dist a b 0 j = j"
| "dist a b (Suc i) 0 = Suc i"
| "dist a b (Suc i) (Suc j) =
     (let m = min (dist a b i (Suc j) + 1) (min (dist a b (Suc i) j + 1) (dist a b i j + (if a ! i = b ! j then 0 else 1)))
      in if i > 0 \<and> j > 0 \<and> a ! i = b ! (j - 1) \<and> a ! (i - 1) = b ! j then min m (dist a b (i - 1) (j - 1) + 1) else m)"

definition edit_distance :: "'a list \<Rightarrow> 'a list \<Rightarrow> nat" where
  "edit_distance a b = dist a b (length a) (length b)"

subsection \<open>The recursion finds a cheapest alignment\<close>

lemma align_min: "align xs ys m \<Longrightarrow> align xs ys n \<Longrightarrow> align xs ys (min m n)"
  by (simp add: min_def)

lemma dist_take:
  assumes "i \<le> length a" "j \<le> length b"
  shows "align (take i a) (take j b) (dist a b i j)"
  using assms
proof (induction a b i j rule: dist.induct)
  case (1 a b j)
  then show ?case
  proof (induction j)
    case (Suc j)
    then show ?case
      using align.Insert [of "[]" "take j b" j "b ! j"] by (simp add: take_Suc_conv_app_nth)
  qed (simp add: align.Empty)
next
  case (2 a b i)
  have "k \<le> length a \<Longrightarrow> align (take k a) [] k" for k
  proof (induction k)
    case (Suc k)
    then show ?case
      using align.Delete [of "take k a" "[]" k "a ! k"] by (simp add: take_Suc_conv_app_nth)
  qed (simp add: align.Empty)
  then show ?case
    using 2 by simp
next
  case (3 a b i j)
  have ta: "take (Suc i) a = take i a @ [a ! i]" and tb: "take (Suc j) b = take j b @ [b ! j]"
    using 3 by (simp_all add: take_Suc_conv_app_nth)
  have del: "align (take (Suc i) a) (take (Suc j) b) (dist a b i (Suc j) + 1)"
    unfolding ta using 3 by (intro align.Delete) simp
  have ins: "align (take (Suc i) a) (take (Suc j) b) (dist a b (Suc i) j + 1)"
    unfolding tb using 3 by (intro align.Insert) simp
  have sub: "align (take (Suc i) a) (take (Suc j) b) (dist a b i j + (if a ! i = b ! j then 0 else 1))"
    unfolding ta tb using align.Keep [of "take i a" "take j b" "dist a b i j"] align.Substitute [of "take i a" "take j b" "dist a b i j"] 3
    by simp
  have trans: "align (take (Suc i) a) (take (Suc j) b) (dist a b (i - 1) (j - 1) + 1)"
    if t: "i > 0" "j > 0" "a ! i = b ! (j - 1)" "a ! (i - 1) = b ! j"
  proof -
    obtain i' j' where s: "i = Suc i'" "j = Suc j'"
      using t(1,2) by (metis gr0_conv_Suc)
    have IH: "align (take i' a) (take j' b) (dist a b i' j')"
      using "3.IH"(4) [OF refl] t "3.prems" by (simp add: s)
    have "take i a = take i' a @ [a ! i']" "take j b = take j' b @ [b ! j']"
      using "3.prems" by (simp_all add: s take_Suc_conv_app_nth)
    then show ?thesis
      using align.Swap [OF IH, of "a ! i'" "a ! i"] t(3,4) unfolding ta tb by (simp add: s)
  qed
  note best = align_min [OF del align_min [OF ins sub]]
  show ?case
  proof (cases "i > 0 \<and> j > 0 \<and> a ! i = b ! (j - 1) \<and> a ! (i - 1) = b ! j")
    case True
    then show ?thesis
      unfolding dist.simps(3) Let_def if_P [OF True] by (intro align_min best trans) simp_all
  next
    case False
    show ?thesis
      unfolding dist.simps(3) Let_def if_not_P [OF False] by (rule best)
  qed
qed

lemma dist_append:
  assumes "i \<le> length a" "j \<le> length b"
  shows "dist (a @ xs) (b @ ys) i j = dist a b i j"
  using assms
proof (induction a b i j rule: dist.induct)
  case (3 a b i j)
  have n: "(a @ xs) ! i = a ! i" "(a @ xs) ! (i - 1) = a ! (i - 1)" "(b @ ys) ! j = b ! j" "(b @ ys) ! (j - 1) = b ! (j - 1)"
    using "3.prems" by (simp_all add: nth_append_left)
  have e: "dist (a @ xs) (b @ ys) i (Suc j) = dist a b i (Suc j)" "dist (a @ xs) (b @ ys) (Suc i) j = dist a b (Suc i) j"
    "dist (a @ xs) (b @ ys) i j = dist a b i j"
    using 3 by simp_all
  have "dist (a @ xs) (b @ ys) (i - 1) (j - 1) = dist a b (i - 1) (j - 1)"
    if "i > 0 \<and> j > 0 \<and> a ! i = b ! (j - 1) \<and> a ! (i - 1) = b ! j"
    using "3.IH"(4) [OF refl that] "3.prems" by simp
  then show ?case
    unfolding dist.simps(3) n e Let_def by (simp only: cong: if_cong)
qed simp_all

declare dist.simps(3) [simp del]

lemma distance_Nil [simp]: "edit_distance [] ys = length ys" "edit_distance xs [] = length xs"
  by (simp_all add: edit_distance_def) (cases xs; simp)

lemma dist_steps:
  "dist a b (Suc i) (Suc j) \<le> dist a b i (Suc j) + 1"
  "dist a b (Suc i) (Suc j) \<le> dist a b (Suc i) j + 1"
  "dist a b (Suc i) (Suc j) \<le> dist a b i j + (if a ! i = b ! j then 0 else 1)"
  "i > 0 \<Longrightarrow> j > 0 \<Longrightarrow> a ! i = b ! (j - 1) \<Longrightarrow> a ! (i - 1) = b ! j \<Longrightarrow> dist a b (Suc i) (Suc j) \<le> dist a b (i - 1) (j - 1) + 1"
  unfolding dist.simps(3) Let_def by (simp_all only: min.coboundedI1 min.coboundedI2 order_refl min_le_iff_disj simp_thms if_True split: if_split)

lemma distance_snoc:
  "edit_distance (xs @ [c]) (ys @ [d]) \<le> edit_distance xs ys + (if c = d then 0 else 1)"
  "edit_distance (xs @ [c]) (ys @ [d]) \<le> edit_distance xs (ys @ [d]) + 1"
  "edit_distance (xs @ [c]) (ys @ [d]) \<le> edit_distance (xs @ [c]) ys + 1"
  using dist_append [of "length xs" xs "length ys" ys "[c]" "[d]"] dist_append [of "length xs" xs "Suc (length ys)" "ys @ [d]" "[c]" "[]"]
    dist_append [of "Suc (length xs)" "xs @ [c]" "length ys" ys "[]" "[d]"]
    dist_steps(1-3) [of "xs @ [c]" "ys @ [d]" "length xs" "length ys"]
  by (simp_all add: edit_distance_def)

lemma distance_swap: "edit_distance (xs @ [c, d]) (ys @ [d, c]) \<le> edit_distance xs ys + 1"
  using dist_append [of "length xs" xs "length ys" ys "[c, d]" "[d, c]"]
    dist_steps(4) [of "Suc (length xs)" "Suc (length ys)" "xs @ [c, d]" "ys @ [d, c]"]
  by (simp add: edit_distance_def nth_append)

lemma distance_delete: "edit_distance (xs @ [c]) ys \<le> edit_distance xs ys + 1"
  by (cases ys rule: rev_cases) (use distance_snoc(2) in auto)

lemma distance_insert: "edit_distance xs (ys @ [d]) \<le> edit_distance xs ys + 1"
  by (cases xs rule: rev_cases) (use distance_snoc(3) in auto)

lemma distance_least: "align xs ys n \<Longrightarrow> edit_distance xs ys \<le> n"
proof (induction rule: align.induct)
  case (Keep xs ys n c)
  then show ?case
    using distance_snoc(1) [of xs c ys c] by simp
next
  case (Substitute xs ys n c d)
  then show ?case
    using distance_snoc(1) [of xs c ys d] by (simp split: if_splits)
next
  case (Delete xs ys n c)
  then show ?case
    using distance_delete [of xs c ys] by simp
next
  case (Insert xs ys n d)
  then show ?case
    using distance_insert [of xs ys d] by simp
next
  case (Swap xs ys n c d)
  then show ?case
    using distance_swap [of xs c d ys] by simp
qed simp

lemma distance_align: "align xs ys (edit_distance xs ys)"
  using dist_take [of "length xs" xs "length ys" ys] by (simp add: edit_distance_def)

lemma align_length: "align xs ys n \<Longrightarrow> length xs \<le> length ys + n \<and> length ys \<le> length xs + n"
  by (induction rule: align.induct) auto

subsection \<open>The table holds the distances of the prefixes\<close>

lemma fold_upt_invariant:
  assumes "m \<le> n" "P m x" "\<And>k x. m \<le> k \<Longrightarrow> k < n \<Longrightarrow> P k x \<Longrightarrow> P (Suc k) (f k x)"
  shows "P n (fold f [m..<n] x)"
  using assms
proof (induction n)
  case (Suc n)
  show ?case
  proof (cases "m \<le> n")
    case True
    then have "P n (fold f [m..<n] x)"
      using Suc by simp
    then show ?thesis
      using Suc.prems(3) [of n] True by simp
  next
    case False
    then have "m = Suc n"
      using Suc.prems(1) by simp
    then show ?thesis
      using Suc.prems(2) by simp
  qed
qed simp

lemma set_cell_apply: "set_cell i j v d i' j' = (if i' = i \<and> j' = j then v else d i' j')"
  by (simp add: set_cell_def)

lemma set_cell_simps: "set_cell i j v d i j = v" "set_cell i j v (set_cell i j w d) = set_cell i j v d"
  by (simp_all add: set_cell_def)

lemma cell_value:
  assumes "0 < i" "0 < j" "d (i - 1) j = dist a b (i - 1) j" "d i (j - 1) = dist a b i (j - 1)" "d (i - 1) (j - 1) = dist a b (i - 1) (j - 1)"
    "1 < i \<Longrightarrow> 1 < j \<Longrightarrow> d (i - 2) (j - 2) = dist a b (i - 2) (j - 2)"
  shows "levenshtein_cell a b i j d = set_cell i j (dist a b i j) d"
proof -
  obtain i' j' where s: "i = Suc i'" "j = Suc j'"
    using assms(1,2) by (metis gr0_conv_Suc)
  have away: "i - 2 \<noteq> i" "i' - 1 = i - 2" "j' - 1 = j - 2" "i' = i - 1" "j' = j - 1"
    by (simp_all add: s)
  define m where "m = min (dist a b i' (Suc j') + 1) (min (dist a b (Suc i') j' + 1) (dist a b i' j' + (if a ! i' = b ! j' then 0 else 1)))"
  define t where "t \<longleftrightarrow> i > 1 \<and> j > 1 \<and> a ! (i - 1) = b ! (j - 2) \<and> a ! (i - 2) = b ! (j - 1)"
  have d: "dist a b i j = (if t then min m (dist a b (i - 2) (j - 2) + 1) else m)"
    unfolding s dist.simps(3) Let_def m_def t_def by (simp add: numeral_2_eq_2)
  define x where "x = (if d (i - 1) j + 1 < d i (j - 1) + 1 then d (i - 1) j + 1 else d i (j - 1) + 1)"
  define v where "v = d (i - 1) (j - 1) + (if a ! (i - 1) = b ! (j - 1) then 0 else 1)"
  have m: "m = (if v < x then v else x)"
    using assms(3-5) unfolding x_def v_def m_def away(4,5) using assms(1,2) by (simp add: min_def)
  have first: "(if v < x then set_cell i j v d else set_cell i j x d) = set_cell i j m d"
    by (simp add: m)
  have body: "levenshtein_cell a b i j d =
      (if t then
         if set_cell i j m d (i - 2) (j - 2) + 1 < m then set_cell i j (set_cell i j m d (i - 2) (j - 2) + 1) d else set_cell i j m d
       else set_cell i j m d)"
    unfolding levenshtein_cell_def Let_def x_def [symmetric] v_def [symmetric] t_def [symmetric] set_cell_simps
    unfolding first set_cell_simps ..
  show ?thesis
  proof (cases t)
    case True
    then have "set_cell i j m d (i - 2) (j - 2) = dist a b (i - 2) (j - 2)"
      using away(1) assms(6) by (simp add: set_cell_apply t_def)
    then show ?thesis
      unfolding body d using True by (simp add: min_def)
  next
    case False
    then show ?thesis
      unfolding body d by simp
  qed
qed

text \<open>The cells of the border and those before a position in the order of the loops.\<close>

definition filled :: "byte list \<Rightarrow> byte list \<Rightarrow> nat \<Rightarrow> nat \<Rightarrow> matrix \<Rightarrow> bool" where
  "filled a b i j d \<longleftrightarrow>
     (\<forall>k\<le>length a. \<forall>l\<le>length b. k = 0 \<or> l = 0 \<or> k < i \<or> k = i \<and> l < j \<longrightarrow> d k l = dist a b k l)"

lemma filled_cell:
  assumes "filled a b i j d" "0 < i" "i \<le> length a" "0 < j" "j \<le> length b"
  shows "filled a b i (Suc j) (levenshtein_cell a b i j d)"
proof -
  have h: "d k l = dist a b k l" if "k \<le> length a" "l \<le> length b" "k = 0 \<or> l = 0 \<or> k < i \<or> k = i \<and> l < j" for k l
    using assms(1) that unfolding filled_def by blast
  have "d (i - 1) j = dist a b (i - 1) j" "d i (j - 1) = dist a b i (j - 1)" "d (i - 1) (j - 1) = dist a b (i - 1) (j - 1)"
    "d (i - 2) (j - 2) = dist a b (i - 2) (j - 2)"
    by (rule h; use assms(2-5) in linarith)+
  then have c: "levenshtein_cell a b i j d = set_cell i j (dist a b i j) d"
    by (intro cell_value assms(2,4))
  show ?thesis
    unfolding filled_def c set_cell_apply
  proof (intro allI impI)
    fix k l
    assume "k \<le> length a" "l \<le> length b" "k = 0 \<or> l = 0 \<or> k < i \<or> k = i \<and> l < Suc j"
    then show "(if k = i \<and> l = j then dist a b i j else d k l) = dist a b k l"
      using h [of k l] by (auto simp: less_Suc_eq)
  qed
qed

lemma filled_row: "filled a b i (length b + 1) x \<Longrightarrow> filled a b (Suc i) 1 x"
proof -
  assume h: "filled a b i (length b + 1) x"
  show ?thesis
    unfolding filled_def
  proof (intro allI impI)
    fix k l
    assume c: "k \<le> length a" "l \<le> length b" "k = 0 \<or> l = 0 \<or> k < Suc i \<or> k = Suc i \<and> l < 1"
    then have "k = 0 \<or> l = 0 \<or> k < i \<or> k = i \<and> l < length b + 1"
      by linarith
    then show "x k l = dist a b k l"
      using h c(1,2) unfolding filled_def by blast
  qed
qed

lemma filled_start:
  assumes "\<forall>k<length a + 1. x k 0 = k" "\<forall>l<length b + 1. x 0 l = l"
  shows "filled a b 1 1 x"
proof -
  have "dist a b k 0 = k" for k
    by (cases k) simp_all
  then show ?thesis
    using assms by (auto simp: filled_def less_Suc_eq_le)
qed

lemma filled_border: "filled a b 1 1 (levenshtein_border (length a) (length b) d)"
proof -
  define e where "e = fold (\<lambda>i d. set_cell i 0 i d) [0..<length a + 1] d"
  define x where "x = fold (\<lambda>j d. set_cell 0 j j d) [0..<length b + 1] e"
  have "\<forall>k<length a + 1. e k 0 = k"
    unfolding e_def by (rule fold_upt_invariant) (auto simp: set_cell_apply less_Suc_eq)
  then have "(\<forall>k<length a + 1. x k 0 = k) \<and> (\<forall>l<length b + 1. x 0 l = l)"
    unfolding x_def
    by (intro fold_upt_invariant [where P = "\<lambda>n x. (\<forall>k<length a + 1. x k 0 = k) \<and> (\<forall>l<n. x 0 l = l)"])
      (auto simp: set_cell_apply less_Suc_eq)
  then show ?thesis
    unfolding levenshtein_border_def e_def [symmetric] x_def [symmetric] by (intro filled_start) simp_all
qed

lemma row_filled:
  assumes "filled a b i 1 d" "1 \<le> i" "i < length a + 1"
  shows "filled a b (Suc i) 1 (fold (\<lambda>j d. levenshtein_cell a b i j d) [1..<length b + 1] d)"
  by (rule filled_row, rule fold_upt_invariant [where P = "filled a b i"]) (use assms filled_cell in auto)

lemma table_distance: "levenshtein_table a b d (length a) (length b) = edit_distance a b"
proof -
  have "filled a b (length a + 1) 1 (levenshtein_table a b d)"
    unfolding levenshtein_table_def
    by (rule fold_upt_invariant [where P = "\<lambda>i. filled a b i 1"]) (simp, rule filled_border, rule row_filled)
  then show ?thesis
    unfolding filled_def edit_distance_def by simp
qed

lemma distance_length: "length a \<le> length b + edit_distance a b \<and> length b \<le> length a + edit_distance a b"
  using align_length [OF distance_align] .

lemma levenshtein_distance:
  assumes "a \<noteq> []" "b \<noteq> []" "length a \<le> 63" "length b \<le> 63"
  shows "bebop_util_levenshtein stack a b max_dist = (if edit_distance a b \<le> max_dist then edit_distance a b else u32_wrap (max_dist + 1))"
  using assms distance_length [of a b] unfolding bebop_util_levenshtein_def Let_def table_distance by auto

text \<open>
  C27: the edit distance is the restricted one (optimal string alignment). For two strings of 1 to 63 bytes and a bound below
  \<^term>\<open>2 ^ 32 - 1\<close> the result is the least cost of an alignment of the two strings with insertions, deletions, substitutions and
  swaps of neighbours in which each position is edited at most once, when that is at most the bound, and one more than the
  bound otherwise; the shortcut for strings of different length and the uninitialised matrix do not change it.
\<close>

theorem levenshtein_least:
  assumes "a \<noteq> []" "b \<noteq> []" "length a \<le> 63" "length b \<le> 63" "max_dist < 2 ^ 32 - 1"
  shows "\<exists>n. align a b n \<and> (\<forall>m. align a b m \<longrightarrow> n \<le> m) \<and>
    bebop_util_levenshtein stack a b max_dist = (if n \<le> max_dist then n else max_dist + 1)"
  using distance_align [of a b] distance_least [of a b] levenshtein_distance [OF assms(1-4), of stack max_dist] assms(5)
  by (intro exI [of _ "edit_distance a b"]) (simp add: u32_wrap_def)

theorem levenshtein_least_witness:
  "bebop_util_levenshtein (\<lambda>_ _. 7) [1, 2, 3] [2, 1, 3] 5 = 1 \<and>
   bebop_util_levenshtein (\<lambda>_ _. 7) [0x43, 0x41] [0x41, 0x42, 0x43] 5 = 3 \<and>
   (\<exists>n. align [1 :: byte, 2, 3] [2, 1, 3] n \<and> (\<forall>m. align [1 :: byte, 2, 3] [2, 1, 3] m \<longrightarrow> n \<le> m) \<and>
     bebop_util_levenshtein (\<lambda>_ _. 7) [1, 2, 3] [2, 1, 3] 5 = (if n \<le> 5 then n else 5 + 1))"
proof (intro conjI)
  show "bebop_util_levenshtein (\<lambda>_ _. 7) [1, 2, 3] [2, 1, 3] 5 = 1"
    "bebop_util_levenshtein (\<lambda>_ _. 7) [0x43, 0x41] [0x41, 0x42, 0x43] 5 = 3"
    by code_simp+
  show "\<exists>n. align [1 :: byte, 2, 3] [2, 1, 3] n \<and> (\<forall>m. align [1 :: byte, 2, 3] [2, 1, 3] m \<longrightarrow> n \<le> m) \<and>
     bebop_util_levenshtein (\<lambda>_ _. 7) [1, 2, 3] [2, 1, 3] 5 = (if n \<le> 5 then n else 5 + 1)"
    by (rule levenshtein_least) simp_all
qed

section \<open>The closest candidate\<close>

text \<open>The distance of a candidate, for the candidates the search can measure.\<close>

definition name_distance :: "byte list \<Rightarrow> cstring option \<Rightarrow> nat option" where
  "name_distance input c =
     (case c of
        None \<Rightarrow> None
      | Some s \<Rightarrow>
          let t = take (strlen s) s
          in if t \<noteq> [] \<and> (length input > 63 \<or> length t > 63) then None else Some (edit_distance input t))"

lemma levenshtein_below:
  fixes stack :: matrix and bd :: nat and input :: "byte list"
  assumes "input \<noteq> []" "length input < 2 ^ 32" "0 < bd" "bd < 2 ^ 32"
  defines "l \<equiv> \<lambda>c. bebop_util_levenshtein stack input (take (strlen c) c) (u32_wrap (bd + 2 ^ 32 - 1))"
  shows "l c < bd \<longleftrightarrow> (\<exists>n. name_distance input (Some c) = Some n \<and> n < bd)"
    and "name_distance input (Some c) = Some n \<Longrightarrow> n < bd \<Longrightarrow> l c = n"
proof -
  define t where "t = take (strlen c) c"
  have "bd + 2 ^ 32 - 1 = (bd - 1) + 2 ^ 32"
    using assms(3) by simp
  then have w: "u32_wrap (bd + 2 ^ 32 - 1) = bd - 1" "u32_wrap (bd - 1 + 1) = bd"
    using assms(3,4) unfolding u32_wrap_def by (simp_all only: mod_add_self2) simp_all
  have l: "l c = (case name_distance input (Some c) of None \<Rightarrow> bd | Some n \<Rightarrow> if t = [] \<or> n < bd then n else bd)"
  proof (cases "t = []")
    case True
    then show ?thesis
      using assms(1,2) unfolding l_def t_def [symmetric] w by (simp add: bebop_util_levenshtein_def name_distance_def t_def [symmetric] u32_wrap_def)
  next
    case False
    show ?thesis
    proof (cases "length input > 63 \<or> length t > 63")
      case True
      then have "l c = bd"
        using assms(1) False unfolding l_def t_def [symmetric] w using w(2) by (auto simp: bebop_util_levenshtein_def Let_def)
      then show ?thesis
        using True False by (simp add: name_distance_def t_def [symmetric])
    next
      case short: False
      then show ?thesis
        using levenshtein_distance [OF assms(1) False, of stack "bd - 1"] assms(3) False w(2)
        unfolding l_def t_def [symmetric] w(1) by (auto simp: name_distance_def t_def [symmetric])
    qed
  qed
  show "l c < bd \<longleftrightarrow> (\<exists>n. name_distance input (Some c) = Some n \<and> n < bd)"
    unfolding l by (auto split: option.split)
  show "l c = n" if "name_distance input (Some c) = Some n" "n < bd"
    unfolding l using that by simp
qed

text \<open>The first of the elements with the least distance, and its distance.\<close>

definition closest :: "('c \<Rightarrow> nat option) \<Rightarrow> 'c list \<Rightarrow> nat \<Rightarrow> nat \<Rightarrow> bool" where
  "closest D cs i n \<longleftrightarrow>
     i < length cs \<and> D (cs ! i) = Some n \<and> (\<forall>j<length cs. \<forall>m. D (cs ! j) = Some m \<longrightarrow> n \<le> m \<and> (j < i \<longrightarrow> n < m))"

lemma ex2I: "P a b \<Longrightarrow> \<exists>x y. P x y"
  by blast

lemma closest_later:
  assumes "closest D cs i n" "\<forall>m. D c = Some m \<longrightarrow> n < m"
  shows "closest D (c # cs) (Suc i) n"
  using assms by (auto simp: closest_def nth_Cons less_Suc_eq_0_disj split: nat.splits dest: less_imp_le)

lemma closest_first:
  assumes "D c = Some n" "\<forall>c\<in>set cs. \<forall>m. D c = Some m \<longrightarrow> n \<le> m"
  shows "closest D (c # cs) 0 n"
  using assms by (auto simp: closest_def nth_Cons split: nat.splits)

lemma fuzzy_loop_skip:
  assumes "input \<noteq> []" "length input < 2 ^ 32" "0 < bd" "bd < 2 ^ 32" "\<forall>n. name_distance input c = Some n \<longrightarrow> bd \<le> n"
  shows "fuzzy_loop stack input ((k, c) # cs) best bd = fuzzy_loop stack input cs best bd"
proof (cases c)
  case (Some s)
  then show ?thesis
    using levenshtein_below(1) [OF assms(1-4), of stack s] assms(5) by (auto simp: Let_def not_less)
qed simp

lemma fuzzy_loop_take:
  assumes "input \<noteq> []" "length input < 2 ^ 32" "0 < bd" "bd < 2 ^ 32" "name_distance input c = Some n" "n < bd"
  shows "fuzzy_loop stack input ((k, c) # cs) best bd = (if n = 0 then Some k else fuzzy_loop stack input cs (Some k) n)"
proof -
  obtain s where "c = Some s"
    using assms(5) by (cases c) (simp_all add: name_distance_def)
  then show ?thesis
    using levenshtein_below(2) [OF assms(1-4), of s n stack] assms(5,6) by simp
qed

lemma fuzzy_loop_best:
  assumes "input \<noteq> []" "length input < 2 ^ 32" "0 < bd" "bd < 2 ^ 32"
  shows "(fuzzy_loop stack input (enumerate k cs) best bd = best \<and> (\<forall>c\<in>set cs. \<forall>n. name_distance input c = Some n \<longrightarrow> bd \<le> n)) \<or>
    (\<exists>i n. fuzzy_loop stack input (enumerate k cs) best bd = Some (k + i) \<and> closest (name_distance input) cs i n \<and> n < bd)"
  using assms(3,4)
proof (induction cs arbitrary: k best bd)
  case (Cons c cs)
  show ?case
  proof (cases "\<exists>n. name_distance input c = Some n \<and> n < bd")
    case False
    then have big: "\<forall>n. name_distance input c = Some n \<longrightarrow> bd \<le> n"
      by (auto simp: not_less)
    note skip = fuzzy_loop_skip [OF assms(1,2) Cons.prems big, of stack k "enumerate (Suc k) cs" best]
    from Cons.IH [OF Cons.prems, of "Suc k" best] show ?thesis
    proof (elim disjE exE conjE)
      fix i n
      assume "fuzzy_loop stack input (enumerate (Suc k) cs) best bd = Some (Suc k + i)" "closest (name_distance input) cs i n" "n < bd"
      moreover from this(3) big have "\<forall>m. name_distance input c = Some m \<longrightarrow> n < m"
        by (meson less_le_trans)
      ultimately show ?thesis
        using skip closest_later [of "name_distance input" cs i n c] by (intro disjI2 ex2I [of _ "Suc i" n]) auto
    qed (use big skip in auto)
  next
    case True
    then obtain n where n: "name_distance input c = Some n" "n < bd"
      by blast
    note step = fuzzy_loop_take [OF assms(1,2) Cons.prems n, of stack k "enumerate (Suc k) cs" best]
    show ?thesis
    proof (cases "n = 0")
      case True
      then show ?thesis
        using step n closest_first [of "name_distance input" c n cs] by (intro disjI2 ex2I [of _ 0 n]) auto
    next
      case False
      then have "0 < n" "n < 2 ^ 32"
        using n(2) Cons.prems by simp_all
      from Cons.IH [OF this, of "Suc k" "Some k"] show ?thesis
      proof (elim disjE exE conjE)
        assume "fuzzy_loop stack input (enumerate (Suc k) cs) (Some k) n = Some k"
          "\<forall>c\<in>set cs. \<forall>m. name_distance input c = Some m \<longrightarrow> n \<le> m"
        then show ?thesis
          using step n False closest_first [of "name_distance input" c n cs] by (intro disjI2 ex2I [of _ 0 n]) auto
      next
        fix i m
        assume "fuzzy_loop stack input (enumerate (Suc k) cs) (Some k) n = Some (Suc k + i)" "closest (name_distance input) cs i m" "m < n"
        then show ?thesis
          using step n False closest_later [of "name_distance input" cs i m c] by (intro disjI2 ex2I [of _ "Suc i" m]) auto
      qed
    qed
  qed
qed simp

text \<open>
  Suggestions. The search returns the first candidate with the least edit distance to the input among those within
  the bound, and nothing exactly when no candidate is within the bound; candidates that are null or, beside an
  empty one, too long to measure are not considered.
\<close>

theorem fuzzy_match_closest:
  assumes "input \<noteq> []" "length input < 2 ^ 32" "max_distance < 2 ^ 32 - 1"
  shows "case bebop_util_fuzzy_match stack (Some input) (Some cs) max_distance of
      None \<Rightarrow> \<forall>c\<in>set cs. \<forall>n. name_distance input c = Some n \<longrightarrow> max_distance < n
    | Some i \<Rightarrow> \<exists>n. closest (name_distance input) cs i n \<and> n \<le> max_distance"
proof -
  have w: "u32_wrap (max_distance + 1) = max_distance + 1" "max_distance + 1 < 2 ^ 32"
    using assms(3) by (simp_all add: u32_wrap_def)
  show ?thesis
  proof (cases "cs = []")
    case False
    then have "bebop_util_fuzzy_match stack (Some input) (Some cs) max_distance = fuzzy_loop stack input (enumerate 0 cs) None (max_distance + 1)"
      using assms(1) w(1) by (simp add: bebop_util_fuzzy_match_def)
    then show ?thesis
      using fuzzy_loop_best [OF assms(1,2) _ w(2), of stack 0 cs None] by (auto simp: Suc_le_eq less_Suc_eq_le)
  qed (simp add: bebop_util_fuzzy_match_def)
qed

theorem fuzzy_match_closest_witness:
  "\<exists>i n. bebop_util_fuzzy_match (\<lambda>_ _. 0) (Some [1, 2]) (Some [Some [3], None, Some [2, 1], Some [1, 3]]) 1 = Some i \<and>
     closest (name_distance [1, 2]) [Some [3], None, Some [2, 1], Some [1, 3]] i n \<and> n \<le> 1"
proof -
  have "name_distance [1, 2] (Some [2, 1]) = Some 1"
    by code_simp
  then show ?thesis
    using fuzzy_match_closest [where input = "[1, 2]" and max_distance = 1 and stack = "\<lambda>_ _. 0" and cs = "[Some [3], None, Some [2, 1], Some [1, 3]]"]
    by (auto split: option.splits)
qed

end
