(* ===== verification/Schema_Arena.thy ===== *)
theory Schema_Arena
  imports Bebop_Prelude "HOL-Library.Multiset"
begin

text \<open>
  The arena of the schema compiler, from \<^verbatim>\<open>bebop/src/bebop_arena.c\<close> and the inline helpers of \<^verbatim>\<open>bebop/src/bebop.c\<close>. Unlike
  the runtime's arena it aligns addresses, clears what it hands out and extends the last allocation in place.
  Memory is a function from addresses to bytes, and a pointer is an address; the null pointer is \<^term>\<open>None\<close>. The host's
  allocator is a parameter: from the number of the call, the live regions and the size it gives an address or
  nothing. The chunks are listed from the head; the current chunk is the last.
\<close>

section \<open>Host allocator and memory\<close>

type_synonym memory = "nat \<Rightarrow> byte"
type_synonym region = "nat \<times> nat"

record bebop_host_allocator =
  host_fn :: "nat \<Rightarrow> region list \<Rightarrow> nat \<Rightarrow> nat option"
  host_calls :: nat
  host_live :: "region list"

record bebop__chunk =
  ch_addr :: nat
  ch_capacity :: nat
  ch_used :: nat

record bebop_arena =
  chunks :: "bebop__chunk list"
  host :: bebop_host_allocator
  mem :: memory

definition write_mem :: "nat \<Rightarrow> byte list \<Rightarrow> memory \<Rightarrow> memory" where
  "write_mem a bs m = (\<lambda>x. if a \<le> x \<and> x < a + length bs then bs ! (x - a) else m x)"

definition read_mem :: "nat \<Rightarrow> nat \<Rightarrow> memory \<Rightarrow> byte list" where
  "read_mem a n m = map m [a..<a + n]"

definition SIZEOF_CHUNK :: nat where
  "SIZEOF_CHUNK = 24"

definition BEBOP_MAX_ALIGN :: nat where
  "BEBOP_MAX_ALIGN = 16"

definition BEBOP_ARENA_CHUNK_SIZE :: nat where
  "BEBOP_ARENA_CHUNK_SIZE = 64 * 1024"

definition bebop__chunk_data :: "bebop__chunk \<Rightarrow> nat" where
  "bebop__chunk_data c = ch_addr c + SIZEOF_CHUNK"

definition bebop__alloc :: "bebop_host_allocator \<Rightarrow> nat \<Rightarrow> nat option \<times> bebop_host_allocator" where
  "bebop__alloc a sz =
     (let n = host_calls a; a' = a\<lparr>host_calls := Suc n\<rparr>
      in case host_fn a n (host_live a) sz of
           None \<Rightarrow> (None, a')
         | Some p \<Rightarrow> (Some p, a'\<lparr>host_live := (p, sz) # host_live a\<rparr>))"

definition bebop__free :: "bebop_host_allocator \<Rightarrow> nat \<Rightarrow> nat \<Rightarrow> bebop_host_allocator" where
  "bebop__free a ptr sz = a\<lparr>host_calls := Suc (host_calls a), host_live := remove1 (ptr, sz) (host_live a)\<rparr>"

definition bebop__align_up :: "nat \<Rightarrow> nat \<Rightarrow> nat" where
  "bebop__align_up val align = unat ((of_nat val + of_nat align - 1 :: u64) AND NOT (of_nat align - 1))"

definition bebop__align_ptr :: "nat \<Rightarrow> nat \<Rightarrow> nat" where
  "bebop__align_ptr ptr align = unat ((of_nat ptr + of_nat align - 1 :: u64) AND NOT (of_nat align - 1))"

section \<open>Chunks\<close>

definition chunk_header_size :: nat where
  "chunk_header_size = bebop__align_up SIZEOF_CHUNK BEBOP_MAX_ALIGN"

definition bebop__chunk_alloc :: "bebop_host_allocator \<Rightarrow> nat \<Rightarrow> bool \<Rightarrow> bebop__chunk option \<times> bebop_host_allocator" where
  "bebop__chunk_alloc al min_data_size use_default =
     (let header_size = chunk_header_size;
          default_data = BEBOP_ARENA_CHUNK_SIZE - header_size;
          data_size = (if use_default \<and> min_data_size < default_data then default_data else min_data_size)
      in if data_size > SIZE_MAX - header_size then (None, al)
         else
           (case bebop__alloc al (header_size + data_size) of
              (None, al') \<Rightarrow> (None, al')
            | (Some m, al') \<Rightarrow> (Some \<lparr>ch_addr = m, ch_capacity = data_size, ch_used = 0\<rparr>, al')))"

definition bebop__chunk_free :: "bebop_host_allocator \<Rightarrow> bebop__chunk \<Rightarrow> bebop_host_allocator" where
  "bebop__chunk_free al c = bebop__free al (ch_addr c) (chunk_header_size + ch_capacity c)"

definition bebop_arena_init :: "bebop_host_allocator \<Rightarrow> memory \<Rightarrow> nat \<Rightarrow> bool \<times> bebop_arena" where
  "bebop_arena_init al m initial =
     (let init_size = (if initial > 0 then initial else BEBOP_ARENA_CHUNK_SIZE)
      in case bebop__chunk_alloc al init_size (initial = 0) of
           (None, al') \<Rightarrow> (False, \<lparr>chunks = [], host = al', mem = m\<rparr>)
         | (Some c, al') \<Rightarrow> (True, \<lparr>chunks = [c], host = al', mem = m\<rparr>))"

fun free_chunks :: "bebop_host_allocator \<Rightarrow> bebop__chunk list \<Rightarrow> bebop_host_allocator" where
  "free_chunks al [] = al"
| "free_chunks al (c # cs) = free_chunks (bebop__chunk_free al c) cs"

definition bebop_arena_destroy :: "bebop_arena \<Rightarrow> bebop_arena" where
  "bebop_arena_destroy a = a\<lparr>host := free_chunks (host a) (chunks a), chunks := []\<rparr>"

definition bebop_arena_reset :: "bebop_arena \<Rightarrow> bebop_arena" where
  "bebop_arena_reset a =
     (case chunks a of
        [] \<Rightarrow> a
      | c # cs \<Rightarrow> a\<lparr>host := free_chunks (host a) cs, chunks := [c\<lparr>ch_used := 0\<rparr>]\<rparr>)"

section \<open>Allocation\<close>

text \<open>The current chunk, replaced by a new chunk after it when the request does not fit; then the bump.\<close>

definition arena_bump :: "bebop_arena \<Rightarrow> nat \<Rightarrow> nat \<Rightarrow> nat \<Rightarrow> nat option \<times> bebop_arena" where
  "arena_bump a ptr offset sz =
     (let c = last (chunks a)
      in (Some ptr, a\<lparr>chunks := butlast (chunks a) @ [c\<lparr>ch_used := size_wrap (offset + sz)\<rparr>],
                      mem := write_mem ptr (replicate sz 0) (mem a)\<rparr>))"

definition bebop_arena_alloc :: "bebop_arena \<Rightarrow> nat \<Rightarrow> nat \<Rightarrow> nat option \<times> bebop_arena" where
  "bebop_arena_alloc a sz align =
     (if sz = 0 then (None, a)
      else
        let align = (if align < BEBOP_MAX_ALIGN then BEBOP_MAX_ALIGN else align)
        in if sz > SIZE_MAX - align then (None, a)
           else
             let c = last (chunks a);
                 data = bebop__chunk_data c;
                 ptr = bebop__align_ptr (data + ch_used c) align;
                 offset = size_wrap (ptr + 2 ^ 64 - data)
             in if offset > ch_capacity c \<or> sz > ch_capacity c - offset
                then
                  (case bebop__chunk_alloc (host a) (sz + align) True of
                     (None, al) \<Rightarrow> (None, a\<lparr>host := al\<rparr>)
                   | (Some nc, al) \<Rightarrow>
                       let data = bebop__chunk_data nc;
                           ptr = bebop__align_ptr data align;
                           offset = size_wrap (ptr + 2 ^ 64 - data)
                       in arena_bump (a\<lparr>chunks := chunks a @ [nc], host := al\<rparr>) ptr offset sz)
                else arena_bump a ptr offset sz)"

definition bebop_arena_malloc :: "bebop_arena \<Rightarrow> nat \<Rightarrow> nat option \<times> bebop_arena" where
  "bebop_arena_malloc a sz = bebop_arena_alloc a sz BEBOP_MAX_ALIGN"

definition bebop_arena_dup :: "bebop_arena \<Rightarrow> byte list option \<Rightarrow> nat option \<times> bebop_arena" where
  "bebop_arena_dup a src =
     (case src of
        None \<Rightarrow> (None, a)
      | Some bs \<Rightarrow>
          if bs = [] then (None, a)
          else
            (case bebop_arena_alloc a (length bs) BEBOP_MAX_ALIGN of
               (None, a') \<Rightarrow> (None, a')
             | (Some dst, a') \<Rightarrow> (Some dst, a'\<lparr>mem := write_mem dst bs (mem a')\<rparr>)))"

definition bebop_arena_strndup :: "bebop_arena \<Rightarrow> byte list option \<Rightarrow> nat option \<times> bebop_arena" where
  "bebop_arena_strndup a str =
     (case str of
        None \<Rightarrow> (None, a)
      | Some s \<Rightarrow>
          if length s = SIZE_MAX then (None, a)
          else
            (case bebop_arena_alloc a (length s + 1) 1 of
               (None, a') \<Rightarrow> (None, a')
             | (Some dst, a') \<Rightarrow> (Some dst, a'\<lparr>mem := write_mem dst (s @ [0]) (mem a')\<rparr>)))"

definition bebop_arena_strdup :: "bebop_arena \<Rightarrow> byte list option \<Rightarrow> nat option \<times> bebop_arena" where
  "bebop_arena_strdup a str =
     (case str of
        None \<Rightarrow> (None, a)
      | Some s \<Rightarrow> bebop_arena_strndup a (Some (takeWhile (\<lambda>c. c \<noteq> 0) s)))"

text \<open>Whether a pointer is the last allocation of the current chunk and can be resized where it is.\<close>

definition realloc_in_place :: "bebop_arena \<Rightarrow> nat option \<Rightarrow> nat \<Rightarrow> nat \<Rightarrow> bool" where
  "realloc_in_place a ptr old_size new_size \<longleftrightarrow>
     (case ptr of
        None \<Rightarrow> False
      | Some p \<Rightarrow>
          chunks a \<noteq> [] \<and> old_size > 0 \<and>
          (let c = last (chunks a); base = bebop__chunk_data c
           in p \<ge> base \<and> p - base \<le> ch_capacity c \<and> old_size \<le> ch_used c \<and> p - base = ch_used c - old_size \<and>
              new_size \<le> ch_capacity c - (p - base)))"

definition bebop_arena_realloc :: "bebop_arena \<Rightarrow> nat option \<Rightarrow> nat \<Rightarrow> nat \<Rightarrow> nat option \<times> bebop_arena" where
  "bebop_arena_realloc a ptr old_size new_size =
     (if new_size = 0 then (None, a)
      else if realloc_in_place a ptr old_size new_size then
        let p = the ptr; c = last (chunks a); offset = p - bebop__chunk_data c
        in (Some p, a\<lparr>chunks := butlast (chunks a) @ [c\<lparr>ch_used := offset + new_size\<rparr>],
                      mem := (if new_size > old_size
                              then write_mem (p + old_size) (replicate (new_size - old_size) 0) (mem a) else mem a)\<rparr>)
      else
        (case bebop_arena_malloc a new_size of
           (None, a') \<Rightarrow> (None, a')
         | (Some q, a') \<Rightarrow>
             (Some q,
              case ptr of
                None \<Rightarrow> a'
              | Some p \<Rightarrow>
                  if old_size > 0
                  then a'\<lparr>mem := write_mem q (read_mem p (if old_size < new_size then old_size else new_size) (mem a')) (mem a')\<rparr>
                  else a')))"

definition bebop_arena_free :: "bebop_arena \<Rightarrow> nat option \<Rightarrow> bebop_arena" where
  "bebop_arena_free a ptr = a"

section \<open>Arrays\<close>

definition bebop__arena_alloc_n :: "bebop_arena \<Rightarrow> nat \<Rightarrow> nat \<Rightarrow> nat \<Rightarrow> nat option \<times> bebop_arena" where
  "bebop__arena_alloc_n a elem_size n align =
     (if n \<noteq> 0 \<and> elem_size > SIZE_MAX div n then (None, a) else bebop_arena_alloc a (elem_size * n) align)"

text \<open>Growing and pushing: the slot of the new element, and the array, count and capacity after it.\<close>

definition bebop__array_push ::
  "bebop_arena \<Rightarrow> nat option \<Rightarrow> nat \<Rightarrow> nat \<Rightarrow> nat \<Rightarrow> (nat option \<times> nat option \<times> nat \<times> nat) \<times> bebop_arena" where
  "bebop__array_push a arr cnt cap elem_size =
     (if cnt \<ge> cap
      then if cap > UINT32_MAX div 2 then ((None, arr, cnt, cap), a)
           else
             let new_cap = (if cap = 0 then 16 else cap * 2)
             in if new_cap > SIZE_MAX div elem_size then ((None, arr, cnt, cap), a)
                else
                  (case bebop_arena_realloc a arr (cap * elem_size) (new_cap * elem_size) of
                     (None, a') \<Rightarrow> ((None, arr, cnt, cap), a')
                   | (Some p, a') \<Rightarrow> ((Some (p + cnt * elem_size), Some p, cnt + 1, new_cap), a'))
      else ((map_option (\<lambda>p. p + cnt * elem_size) arr, arr, cnt + 1, cap), a))"

section \<open>What the arena promises\<close>

text \<open>
  What the host's allocator promises: memory that is aligned for every type, lies in the lower half of the address
  space and does not overlap a live region.
\<close>

definition apart :: "region \<Rightarrow> region \<Rightarrow> bool" where
  "apart = (\<lambda>(a, n) (b, m). a + n \<le> b \<or> b + m \<le> a)"

definition host_ok :: "bebop_host_allocator \<Rightarrow> bool" where
  "host_ok al \<longleftrightarrow> (\<forall>n L sz p. host_fn al n L sz = Some p \<longrightarrow> 16 dvd p \<and> 0 < p \<and> p + sz \<le> 2 ^ 63 \<and> (\<forall>r\<in>set L. apart (p, sz) r))"

definition chunk_region :: "bebop__chunk \<Rightarrow> region" where
  "chunk_region c = (ch_addr c, 32 + ch_capacity c)"

definition chunk_ok :: "bebop__chunk \<Rightarrow> bool" where
  "chunk_ok c \<longleftrightarrow> 16 dvd ch_addr c \<and> 0 < ch_addr c \<and> ch_addr c + 32 + ch_capacity c \<le> 2 ^ 63 \<and> ch_used c \<le> ch_capacity c"

definition arena_ok :: "bebop_arena \<Rightarrow> bool" where
  "arena_ok a \<longleftrightarrow> host_ok (host a) \<and> chunks a \<noteq> [] \<and> (\<forall>c\<in>set (chunks a). chunk_ok c \<and> chunk_region c \<in> set (host_live (host a))) \<and>
     sorted_wrt apart (map chunk_region (chunks a))"

text \<open>The addresses that have been handed out.\<close>

definition in_chunk :: "bebop__chunk \<Rightarrow> nat \<Rightarrow> bool" where
  "in_chunk c x \<longleftrightarrow> bebop__chunk_data c \<le> x \<and> x < bebop__chunk_data c + ch_used c"

definition allocated :: "bebop_arena \<Rightarrow> nat \<Rightarrow> bool" where
  "allocated a x \<longleftrightarrow> (\<exists>c\<in>set (chunks a). in_chunk c x)"

lemma align_ptr_eq:
  assumes "x + 2 ^ k \<le> 2 ^ 64" "k < 64"
  shows "bebop__align_ptr x (2 ^ k) = 2 ^ k * ((x + 2 ^ k - 1) div 2 ^ k)"
proof -
  have "of_nat (2 ^ k) - 1 = (mask k :: u64)"
    by (simp add: mask_eq_decr_exp)
  moreover have "of_nat x + of_nat (2 ^ k) - 1 = (of_nat (x + 2 ^ k - 1) :: u64)"
    by (simp add: of_nat_diff trans_le_add2)
  moreover have "unat (of_nat (x + 2 ^ k - 1) :: u64) = x + 2 ^ k - 1"
  proof -
    have "(0 :: nat) < 2 ^ k"
      by simp
    then have "x + 2 ^ k - 1 < 2 ^ 64"
      using assms(1) by linarith
    then show ?thesis
      by (simp only: unat_of_nat) simp
  qed
  ultimately show ?thesis
    unfolding bebop__align_ptr_def by (simp only: unat_and_not_mask)
qed

lemma align_ptr_bounds:
  assumes "x + 2 ^ k \<le> 2 ^ 64" "k < 64"
  shows "2 ^ k dvd bebop__align_ptr x (2 ^ k)" "x \<le> bebop__align_ptr x (2 ^ k)" "bebop__align_ptr x (2 ^ k) < x + 2 ^ k"
proof -
  define m :: nat where "m = 2 ^ k"
  have m: "0 < m"
    by (simp add: m_def)
  have e: "bebop__align_ptr x (2 ^ k) = m * ((x + m - 1) div m)"
    using align_ptr_eq [OF assms] by (simp add: m_def)
  then show "2 ^ k dvd bebop__align_ptr x (2 ^ k)"
    by (simp add: m_def)
  have "m * ((x + m - 1) div m) + (x + m - 1) mod m = x + m - 1" "(x + m - 1) mod m < m"
    using m by simp_all
  then show "x \<le> bebop__align_ptr x (2 ^ k)" "bebop__align_ptr x (2 ^ k) < x + 2 ^ k"
    unfolding e [folded m_def] m_def [symmetric] by linarith+
qed

lemma header_size [simp]: "chunk_header_size = 32"
  by (simp add: chunk_header_size_def bebop__align_up_def SIZEOF_CHUNK_def BEBOP_MAX_ALIGN_def)

lemma chunk_alloc_ok:
  assumes "bebop__chunk_alloc al n d = (Some c, al')" "host_ok al"
  shows "chunk_ok c \<and> ch_used c = 0 \<and> n \<le> ch_capacity c \<and> host_ok al' \<and> host_live al' = chunk_region c # host_live al \<and>
    (\<forall>r\<in>set (host_live al). apart (chunk_region c) r)"
proof -
  obtain p D where c: "c = \<lparr>ch_addr = p, ch_capacity = D, ch_used = 0\<rparr>" "n \<le> D"
      "host_fn al (host_calls al) (host_live al) (32 + D) = Some p"
      "al' = al\<lparr>host_calls := Suc (host_calls al), host_live := (p, 32 + D) # host_live al\<rparr>"
    using assms(1)
    by (simp only: bebop__chunk_alloc_def bebop__alloc_def Let_def header_size split: if_splits option.splits prod.splits) auto
  then have "16 dvd p \<and> 0 < p \<and> p + (32 + D) \<le> 2 ^ 63 \<and> (\<forall>r\<in>set (host_live al). apart (p, 32 + D) r)"
    using assms(2) unfolding host_ok_def by blast
  then show ?thesis
    using assms(2) by (simp add: c chunk_ok_def chunk_region_def host_ok_def)
qed

lemma chunk_alloc_none:
  assumes "bebop__chunk_alloc al n d = (None, al')" "host_ok al"
  shows "host_ok al' \<and> host_live al' = host_live al"
  using assms by (auto simp: bebop__chunk_alloc_def bebop__alloc_def Let_def host_ok_def split: if_splits option.splits)

lemma apart_sym: "apart r s \<longleftrightarrow> apart s r"
  by (cases r; cases s) (auto simp: apart_def)

lemma in_chunk_apart: "apart (chunk_region c) (chunk_region d) \<Longrightarrow> chunk_ok c \<Longrightarrow> chunk_ok d \<Longrightarrow> \<not> (in_chunk c x \<and> in_chunk d x)"
  by (auto simp: apart_def chunk_region_def chunk_ok_def in_chunk_def bebop__chunk_data_def SIZEOF_CHUNK_def)

lemma arena_parts:
  assumes "arena_ok a"
  shows "chunks a = butlast (chunks a) @ [last (chunks a)]" "chunk_ok (last (chunks a))"
    "c \<in> set (butlast (chunks a)) \<Longrightarrow> apart (chunk_region c) (chunk_region (last (chunks a)))"
proof -
  show parts: "chunks a = butlast (chunks a) @ [last (chunks a)]"
    using assms by (simp add: arena_ok_def)
  show "chunk_ok (last (chunks a))"
    using assms by (simp add: arena_ok_def)
  have "sorted_wrt apart (map chunk_region (butlast (chunks a) @ [last (chunks a)]))"
    using assms parts by (simp add: arena_ok_def)
  then show "c \<in> set (butlast (chunks a)) \<Longrightarrow> apart (chunk_region c) (chunk_region (last (chunks a)))"
    by (auto simp: sorted_wrt_append)
qed

text \<open>Setting the used part of the last chunk keeps the invariant, as long as it stays in the chunk.\<close>

definition set_used :: "bebop_arena \<Rightarrow> nat \<Rightarrow> bebop_arena" where
  "set_used a u = a\<lparr>chunks := butlast (chunks a) @ [(last (chunks a))\<lparr>ch_used := u\<rparr>]\<rparr>"

lemma set_used_ok:
  assumes "arena_ok a" "u \<le> ch_capacity (last (chunks a))"
  shows "arena_ok (set_used a u)"
proof -
  note parts = arena_parts [OF assms(1)]
  have region: "chunk_region (c\<lparr>ch_used := u\<rparr>) = chunk_region c" for c
    by (simp add: chunk_region_def)
  have "map chunk_region (chunks (set_used a u)) = map chunk_region (butlast (chunks a) @ [last (chunks a)])"
    by (simp add: set_used_def region)
  then have "map chunk_region (chunks (set_used a u)) = map chunk_region (chunks a)"
    using parts(1) by simp
  moreover have "\<forall>c\<in>set (chunks (set_used a u)). chunk_ok c \<and> chunk_region c \<in> set (host_live (host a))"
    using assms by (auto simp: set_used_def arena_ok_def region dest: in_set_butlastD) (auto simp: chunk_ok_def)
  ultimately show ?thesis
    using assms(1) by (simp add: arena_ok_def set_used_def)
qed

lemma allocated_set_used:
  assumes "arena_ok a"
  shows "allocated (set_used a u) x \<longleftrightarrow>
    (\<exists>c\<in>set (butlast (chunks a)). in_chunk c x) \<or>
    bebop__chunk_data (last (chunks a)) \<le> x \<and> x < bebop__chunk_data (last (chunks a)) + u"
  by (auto simp: allocated_def set_used_def in_chunk_def bebop__chunk_data_def)

lemma allocated_last:
  assumes "arena_ok a"
  shows "allocated a x \<longleftrightarrow> (\<exists>c\<in>set (butlast (chunks a)). in_chunk c x) \<or> in_chunk (last (chunks a)) x"
  using arena_parts(1) [OF assms] unfolding allocated_def by (metis Un_iff append_Nil2 in_set_conv_decomp list.set_intros(1) set_ConsD set_append empty_iff empty_set)

text \<open>What a successful allocation of \<open>sz\<close> bytes at \<open>p\<close> means.\<close>

definition fresh_block :: "bebop_arena \<Rightarrow> bebop_arena \<Rightarrow> nat \<Rightarrow> nat \<Rightarrow> bool" where
  "fresh_block a a' p sz \<longleftrightarrow>
     (\<forall>x. p \<le> x \<and> x < p + sz \<longrightarrow> \<not> allocated a x \<and> allocated a' x \<and> mem a' x = 0) \<and>
     (\<forall>x. allocated a x \<longrightarrow> allocated a' x \<and> mem a' x = mem a x) \<and>
     (\<exists>(b, n)\<in>set (host_live (host a')). b \<le> p \<and> p + sz \<le> b + n)"

lemma write_mem_zero: "write_mem p (replicate n 0) m x = (if p \<le> x \<and> x < p + n then 0 else m x)"
  by (auto simp: write_mem_def)

lemma bump_fresh:
  assumes "arena_ok a" and p: "p = bebop__align_ptr (bebop__chunk_data (last (chunks a)) + ch_used (last (chunks a))) (2 ^ k)" and "k \<le> 62"
    and fit: "p - bebop__chunk_data (last (chunks a)) + sz \<le> ch_capacity (last (chunks a))"
  defines "a' \<equiv> snd (arena_bump a p (p - bebop__chunk_data (last (chunks a))) sz)"
  shows "arena_ok a' \<and> fresh_block a a' p sz \<and> 2 ^ k dvd p"
proof -
  define c where "c = last (chunks a)"
  define d where "d = bebop__chunk_data c"
  have c: "chunk_ok c"
    unfolding c_def by (rule arena_parts(2) [OF assms(1)])
  have "(2 :: nat) ^ k \<le> 2 ^ 62"
    by (rule power_increasing [OF assms(3)]) simp
  moreover have "d + ch_used c \<le> 2 ^ 63"
    using c by (simp add: chunk_ok_def d_def bebop__chunk_data_def SIZEOF_CHUNK_def)
  ultimately have small: "d + ch_used c + 2 ^ k \<le> 2 ^ 64"
    by simp
  have b: "2 ^ k dvd p" "d + ch_used c \<le> p"
    using align_ptr_bounds [OF small] assms(3) by (simp_all add: p d_def c_def)
  have wrap: "size_wrap (p - d + sz) = p - d + sz"
    using fit c by (intro size_wrap_id) (simp add: chunk_ok_def c_def [symmetric] d_def [symmetric])
  have a': "a' = set_used (a\<lparr>mem := write_mem p (replicate sz 0) (mem a)\<rparr>) (p - d + sz)"
    by (simp add: a'_def arena_bump_def set_used_def Let_def wrap c_def [symmetric] d_def [symmetric])
  have mem_ok: "arena_ok (a\<lparr>mem := m\<rparr>)" for m
    using assms(1) by (simp add: arena_ok_def)
  have ok: "arena_ok a'"
    unfolding a' using fit by (intro set_used_ok mem_ok) (simp add: c_def [symmetric] d_def [symmetric])
  have alloc: "allocated a' x \<longleftrightarrow> (\<exists>e\<in>set (butlast (chunks a)). in_chunk e x) \<or> d \<le> x \<and> x < d + (p - d + sz)" for x
    unfolding a' allocated_set_used [OF mem_ok] by (simp add: d_def c_def)
  have old: "allocated a x \<longleftrightarrow> (\<exists>e\<in>set (butlast (chunks a)). in_chunk e x) \<or> in_chunk c x" for x
    unfolding c_def by (rule allocated_last [OF assms(1)])
  have inside: "d \<le> x" "x < d + (p - d + sz)" "x < d + ch_capacity c" if "p \<le> x" "x < p + sz" for x
    using that b(2) fit by (simp_all add: c_def d_def)
  have new: "\<not> allocated a x" if x: "p \<le> x" "x < p + sz" for x
  proof -
    have "\<not> in_chunk e x" if e: "e \<in> set (butlast (chunks a))" for e
      using arena_parts(3) [OF assms(1) e] inside [OF x] c assms(1) in_set_butlastD [OF e]
      by (auto simp: arena_ok_def apart_def chunk_region_def chunk_ok_def in_chunk_def bebop__chunk_data_def SIZEOF_CHUNK_def
          c_def [symmetric] d_def)
    then show ?thesis
      using x(1) b(2) unfolding old by (auto simp: in_chunk_def d_def)
  qed
  have memory: "mem a' x = (if p \<le> x \<and> x < p + sz then 0 else mem a x)" for x
    unfolding a' by (simp add: set_used_def write_mem_zero)
  have "in_chunk c x \<Longrightarrow> d \<le> x \<and> x < d + (p - d + sz)" for x
    using b(2) by (auto simp: in_chunk_def d_def)
  then have keep: "allocated a' x" if "allocated a x" for x
    using that unfolding alloc old by blast
  have "chunk_region c \<in> set (host_live (host a'))"
    using assms(1) by (simp add: arena_ok_def a' set_used_def c_def)
  moreover have "ch_addr c \<le> p" "p + sz \<le> ch_addr c + (32 + ch_capacity c)"
    using b(2) fit by (simp_all add: c_def [symmetric] d_def bebop__chunk_data_def SIZEOF_CHUNK_def)
  ultimately have "\<exists>(b, n)\<in>set (host_live (host a')). b \<le> p \<and> p + sz \<le> b + n"
    unfolding chunk_region_def by blast
  then have "fresh_block a a' p sz"
    unfolding fresh_block_def using new keep inside alloc memory by auto
  with ok b(1) show ?thesis
    by blast
qed

lemma offset_exact:
  assumes "d \<le> p" "p < d + u + m" "u \<le> 2 ^ 63" "m \<le> 2 ^ 62"
  shows "size_wrap (p + 2 ^ 64 - d) = p - d"
proof -
  have e: "p + 2 ^ 64 - d = (p - d) + 2 ^ 64"
    by (rule Nat.add_diff_assoc2 [OF assms(1), symmetric])
  have "p - d \<le> 2 ^ 63 + 2 ^ 62"
    using assms(2-4) by linarith
  then have "p - d < 2 ^ 64"
    by (rule le_less_trans) simp
  then show ?thesis
    unfolding size_wrap_def e by (simp only: mod_add_self2 mod_less)
qed

text \<open>The aligned position in the current chunk and its offset.\<close>

lemma position_exact:
  assumes "arena_ok a" "k \<le> 62"
  defines "d \<equiv> bebop__chunk_data (last (chunks a))"
  defines "p \<equiv> bebop__align_ptr (d + ch_used (last (chunks a))) (2 ^ k)"
  shows "size_wrap (p + 2 ^ 64 - d) = p - d" "d + ch_used (last (chunks a)) \<le> p" "p < d + ch_used (last (chunks a)) + 2 ^ k"
proof -
  define c where "c = last (chunks a)"
  have c: "chunk_ok c"
    unfolding c_def by (rule arena_parts(2) [OF assms(1)])
  have k: "(2 :: nat) ^ k \<le> 2 ^ 62"
    by (rule power_increasing [OF assms(2)]) simp
  have u: "d + ch_used c \<le> 2 ^ 63" "ch_used c \<le> 2 ^ 63"
    using c by (simp_all add: chunk_ok_def d_def c_def [symmetric] bebop__chunk_data_def SIZEOF_CHUNK_def)
  have small: "d + ch_used c + 2 ^ k \<le> 2 ^ 64"
    using k u(1) by simp
  show b: "d + ch_used (last (chunks a)) \<le> p" "p < d + ch_used (last (chunks a)) + 2 ^ k"
    using align_ptr_bounds [OF small] assms(2) by (simp_all add: p_def c_def)
  show "size_wrap (p + 2 ^ 64 - d) = p - d"
    using b u(2) k by (intro offset_exact [of d p "ch_used c" "2 ^ k"]) (simp_all add: c_def)
qed

text \<open>A new chunk after the current one, still empty.\<close>

lemma push_chunk_ok:
  assumes "arena_ok a" "bebop__chunk_alloc (host a) n d = (Some c, al)"
  shows "arena_ok (a\<lparr>chunks := chunks a @ [c], host := al\<rparr>)" "allocated (a\<lparr>chunks := chunks a @ [c], host := al\<rparr>) x = allocated a x"
    "ch_used c = 0" "n \<le> ch_capacity c"
proof -
  have c: "chunk_ok c" "ch_used c = 0" "n \<le> ch_capacity c" "host_ok al" "host_live al = chunk_region c # host_live (host a)"
    "\<forall>r\<in>set (host_live (host a)). apart (chunk_region c) r"
    using chunk_alloc_ok [OF assms(2)] assms(1) by (auto simp: arena_ok_def)
  have "\<forall>e\<in>set (chunks a). apart (chunk_region e) (chunk_region c)"
    using assms(1) c(6) apart_sym by (auto simp: arena_ok_def)
  then show "arena_ok (a\<lparr>chunks := chunks a @ [c], host := al\<rparr>)"
    using assms(1) c by (auto simp: arena_ok_def sorted_wrt_append)
  show "allocated (a\<lparr>chunks := chunks a @ [c], host := al\<rparr>) x = allocated a x"
    using c(2) by (auto simp: allocated_def in_chunk_def)
  show "ch_used c = 0" "n \<le> ch_capacity c"
    by (fact c)+
qed

lemma fresh_block_cong:
  assumes "fresh_block b a' p sz" "\<And>x. allocated b x = allocated a x" "mem b = mem a"
  shows "fresh_block a a' p sz"
  using assms by (simp add: fresh_block_def)

lemma effective_align:
  "(if (2 :: nat) ^ k < BEBOP_MAX_ALIGN then BEBOP_MAX_ALIGN else 2 ^ k) = 2 ^ max k 4"
  "2 ^ max k 4 dvd (p :: nat) \<Longrightarrow> 2 ^ k dvd p \<and> 16 dvd p"
proof -
  have "(2 :: nat) ^ k < 2 ^ 4 \<longleftrightarrow> k < 4"
    by (rule power_strict_increasing_iff) simp
  then show "(if (2 :: nat) ^ k < BEBOP_MAX_ALIGN then BEBOP_MAX_ALIGN else 2 ^ k) = 2 ^ max k 4"
    by (simp add: BEBOP_MAX_ALIGN_def max_def)
  show "2 ^ k dvd p \<and> 16 dvd p" if "2 ^ max k 4 dvd p"
    using that le_imp_power_dvd [of k "max k 4" "2 :: nat"] le_imp_power_dvd [of 4 "max k 4" "2 :: nat"] by (auto intro: dvd_trans)
qed

text \<open>What a call of the allocator establishes, with the effective alignment.\<close>

definition good_alloc :: "bebop_arena \<Rightarrow> nat \<Rightarrow> nat \<Rightarrow> nat option \<times> bebop_arena \<Rightarrow> bool" where
  "good_alloc a sz l r \<longleftrightarrow>
     (case r of
        (None, a') \<Rightarrow> arena_ok a' \<and> chunks a' = chunks a \<and> mem a' = mem a
      | (Some p, a') \<Rightarrow> arena_ok a' \<and> fresh_block a a' p sz \<and> 2 ^ l dvd p)"

lemma bump_good:
  assumes "arena_ok a" "l \<le> 62"
  defines "d \<equiv> bebop__chunk_data (last (chunks a))"
  defines "p \<equiv> bebop__align_ptr (d + ch_used (last (chunks a))) (2 ^ l)"
  assumes "p - d + sz \<le> ch_capacity (last (chunks a))"
  shows "good_alloc a sz l (arena_bump a p (p - d) sz)"
proof -
  have "fst (arena_bump a p (p - d) sz) = Some p"
    by (simp add: arena_bump_def Let_def)
  then show ?thesis
    using bump_fresh [OF assms(1) _ assms(2), of p sz] assms(5) by (auto simp: good_alloc_def split_beta p_def d_def)
qed

lemma new_chunk_good:
  assumes "arena_ok a" "l \<le> 62" "bebop__chunk_alloc (host a) (sz + 2 ^ l) True = (Some nc, al)"
  defines "b \<equiv> a\<lparr>chunks := chunks a @ [nc], host := al\<rparr>"
  defines "q \<equiv> bebop__align_ptr (bebop__chunk_data nc) (2 ^ l)"
  shows "good_alloc a sz l (arena_bump b q (size_wrap (q + 2 ^ 64 - bebop__chunk_data nc)) sz)"
proof -
  note nc = push_chunk_ok [OF assms(1,3), folded b_def]
  have last: "last (chunks b) = nc" "ch_used nc = 0"
    using nc(3) by (simp_all add: b_def)
  note pos = position_exact [OF nc(1) assms(2), unfolded last add_0_right, folded q_def]
  have "q - bebop__chunk_data nc + sz \<le> ch_capacity nc"
    using pos(2,3) nc(4) by linarith
  then have "good_alloc b sz l (arena_bump b q (q - bebop__chunk_data nc) sz)"
    using bump_good [OF nc(1) assms(2), of sz] by (simp add: last q_def)
  moreover have "mem b = mem a" "fst (arena_bump b q (q - bebop__chunk_data nc) sz) = Some q"
    by (simp_all add: b_def arena_bump_def Let_def)
  ultimately show ?thesis
    unfolding pos(1) using nc(2) fresh_block_cong [of b _ q sz a] by (auto simp: good_alloc_def split_beta)
qed

lemma arena_alloc_good:
  assumes "arena_ok a" "k \<le> 62"
  shows "good_alloc a sz (max k 4) (bebop_arena_alloc a sz (2 ^ k))"
proof -
  define l where "l = max k 4"
  have l: "(if (2 :: nat) ^ k < BEBOP_MAX_ALIGN then BEBOP_MAX_ALIGN else 2 ^ k) = 2 ^ l" "l \<le> 62"
    using assms(2) effective_align(1) by (simp_all add: l_def)
  define c where "c = last (chunks a)"
  define d where "d = bebop__chunk_data c"
  define p where "p = bebop__align_ptr (d + ch_used c) (2 ^ l)"
  note pos = position_exact [OF assms(1) l(2), folded c_def, folded d_def, folded p_def]
  have body: "bebop_arena_alloc a sz (2 ^ k) =
      (if sz = 0 then (None, a) else if sz > SIZE_MAX - 2 ^ l then (None, a)
       else if p - d > ch_capacity c \<or> sz > ch_capacity c - (p - d)
       then (case bebop__chunk_alloc (host a) (sz + 2 ^ l) True of
           (None, al) \<Rightarrow> (None, a\<lparr>host := al\<rparr>)
         | (Some nc, al) \<Rightarrow>
             let q = bebop__align_ptr (bebop__chunk_data nc) (2 ^ l)
             in arena_bump (a\<lparr>chunks := chunks a @ [nc], host := al\<rparr>) q (size_wrap (q + 2 ^ 64 - bebop__chunk_data nc)) sz)
       else arena_bump a p (p - d) sz)"
    unfolding bebop_arena_alloc_def Let_def l(1) c_def [symmetric] d_def [symmetric] p_def [symmetric] pos(1) ..
  have none: "good_alloc a sz l (None, a)"
    using assms(1) by (simp add: good_alloc_def)
  show ?thesis
  proof (cases "p - d > ch_capacity c \<or> sz > ch_capacity c - (p - d)")
    case True
    obtain r al where r: "bebop__chunk_alloc (host a) (sz + 2 ^ l) True = (r, al)"
      by (cases "bebop__chunk_alloc (host a) (sz + 2 ^ l) True")
    show ?thesis
    proof (cases r)
      case None
      then have "good_alloc a sz l (None, a\<lparr>host := al\<rparr>)"
        using chunk_alloc_none [OF r [unfolded None]] assms(1) by (simp add: good_alloc_def arena_ok_def)
      then show ?thesis
        unfolding body l_def [symmetric] using True none by (auto simp: r None)
    next
      case (Some nc)
      then show ?thesis
        unfolding body l_def [symmetric] using True none new_chunk_good [OF assms(1) l(2) r [unfolded Some]] by (auto simp: r Some Let_def)
    qed
  next
    case False
    then have "p - d + sz \<le> ch_capacity c"
      by linarith
    then have "good_alloc a sz l (arena_bump a p (p - d) sz)"
      unfolding p_def d_def c_def by (rule bump_good [OF assms(1) l(2)])
    then show ?thesis
      unfolding body l_def [symmetric] using False none by auto
  qed
qed

text \<open>
  C14: allocations of the compiler's arena. A successful allocation is aligned as asked and at least for every type, lies inside
  memory that the host gave, holds no address that was handed out before, is cleared, and leaves every earlier
  allocation with its contents; a failed one changes neither the chunks nor the memory. The invariant of the
  arena is kept.
\<close>

theorem compiler_arena_alloc:
  assumes "arena_ok a" "k \<le> 62"
  shows "case bebop_arena_alloc a sz (2 ^ k) of
      (None, a') \<Rightarrow> arena_ok a' \<and> chunks a' = chunks a \<and> mem a' = mem a
    | (Some p, a') \<Rightarrow> arena_ok a' \<and> fresh_block a a' p sz \<and> 2 ^ k dvd p \<and> 16 dvd p"
  using arena_alloc_good [OF assms, of sz] effective_align(2) by (auto simp: good_alloc_def split: prod.splits option.splits)

definition example_arena :: bebop_arena where
  "example_arena =
     \<lparr>chunks = [\<lparr>ch_addr = 4096, ch_capacity = 100, ch_used = 8\<rparr>],
      host = \<lparr>host_fn = (\<lambda>_ _ _. None), host_calls = 1, host_live = [(4096, 132)]\<rparr>, mem = (\<lambda>x. of_nat x)\<rparr>"

lemma example_arena_ok: "arena_ok example_arena"
  by (simp add: arena_ok_def example_arena_def host_ok_def chunk_ok_def chunk_region_def)

theorem compiler_arena_alloc_witness:
  "fst (bebop_arena_alloc example_arena 20 (2 ^ 4)) = Some 4128 \<and>
   fresh_block example_arena (snd (bebop_arena_alloc example_arena 20 (2 ^ 4))) 4128 20"
proof -
  have r: "fst (bebop_arena_alloc example_arena 20 (2 ^ 4)) = Some 4128"
    by (simp add: bebop_arena_alloc_def example_arena_def arena_bump_def Let_def BEBOP_MAX_ALIGN_def SIZE_MAX_def bebop__align_ptr_def
        bebop__chunk_data_def SIZEOF_CHUNK_def size_wrap_def)
  then show ?thesis
    using compiler_arena_alloc [OF example_arena_ok, of 4 20] by (auto split: prod.splits)
qed

text \<open>
  What resizing the allocation of \<open>old\<close> bytes at \<open>p\<close> to \<open>new\<close> bytes at \<open>q\<close> means: the common part of the contents is kept, the
  new block is handed out and overlaps no other allocation, and the other allocations keep their contents.
\<close>

definition resized :: "bebop_arena \<Rightarrow> bebop_arena \<Rightarrow> nat \<Rightarrow> nat \<Rightarrow> nat \<Rightarrow> nat \<Rightarrow> bool" where
  "resized a a' p old q new \<longleftrightarrow>
     (\<forall>i<min old new. mem a' (q + i) = mem a (p + i)) \<and>
     (\<forall>x. q \<le> x \<and> x < q + new \<longrightarrow> allocated a' x) \<and>
     (\<forall>x. allocated a x \<and> \<not> (p \<le> x \<and> x < p + old) \<longrightarrow> allocated a' x \<and> mem a' x = mem a x \<and> \<not> (q \<le> x \<and> x < q + new))"

lemma realloc_in_place_resized:
  assumes "arena_ok a" "realloc_in_place a (Some p) old new" "0 < new"
  defines "m \<equiv> (if new > old then write_mem (p + old) (replicate (new - old) 0) (mem a) else mem a)"
  defines "a' \<equiv> set_used (a\<lparr>mem := m\<rparr>) (p - bebop__chunk_data (last (chunks a)) + new)"
  shows "arena_ok a' \<and> resized a a' p old p new"
proof -
  define c d where "c = last (chunks a)" and "d = bebop__chunk_data c"
  have h: "0 < old" "d \<le> p" "old \<le> ch_used c" "p - d = ch_used c - old" "new \<le> ch_capacity c - (p - d)" "p - d \<le> ch_capacity c"
    using assms(2) unfolding realloc_in_place_def Let_def option.case c_def d_def by blast+
  have p: "p + old = d + ch_used c" "p + new \<le> d + ch_capacity c"
    using h by linarith+
  have mem_ok: "arena_ok (a\<lparr>mem := m\<rparr>)"
    using assms(1) by (simp add: arena_ok_def)
  have ok: "arena_ok a'"
    unfolding a'_def using h(5,6) by (intro set_used_ok mem_ok) (simp add: c_def [symmetric] d_def [symmetric])
  have alloc: "allocated a' x \<longleftrightarrow> (\<exists>e\<in>set (butlast (chunks a)). in_chunk e x) \<or> d \<le> x \<and> x < p + new" for x
    unfolding a'_def allocated_set_used [OF mem_ok] using h(2) by (simp add: d_def c_def)
  have old: "allocated a x \<longleftrightarrow> (\<exists>e\<in>set (butlast (chunks a)). in_chunk e x) \<or> d \<le> x \<and> x < p + old" for x
    unfolding allocated_last [OF assms(1)] p(1) by (simp add: in_chunk_def c_def d_def)
  have apart: "\<not> in_chunk e x" if e: "e \<in> set (butlast (chunks a))" and x: "d \<le> x" "x < d + ch_capacity c" for e x
    using arena_parts(2) [OF assms(1)] arena_parts(3) [OF assms(1) e] x assms(1) in_set_butlastD [OF e]
    by (auto simp: arena_ok_def apart_def chunk_region_def chunk_ok_def in_chunk_def bebop__chunk_data_def SIZEOF_CHUNK_def
        c_def [symmetric] d_def)
  have memory: "mem a' x = (if p + old \<le> x \<and> x < p + new then 0 else mem a x)" for x
    by (auto simp: a'_def set_used_def m_def write_mem_zero)
  have outside: "\<not> (p \<le> x \<and> x < p + new)" if "allocated a x" "\<not> (p \<le> x \<and> x < p + old)" for x
    using that apart h(2) p(2) unfolding old by (metis le_trans less_le_trans)
  have "allocated a' x \<and> mem a' x = mem a x \<and> \<not> (p \<le> x \<and> x < p + new)" if x: "allocated a x" "\<not> (p \<le> x \<and> x < p + old)" for x
    using outside [OF x] x unfolding memory alloc old by auto
  then show ?thesis
    using ok h(2) by (simp add: resized_def alloc memory)
qed

lemma realloc_copy_resized:
  assumes "arena_ok a" "fresh_block a b q new" "\<forall>x. p \<le> x \<and> x < p + old \<longrightarrow> allocated a x"
  defines "a' \<equiv> b\<lparr>mem := write_mem q (read_mem p (if old < new then old else new) (mem b)) (mem b)\<rparr>"
  shows "resized a a' p old q new"
proof -
  have memory: "mem a' x = (if q \<le> x \<and> x < q + min old new then mem b (p + (x - q)) else mem b x)" for x
    by (auto simp: a'_def write_mem_def read_mem_def min_def)
  have alloc: "allocated a' x = allocated b x" for x
    by (simp add: a'_def allocated_def)
  show ?thesis
    using assms(2,3) unfolding resized_def fresh_block_def alloc memory by auto
qed

text \<open>
  Resizing in the compiler's arena, in place or by copying. The contents are kept up to the smaller size, the resized block
  overlaps no other allocation, and every other allocation is untouched; when it fails, nothing is lost.
\<close>

theorem compiler_arena_realloc:
  assumes "arena_ok a" "\<forall>x. p \<le> x \<and> x < p + old \<longrightarrow> allocated a x" "0 < new"
  shows "case bebop_arena_realloc a (Some p) old new of
      (None, a') \<Rightarrow> arena_ok a' \<and> chunks a' = chunks a \<and> mem a' = mem a
    | (Some q, a') \<Rightarrow> arena_ok a' \<and> resized a a' p old q new"
proof (cases "realloc_in_place a (Some p) old new")
  case True
  have swap: "b\<lparr>chunks := cs, mem := m\<rparr> = b\<lparr>mem := m, chunks := cs\<rparr>" for b :: bebop_arena and cs m
    by (cases b) simp
  have "bebop_arena_realloc a (Some p) old new =
      (Some p, set_used (a\<lparr>mem := if new > old then write_mem (p + old) (replicate (new - old) 0) (mem a) else mem a\<rparr>)
        (p - bebop__chunk_data (last (chunks a)) + new))"
    using True assms(3) by (simp only: bebop_arena_realloc_def Let_def set_used_def swap) simp
  then show ?thesis
    using realloc_in_place_resized [OF assms(1) True assms(3)] by simp
next
  case False
  obtain r b where r: "bebop_arena_malloc a new = (r, b)"
    by (cases "bebop_arena_malloc a new")
  have good: "good_alloc a new 4 (r, b)"
    using arena_alloc_good [OF assms(1), of 4 new] r by (simp add: bebop_arena_malloc_def BEBOP_MAX_ALIGN_def)
  show ?thesis
  proof (cases r)
    case None
    then show ?thesis
      using good False assms(3) by (simp add: bebop_arena_realloc_def r good_alloc_def)
  next
    case (Some q)
    have b: "arena_ok b" "fresh_block a b q new"
      using good by (simp_all add: good_alloc_def Some)
    define a' where "a' = (if old > 0 then b\<lparr>mem := write_mem q (read_mem p (if old < new then old else new) (mem b)) (mem b)\<rparr> else b)"
    have "bebop_arena_realloc a (Some p) old new = (Some q, a')"
      using False assms(3) by (simp add: bebop_arena_realloc_def r Some a'_def)
    moreover have "arena_ok a'"
      using b(1) by (simp add: a'_def arena_ok_def)
    moreover have "resized a a' p old q new"
      using realloc_copy_resized [OF assms(1) b(2) assms(2)] b(2) by (cases "old = 0") (auto simp: a'_def resized_def fresh_block_def)
    ultimately show ?thesis
      by simp
  qed
qed

theorem compiler_arena_realloc_witness:
  "fst (bebop_arena_realloc example_arena (Some 4120) 8 40) = Some 4120 \<and>
   resized example_arena (snd (bebop_arena_realloc example_arena (Some 4120) 8 40)) 4120 8 4120 40"
proof -
  have "fst (bebop_arena_realloc example_arena (Some 4120) 8 40) = Some 4120"
    by (simp add: bebop_arena_realloc_def realloc_in_place_def example_arena_def Let_def bebop__chunk_data_def SIZEOF_CHUNK_def)
  moreover have "\<forall>x. 4120 \<le> x \<and> x < 4120 + 8 \<longrightarrow> allocated example_arena x"
    by (simp add: allocated_def in_chunk_def example_arena_def bebop__chunk_data_def SIZEOF_CHUNK_def)
  ultimately show ?thesis
    using compiler_arena_realloc [OF example_arena_ok, of 4120 8 40] by (auto split: prod.splits)
qed

lemma free_chunks_live: "host_live (free_chunks al cs) = fold remove1 (map chunk_region cs) (host_live al)"
  by (induction al cs rule: free_chunks.induct) (simp_all add: bebop__chunk_free_def bebop__free_def chunk_region_def)

lemma fold_remove1_mset: "mset xs \<subseteq># mset L \<Longrightarrow> mset (fold remove1 xs L) = mset L - mset xs"
proof (induction xs arbitrary: L)
  case (Cons x xs)
  then have "mset xs \<subseteq># mset (remove1 x L)"
    by (simp add: insert_subset_eq_iff)
  with Cons show ?case
    by (simp add: diff_diff_add)
qed simp

text \<open>The regions an arena holds, beside those that were live before it.\<close>

definition holds :: "bebop_arena \<Rightarrow> region list \<Rightarrow> bool" where
  "holds a L \<longleftrightarrow> mset (host_live (host a)) = mset L + mset (map chunk_region (chunks a))"

lemma chunk_alloc_live:
  "bebop__chunk_alloc al n d = (r, al') \<Longrightarrow>
     host_live al' = (case r of None \<Rightarrow> host_live al | Some c \<Rightarrow> chunk_region c # host_live al)"
  by (auto simp: bebop__chunk_alloc_def bebop__alloc_def Let_def chunk_region_def split: if_splits option.splits)

lemma set_used_regions:
  assumes "cs \<noteq> []"
  shows "map chunk_region (butlast cs @ [(last cs)\<lparr>ch_used := u\<rparr>]) = map chunk_region cs"
proof -
  have "map chunk_region (butlast cs @ [(last cs)\<lparr>ch_used := u\<rparr>]) = map chunk_region (butlast cs @ [last cs])"
    by (simp add: chunk_region_def)
  then show ?thesis
    unfolding append_butlast_last_id [OF assms] .
qed

lemma arena_bump_holds:
  assumes "holds a L" "chunks a \<noteq> []"
  shows "holds (snd (arena_bump a p off sz)) L \<and> chunks (snd (arena_bump a p off sz)) \<noteq> []"
  using assms(1) set_used_regions [OF assms(2)] by (simp add: holds_def arena_bump_def Let_def)

text \<open>The ways an allocation can end.\<close>

lemma arena_alloc_cases:
  obtains "bebop_arena_alloc a sz al = (None, a)"
  | h n where "bebop__chunk_alloc (host a) n True = (None, h)" "bebop_arena_alloc a sz al = (None, a\<lparr>host := h\<rparr>)"
  | c h n p off where "bebop__chunk_alloc (host a) n True = (Some c, h)"
      "bebop_arena_alloc a sz al = arena_bump (a\<lparr>chunks := chunks a @ [c], host := h\<rparr>) p off sz"
  | p off where "bebop_arena_alloc a sz al = arena_bump a p off sz"
proof -
  define l where "l = (if al < BEBOP_MAX_ALIGN then BEBOP_MAX_ALIGN else al)"
  define p where "p = bebop__align_ptr (bebop__chunk_data (last (chunks a)) + ch_used (last (chunks a))) l"
  define off where "off = size_wrap (p + 2 ^ 64 - bebop__chunk_data (last (chunks a)))"
  have body: "bebop_arena_alloc a sz al =
      (if sz = 0 then (None, a) else if sz > SIZE_MAX - l then (None, a)
       else if off > ch_capacity (last (chunks a)) \<or> sz > ch_capacity (last (chunks a)) - off
       then (case bebop__chunk_alloc (host a) (sz + l) True of
           (None, h) \<Rightarrow> (None, a\<lparr>host := h\<rparr>)
         | (Some nc, h) \<Rightarrow>
             arena_bump (a\<lparr>chunks := chunks a @ [nc], host := h\<rparr>) (bebop__align_ptr (bebop__chunk_data nc) l)
               (size_wrap (bebop__align_ptr (bebop__chunk_data nc) l + 2 ^ 64 - bebop__chunk_data nc)) sz)
       else arena_bump a p off sz)"
    unfolding bebop_arena_alloc_def Let_def l_def [symmetric] p_def [symmetric] off_def [symmetric] ..
  obtain r h where r: "bebop__chunk_alloc (host a) (sz + l) True = (r, h)"
    by (cases "bebop__chunk_alloc (host a) (sz + l) True")
  consider "sz = 0 \<or> sz > SIZE_MAX - l" | "\<not> (sz = 0 \<or> sz > SIZE_MAX - l)" "off > ch_capacity (last (chunks a)) \<or> sz > ch_capacity (last (chunks a)) - off"
    | "\<not> (sz = 0 \<or> sz > SIZE_MAX - l)" "\<not> (off > ch_capacity (last (chunks a)) \<or> sz > ch_capacity (last (chunks a)) - off)"
    by blast
  then show ?thesis
  proof cases
    case 1
    then show ?thesis
      using body by (intro that(1)) auto
  next
    case 2
    show ?thesis
    proof (cases r)
      case None
      then show ?thesis
        using body 2 by (intro that(2) [OF r [unfolded None]]) (simp add: r)
    next
      case (Some c)
      then show ?thesis
        using body 2 by (intro that(3) [OF r [unfolded Some]]) (simp add: r)
    qed
  next
    case 3
    then show ?thesis
      using body by (intro that(4)) auto
  qed
qed

lemma arena_alloc_holds:
  assumes "holds a L" "chunks a \<noteq> []"
  shows "holds (snd (bebop_arena_alloc a sz al)) L \<and> chunks (snd (bebop_arena_alloc a sz al)) \<noteq> []"
proof (cases rule: arena_alloc_cases [of a sz al])
  case 1
  then show ?thesis
    using assms by simp
next
  case (2 h n)
  then show ?thesis
    using assms chunk_alloc_live [OF 2(1)] by (simp add: holds_def)
next
  case (3 c h n p off)
  have "holds (a\<lparr>chunks := chunks a @ [c], host := h\<rparr>) L"
    using assms(1) chunk_alloc_live [OF 3(1)] by (simp add: holds_def)
  then show ?thesis
    using 3(2) arena_bump_holds by simp
next
  case (4 p off)
  then show ?thesis
    using assms arena_bump_holds by simp
qed

text \<open>One call on an arena, and a run of calls.\<close>

datatype arena_call = Alloc nat nat | Realloc "nat option" nat nat | Strndup "byte list" | Reset

definition arena_call :: "arena_call \<Rightarrow> bebop_arena \<Rightarrow> bebop_arena" where
  "arena_call call a =
     (case call of
        Alloc sz align \<Rightarrow> snd (bebop_arena_alloc a sz align)
      | Realloc p old new \<Rightarrow> snd (bebop_arena_realloc a p old new)
      | Strndup s \<Rightarrow> snd (bebop_arena_strndup a (Some s))
      | Reset \<Rightarrow> bebop_arena_reset a)"

lemma holds_mem [simp]: "holds (b\<lparr>mem := m\<rparr>) L = holds b L"
  by (simp add: holds_def)

lemma realloc_holds:
  assumes "holds a L" "chunks a \<noteq> []"
  shows "holds (snd (bebop_arena_realloc a p old new)) L \<and> chunks (snd (bebop_arena_realloc a p old new)) \<noteq> []"
proof (cases "new \<noteq> 0 \<and> realloc_in_place a p old new")
  case True
  define u where "u = the p - bebop__chunk_data (last (chunks a)) + new"
  have "holds (a\<lparr>chunks := butlast (chunks a) @ [(last (chunks a))\<lparr>ch_used := u\<rparr>]\<rparr>) L"
    using assms(1) set_used_regions [OF assms(2), of u] by (simp add: holds_def)
  then have "holds (a\<lparr>chunks := butlast (chunks a) @ [(last (chunks a))\<lparr>ch_used := u\<rparr>], mem := m\<rparr>) L" for m
    by simp
  then show ?thesis
    using True by (simp only: bebop_arena_realloc_def Let_def u_def [symmetric] if_False if_True simp_thms snd_conv) simp
next
  case False
  obtain r b where r: "bebop_arena_alloc a new BEBOP_MAX_ALIGN = (r, b)"
    by (cases "bebop_arena_alloc a new BEBOP_MAX_ALIGN")
  then have "holds b L \<and> chunks b \<noteq> []"
    using arena_alloc_holds [OF assms, of new BEBOP_MAX_ALIGN] by simp
  moreover have "snd (bebop_arena_realloc a p old new) \<in> {a, b} \<union> range (\<lambda>m. b\<lparr>mem := m\<rparr>)"
  proof (cases "new = 0")
    case True
    then show ?thesis
      by (simp add: bebop_arena_realloc_def)
  next
    case nz: False
    then have "realloc_in_place a p old new = False"
      using False by simp
    then show ?thesis
      using nz by (simp only: bebop_arena_realloc_def bebop_arena_malloc_def r if_False prod.case snd_conv split: option.split if_split) blast
  qed
  ultimately show ?thesis
    using assms by auto
qed

lemma arena_call_holds:
  assumes "holds a L" "chunks a \<noteq> []"
  shows "holds (arena_call call a) L \<and> chunks (arena_call call a) \<noteq> []"
proof (cases call)
  case (Alloc sz align)
  then show ?thesis
    using arena_alloc_holds [OF assms] by (simp add: arena_call_def)
next
  case (Realloc p old new)
  then show ?thesis
    using realloc_holds [OF assms] by (simp add: arena_call_def)
next
  case (Strndup s)
  then show ?thesis
    using assms arena_alloc_holds [OF assms, of "length s + 1" 1]
    by (auto simp: arena_call_def bebop_arena_strndup_def holds_def split: option.splits prod.splits)
next
  case Reset
  obtain c cs where cs: "chunks a = c # cs"
    using assms(2) by (cases "chunks a") auto
  have "mset (map chunk_region cs) \<subseteq># mset (host_live (host a))"
    using assms(1) by (simp add: holds_def cs)
  then have "mset (fold remove1 (map chunk_region cs) (host_live (host a))) = mset (host_live (host a)) - mset (map chunk_region cs)"
    by (rule fold_remove1_mset)
  moreover have "chunk_region (c\<lparr>ch_used := 0\<rparr>) = chunk_region c"
    by (simp add: chunk_region_def)
  ultimately show ?thesis
    using assms(1) by (simp add: Reset arena_call_def bebop_arena_reset_def cs holds_def free_chunks_live)
qed

text \<open>
  C15: the compiler's arena returns what it took. After any calls on an arena that was initialised, destroying it returns to the
  host exactly the regions obtained since, with their sizes; so does a failed initialisation.
\<close>

theorem compiler_arena_balanced:
  "case bebop_arena_init al m initial of
      (False, a) \<Rightarrow> host_live (host a) = host_live al
    | (True, a) \<Rightarrow> mset (host_live (host (bebop_arena_destroy (fold arena_call calls a)))) = mset (host_live al)"
proof (cases "bebop__chunk_alloc al (if initial > 0 then initial else BEBOP_ARENA_CHUNK_SIZE) (initial = 0)")
  case (Pair r h)
  note live = chunk_alloc_live [OF this]
  show ?thesis
  proof (cases r)
    case None
    then show ?thesis
      using live Pair by (simp add: bebop_arena_init_def Let_def)
  next
    case (Some c)
    define a where "a = \<lparr>chunks = [c], host = h, mem = m\<rparr>"
    have "holds a (host_live al) \<and> chunks a \<noteq> []"
      using live Some by (simp add: a_def holds_def)
    then have "holds (fold arena_call calls a) (host_live al) \<and> chunks (fold arena_call calls a) \<noteq> []"
    proof (induction calls arbitrary: a)
      case (Cons call calls)
      then show ?case
        using arena_call_holds [of a "host_live al" call] by simp
    qed simp
    then have "mset (host_live (host (bebop_arena_destroy (fold arena_call calls a)))) = mset (host_live al)"
      by (simp add: bebop_arena_destroy_def free_chunks_live fold_remove1_mset holds_def)
    then show ?thesis
      using Pair Some by (simp add: bebop_arena_init_def Let_def a_def)
  qed
qed

end
