(* ===== verification/Schema_Intern.thy ===== *)
theory Schema_Intern
  imports Schema_Arena
begin

text \<open>
  The string table of the schema compiler, from \<^verbatim>\<open>bebop/src/bebop_str.c\<close>: every string is stored once, and a handle is its index.
  The arrays of the table are lists of their allocated length, and a stored string is the bytes of its copy with
  the terminator. The hash map from hashes to indices is the vendored one: its operations are parameters of the
  definitions, given by a record, and an insertion that runs out of memory stops the program. A result of
  \<^term>\<open>None\<close> stands for a loop that does not end or a stopped program.
\<close>

section \<open>Hash\<close>

definition FNV_OFFSET_BASIS :: u64 where
  "FNV_OFFSET_BASIS = 0xcbf29ce484222325"

definition FNV_PRIME :: u64 where
  "FNV_PRIME = 0x100000001b3"

definition bebop_hash_fnv1a :: "byte list \<Rightarrow> u64" where
  "bebop_hash_fnv1a str = fold (\<lambda>c hash. (hash XOR ucast c) * FNV_PRIME) str FNV_OFFSET_BASIS"

section \<open>State\<close>

text \<open>The vendored map: an empty map of a capacity, lookup, and insertion, which may take memory from the arena.\<close>

record 'm bebop_internmap =
  im_new :: "nat \<Rightarrow> bebop_arena \<Rightarrow> ('m \<times> bebop_arena) option"
  im_find :: "'m \<Rightarrow> u64 \<Rightarrow> nat option"
  im_insert :: "'m \<Rightarrow> u64 \<Rightarrow> nat \<Rightarrow> bebop_arena \<Rightarrow> ('m \<times> bebop_arena) option"

record 'm bebop_intern_t =
  strings :: "byte list option list"
  hashes :: "u64 list"
  lengths :: "nat list"
  nexts :: "nat list"
  icount :: nat
  icapacity :: nat
  iarena :: bebop_arena
  ilookup :: 'm

type_synonym bebop_str_t = nat

definition BEBOP_STR_NULL :: bebop_str_t where
  "BEBOP_STR_NULL = 0"

definition BEBOP_INTERN_DEFAULT_CAPACITY :: nat where
  "BEBOP_INTERN_DEFAULT_CAPACITY = 256"

text \<open>
  The four arrays of a capacity, cleared by the arena. All four allocations run before the code looks at their
  results.
\<close>

definition intern_arrays :: "bebop_arena \<Rightarrow> nat \<Rightarrow> bool \<times> bebop_arena" where
  "intern_arrays a n =
     (case bebop__arena_alloc_n a 8 n 8 of
        (s, a) \<Rightarrow>
          (case bebop__arena_alloc_n a 8 n 8 of
             (h, a) \<Rightarrow>
               (case bebop__arena_alloc_n a 4 n 4 of
                  (l, a) \<Rightarrow>
                    (case bebop__arena_alloc_n a 4 n 4 of
                       (x, a) \<Rightarrow> (s \<noteq> None \<and> h \<noteq> None \<and> l \<noteq> None \<and> x \<noteq> None, a)))))"

text \<open>The initial table, unless an array cannot be had or the map stops the program.\<close>

definition bebop_intern_init :: "'m bebop_internmap \<Rightarrow> bebop_arena \<Rightarrow> nat \<Rightarrow> 'm bebop_intern_t option" where
  "bebop_intern_init im a cap =
     (let cap = (if cap = 0 then BEBOP_INTERN_DEFAULT_CAPACITY else cap)
      in case intern_arrays a cap of
           (False, a) \<Rightarrow> None
         | (True, a) \<Rightarrow>
             (case im_new im cap a of
                None \<Rightarrow> None
              | Some (m, a) \<Rightarrow>
                  Some \<lparr>strings = replicate cap None, hashes = replicate cap 0, lengths = replicate cap 0, nexts = replicate cap 0,
                        icount = 1, icapacity = cap, iarena = a, ilookup = m\<rparr>))"

section \<open>Operations\<close>

text \<open>Copying an array into a longer one.\<close>

definition grown :: "'a \<Rightarrow> nat \<Rightarrow> nat \<Rightarrow> 'a list \<Rightarrow> 'a list" where
  "grown z n cap xs = take n xs @ replicate (cap - n) z"

definition bebop__intern_grow :: "'m bebop_intern_t \<Rightarrow> bool \<times> 'm bebop_intern_t" where
  "bebop__intern_grow t =
     (let new_capacity = (icapacity t * 2) mod 2 ^ 32
      in case intern_arrays (iarena t) new_capacity of
           (False, a) \<Rightarrow> (False, t\<lparr>iarena := a\<rparr>)
         | (True, a) \<Rightarrow>
             (True, t\<lparr>iarena := a, strings := grown None (icount t) new_capacity (strings t),
                      hashes := grown 0 (icount t) new_capacity (hashes t),
                      lengths := grown 0 (icount t) new_capacity (lengths t),
                      nexts := grown 0 (icount t) new_capacity (nexts t), icapacity := new_capacity\<rparr>))"

text \<open>The string at an index equals the given bytes; \<^verbatim>\<open>memcmp\<close> reads as many bytes of the copy.\<close>

definition intern_match :: "'m bebop_intern_t \<Rightarrow> nat \<Rightarrow> byte list \<Rightarrow> bool" where
  "intern_match t idx str \<longleftrightarrow>
     lengths t ! idx = length str \<and> (case strings t ! idx of None \<Rightarrow> False | Some s \<Rightarrow> take (length str) s = str)"

text \<open>The walk along a collision chain: the index of the string, or the end of the chain.\<close>

partial_function (option) intern_chain :: "'m bebop_intern_t \<Rightarrow> byte list \<Rightarrow> nat \<Rightarrow> (nat + nat) option" where
  "intern_chain t str idx =
     (if intern_match t idx str then Some (Inl idx)
      else if nexts t ! idx = 0 then Some (Inr idx)
      else intern_chain t str (nexts t ! idx))"

declare intern_chain.simps [code]

text \<open>The string as a new entry, linked to the end of its chain or into the map.\<close>

definition intern_add ::
  "'m bebop_internmap \<Rightarrow> 'm bebop_intern_t \<Rightarrow> byte list \<Rightarrow> u64 \<Rightarrow> nat \<Rightarrow> (bebop_str_t \<times> 'm bebop_intern_t) option" where
  "intern_add im t str hash chain_tail =
     (case (if icount t \<ge> icapacity t then bebop__intern_grow t else (True, t)) of
        (False, t) \<Rightarrow> Some (BEBOP_STR_NULL, t)
      | (True, t) \<Rightarrow>
          (case bebop_arena_strndup (iarena t) (Some str) of
             (None, a) \<Rightarrow> Some (BEBOP_STR_NULL, t\<lparr>iarena := a\<rparr>)
           | (Some copy, a) \<Rightarrow>
               let idx = icount t;
                   t = t\<lparr>iarena := a, icount := (idx + 1) mod 2 ^ 32, strings := (strings t)[idx := Some (str @ [0])],
                         hashes := (hashes t)[idx := hash], lengths := (lengths t)[idx := length str],
                         nexts := (nexts t)[idx := 0]\<rparr>
               in if chain_tail \<noteq> 0 then Some (idx, t\<lparr>nexts := (nexts t)[chain_tail := idx]\<rparr>)
                  else
                    (case im_insert im (ilookup t) hash idx (iarena t) of
                       None \<Rightarrow> None
                     | Some (m, a) \<Rightarrow> Some (idx, t\<lparr>ilookup := m, iarena := a\<rparr>))))"

definition bebop_intern_n ::
  "'m bebop_internmap \<Rightarrow> 'm bebop_intern_t \<Rightarrow> byte list option \<Rightarrow> (bebop_str_t \<times> 'm bebop_intern_t) option" where
  "bebop_intern_n im t str =
     (case str of
        None \<Rightarrow> Some (BEBOP_STR_NULL, t)
      | Some s \<Rightarrow>
          if length s > UINT32_MAX then Some (BEBOP_STR_NULL, t)
          else
            let hash = bebop_hash_fnv1a s
            in case im_find im (ilookup t) hash of
                 None \<Rightarrow> intern_add im t s hash 0
               | Some idx \<Rightarrow>
                   (case intern_chain t s idx of
                      None \<Rightarrow> None
                    | Some (Inl i) \<Rightarrow> Some (i, t)
                    | Some (Inr tail) \<Rightarrow> intern_add im t s hash tail))"

definition bebop_intern ::
  "'m bebop_internmap \<Rightarrow> 'm bebop_intern_t \<Rightarrow> byte list option \<Rightarrow> (bebop_str_t \<times> 'm bebop_intern_t) option" where
  "bebop_intern im t str =
     (case str of
        None \<Rightarrow> Some (BEBOP_STR_NULL, t)
      | Some s \<Rightarrow> bebop_intern_n im t (Some (takeWhile (\<lambda>c. c \<noteq> 0) s)))"

definition bebop_str_get :: "'m bebop_intern_t \<Rightarrow> bebop_str_t \<Rightarrow> byte list option" where
  "bebop_str_get t h = (if h = 0 \<or> h \<ge> icount t then None else strings t ! h)"

definition bebop_str_len :: "'m bebop_intern_t \<Rightarrow> bebop_str_t \<Rightarrow> nat" where
  "bebop_str_len t h = (if h = 0 \<or> h \<ge> icount t then 0 else lengths t ! h)"

section \<open>Invariant\<close>

text \<open>
  What the code relies on of the vendored map: a new map is empty, and inserting an absent key adds it. Both may
  stop the program instead.
\<close>

definition internmap_ok :: "'m bebop_internmap \<Rightarrow> bool" where
  "internmap_ok im \<longleftrightarrow>
     (\<forall>n a m a' h. im_new im n a = Some (m, a') \<longrightarrow> im_find im m h = None) \<and>
     (\<forall>m h i a m' a' g. im_find im m h = None \<and> im_insert im m h i a = Some (m', a') \<longrightarrow>
        im_find im m' g = (if g = h then Some i else im_find im m g))"

text \<open>
  The table holds the strings \<open>ss\<close> at the indices from one on, once each; the map gives the first index of a hash, and each
  entry links to the next entry with its hash.
\<close>

definition first_at :: "u64 list \<Rightarrow> u64 \<Rightarrow> nat \<Rightarrow> nat option \<Rightarrow> bool" where
  "first_at hs h k r \<longleftrightarrow>
     (case r of
        None \<Rightarrow> \<forall>i<length hs. k \<le> i \<longrightarrow> hs ! i \<noteq> h
      | Some n \<Rightarrow> k \<le> n \<and> n < length hs \<and> hs ! n = h \<and> (\<forall>i<n. k \<le> i \<longrightarrow> hs ! i \<noteq> h))"

definition link :: "nat \<Rightarrow> nat option" where
  "link n = (if n = 0 then None else Some (n - 1))"

definition shape :: "'m bebop_intern_t \<Rightarrow> byte list list \<Rightarrow> bool" where
  "shape t ss \<longleftrightarrow>
     icount t = length ss + 1 \<and> icount t \<le> icapacity t \<and> (\<exists>k\<le>31. icapacity t = 2 ^ k) \<and>
     length (strings t) = icapacity t \<and> length (hashes t) = icapacity t \<and> length (lengths t) = icapacity t \<and> length (nexts t) = icapacity t \<and>
     (\<forall>i<length ss. strings t ! Suc i = Some (ss ! i @ [0]) \<and> lengths t ! Suc i = length (ss ! i) \<and> hashes t ! Suc i = bebop_hash_fnv1a (ss ! i))"

definition stores :: "'m bebop_internmap \<Rightarrow> 'm bebop_intern_t \<Rightarrow> byte list list \<Rightarrow> bool" where
  "stores im t ss \<longleftrightarrow>
     shape t ss \<and>
     (\<forall>i<length ss. first_at (map bebop_hash_fnv1a ss) (bebop_hash_fnv1a (ss ! i)) (Suc i) (link (nexts t ! Suc i))) \<and>
     (\<forall>h. first_at (map bebop_hash_fnv1a ss) h 0 (Option.bind (im_find im (ilookup t) h) link) \<and> im_find im (ilookup t) h \<noteq> Some 0) \<and>
     distinct ss"

lemma link_simps [simp]: "link 0 = None" "link (Suc n) = Some n"
  by (simp_all add: link_def)

lemma first_at_snoc_other: "g \<noteq> h \<Longrightarrow> first_at hs h k r \<Longrightarrow> first_at (hs @ [g]) h k r"
  by (auto simp: first_at_def nth_append less_Suc_eq split: option.splits)

lemma first_at_snoc_found: "first_at hs h k (Some n) \<Longrightarrow> first_at (hs @ [g]) h k (Some n)"
  by (auto simp: first_at_def nth_append)

lemma first_at_snoc_new: "first_at hs h k None \<Longrightarrow> k \<le> length hs \<Longrightarrow> first_at (hs @ [h]) h k (Some (length hs))"
  by (auto simp: first_at_def nth_append)

lemma first_at_hit: "first_at hs h k r \<Longrightarrow> k \<le> i \<Longrightarrow> i < length hs \<Longrightarrow> hs ! i = h \<Longrightarrow> r \<noteq> None"
  by (cases r) (auto simp: first_at_def)

lemma first_at_end: "length hs \<le> k \<Longrightarrow> first_at hs h k None"
  by (simp add: first_at_def)

lemma intern_match_iff:
  assumes "stores im t ss" "i < length ss"
  shows "intern_match t (Suc i) s \<longleftrightarrow> ss ! i = s"
  using assms by (auto simp: intern_match_def stores_def shape_def)

text \<open>The walk along a chain ends, at the string or at the last entry with its hash.\<close>

lemma intern_chain_ends:
  assumes "stores im t ss" "i < length ss" "bebop_hash_fnv1a (ss ! i) = bebop_hash_fnv1a s" "s \<notin> set (take i ss)"
  shows "(\<exists>j<length ss. intern_chain t s (Suc i) = Some (Inl (Suc j)) \<and> ss ! j = s) \<or>
    (\<exists>j<length ss. intern_chain t s (Suc i) = Some (Inr (Suc j)) \<and> nexts t ! Suc j = 0 \<and> bebop_hash_fnv1a (ss ! j) = bebop_hash_fnv1a s \<and> s \<notin> set ss)"
  using assms(2-)
proof (induction "length ss - i" arbitrary: i rule: less_induct)
  case less
  let ?h = "bebop_hash_fnv1a s"
  have nxt: "first_at (map bebop_hash_fnv1a ss) ?h (Suc i) (link (nexts t ! Suc i))"
    using assms(1) less.prems(1,2) by (auto simp: stores_def)
  show ?case
  proof (cases "ss ! i = s")
    case True
    then show ?thesis
      using less.prems(1) intern_match_iff [OF assms(1) less.prems(1), of s] by (auto simp: intern_chain.simps)
  next
    case False
    then have miss: "\<not> intern_match t (Suc i) s"
      using intern_match_iff [OF assms(1) less.prems(1), of s] by simp
    have seen: "s \<notin> set (take (Suc i) ss)"
      using less.prems(1,3) False by (simp add: take_Suc_conv_app_nth)
    have skip: "s \<notin> set (take n ss)" if c: "\<forall>j<n. Suc i \<le> j \<longrightarrow> map bebop_hash_fnv1a ss ! j \<noteq> ?h" and le: "n \<le> length ss" for n
    proof
      assume "s \<in> set (take n ss)"
      then obtain j where j: "j < n" "ss ! j = s"
        using le by (auto simp: in_set_conv_nth)
      then have "j < Suc i"
        using c le by (metis linorder_not_less nth_map less_le_trans)
      then show False
        using seen j less.prems(1) by (auto simp: in_set_conv_nth)
    qed
    show ?thesis
    proof (cases "nexts t ! Suc i")
      case 0
      then have "s \<notin> set ss"
        using skip [of "length ss"] nxt by (simp add: first_at_def)
      then show ?thesis
        using 0 miss less.prems(1,2) by (auto simp: intern_chain.simps)
    next
      case (Suc n)
      then have n: "Suc i \<le> n" "n < length ss" "bebop_hash_fnv1a (ss ! n) = ?h" "\<forall>j<n. Suc i \<le> j \<longrightarrow> map bebop_hash_fnv1a ss ! j \<noteq> ?h"
        using nxt by (auto simp: first_at_def)
      have "intern_chain t s (Suc i) = intern_chain t s (Suc n)"
        using miss Suc by (subst intern_chain.simps) simp
      then show ?thesis
        using less.hyps [of n] n skip [of n] less.prems(1) by simp
    qed
  qed
qed

lemma nth_grown: "i < n \<Longrightarrow> n \<le> length xs \<Longrightarrow> grown z n cap xs ! i = xs ! i"
  by (simp add: grown_def nth_append)

lemma length_grown: "n \<le> length xs \<Longrightarrow> n \<le> cap \<Longrightarrow> length (grown z n cap xs) = cap"
  by (simp add: grown_def)

lemma alloc_zero: "bebop__arena_alloc_n a e 0 al = (None, a)"
  by (simp add: bebop__arena_alloc_n_def bebop_arena_alloc_def)

lemma intern_arrays_zero: "fst (intern_arrays a 0) = False"
  by (simp add: intern_arrays_def alloc_zero)

text \<open>Growing keeps the contents; a table of \<^term>\<open>2 ^ 31\<close> entries cannot grow.\<close>

lemma grow_stores:
  assumes "stores im t ss" "bebop__intern_grow t = (b, t')"
  shows "stores im t' ss \<and> (b \<longrightarrow> icapacity t' = 2 * icapacity t)"
proof (cases b)
  case False
  then show ?thesis
    using assms by (auto simp: bebop__intern_grow_def Let_def stores_def shape_def split: prod.splits bool.splits)
next
  case True
  define cap where "cap = (icapacity t * 2) mod 2 ^ 32"
  obtain a where a: "intern_arrays (iarena t) cap = (True, a)"
    using assms(2) True by (auto simp: bebop__intern_grow_def Let_def cap_def split: prod.splits bool.splits)
  have t': "t' = t\<lparr>iarena := a, strings := grown None (icount t) cap (strings t), hashes := grown 0 (icount t) cap (hashes t),
      lengths := grown 0 (icount t) cap (lengths t), nexts := grown 0 (icount t) cap (nexts t), icapacity := cap\<rparr>"
    using assms(2) a by (simp add: bebop__intern_grow_def Let_def cap_def)
  obtain k where k: "k \<le> 31" "icapacity t = 2 ^ k"
    using assms(1) by (auto simp: stores_def shape_def)
  have "cap \<noteq> 0"
    using a intern_arrays_zero [of "iarena t"] by (metis fst_conv)
  then have "k \<noteq> 31"
    by (auto simp: cap_def k)
  then have k': "k + 1 \<le> 31"
    using k(1) by simp
  then have "(2 :: nat) ^ (k + 1) \<le> 2 ^ 31"
    by (rule power_increasing) simp
  then have cap: "cap = 2 ^ (k + 1)"
    unfolding cap_def k(2) by simp
  have fit: "icount t \<le> icapacity t" "icount t \<le> cap" "icount t = Suc (length ss)" "length (strings t) = icapacity t"
    "length (hashes t) = icapacity t" "length (lengths t) = icapacity t" "length (nexts t) = icapacity t"
    using assms(1) by (auto simp: stores_def shape_def cap k(2))
  have "\<exists>k\<le>31. cap = 2 ^ k"
    using k' cap by blast
  then have "stores im t' ss"
    unfolding stores_def shape_def t' using assms(1) fit by (simp add: stores_def shape_def length_grown nth_grown)
  then show ?thesis
    by (simp add: t' cap k(2))
qed

text \<open>The entry itself, in a table with room, at the end of a chain or with a hash of its own.\<close>

definition with_entry :: "'m bebop_intern_t \<Rightarrow> bebop_arena \<Rightarrow> byte list \<Rightarrow> 'm bebop_intern_t" where
  "with_entry t a s = (let idx = icount t in
     t\<lparr>iarena := a, icount := (idx + 1) mod 2 ^ 32, strings := (strings t)[idx := Some (s @ [0])],
       hashes := (hashes t)[idx := bebop_hash_fnv1a s], lengths := (lengths t)[idx := length s], nexts := (nexts t)[idx := 0]\<rparr>)"

lemma icount_bound:
  assumes "shape t ss" "icount t < icapacity t"
  shows "(icount t + 1) mod 2 ^ 32 = icount t + 1" "icount t = Suc (length ss)"
proof -
  obtain k where k: "k \<le> 31" "icapacity t = 2 ^ k"
    using assms(1) by (auto simp: shape_def)
  have "(2 :: nat) ^ k \<le> 2 ^ 31"
    by (rule power_increasing [OF k(1)]) simp
  then have "icount t + 1 < 2 ^ 32"
    using assms(2) k(2) by simp
  then show "(icount t + 1) mod 2 ^ 32 = icount t + 1"
    by (rule mod_less)
  show "icount t = Suc (length ss)"
    using assms(1) by (simp add: shape_def)
qed

lemma with_entry_shape:
  assumes "shape t ss" "icount t < icapacity t"
  shows "shape (with_entry t a s) (ss @ [s])" "nexts (with_entry t a s) = (nexts t)[Suc (length ss) := 0]" "ilookup (with_entry t a s) = ilookup t"
  using assms icount_bound [OF assms]
  by (auto simp: with_entry_def Let_def shape_def nth_append less_Suc_eq)

text \<open>The links and the map of a table with one more string, when the hash is new and when it is not.\<close>

lemma links_snoc_new:
  assumes "first_at (map bebop_hash_fnv1a ss) (bebop_hash_fnv1a (ss ! i)) (Suc i) r" "bebop_hash_fnv1a s \<notin> bebop_hash_fnv1a ` set ss" "i < length ss"
  shows "first_at (map bebop_hash_fnv1a (ss @ [s])) (bebop_hash_fnv1a (ss ! i)) (Suc i) r"
proof -
  have "bebop_hash_fnv1a s \<noteq> bebop_hash_fnv1a (ss ! i)"
    using assms(2,3) by (metis image_eqI nth_mem)
  then show ?thesis
    using first_at_snoc_other assms(1) by (simp only: map_append list.map)
qed

lemma links_snoc_chain:
  assumes "\<forall>i<length ss. first_at (map bebop_hash_fnv1a ss) (bebop_hash_fnv1a (ss ! i)) (Suc i) (f i)" "j < length ss" "f j = None"
    "bebop_hash_fnv1a (ss ! j) = bebop_hash_fnv1a s" "i < length ss"
  shows "first_at (map bebop_hash_fnv1a (ss @ [s])) (bebop_hash_fnv1a (ss ! i)) (Suc i) (if i = j then Some (length ss) else f i)"
proof (cases "i = j")
  case True
  then show ?thesis
    using first_at_snoc_new [of "map bebop_hash_fnv1a ss" "bebop_hash_fnv1a s" "Suc j"] assms by force
next
  case False
  have fi: "first_at (map bebop_hash_fnv1a ss) (bebop_hash_fnv1a (ss ! i)) (Suc i) (f i)"
    using assms(1,5) by blast
  show ?thesis
  proof (cases "bebop_hash_fnv1a (ss ! i) = bebop_hash_fnv1a s")
    case eq: True
    have "first_at (map bebop_hash_fnv1a ss) (bebop_hash_fnv1a s) (Suc j) None"
      using assms(1-4) by metis
    then have "\<not> j < i"
      using eq assms(5) by (auto simp: first_at_def)
    then have "f i \<noteq> None"
      using first_at_hit [OF fi, of j] eq assms(2,4) False by simp
    then show ?thesis
      using fi first_at_snoc_found False by fastforce
  next
    case ne: False
    then show ?thesis
      using first_at_snoc_other [OF _ fi] False by simp
  qed
qed

lemma chain_entry_stores:
  assumes "stores im t ss" "icount t < icapacity t" "s \<notin> set ss" "j < length ss" "nexts t ! Suc j = 0"
    "bebop_hash_fnv1a (ss ! j) = bebop_hash_fnv1a s"
  shows "stores im ((with_entry t a s)\<lparr>nexts := (nexts (with_entry t a s))[Suc j := icount t]\<rparr>) (ss @ [s])"
proof -
  have sh: "shape t ss"
    using assms(1) by (simp add: stores_def)
  note w = with_entry_shape [OF sh assms(2), of a s] and c = icount_bound(2) [OF sh assms(2)]
  have len: "Suc (length ss) < length (nexts t)"
    using sh assms(2) c by (simp add: shape_def)
  have links: "first_at (map bebop_hash_fnv1a (ss @ [s])) (bebop_hash_fnv1a ((ss @ [s]) ! i)) (Suc i)
      (link ((nexts t)[Suc (length ss) := 0, Suc j := Suc (length ss)] ! Suc i))" if i: "i < length (ss @ [s])" for i
  proof (cases "i = length ss")
    case True
    then show ?thesis
      using assms(4) len by (simp add: first_at_end)
  next
    case False
    then have i': "i < length ss"
      using i by simp
    have "link ((nexts t)[Suc (length ss) := 0, Suc j := Suc (length ss)] ! Suc i) = (if i = j then Some (length ss) else link (nexts t ! Suc i))"
      using assms(4) len i' by (simp add: nth_list_update)
    then show ?thesis
      using links_snoc_chain [of ss "\<lambda>i. link (nexts t ! Suc i)" j s i] assms(1,4-6) i' by (simp add: stores_def nth_append)
  qed
  have look: "first_at (map bebop_hash_fnv1a (ss @ [s])) h 0 (Option.bind (im_find im (ilookup t) h) link)" for h
  proof (cases "h = bebop_hash_fnv1a s")
    case True
    have f: "first_at (map bebop_hash_fnv1a ss) h 0 (Option.bind (im_find im (ilookup t) h) link)"
      using assms(1) by (simp add: stores_def)
    then have "Option.bind (im_find im (ilookup t) h) link \<noteq> None"
      using True assms(4,6) first_at_hit [OF f, of j] by simp
    then show ?thesis
      using f first_at_snoc_found by fastforce
  next
    case False
    then show ?thesis
      using assms(1) first_at_snoc_other by (simp add: stores_def)
  qed
  have "shape ((with_entry t a s)\<lparr>nexts := (nexts (with_entry t a s))[Suc j := icount t]\<rparr>) (ss @ [s])"
    using w(1) by (simp add: shape_def)
  then show ?thesis
    unfolding stores_def using links look assms(1,3) by (simp add: w(2,3) c stores_def)
qed

lemma map_entry_stores:
  assumes "stores im t ss" "icount t < icapacity t" "internmap_ok im" "im_find im (ilookup t) (bebop_hash_fnv1a s) = None"
    "im_insert im (ilookup t) (bebop_hash_fnv1a s) (icount t) b = Some (m, a')"
  shows "stores im ((with_entry t a s)\<lparr>ilookup := m, iarena := a'\<rparr>) (ss @ [s])"
proof -
  have sh: "shape t ss"
    using assms(1) by (simp add: stores_def)
  note w = with_entry_shape [OF sh assms(2), of a s] and c = icount_bound(2) [OF sh assms(2)]
  have len: "Suc (length ss) < length (nexts t)"
    using sh assms(2) c by (simp add: shape_def)
  have f: "first_at (map bebop_hash_fnv1a ss) h 0 (Option.bind (im_find im (ilookup t) h) link)" for h
    using assms(1) by (simp add: stores_def)
  have new: "bebop_hash_fnv1a s \<notin> bebop_hash_fnv1a ` set ss"
    using f [of "bebop_hash_fnv1a s"] assms(4) by (auto simp: first_at_def in_set_conv_nth)
  have find: "im_find im m h = (if h = bebop_hash_fnv1a s then Some (icount t) else im_find im (ilookup t) h)" for h
    using assms(3-5) unfolding internmap_ok_def by blast
  have links: "first_at (map bebop_hash_fnv1a (ss @ [s])) (bebop_hash_fnv1a ((ss @ [s]) ! i)) (Suc i) (link ((nexts t)[Suc (length ss) := 0] ! Suc i))"
    if i: "i < length (ss @ [s])" for i
  proof (cases "i = length ss")
    case True
    then show ?thesis
      using len by (simp add: first_at_end)
  next
    case False
    then show ?thesis
      using links_snoc_new [OF _ new, of i] assms(1) i by (simp add: stores_def nth_append)
  qed
  have look: "first_at (map bebop_hash_fnv1a (ss @ [s])) h 0 (Option.bind (im_find im m h) link)" for h
    using f [of h] assms(4) first_at_snoc_new [of "map bebop_hash_fnv1a ss" h 0] first_at_snoc_other [of "bebop_hash_fnv1a s" h]
    by (cases "h = bebop_hash_fnv1a s") (simp_all add: find c)
  have "shape ((with_entry t a s)\<lparr>ilookup := m, iarena := a'\<rparr>) (ss @ [s])"
    using w(1) by (simp add: shape_def)
  moreover have "s \<notin> set ss"
    using new by blast
  ultimately show ?thesis
    unfolding stores_def using links look assms(1) by (simp add: w(2) find c stores_def)
qed

section \<open>Correctness\<close>

text \<open>What one call establishes: the handle holds the string and the earlier handles keep theirs.\<close>

definition interned :: "'m bebop_internmap \<Rightarrow> 'm bebop_intern_t \<Rightarrow> byte list list \<Rightarrow> byte list \<Rightarrow> bebop_str_t \<times> 'm bebop_intern_t \<Rightarrow> bool" where
  "interned im t ss s r \<longleftrightarrow>
     (case r of
        (h, t') \<Rightarrow>
          (if h = 0 then stores im t' ss \<and> s \<notin> set ss
           else if s \<in> set ss then t' = t \<and> h \<le> length ss \<and> ss ! (h - 1) = s
           else stores im t' (ss @ [s]) \<and> h = Suc (length ss)))"

lemma stores_arena: "stores im (t\<lparr>iarena := a\<rparr>) ss = stores im t ss"
  by (simp add: stores_def shape_def)

lemma intern_add_interned:
  assumes "stores im t ss" "s \<notin> set ss" "internmap_ok im"
    and tail: "if ct = 0 then im_find im (ilookup t) (bebop_hash_fnv1a s) = None
      else \<exists>j<length ss. ct = Suc j \<and> nexts t ! Suc j = 0 \<and> bebop_hash_fnv1a (ss ! j) = bebop_hash_fnv1a s"
    and res: "intern_add im t s (bebop_hash_fnv1a s) ct = Some r"
  shows "interned im t ss s r"
proof -
  obtain b t1 where g: "(if icount t \<ge> icapacity t then bebop__intern_grow t else (True, t)) = (b, t1)"
    by (cases "if icount t \<ge> icapacity t then bebop__intern_grow t else (True, t)")
  have t1: "stores im t1 ss" and room: "b \<Longrightarrow> icount t1 < icapacity t1"
    using g grow_stores [OF assms(1), of b t1] assms(1) by (auto simp: stores_def shape_def split: if_splits)
  have same: "ilookup t1 = ilookup t" "j < length ss \<Longrightarrow> nexts t1 ! Suc j = nexts t ! Suc j" for j
    using g assms(1) by (auto simp: bebop__intern_grow_def Let_def stores_def shape_def nth_grown split: if_splits prod.splits bool.splits)
  obtain c a where d: "bebop_arena_strndup (iarena t1) (Some s) = (c, a)"
    by (cases "bebop_arena_strndup (iarena t1) (Some s)")
  show ?thesis
  proof (cases "b \<and> c \<noteq> None")
    case False
    then have "r = (0, t1) \<or> r = (0, t1\<lparr>iarena := a\<rparr>)"
      using res by (auto simp: intern_add_def g d BEBOP_STR_NULL_def split: bool.splits)
    then show ?thesis
      using t1 assms(2) by (auto simp: interned_def stores_arena)
  next
    case True
    note room = room [OF conjunct1 [OF True]]
    have idx: "icount t1 = Suc (length ss)"
      using t1 by (simp add: stores_def shape_def)
    have body: "intern_add im t s (bebop_hash_fnv1a s) ct =
        (if ct \<noteq> 0 then Some (icount t1, (with_entry t1 a s)\<lparr>nexts := (nexts (with_entry t1 a s))[ct := icount t1]\<rparr>)
         else (case im_insert im (ilookup t1) (bebop_hash_fnv1a s) (icount t1) a of None \<Rightarrow> None
           | Some (m, a') \<Rightarrow> Some (icount t1, (with_entry t1 a s)\<lparr>ilookup := m, iarena := a'\<rparr>)))"
      using True unfolding intern_add_def g with_entry_def Let_def by (auto simp: d)
    show ?thesis
    proof (cases "ct = 0")
      case ct: True
      then obtain m a' where m: "im_insert im (ilookup t1) (bebop_hash_fnv1a s) (icount t1) a = Some (m, a')"
          "r = (icount t1, (with_entry t1 a s)\<lparr>ilookup := m, iarena := a'\<rparr>)"
        using res unfolding body by (auto split: option.splits)
      have "stores im (snd r) (ss @ [s])"
        using map_entry_stores [OF t1 room assms(3) _ m(1), of a] tail ct same(1) m(2) by simp
      then show ?thesis
        using m(2) assms(2) idx by (simp add: interned_def)
    next
      case ct: False
      then obtain j where j: "j < length ss" "ct = Suc j" "nexts t1 ! Suc j = 0" "bebop_hash_fnv1a (ss ! j) = bebop_hash_fnv1a s"
        using tail same(2) by auto
      then have r: "r = (icount t1, (with_entry t1 a s)\<lparr>nexts := (nexts (with_entry t1 a s))[Suc j := icount t1]\<rparr>)"
        using res unfolding body by simp
      have "stores im (snd r) (ss @ [s])"
        using chain_entry_stores [OF t1 room assms(2) j(1,3,4), of a] r by simp
      then show ?thesis
        using r assms(2) idx by (simp add: interned_def)
    qed
  qed
qed

lemma lookup_found:
  assumes "stores im t ss" "im_find im (ilookup t) (bebop_hash_fnv1a s) = Some n"
  shows "\<exists>i<length ss. n = Suc i \<and> bebop_hash_fnv1a (ss ! i) = bebop_hash_fnv1a s \<and> s \<notin> set (take i ss)"
proof -
  have f: "first_at (map bebop_hash_fnv1a ss) (bebop_hash_fnv1a s) 0 (link n)" "n \<noteq> 0"
    using assms unfolding stores_def by (metis Option.bind.bind_lunit, metis)
  obtain i where n: "n = Suc i"
    using f(2) by (cases n) auto
  then have i: "i < length ss" "map bebop_hash_fnv1a ss ! i = bebop_hash_fnv1a s" "\<forall>j<i. map bebop_hash_fnv1a ss ! j \<noteq> bebop_hash_fnv1a s"
    using f(1) by (auto simp: first_at_def)
  have "s \<notin> set (take i ss)"
  proof
    assume "s \<in> set (take i ss)"
    then obtain j where "j < i" "ss ! j = s"
      using i(1) by (auto simp: in_set_conv_nth)
    then show False
      using i(1,3) by auto
  qed
  then show ?thesis
    using n i by auto
qed

lemma intern_n_interned:
  assumes "stores im t ss" "internmap_ok im" "length s \<le> UINT32_MAX" "bebop_intern_n im t (Some s) = Some r"
  shows "interned im t ss s r"
proof (cases "im_find im (ilookup t) (bebop_hash_fnv1a s)")
  case None
  then have "intern_add im t s (bebop_hash_fnv1a s) 0 = Some r"
    using assms(3,4) by (simp add: bebop_intern_n_def Let_def)
  moreover have "first_at (map bebop_hash_fnv1a ss) (bebop_hash_fnv1a s) 0 None"
    using assms(1) None unfolding stores_def by (metis Option.bind.simps(1))
  then have "s \<notin> set ss"
    by (auto simp: first_at_def in_set_conv_nth)
  ultimately show ?thesis
    using intern_add_interned [OF assms(1) _ assms(2), of s 0 r] None by simp
next
  case (Some n)
  then obtain i where i: "n = Suc i" "i < length ss" "bebop_hash_fnv1a (ss ! i) = bebop_hash_fnv1a s" "s \<notin> set (take i ss)"
    using lookup_found [OF assms(1)] by blast
  from intern_chain_ends [OF assms(1) i(2-4)] show ?thesis
  proof (elim disjE exE conjE)
    fix j
    assume "j < length ss" "intern_chain t s (Suc i) = Some (Inl (Suc j))" "ss ! j = s"
    moreover from this have "r = (Suc j, t)"
      using assms(3,4) Some i(1) by (simp add: bebop_intern_n_def Let_def)
    ultimately show ?thesis
      by (auto simp: interned_def)
  next
    fix j
    assume j: "j < length ss" "intern_chain t s (Suc i) = Some (Inr (Suc j))" "nexts t ! Suc j = 0"
      "bebop_hash_fnv1a (ss ! j) = bebop_hash_fnv1a s" "s \<notin> set ss"
    then have "intern_add im t s (bebop_hash_fnv1a s) (Suc j) = Some r"
      using assms(3,4) Some i(1) by (simp add: bebop_intern_n_def Let_def)
    then show ?thesis
      using intern_add_interned [OF assms(1) j(5) assms(2), of "Suc j" r] j by auto
  qed
qed

text \<open>A call returns, when the vendored map does not stop the program.\<close>

lemma intern_add_total:
  assumes "\<forall>m h i a. im_insert im m h i a \<noteq> None"
  shows "intern_add im t s h ct \<noteq> None"
proof -
  obtain b t1 where g: "(if icount t \<ge> icapacity t then bebop__intern_grow t else (True, t)) = (b, t1)"
    by (cases "if icount t \<ge> icapacity t then bebop__intern_grow t else (True, t)")
  obtain c a where d: "bebop_arena_strndup (iarena t1) (Some s) = (c, a)"
    by (cases "bebop_arena_strndup (iarena t1) (Some s)")
  obtain m a' where "im_insert im (ilookup t1) h (icount t1) a = Some (m, a')"
    using assms by (metis option.exhaust surj_pair)
  then show ?thesis
    unfolding intern_add_def g by (cases b; cases c) (simp_all add: d Let_def)
qed

lemma intern_n_total:
  assumes "stores im t ss" "\<forall>m h i a. im_insert im m h i a \<noteq> None"
  shows "bebop_intern_n im t (Some s) \<noteq> None"
proof (cases "im_find im (ilookup t) (bebop_hash_fnv1a s)")
  case None
  then show ?thesis
    using intern_add_total [OF assms(2)] by (simp add: bebop_intern_n_def Let_def)
next
  case (Some n)
  then obtain i where i: "n = Suc i" "i < length ss" "bebop_hash_fnv1a (ss ! i) = bebop_hash_fnv1a s" "s \<notin> set (take i ss)"
    using lookup_found [OF assms(1)] by blast
  from intern_chain_ends [OF assms(1) i(2-4)] show ?thesis
    using Some i(1) intern_add_total [OF assms(2)] by (auto simp: bebop_intern_n_def Let_def)
qed

lemma stores_get:
  assumes "stores im t ss" "0 < h" "h \<le> length ss"
  shows "bebop_str_get t h = Some (ss ! (h - 1) @ [0])" "bebop_str_len t h = length (ss ! (h - 1))"
proof -
  obtain i where "h = Suc i" "i < length ss"
    using assms(2,3) by (cases h) auto
  then show "bebop_str_get t h = Some (ss ! (h - 1) @ [0])" "bebop_str_len t h = length (ss ! (h - 1))"
    using assms(1) by (simp_all add: bebop_str_get_def bebop_str_len_def stores_def shape_def)
qed

text \<open>A sequence of calls, with the handles they return.\<close>

fun intern_all :: "'m bebop_internmap \<Rightarrow> 'm bebop_intern_t \<Rightarrow> byte list list \<Rightarrow> (bebop_str_t list \<times> 'm bebop_intern_t) option" where
  "intern_all im t [] = Some ([], t)"
| "intern_all im t (s # ss) =
     (case bebop_intern_n im t (Some s) of
        None \<Rightarrow> None
      | Some (h, t') \<Rightarrow> (case intern_all im t' ss of None \<Rightarrow> None | Some (hs, t'') \<Rightarrow> Some (h # hs, t'')))"

lemma intern_all_stores:
  assumes "stores im t ss" "internmap_ok im" "\<forall>s\<in>set ts. length s \<le> UINT32_MAX" "intern_all im t ts = Some (hs, t')"
  shows "\<exists>us. stores im t' (ss @ us) \<and> length hs = length ts \<and>
    (\<forall>i<length ts. hs ! i \<noteq> 0 \<longrightarrow> hs ! i \<le> length (ss @ us) \<and> (ss @ us) ! (hs ! i - 1) = ts ! i) \<and>
    (\<forall>i<length ts. ts ! i \<in> set ss \<longrightarrow> hs ! i \<noteq> 0) \<and>
    (\<forall>j<length ts. \<forall>i<j. hs ! i \<noteq> 0 \<and> ts ! i = ts ! j \<longrightarrow> hs ! j \<noteq> 0)"
  using assms(1,3,4)
proof (induction ts arbitrary: t ss hs)
  case Nil
  then show ?case
    by (auto intro: exI [of _ "[]"])
next
  case (Cons s ts)
  obtain h t1 hs' where c: "bebop_intern_n im t (Some s) = Some (h, t1)" "intern_all im t1 ts = Some (hs', t')" "hs = h # hs'"
    using Cons.prems(3) by (auto split: option.splits)
  have i: "interned im t ss s (h, t1)"
    using intern_n_interned [OF Cons.prems(1) assms(2) _ c(1)] Cons.prems(2) by simp
  obtain vs where vs: "stores im t1 (ss @ vs)" "h \<noteq> 0 \<Longrightarrow> h \<le> length (ss @ vs) \<and> (ss @ vs) ! (h - 1) = s"
  proof (cases "h = 0 \<or> s \<in> set ss")
    case True
    then show ?thesis
      using i Cons.prems(1) by (intro that [of "[]"]) (auto simp: interned_def split: if_splits)
  next
    case False
    then show ?thesis
      using i by (intro that [of "[s]"]) (auto simp: interned_def)
  qed
  obtain us where us: "stores im t' ((ss @ vs) @ us)" "length hs' = length ts"
      "\<forall>i<length ts. hs' ! i \<noteq> 0 \<longrightarrow> hs' ! i \<le> length ((ss @ vs) @ us) \<and> ((ss @ vs) @ us) ! (hs' ! i - 1) = ts ! i"
      "\<forall>i<length ts. ts ! i \<in> set (ss @ vs) \<longrightarrow> hs' ! i \<noteq> 0"
      "\<forall>j<length ts. \<forall>i<j. hs' ! i \<noteq> 0 \<and> ts ! i = ts ! j \<longrightarrow> hs' ! j \<noteq> 0"
    using Cons.IH [OF vs(1) _ c(2)] Cons.prems(2) by auto
  have held: "hs ! i \<noteq> 0 \<longrightarrow> hs ! i \<le> length (ss @ vs @ us) \<and> (ss @ vs @ us) ! (hs ! i - 1) = (s # ts) ! i" if "i < length (s # ts)" for i
  proof (cases i)
    case 0
    have "(ss @ vs @ us) ! (h - 1) = (ss @ vs) ! (h - 1)" if "h \<noteq> 0"
      using vs(2) [OF that] that by (metis append.assoc diff_less less_le_trans nth_append_left zero_less_one gr0I)
    then show ?thesis
      using vs(2) by (auto simp: 0 c(3))
  next
    case (Suc k)
    then show ?thesis
      using us(3) that by (simp add: c(3))
  qed
  have known: "hs ! i \<noteq> 0" if "i < length (s # ts)" "(s # ts) ! i \<in> set ss" for i
    using i us(4) that by (cases i) (auto simp: c(3) interned_def split: if_splits)
  have here: "s \<in> set (ss @ vs)" if "h \<noteq> 0"
    using vs(2) [OF that] that by (metis diff_less gr0I less_le_trans nth_mem zero_less_one)
  have again: "hs ! j \<noteq> 0" if "j < length (s # ts)" "i < j" "hs ! i \<noteq> 0" "(s # ts) ! i = (s # ts) ! j" for i j
    using that us(4,5) here by (cases j; cases i) (auto simp: c(3))
  show ?case
    using us(1,2) held known again by (intro exI [of _ "vs @ us"]) (auto simp: c(3))
qed

lemma intern_all_total:
  assumes "stores im t ss" "internmap_ok im" "\<forall>s\<in>set ts. length s \<le> UINT32_MAX" "\<forall>m h i a. im_insert im m h i a \<noteq> None"
  shows "intern_all im t ts \<noteq> None"
  using assms(1,3)
proof (induction ts arbitrary: t ss)
  case (Cons s ts)
  obtain h t1 where c: "bebop_intern_n im t (Some s) = Some (h, t1)"
    using intern_n_total [OF Cons.prems(1) assms(4), of s] by auto
  have "interned im t ss s (h, t1)"
    using intern_n_interned [OF Cons.prems(1) assms(2) _ c] Cons.prems(2) by simp
  then obtain vs where "stores im t1 vs"
    using Cons.prems(1) by (auto simp: interned_def split: if_splits)
  then show ?case
    using Cons.IH Cons.prems(2) c by (auto split: option.splits)
qed simp

lemma init_stores:
  assumes "internmap_ok im" "bebop_intern_init im a 0 = Some t"
  shows "stores im t []"
proof -
  obtain b m a' where t: "im_new im 256 b = Some (m, a')" "t = \<lparr>strings = replicate 256 None, hashes = replicate 256 0,
      lengths = replicate 256 0, nexts = replicate 256 0, icount = 1, icapacity = 256, iarena = a', ilookup = m\<rparr>"
    using assms(2) by (auto simp: bebop_intern_init_def BEBOP_INTERN_DEFAULT_CAPACITY_def Let_def split: prod.splits bool.splits option.splits)
  have "im_find im m h = None" for h
    using assms(1) t(1) unfolding internmap_ok_def by blast
  moreover have "\<exists>k\<le>31. (256::nat) = 2 ^ k"
    by (intro exI [of _ 8]) simp
  ultimately show ?thesis
    by (simp add: t(2) stores_def shape_def first_at_def)
qed

text \<open>
  C13: Interning. After any sequence of calls on a fresh table, every handle that is not null gives back its string, with the
  terminator, and its length; two handles are equal exactly when their strings are; and a string that has once got a handle gets it
  again, even when memory has run out since. The calls return whenever the vendored map does not stop the program: the walk
  along a collision chain ends.
\<close>

theorem interned_handles:
  assumes "internmap_ok im" "bebop_intern_init im a 0 = Some t" "\<forall>s\<in>set ts. length s \<le> UINT32_MAX"
  shows "((\<forall>m h i b. im_insert im m h i b \<noteq> None) \<longrightarrow> intern_all im t ts \<noteq> None) \<and>
    (\<forall>hs t'. intern_all im t ts = Some (hs, t') \<longrightarrow>
      length hs = length ts \<and>
      (\<forall>i<length ts. hs ! i \<noteq> BEBOP_STR_NULL \<longrightarrow>
         bebop_str_get t' (hs ! i) = Some (ts ! i @ [0]) \<and> bebop_str_len t' (hs ! i) = length (ts ! i) \<and>
         (\<forall>j<length ts. hs ! j \<noteq> BEBOP_STR_NULL \<longrightarrow> (hs ! i = hs ! j \<longleftrightarrow> ts ! i = ts ! j)) \<and>
         (\<forall>j<length ts. i < j \<and> ts ! j = ts ! i \<longrightarrow> hs ! j = hs ! i)))"
proof (intro conjI allI impI)
  note init = init_stores [OF assms(1,2)]
  show "intern_all im t ts \<noteq> None" if "\<forall>m h i b. im_insert im m h i b \<noteq> None"
    by (rule intern_all_total [OF init assms(1,3) that])
  fix hs t'
  assume "intern_all im t ts = Some (hs, t')"
  from intern_all_stores [OF init assms(1,3) this, unfolded append_Nil]
  obtain us where us: "stores im t' us" and len: "length hs = length ts"
    and held: "\<forall>i<length ts. hs ! i \<noteq> 0 \<longrightarrow> hs ! i \<le> length us \<and> us ! (hs ! i - 1) = ts ! i"
    and kept: "\<forall>j<length ts. \<forall>i<j. hs ! i \<noteq> 0 \<and> ts ! i = ts ! j \<longrightarrow> hs ! j \<noteq> 0"
    by (elim exE conjE)
  show "length hs = length ts"
    by (rule len)
  fix i
  assume i: "i < length ts" "hs ! i \<noteq> BEBOP_STR_NULL"
  then have h: "0 < hs ! i" "hs ! i \<le> length us" "us ! (hs ! i - 1) = ts ! i"
    using held by (simp_all add: BEBOP_STR_NULL_def)
  show "bebop_str_get t' (hs ! i) = Some (ts ! i @ [0])" "bebop_str_len t' (hs ! i) = length (ts ! i)"
    using stores_get [OF us h(1,2)] h(3) by simp_all
  have same: "hs ! i = hs ! j \<longleftrightarrow> ts ! i = ts ! j" if j: "j < length ts" "hs ! j \<noteq> 0" for j
  proof -
    have g: "0 < hs ! j" "hs ! j \<le> length us" "us ! (hs ! j - 1) = ts ! j"
      using held j by simp_all
    have "hs ! i - 1 = hs ! j - 1 \<longleftrightarrow> us ! (hs ! i - 1) = us ! (hs ! j - 1)"
      using us h g by (intro nth_eq_iff_index_eq [symmetric]) (auto simp: stores_def)
    then show ?thesis
      using h g by auto
  qed
  fix j
  assume j: "j < length ts"
  show "(hs ! i = hs ! j) = (ts ! i = ts ! j)" if "hs ! j \<noteq> BEBOP_STR_NULL"
    using same [OF j] that by (simp add: BEBOP_STR_NULL_def)
  show "hs ! j = hs ! i" if later: "i < j \<and> ts ! j = ts ! i"
  proof -
    have "hs ! j \<noteq> 0"
      using kept j later h(1) by (metis not_gr0)
    then show ?thesis
      using same [OF j] later by simp
  qed
qed

text \<open>A map of partial functions, and an arena with room for the table.\<close>

definition example_internmap :: "(u64 \<Rightarrow> nat option) bebop_internmap" where
  "example_internmap =
     \<lparr>im_new = (\<lambda>n a. Some (\<lambda>h. None, a)), im_find = (\<lambda>m h. m h), im_insert = (\<lambda>m h i a. Some (\<lambda>g. if g = h then Some i else m g, a))\<rparr>"

definition example_intern_arena :: bebop_arena where
  "example_intern_arena =
     \<lparr>chunks = [\<lparr>ch_addr = 4096, ch_capacity = 65536, ch_used = 0\<rparr>],
      host = \<lparr>host_fn = (\<lambda>_ _ _. None), host_calls = 1, host_live = [(4096, 65568)]\<rparr>, mem = (\<lambda>_. 0)\<rparr>"

lemma example_intern_init: "\<exists>t. bebop_intern_init example_internmap example_intern_arena 0 = Some t"
  by (simp add: bebop_intern_init_def BEBOP_INTERN_DEFAULT_CAPACITY_def Let_def intern_arrays_def bebop__arena_alloc_n_def
      bebop_arena_alloc_def example_intern_arena_def arena_bump_def BEBOP_MAX_ALIGN_def SIZE_MAX_def bebop__align_ptr_def
        bebop__chunk_data_def SIZEOF_CHUNK_def size_wrap_def example_internmap_def set_used_def)

lemma example_internmap_ok: "internmap_ok example_internmap"
  by (auto simp: internmap_ok_def example_internmap_def)

definition example_intern :: "(u64 \<Rightarrow> nat option) bebop_intern_t" where
  "example_intern = the (bebop_intern_init example_internmap example_intern_arena 0)"

lemmas example_alloc_defs = bebop__arena_alloc_n_def bebop_arena_alloc_def arena_bump_def BEBOP_MAX_ALIGN_def SIZE_MAX_def
  bebop__align_ptr_def bebop__chunk_data_def SIZEOF_CHUNK_def size_wrap_def set_used_def

lemma example_table:
  "icount example_intern = 1" "icapacity example_intern = 256" "ilookup example_intern = (\<lambda>_. None)"
  "length (strings example_intern) = 256" "length (nexts example_intern) = 256" "length (lengths example_intern) = 256"
  "chunks (iarena example_intern) = [\<lparr>ch_addr = 4096, ch_capacity = 65536, ch_used = 6152\<rparr>]"
  by (simp_all add: example_intern_def bebop_intern_init_def BEBOP_INTERN_DEFAULT_CAPACITY_def Let_def intern_arrays_def
      example_intern_arena_def example_internmap_def example_alloc_defs)

lemma example_hashes: "bebop_hash_fnv1a [97] \<noteq> bebop_hash_fnv1a [98]" "bebop_hash_fnv1a [98] \<noteq> bebop_hash_fnv1a [97]"
  by (simp_all add: bebop_hash_fnv1a_def FNV_PRIME_def FNV_OFFSET_BASIS_def)

lemma example_handles: "\<exists>t. intern_all example_internmap example_intern [[97], [98], [97]] = Some ([1, 2, 1], t)"
  by (simp add: bebop_intern_n_def intern_add_def intern_match_def intern_chain.simps bebop_arena_strndup_def UINT32_MAX_def Let_def
      example_internmap_def example_table example_hashes example_alloc_defs)

theorem interned_handles_witness:
  "\<exists>t'. intern_all example_internmap example_intern [[97], [98], [97]] = Some ([1, 2, 1], t') \<and>
     bebop_str_get t' 1 = Some [97, 0] \<and> bebop_str_get t' 2 = Some [98, 0]"
proof -
  have t: "bebop_intern_init example_internmap example_intern_arena 0 = Some example_intern"
    using example_intern_init by (auto simp: example_intern_def)
  have "\<forall>s\<in>set [[97], [98], [97 :: byte]]. length s \<le> UINT32_MAX"
    by (simp add: UINT32_MAX_def)
  note h = interned_handles [OF example_internmap_ok t this]
  obtain t' where r: "intern_all example_internmap example_intern [[97], [98], [97]] = Some ([1, 2, 1], t')"
    using example_handles by blast
  have g: "\<forall>i<length [[97], [98], [97 :: byte]]. [1, 2, 1] ! i \<noteq> BEBOP_STR_NULL \<longrightarrow>
      bebop_str_get t' ([1, 2, 1] ! i) = Some ([[97], [98], [97]] ! i @ [0])"
    using conjunct2 [OF h, rule_format, OF r] by blast
  show ?thesis
    using r g [rule_format, of 0] g [rule_format, of 1] by (simp add: BEBOP_STR_NULL_def)
qed

end
