(* ===== verification/Schema_Diagnostics.thy ===== *)
theory Schema_Diagnostics
  imports Schema_Intern Schema_Numbers
begin

text \<open>
  The context of the compiler and the diagnostics of a schema, from \<^verbatim>\<open>bebop/src/bebop.c\<close> and \<^verbatim>\<open>bebop/src/bebop_schema.c\<close>. The arena of
  the context is the one its string table points to, so the model keeps it there. The array of diagnostics is the list
  of its elements with its capacity; a message is the address of its copy. Of a schema this theory has the fields the
  diagnostics use.
\<close>

section \<open>Context\<close>

datatype bebop_error =
  BEBOP_ERR_NONE | BEBOP_ERR_OUT_OF_MEMORY | BEBOP_ERR_FILE_NOT_FOUND | BEBOP_ERR_FILE_READ | BEBOP_ERR_IMPORT_FAILED
  | BEBOP_ERR_INTERNAL

record 'm bebop_context =
  intern :: "'m bebop_intern_t"
  last_error :: bebop_error
  error_message :: "nat option"

text \<open>An operation on the arena of the context.\<close>

definition on_arena :: "(bebop_arena \<Rightarrow> 'r \<times> bebop_arena) \<Rightarrow> 'm bebop_context \<Rightarrow> 'r \<times> 'm bebop_context" where
  "on_arena f ctx = (case f (iarena (intern ctx)) of (r, a) \<Rightarrow> (r, ctx\<lparr>intern := (intern ctx)\<lparr>iarena := a\<rparr>\<rparr>))"

definition bebop__context_set_error :: "'m bebop_context \<Rightarrow> bebop_error \<Rightarrow> string option \<Rightarrow> 'm bebop_context" where
  "bebop__context_set_error ctx error message =
     (let ctx = ctx\<lparr>last_error := error\<rparr>
      in case message of
           None \<Rightarrow> ctx\<lparr>error_message := None\<rparr>
         | Some m \<Rightarrow> (case on_arena (\<lambda>a. bebop_arena_strdup a (Some (ascii m))) ctx of (p, ctx) \<Rightarrow> ctx\<lparr>error_message := p\<rparr>))"

section \<open>Diagnostics\<close>

record bebop_span =
  off :: u32
  len :: u32
  start_line :: u32
  start_col :: u32
  end_line :: u32
  end_col :: u32

datatype bebop_diag_severity = BEBOP_DIAG_INFO | BEBOP_DIAG_WARNING | BEBOP_DIAG_ERROR

record bebop_diag_label =
  label_span :: bebop_span
  label_message :: "nat option"

record bebop__diag_loc =
  loc_severity :: bebop_diag_severity
  loc_code :: u32
  loc_span :: bebop_span

record bebop_diagnostic =
  severity :: bebop_diag_severity
  code :: u32
  diag_span :: bebop_span
  diag_path :: "nat option"
  message :: "nat option"
  hint :: "nat option"
  labels :: "bebop_diag_label list"

record bebop_schema =
  schema_path :: "nat option"
  diagnostics :: "bebop_diagnostic list"
  diagnostic_capacity :: nat
  error_count :: u32
  warning_count :: u32

definition BEBOP_MAX_DIAGNOSTICS :: nat where
  "BEBOP_MAX_DIAGNOSTICS = 100"

definition bebop__DIAGNOSTIC_INITIAL_CAPACITY :: nat where
  "bebop__DIAGNOSTIC_INITIAL_CAPACITY = 16"

definition SIZEOF_DIAGNOSTIC :: nat where
  "SIZEOF_DIAGNOSTIC = 72"

definition SIZEOF_DIAG_LABEL :: nat where
  "SIZEOF_DIAG_LABEL = 32"

text \<open>The array with room for one more element, unless that cannot be had.\<close>

definition diag_room :: "bebop_schema \<Rightarrow> 'm bebop_context \<Rightarrow> bool \<times> bebop_schema \<times> 'm bebop_context" where
  "diag_room schema ctx =
     (if length (diagnostics schema) \<ge> diagnostic_capacity schema
      then
        let new_capacity = (if diagnostic_capacity schema \<noteq> 0 then diagnostic_capacity schema * 2 mod 2 ^ 32
                            else bebop__DIAGNOSTIC_INITIAL_CAPACITY)
        in case on_arena (\<lambda>a. bebop__arena_alloc_n a SIZEOF_DIAGNOSTIC new_capacity 8) ctx of
             (None, ctx) \<Rightarrow> (False, schema, ctx)
           | (Some p, ctx) \<Rightarrow> (True, schema\<lparr>diagnostic_capacity := new_capacity\<rparr>, ctx)
      else (True, schema, ctx))"

definition bebop__schema_add_diagnostic ::
  "bebop_schema \<Rightarrow> 'm bebop_context \<Rightarrow> bebop__diag_loc \<Rightarrow> byte list \<Rightarrow> byte list option \<Rightarrow> bebop_schema \<times> 'm bebop_context" where
  "bebop__schema_add_diagnostic schema ctx loc msg hnt =
     (if length (diagnostics schema) \<ge> BEBOP_MAX_DIAGNOSTICS then (schema, ctx)
      else
        (case diag_room schema ctx of
           (False, schema, ctx) \<Rightarrow> (schema, ctx)
         | (True, schema, ctx) \<Rightarrow>
             (case on_arena (\<lambda>a. bebop_arena_strdup a (Some msg)) ctx of
                (m, ctx) \<Rightarrow>
                  (case (case hnt of None \<Rightarrow> (None, ctx) | Some h \<Rightarrow> on_arena (\<lambda>a. bebop_arena_strdup a (Some h)) ctx) of
                     (h, ctx) \<Rightarrow>
                       let schema = schema\<lparr>diagnostics := diagnostics schema @
                             [\<lparr>severity = loc_severity loc, code = loc_code loc, diag_span = loc_span loc, diag_path = schema_path schema,
                               message = m, hint = h, labels = []\<rparr>]\<rparr>
                       in (case loc_severity loc of
                             BEBOP_DIAG_ERROR \<Rightarrow> schema\<lparr>error_count := error_count schema + 1\<rparr>
                           | BEBOP_DIAG_WARNING \<Rightarrow> schema\<lparr>warning_count := warning_count schema + 1\<rparr>
                           | BEBOP_DIAG_INFO \<Rightarrow> schema, ctx)))))"

definition bebop__schema_diag_add_label ::
  "bebop_schema \<Rightarrow> 'm bebop_context \<Rightarrow> bebop_span \<Rightarrow> byte list option \<Rightarrow> bebop_schema \<times> 'm bebop_context" where
  "bebop__schema_diag_add_label schema ctx span msg =
     (if diagnostics schema = [] then (schema, ctx)
      else
        let diag = last (diagnostics schema)
        in case on_arena (\<lambda>a. bebop__arena_alloc_n a SIZEOF_DIAG_LABEL (length (labels diag) + 1) 8) ctx of
             (None, ctx) \<Rightarrow> (schema, ctx)
           | (Some p, ctx) \<Rightarrow>
               (case (case msg of None \<Rightarrow> (None, ctx) | Some m \<Rightarrow> on_arena (\<lambda>a. bebop_arena_strdup a (Some m)) ctx) of
                  (m, ctx) \<Rightarrow>
                    (schema\<lparr>diagnostics := butlast (diagnostics schema) @
                       [diag\<lparr>labels := labels diag @ [\<lparr>label_span = span, label_message = m\<rparr>]\<rparr>]\<rparr>, ctx)))"

section \<open>What a schema reports\<close>

text \<open>A sequence of calls on a schema.\<close>

datatype diag_call =
    Add_Diagnostic bebop__diag_loc "byte list" "byte list option"
  | Add_Label bebop_span "byte list option"

fun diag_step :: "diag_call \<Rightarrow> bebop_schema \<times> 'm bebop_context \<Rightarrow> bebop_schema \<times> 'm bebop_context" where
  "diag_step (Add_Diagnostic loc msg hnt) (schema, ctx) = bebop__schema_add_diagnostic schema ctx loc msg hnt"
| "diag_step (Add_Label span msg) (schema, ctx) = bebop__schema_diag_add_label schema ctx span msg"

definition reported :: "bebop_diag_severity \<Rightarrow> bebop_schema \<Rightarrow> nat" where
  "reported sev schema = length (filter (\<lambda>d. severity d = sev) (diagnostics schema))"

definition schema_ok :: "bebop_schema \<Rightarrow> bool" where
  "schema_ok schema \<longleftrightarrow>
     length (diagnostics schema) \<le> diagnostic_capacity schema \<and> length (diagnostics schema) \<le> BEBOP_MAX_DIAGNOSTICS \<and>
     unat (error_count schema) = reported BEBOP_DIAG_ERROR schema \<and> unat (warning_count schema) = reported BEBOP_DIAG_WARNING schema"

lemma reported_bound: "reported sev schema \<le> length (diagnostics schema)"
  by (simp add: reported_def)

lemma reported_snoc: "reported sev (s\<lparr>diagnostics := ds @ [d]\<rparr>) = reported sev (s\<lparr>diagnostics := ds\<rparr>) + (if severity d = sev then 1 else 0)"
  by (simp add: reported_def)

lemma unat_suc: "unat n = k \<Longrightarrow> k < 100 \<Longrightarrow> unat (n + 1 :: u32) = Suc k"
  by (simp add: unat_word_ariths)

lemma diag_room_cases:
  assumes "length (diagnostics s) \<le> diagnostic_capacity s" "length (diagnostics s) < 100" "diag_room s ctx = (b, s', ctx')"
  shows "\<exists>cap. s' = s\<lparr>diagnostic_capacity := cap\<rparr> \<and> length (diagnostics s) \<le> cap \<and> (b \<longrightarrow> length (diagnostics s) < cap) \<and> (\<not> b \<longrightarrow> s' = s)"
proof (cases "length (diagnostics s) \<ge> diagnostic_capacity s")
  case True
  then have "diagnostic_capacity s = length (diagnostics s)"
    using assms(1) by simp
  then show ?thesis
    using assms(2,3) True
    by (cases s) (auto simp: diag_room_def Let_def bebop__DIAGNOSTIC_INITIAL_CAPACITY_def split: prod.splits option.splits if_splits)
next
  case False
  then show ?thesis
    using assms(3) by (intro exI [of _ "diagnostic_capacity s"]) (simp add: diag_room_def)
qed

text \<open>Adding a diagnostic appends it and counts it, or leaves the schema as it is.\<close>

definition counted :: "bebop_diag_severity \<Rightarrow> bebop_schema \<Rightarrow> bebop_schema" where
  "counted sev s =
     (case sev of
        BEBOP_DIAG_ERROR \<Rightarrow> s\<lparr>error_count := error_count s + 1\<rparr>
      | BEBOP_DIAG_WARNING \<Rightarrow> s\<lparr>warning_count := warning_count s + 1\<rparr>
      | BEBOP_DIAG_INFO \<Rightarrow> s)"

lemma add_diagnostic_cases:
  assumes "length (diagnostics s) \<le> diagnostic_capacity s"
  obtains (same) "fst (bebop__schema_add_diagnostic s ctx loc msg hnt) = s"
  | (more) d cap where "severity d = loc_severity loc" "code d = loc_code loc" "diag_span d = loc_span loc"
      "length (diagnostics s) < 100" "length (diagnostics s) < cap"
      "fst (bebop__schema_add_diagnostic s ctx loc msg hnt) =
         counted (loc_severity loc) (s\<lparr>diagnostic_capacity := cap, diagnostics := diagnostics s @ [d]\<rparr>)"
proof (cases "length (diagnostics s) \<ge> 100")
  case True
  then show ?thesis
    by (intro same) (simp add: bebop__schema_add_diagnostic_def BEBOP_MAX_DIAGNOSTICS_def)
next
  case full: False
  obtain b s' ctx' where r: "diag_room s ctx = (b, s', ctx')"
    by (cases "diag_room s ctx")
  have "\<exists>cap. s' = s\<lparr>diagnostic_capacity := cap\<rparr> \<and> length (diagnostics s) \<le> cap \<and> (b \<longrightarrow> length (diagnostics s) < cap) \<and> (\<not> b \<longrightarrow> s' = s)"
    by (rule diag_room_cases [OF assms _ r]) (use full in simp)
  then obtain cap where cap: "s' = s\<lparr>diagnostic_capacity := cap\<rparr>" "b \<Longrightarrow> length (diagnostics s) < cap" "\<not> b \<Longrightarrow> s' = s"
    by blast
  show ?thesis
  proof (cases b)
    case False
    then show ?thesis
      using full r cap(3) by (intro same) (simp add: bebop__schema_add_diagnostic_def BEBOP_MAX_DIAGNOSTICS_def)
  next
    case True
    obtain m ctx1 where m: "on_arena (\<lambda>a. bebop_arena_strdup a (Some msg)) ctx' = (m, ctx1)"
      by (cases "on_arena (\<lambda>a. bebop_arena_strdup a (Some msg)) ctx'")
    obtain h ctx2 where h: "(case hnt of None \<Rightarrow> (None, ctx1) | Some h \<Rightarrow> on_arena (\<lambda>a. bebop_arena_strdup a (Some h)) ctx1) = (h, ctx2)"
      by (cases "case hnt of None \<Rightarrow> (None, ctx1) | Some h \<Rightarrow> on_arena (\<lambda>a. bebop_arena_strdup a (Some h)) ctx1")
    let ?d = "\<lparr>severity = loc_severity loc, code = loc_code loc, diag_span = loc_span loc, diag_path = schema_path s,
      message = m, hint = h, labels = []\<rparr>"
    have "fst (bebop__schema_add_diagnostic s ctx loc msg hnt) =
        counted (loc_severity loc) (s\<lparr>diagnostic_capacity := cap, diagnostics := diagnostics s @ [?d]\<rparr>)"
      using full True r unfolding bebop__schema_add_diagnostic_def BEBOP_MAX_DIAGNOSTICS_def
      by (simp add: m h cap(1) counted_def split: bebop_diag_severity.split)
    then show ?thesis
      using full cap(2) [OF True] by (intro more [of ?d]) simp_all
  qed
qed

lemma add_label_severities:
  "map severity (diagnostics (fst (bebop__schema_diag_add_label s ctx sp m))) = map severity (diagnostics s)"
  "diagnostic_capacity (fst (bebop__schema_diag_add_label s ctx sp m)) = diagnostic_capacity s"
  "error_count (fst (bebop__schema_diag_add_label s ctx sp m)) = error_count s"
  "warning_count (fst (bebop__schema_diag_add_label s ctx sp m)) = warning_count s"
proof -
  have "butlast (map severity (diagnostics s)) @ [severity (last (diagnostics s))] = map severity (diagnostics s)" if "diagnostics s \<noteq> []"
    using that by (metis append_butlast_last_id last_map map_is_Nil_conv)
  then show "map severity (diagnostics (fst (bebop__schema_diag_add_label s ctx sp m))) = map severity (diagnostics s)"
    by (auto simp: bebop__schema_diag_add_label_def Let_def map_butlast split: prod.splits option.splits)
qed (auto simp: bebop__schema_diag_add_label_def Let_def split: prod.splits option.splits)

lemma add_label_length: "length (diagnostics (fst (bebop__schema_diag_add_label s ctx sp m))) = length (diagnostics s)"
  using arg_cong [OF add_label_severities(1), of length s ctx sp m] by simp

lemma reported_map: "reported sev s = length (filter (\<lambda>v. v = sev) (map severity (diagnostics s)))"
  by (simp add: reported_def filter_map comp_def)

lemma diag_step_ok:
  assumes "schema_ok s"
  shows "schema_ok (fst (diag_step c (s, ctx)))"
proof (cases c)
  case (Add_Label sp m)
  note l = add_label_severities [of s ctx sp m]
  show ?thesis
    using assms Add_Label l add_label_length [of s ctx sp m] by (simp add: schema_ok_def reported_map)
next
  case (Add_Diagnostic loc msg hnt)
  have "length (diagnostics s) \<le> diagnostic_capacity s"
    using assms by (simp add: schema_ok_def)
  then show ?thesis
  proof (cases rule: add_diagnostic_cases [of s ctx loc msg hnt])
    case same
    then show ?thesis
      using assms Add_Diagnostic by simp
  next
    case (more d cap)
    have "unat (error_count s) < 100" "unat (warning_count s) < 100"
      using assms more(4) reported_bound [of _ s] by (auto simp: schema_ok_def intro: le_less_trans)
    then show ?thesis
      using assms more Add_Diagnostic
      by (cases "loc_severity loc") (auto simp: schema_ok_def counted_def BEBOP_MAX_DIAGNOSTICS_def reported_def unat_suc)
  qed
qed

lemma diag_run_ok: "schema_ok (fst p) \<Longrightarrow> schema_ok (fst (fold diag_step cs p))"
proof (induction cs arbitrary: p)
  case (Cons c cs)
  then show ?case
    using diag_step_ok [of "fst p" c "snd p"] by simp
qed simp

definition fresh_schema :: "nat option \<Rightarrow> bebop_schema" where
  "fresh_schema p = \<lparr>schema_path = p, diagnostics = [], diagnostic_capacity = 0, error_count = 0, warning_count = 0\<rparr>"

text \<open>
  C33: the diagnostics of a schema. After any sequence of calls on a fresh schema at most a hundred diagnostics are stored, within the
  capacity of the array, and the two counters are the numbers of errors and warnings among them.
\<close>

theorem diagnostics_counted:
  fixes cs p ctx
  defines "s \<equiv> fst (fold diag_step cs (fresh_schema p, ctx))"
  shows "length (diagnostics s) \<le> 100 \<and> length (diagnostics s) \<le> diagnostic_capacity s \<and>
    unat (error_count s) = length (filter (\<lambda>d. severity d = BEBOP_DIAG_ERROR) (diagnostics s)) \<and>
    unat (warning_count s) = length (filter (\<lambda>d. severity d = BEBOP_DIAG_WARNING) (diagnostics s))"
proof -
  have "schema_ok s"
    unfolding s_def by (rule diag_run_ok) (simp add: schema_ok_def fresh_schema_def reported_def)
  then show ?thesis
    by (simp add: schema_ok_def reported_def BEBOP_MAX_DIAGNOSTICS_def)
qed

text \<open>
  C35: an error can go uncounted. When a schema has a hundred diagnostics, an error that is reported after them is neither stored
  nor counted, so a schema whose first hundred diagnostics are warnings has no errors, whatever follows; the
  compiler decides by the counter whether it succeeds.
\<close>

theorem late_errors_lost:
  assumes "length (diagnostics s) = BEBOP_MAX_DIAGNOSTICS" "\<forall>d\<in>set (diagnostics s). severity d = BEBOP_DIAG_WARNING" "schema_ok s"
  shows "error_count (fst (fold diag_step cs (s, ctx))) = 0"
proof -
  have "length (diagnostics (fst (fold diag_step cs p))) = 100 \<and> error_count (fst (fold diag_step cs p)) = error_count (fst p)"
    if "length (diagnostics (fst p)) = 100" for p :: "bebop_schema \<times> 'a bebop_context"
    using that
  proof (induction cs arbitrary: p)
    case (Cons c cs)
    have "length (diagnostics (fst (diag_step c p))) = 100 \<and> error_count (fst (diag_step c p)) = error_count (fst p)"
    proof (cases c)
      case (Add_Diagnostic loc msg hnt)
      then show ?thesis
        using Cons.prems by (cases p) (simp add: bebop__schema_add_diagnostic_def BEBOP_MAX_DIAGNOSTICS_def)
    next
      case (Add_Label sp m)
      then show ?thesis
        using Cons.prems by (cases p) (simp add: add_label_severities(3) add_label_length)
    qed
    then show ?case
      using Cons.IH [of "diag_step c p"] by simp
  qed simp
  moreover have "error_count s = 0"
    using assms(2,3) by (simp add: schema_ok_def reported_def filter_False unat_eq_0)
  ultimately show ?thesis
    using assms(1) by (simp add: BEBOP_MAX_DIAGNOSTICS_def)
qed

definition example_warnings :: bebop_schema where
  "example_warnings =
     (let w = \<lparr>severity = BEBOP_DIAG_WARNING, code = 200, diag_span = \<lparr>off = 0, len = 1, start_line = 1, start_col = 1, end_line = 1, end_col = 2\<rparr>,
               diag_path = None, message = None, hint = None, labels = []\<rparr>
      in \<lparr>schema_path = None, diagnostics = replicate 100 w, diagnostic_capacity = 128, error_count = 0, warning_count = 100\<rparr>)"

definition example_error :: bebop__diag_loc where
  "example_error = \<lparr>loc_severity = BEBOP_DIAG_ERROR, loc_code = 104, loc_span = \<lparr>off = 2, len = 1, start_line = 1, start_col = 3, end_line = 1, end_col = 4\<rparr>\<rparr>"

theorem late_errors_lost_witness:
  "error_count (fst (fold diag_step [Add_Diagnostic example_error [69] None]
     (example_warnings, \<lparr>intern = example_intern, last_error = BEBOP_ERR_NONE, error_message = None\<rparr>))) = 0"
proof (rule late_errors_lost)
  show "length (diagnostics example_warnings) = BEBOP_MAX_DIAGNOSTICS"
    by (simp add: example_warnings_def Let_def BEBOP_MAX_DIAGNOSTICS_def)
  show "\<forall>d\<in>set (diagnostics example_warnings). severity d = BEBOP_DIAG_WARNING"
    by (simp add: example_warnings_def Let_def)
  show "schema_ok example_warnings"
    by (simp add: schema_ok_def reported_def example_warnings_def Let_def BEBOP_MAX_DIAGNOSTICS_def filter_True)
qed

end
