(* ===== verification/Schema_Cursor.thy ===== *)
theory Schema_Cursor
  imports Schema_Diagnostics "HOL-Library.Monad_Syntax"
begin

text \<open>
  The scanner of the schema language, first part, from \<^verbatim>\<open>bebop/src/bebop_scanner.c\<close>: tokens, the cursor, trivia, words and numbers, with the keywords of \<^verbatim>\<open>bebop/src/bebop_tables.h\<close> and the
  character classes of \<^verbatim>\<open>bebop/src/bebop.c\<close>. The source with its length is a byte list. The buffers of trivia, tokens and string
  contents are the lists of their elements with their capacities, and the address of the trivia buffer, which is resized;
  their counts are the lengths of the lists, which stay below the length of the source. A result of
  \<^term>\<open>None\<close> stands for a loop that does not end or a program that the vendored map of the string table stops.
\<close>

section \<open>Tokens\<close>

datatype bebop_token_kind =
    BEBOP_TOKEN_ENUM | BEBOP_TOKEN_STRUCT | BEBOP_TOKEN_MESSAGE | BEBOP_TOKEN_MUT | BEBOP_TOKEN_READONLY | BEBOP_TOKEN_MAP
  | BEBOP_TOKEN_ARRAY | BEBOP_TOKEN_UNION | BEBOP_TOKEN_SERVICE | BEBOP_TOKEN_STREAM | BEBOP_TOKEN_IMPORT | BEBOP_TOKEN_EDITION
  | BEBOP_TOKEN_PACKAGE | BEBOP_TOKEN_EXPORT | BEBOP_TOKEN_LOCAL | BEBOP_TOKEN_TRUE | BEBOP_TOKEN_FALSE | BEBOP_TOKEN_CONST
  | BEBOP_TOKEN_WITH | BEBOP_TOKEN_IDENTIFIER | BEBOP_TOKEN_STRING | BEBOP_TOKEN_BYTES | BEBOP_TOKEN_NUMBER
  | BEBOP_TOKEN_BLOCK_COMMENT | BEBOP_TOKEN_LPAREN | BEBOP_TOKEN_RPAREN | BEBOP_TOKEN_LBRACE | BEBOP_TOKEN_RBRACE
  | BEBOP_TOKEN_LBRACKET | BEBOP_TOKEN_RBRACKET | BEBOP_TOKEN_LANGLE | BEBOP_TOKEN_RANGLE | BEBOP_TOKEN_COLON
  | BEBOP_TOKEN_SEMICOLON | BEBOP_TOKEN_COMMA | BEBOP_TOKEN_DOT | BEBOP_TOKEN_QUESTION | BEBOP_TOKEN_SLASH | BEBOP_TOKEN_EQUALS
  | BEBOP_TOKEN_AT | BEBOP_TOKEN_DOLLAR | BEBOP_TOKEN_BACKSLASH | BEBOP_TOKEN_BACKTICK | BEBOP_TOKEN_TILDE
  | BEBOP_TOKEN_AMPERSAND | BEBOP_TOKEN_PIPE | BEBOP_TOKEN_MINUS | BEBOP_TOKEN_ARROW | BEBOP_TOKEN_HASH | BEBOP_TOKEN_BANG
  | BEBOP_TOKEN_RAW_BLOCK | BEBOP_TOKEN_EOF | BEBOP_TOKEN_ERROR

datatype bebop_trivia_kind =
    BEBOP_TRIVIA_WHITESPACE | BEBOP_TRIVIA_NEWLINE | BEBOP_TRIVIA_LINE_COMMENT | BEBOP_TRIVIA_BLOCK_COMMENT
  | BEBOP_TRIVIA_DOC_COMMENT

record bebop_trivia =
  trivia_kind :: bebop_trivia_kind
  trivia_span :: bebop_span

text \<open>A slice of the trivia buffer; the pointer to its first element is the index of the element.\<close>

record bebop_trivia_list =
  items :: "nat option"
  tl_count :: nat
  tl_off :: nat

record bebop_token =
  kind :: bebop_token_kind
  span :: bebop_span
  lexeme :: bebop_str_t
  leading :: bebop_trivia_list
  trailing :: bebop_trivia_list

definition no_trivia :: bebop_trivia_list where
  "no_trivia = \<lparr>items = None, tl_count = 0, tl_off = 0\<rparr>"

definition token :: "bebop_token_kind \<Rightarrow> bebop_span \<Rightarrow> bebop_str_t \<Rightarrow> bebop_token" where
  "token k sp lx = \<lparr>kind = k, span = sp, lexeme = lx, leading = no_trivia, trailing = no_trivia\<rparr>"

definition BEBOP_SPAN_INVALID :: bebop_span where
  "BEBOP_SPAN_INVALID = \<lparr>off = 0, len = 0, start_line = 0, start_col = 0, end_line = 0, end_col = 0\<rparr>"

definition bebop__keywords :: "(string \<times> bebop_token_kind) list" where
  "bebop__keywords =
     [(''enum'', BEBOP_TOKEN_ENUM), (''struct'', BEBOP_TOKEN_STRUCT), (''message'', BEBOP_TOKEN_MESSAGE), (''mut'', BEBOP_TOKEN_MUT),
      (''readonly'', BEBOP_TOKEN_READONLY), (''map'', BEBOP_TOKEN_MAP), (''array'', BEBOP_TOKEN_ARRAY), (''union'', BEBOP_TOKEN_UNION),
      (''service'', BEBOP_TOKEN_SERVICE), (''stream'', BEBOP_TOKEN_STREAM), (''import'', BEBOP_TOKEN_IMPORT),
      (''edition'', BEBOP_TOKEN_EDITION), (''package'', BEBOP_TOKEN_PACKAGE), (''export'', BEBOP_TOKEN_EXPORT),
      (''local'', BEBOP_TOKEN_LOCAL), (''true'', BEBOP_TOKEN_TRUE), (''false'', BEBOP_TOKEN_FALSE), (''const'', BEBOP_TOKEN_CONST),
      (''with'', BEBOP_TOKEN_WITH)]"

fun lookup_keyword_loop :: "(string \<times> bebop_token_kind) list \<Rightarrow> byte list \<Rightarrow> bebop_token_kind" where
  "lookup_keyword_loop [] str = BEBOP_TOKEN_IDENTIFIER"
| "lookup_keyword_loop ((kw, k) # kws) str = (if ascii kw = str then k else lookup_keyword_loop kws str)"

definition bebop__scan_lookup_keyword :: "byte list \<Rightarrow> bebop_token_kind" where
  "bebop__scan_lookup_keyword str = lookup_keyword_loop bebop__keywords str"

section \<open>Characters\<close>

definition BEBOP_IS_DIGIT :: "byte \<Rightarrow> bool" where
  "BEBOP_IS_DIGIT c \<longleftrightarrow> 0x30 \<le> c \<and> c \<le> 0x39"

definition BEBOP_IS_ALPHA :: "byte \<Rightarrow> bool" where
  "BEBOP_IS_ALPHA c \<longleftrightarrow> 0x41 \<le> c \<and> c \<le> 0x5A \<or> 0x61 \<le> c \<and> c \<le> 0x7A"

definition BEBOP_IS_IDENT_START :: "byte \<Rightarrow> bool" where
  "BEBOP_IS_IDENT_START c \<longleftrightarrow> BEBOP_IS_ALPHA c \<or> c = 0x5F"

definition BEBOP_IS_IDENT_CHAR :: "byte \<Rightarrow> bool" where
  "BEBOP_IS_IDENT_CHAR c \<longleftrightarrow> BEBOP_IS_IDENT_START c \<or> BEBOP_IS_DIGIT c"

definition BEBOP_IS_WHITESPACE :: "byte \<Rightarrow> bool" where
  "BEBOP_IS_WHITESPACE c \<longleftrightarrow> c = 0x20 \<or> c = 0x09"

definition BEBOP_IS_NEWLINE :: "byte \<Rightarrow> bool" where
  "BEBOP_IS_NEWLINE c \<longleftrightarrow> c = 0x0A \<or> c = 0x0D"

section \<open>The scanner\<close>

record 'm bebop__scanner =
  source :: "byte list"
  pos :: nat
  line :: u32
  col :: u32
  ctx :: "'m bebop_context"
  schema :: "bebop_schema option"
  trivia :: "bebop_trivia list"
  trivia_buf :: "nat option"
  trivia_capacity :: nat
  error :: bebop_error

definition bebop__scan_peek_char :: "'m bebop__scanner \<Rightarrow> byte" where
  "bebop__scan_peek_char s = (if pos s \<ge> length (source s) then 0 else source s ! pos s)"

definition bebop__scan_peek_char_at :: "'m bebop__scanner \<Rightarrow> nat \<Rightarrow> byte" where
  "bebop__scan_peek_char_at s offset = (if pos s + offset \<ge> length (source s) then 0 else source s ! (pos s + offset))"

definition bebop__scan_advance :: "'m bebop__scanner \<Rightarrow> 'm bebop__scanner" where
  "bebop__scan_advance s =
     (if pos s \<ge> length (source s) then s
      else
        let c = source s ! pos s
        in if c = 0x0A then s\<lparr>line := line s + 1, col := 1, pos := pos s + 1\<rparr>
           else if c = 0x0D then
             let s = s\<lparr>line := line s + 1, col := 1, pos := pos s + 1\<rparr>
             in if pos s < length (source s) \<and> source s ! pos s = 0x0A then s\<lparr>pos := pos s + 1\<rparr> else s
           else s\<lparr>col := col s + 1, pos := pos s + 1\<rparr>)"

definition bebop__scan_make_span :: "'m bebop__scanner \<Rightarrow> nat \<Rightarrow> u32 \<Rightarrow> u32 \<Rightarrow> bebop_span" where
  "bebop__scan_make_span s start_pos line0 col0 =
     \<lparr>off = of_nat start_pos, len = of_nat (pos s - start_pos), start_line = line0, start_col = col0, end_line = line s, end_col = col s\<rparr>"

text \<open>The span from an earlier state of the scanner to the current one.\<close>

definition span_from :: "'m bebop__scanner \<Rightarrow> 'm bebop__scanner \<Rightarrow> bebop_span" where
  "span_from s0 s = bebop__scan_make_span s (pos s0) (line s0) (col s0)"

definition BEBOP_TRIVIA_INITIAL_CAPACITY :: nat where
  "BEBOP_TRIVIA_INITIAL_CAPACITY = 8"

definition SIZEOF_TRIVIA :: nat where
  "SIZEOF_TRIVIA = 28"

definition SIZEOF_TOKEN :: nat where
  "SIZEOF_TOKEN = 64"

definition scan_fail :: "'m bebop__scanner \<Rightarrow> string \<Rightarrow> 'm bebop__scanner" where
  "scan_fail s msg =
     s\<lparr>error := BEBOP_ERR_OUT_OF_MEMORY, ctx := bebop__context_set_error (ctx s) BEBOP_ERR_OUT_OF_MEMORY (Some msg)\<rparr>"

definition bebop__scan_trivia_push :: "'m bebop__scanner \<Rightarrow> bebop_trivia_kind \<Rightarrow> bebop_span \<Rightarrow> 'm bebop__scanner" where
  "bebop__scan_trivia_push s k sp =
     (if error s \<noteq> BEBOP_ERR_NONE then s
      else
        let push = (\<lambda>s. s\<lparr>trivia := trivia s @ [\<lparr>trivia_kind = k, trivia_span = sp\<rparr>]\<rparr>)
        in if length (trivia s) \<ge> trivia_capacity s
           then
             let old_cap = trivia_capacity s;
                 new_cap = (if old_cap = 0 then BEBOP_TRIVIA_INITIAL_CAPACITY else old_cap * 2 mod 2 ^ 32)
             in case on_arena (\<lambda>a. bebop_arena_realloc a (trivia_buf s) (old_cap * SIZEOF_TRIVIA) (new_cap * SIZEOF_TRIVIA)) (ctx s) of
                  (None, c) \<Rightarrow> scan_fail (s\<lparr>ctx := c\<rparr>) ''Failed to allocate trivia buffer''
                | (Some p, c) \<Rightarrow> push (s\<lparr>ctx := c, trivia_buf := Some p, trivia_capacity := new_cap\<rparr>)
           else push s)"

definition bebop__scan_trivia_slice :: "'m bebop__scanner \<Rightarrow> nat \<Rightarrow> bebop_trivia_list" where
  "bebop__scan_trivia_slice s mark = \<lparr>items = None, tl_count = length (trivia s) - mark, tl_off = mark\<rparr>"

definition scan_report :: "'m bebop__scanner \<Rightarrow> u32 \<Rightarrow> bebop_span \<Rightarrow> byte list \<Rightarrow> 'm bebop__scanner" where
  "scan_report s cd sp msg =
     (case schema s of
        None \<Rightarrow> s
      | Some sch \<Rightarrow>
          (case bebop__schema_add_diagnostic sch (ctx s) \<lparr>loc_severity = BEBOP_DIAG_ERROR, loc_code = cd, loc_span = sp\<rparr> msg None of
             (sch, c) \<Rightarrow> s\<lparr>schema := Some sch, ctx := c\<rparr>))"

definition BEBOP_DIAG_UNTERMINATED_COMMENT :: u32 where
  "BEBOP_DIAG_UNTERMINATED_COMMENT = 125"

definition BEBOP_DIAG_INVALID_ESCAPE :: u32 where
  "BEBOP_DIAG_INVALID_ESCAPE = 126"

definition BEBOP_DIAG_INVALID_MACRO :: u32 where
  "BEBOP_DIAG_INVALID_MACRO = 143"

definition BEBOP_DIAG_INVALID_UTF8 :: u32 where
  "BEBOP_DIAG_INVALID_UTF8 = 148"

section \<open>Moving over the source\<close>

lemma advance_source [simp]: "source (bebop__scan_advance s) = source s"
  by (simp add: bebop__scan_advance_def Let_def)

lemma advance_pos: "pos s < length (source s) \<Longrightarrow> pos s < pos (bebop__scan_advance s) \<and> pos (bebop__scan_advance s) \<le> length (source s)"
  by (auto simp: bebop__scan_advance_def Let_def)

lemma advance_less [termination_simp]:
  "pos s < length (source s) \<Longrightarrow> length (source s) - pos (bebop__scan_advance s) < length (source s) - pos s"
  using advance_pos [of s] by auto

text \<open>
  The loop that advances while the next character is of a class. At the end of the source the next character is
  zero, which is in none of the classes of the code, so the loop ends there.
\<close>

function scan_while :: "(byte \<Rightarrow> bool) \<Rightarrow> 'm bebop__scanner \<Rightarrow> 'm bebop__scanner" where
  "scan_while P s =
     (if pos s < length (source s) \<and> P (bebop__scan_peek_char s) then scan_while P (bebop__scan_advance s) else s)"
  by pat_completeness auto

termination
  by (relation "measure (\<lambda>(P, s). length (source s) - pos s)") (auto simp: advance_less)

declare scan_while.simps [simp del]

definition scan_advance_n :: "nat \<Rightarrow> 'm bebop__scanner \<Rightarrow> 'm bebop__scanner" where
  "scan_advance_n n s = (bebop__scan_advance ^^ n) s"

section \<open>Trivia\<close>

definition bebop__scan_skip_whitespace :: "'m bebop__scanner \<Rightarrow> 'm bebop__scanner" where
  "bebop__scan_skip_whitespace s0 =
     (let s = scan_while BEBOP_IS_WHITESPACE s0
      in if pos s > pos s0 then bebop__scan_trivia_push s BEBOP_TRIVIA_WHITESPACE (span_from s0 s) else s)"

definition bebop__scan_skip_newline :: "'m bebop__scanner \<Rightarrow> bool \<times> 'm bebop__scanner" where
  "bebop__scan_skip_newline s0 =
     (if \<not> BEBOP_IS_NEWLINE (bebop__scan_peek_char s0) then (False, s0)
      else
        let s = bebop__scan_advance s0
        in (True, bebop__scan_trivia_push s BEBOP_TRIVIA_NEWLINE (span_from s0 s)))"

definition bebop__scan_skip_line_comment :: "'m bebop__scanner \<Rightarrow> bool \<times> 'm bebop__scanner" where
  "bebop__scan_skip_line_comment s0 =
     (if bebop__scan_peek_char s0 \<noteq> 0x2F \<or> bebop__scan_peek_char_at s0 1 \<noteq> 0x2F then (False, s0)
      else
        let is_doc = (bebop__scan_peek_char_at s0 2 = 0x2F);
            s = bebop__scan_advance (bebop__scan_advance s0);
            s = scan_while (\<lambda>c. c \<noteq> 0 \<and> \<not> BEBOP_IS_NEWLINE c) s
        in (True, bebop__scan_trivia_push s (if is_doc then BEBOP_TRIVIA_DOC_COMMENT else BEBOP_TRIVIA_LINE_COMMENT) (span_from s0 s)))"

text \<open>The body of a block comment: whether its end was found, and the scanner after it.\<close>

function block_comment_loop :: "'m bebop__scanner \<Rightarrow> bool \<times> 'm bebop__scanner" where
  "block_comment_loop s =
     (if pos s < length (source s) \<and> bebop__scan_peek_char s \<noteq> 0
      then if bebop__scan_peek_char s = 0x2A \<and> bebop__scan_peek_char_at s 1 = 0x2F
           then (True, bebop__scan_advance (bebop__scan_advance s))
           else block_comment_loop (bebop__scan_advance s)
      else (False, s))"
  by pat_completeness auto

termination
  by (relation "measure (\<lambda>s. length (source s) - pos s)") (auto simp: advance_less)

declare block_comment_loop.simps [simp del]

definition bebop__scan_skip_block_comment :: "'m bebop__scanner \<Rightarrow> bool \<times> 'm bebop__scanner" where
  "bebop__scan_skip_block_comment s0 =
     (if bebop__scan_peek_char s0 \<noteq> 0x2F \<or> bebop__scan_peek_char_at s0 1 \<noteq> 0x2A then (False, s0)
      else
        let is_doc = (bebop__scan_peek_char_at s0 2 = 0x2A \<and> bebop__scan_peek_char_at s0 3 \<noteq> 0x2F)
        in case block_comment_loop (bebop__scan_advance (bebop__scan_advance s0)) of
             (found, s) \<Rightarrow>
               let s' = (if found then s else scan_report s BEBOP_DIAG_UNTERMINATED_COMMENT (span_from s0 s) (ascii ''Unterminated block comment''))
               in (True, bebop__scan_trivia_push s' (if is_doc then BEBOP_TRIVIA_DOC_COMMENT else BEBOP_TRIVIA_BLOCK_COMMENT)
                     (span_from s0 s')))"

text \<open>What the operations leave alone, and that each piece of trivia moves the scanner.\<close>

lemma set_error_intern: "\<exists>a. intern (bebop__context_set_error c e m) = (intern c)\<lparr>iarena := a\<rparr>"
proof (cases m)
  case None
  then show ?thesis
    by (intro exI [of _ "iarena (intern c)"]) (simp add: bebop__context_set_error_def)
next
  case (Some msg)
  then show ?thesis
    by (auto simp: bebop__context_set_error_def on_arena_def split: prod.splits)
qed

lemma scan_fail_simps [simp]:
  "source (scan_fail s m) = source s" "pos (scan_fail s m) = pos s" "line (scan_fail s m) = line s" "col (scan_fail s m) = col s"
  "trivia (scan_fail s m) = trivia s" "schema (scan_fail s m) = schema s" "error (scan_fail s m) = BEBOP_ERR_OUT_OF_MEMORY"
  by (simp_all add: scan_fail_def)

lemma trivia_push_simps [simp]:
  "source (bebop__scan_trivia_push s k sp) = source s" "pos (bebop__scan_trivia_push s k sp) = pos s"
  "line (bebop__scan_trivia_push s k sp) = line s" "col (bebop__scan_trivia_push s k sp) = col s"
  "schema (bebop__scan_trivia_push s k sp) = schema s"
  by (auto simp: bebop__scan_trivia_push_def Let_def split: prod.splits option.splits)

lemma scan_report_simps [simp]:
  "source (scan_report s c sp m) = source s" "pos (scan_report s c sp m) = pos s" "line (scan_report s c sp m) = line s"
  "col (scan_report s c sp m) = col s" "trivia (scan_report s c sp m) = trivia s" "error (scan_report s c sp m) = error s"
  by (auto simp: scan_report_def split: prod.splits option.splits)

lemma advance_pos_le: "pos s \<le> pos (bebop__scan_advance s)"
  by (auto simp: bebop__scan_advance_def Let_def)

lemma scan_while_moves: "source (scan_while P s) = source s \<and> pos s \<le> pos (scan_while P s)"
proof (induction P s rule: scan_while.induct)
  case (1 P s)
  then show ?case
    using advance_pos_le [of s] by (subst (1 2) scan_while.simps) (auto intro: le_trans)
qed

lemma block_comment_loop_moves:
  "source (snd (block_comment_loop s)) = source s \<and> pos s \<le> pos (snd (block_comment_loop s))"
proof (induction s rule: block_comment_loop.induct)
  case (1 s)
  then show ?case
    using advance_pos_le [of s] advance_pos_le [of "bebop__scan_advance s"]
    by (subst (1 2) block_comment_loop.simps) (auto intro: le_trans)
qed

lemma skip_whitespace_moves:
  "source (bebop__scan_skip_whitespace s) = source s \<and> pos s \<le> pos (bebop__scan_skip_whitespace s)"
  using scan_while_moves [of BEBOP_IS_WHITESPACE s] by (simp add: bebop__scan_skip_whitespace_def Let_def)

lemma peek_in_source: "bebop__scan_peek_char s \<noteq> 0 \<Longrightarrow> pos s < length (source s)"
  by (auto simp: bebop__scan_peek_char_def split: if_splits)

lemma newline_zero [simp]: "\<not> BEBOP_IS_NEWLINE 0"
  by (simp add: BEBOP_IS_NEWLINE_def)

lemma skip_newline_moves:
  assumes "fst (bebop__scan_skip_newline s)"
  shows "source (snd (bebop__scan_skip_newline s)) = source s \<and> pos s < length (source s) \<and> pos s < pos (snd (bebop__scan_skip_newline s))"
proof -
  have "bebop__scan_peek_char s \<noteq> 0"
    using assms by (auto simp: bebop__scan_skip_newline_def split: if_splits)
  then show ?thesis
    using assms advance_pos [OF peek_in_source, of s] peek_in_source [of s]
    by (auto simp: bebop__scan_skip_newline_def Let_def split: if_splits)
qed

lemma skip_line_comment_moves:
  assumes "fst (bebop__scan_skip_line_comment s)"
  shows "source (snd (bebop__scan_skip_line_comment s)) = source s \<and> pos s < length (source s) \<and> pos s < pos (snd (bebop__scan_skip_line_comment s))"
proof -
  have p: "pos s < length (source s)"
    using assms peek_in_source [of s] by (auto simp: bebop__scan_skip_line_comment_def split: if_splits)
  have "pos s < pos (scan_while (\<lambda>c. c \<noteq> 0 \<and> \<not> BEBOP_IS_NEWLINE c) (bebop__scan_advance (bebop__scan_advance s)))"
    using advance_pos [OF p] advance_pos_le [of "bebop__scan_advance s"]
      scan_while_moves [of "\<lambda>c. c \<noteq> 0 \<and> \<not> BEBOP_IS_NEWLINE c" "bebop__scan_advance (bebop__scan_advance s)"] by linarith
  then show ?thesis
    using assms p scan_while_moves [of "\<lambda>c. c \<noteq> 0 \<and> \<not> BEBOP_IS_NEWLINE c" "bebop__scan_advance (bebop__scan_advance s)"]
    by (auto simp: bebop__scan_skip_line_comment_def Let_def split: if_splits)
qed

lemma skip_block_comment_moves:
  assumes "fst (bebop__scan_skip_block_comment s)"
  shows "source (snd (bebop__scan_skip_block_comment s)) = source s \<and> pos s < length (source s) \<and> pos s < pos (snd (bebop__scan_skip_block_comment s))"
proof -
  have p: "pos s < length (source s)"
    using assms peek_in_source [of s] by (auto simp: bebop__scan_skip_block_comment_def split: if_splits)
  obtain f s' where l: "block_comment_loop (bebop__scan_advance (bebop__scan_advance s)) = (f, s')"
    by (cases "block_comment_loop (bebop__scan_advance (bebop__scan_advance s))")
  have "source s' = source s" "pos s < pos s'"
    using advance_pos [OF p] advance_pos_le [of "bebop__scan_advance s"]
      block_comment_loop_moves [of "bebop__scan_advance (bebop__scan_advance s)"] by (simp_all add: l)
  then show ?thesis
    using assms p by (auto simp: bebop__scan_skip_block_comment_def Let_def l split: if_splits)
qed

lemma skip_less:
  assumes "source s' = source s" "pos s \<le> pos s'" "source t = source s' \<and> pos s' < length (source s') \<and> pos s' < pos t"
  shows "length (source t) - pos t < length (source s) - pos s"
  using assms by auto

lemmas skip_trivia_less = skip_less [OF skip_whitespace_moves [THEN conjunct1] skip_whitespace_moves [THEN conjunct2]]

function bebop__scan_skip_leading_trivia :: "'m bebop__scanner \<Rightarrow> 'm bebop__scanner" where
  "bebop__scan_skip_leading_trivia s0 =
     (let s = bebop__scan_skip_whitespace s0
      in if fst (bebop__scan_skip_newline s) then bebop__scan_skip_leading_trivia (snd (bebop__scan_skip_newline s))
         else if fst (bebop__scan_skip_line_comment s) then bebop__scan_skip_leading_trivia (snd (bebop__scan_skip_line_comment s))
         else if fst (bebop__scan_skip_block_comment s) then bebop__scan_skip_leading_trivia (snd (bebop__scan_skip_block_comment s))
         else s)"
  by pat_completeness auto

termination
  by (relation "measure (\<lambda>s. length (source s) - pos s)")
    (auto intro: skip_trivia_less [OF skip_newline_moves] skip_trivia_less [OF skip_line_comment_moves] skip_trivia_less [OF skip_block_comment_moves])

declare bebop__scan_skip_leading_trivia.simps [simp del]

text \<open>The trivia after a token end with the line.\<close>

function trailing_trivia_loop :: "'m bebop__scanner \<Rightarrow> 'm bebop__scanner" where
  "trailing_trivia_loop s0 =
     (let s = bebop__scan_skip_whitespace s0
      in if fst (bebop__scan_skip_line_comment s) then trailing_trivia_loop (snd (bebop__scan_skip_line_comment s))
         else if fst (bebop__scan_skip_block_comment s) then trailing_trivia_loop (snd (bebop__scan_skip_block_comment s))
         else snd (bebop__scan_skip_newline s))"
  by pat_completeness auto

termination
  by (relation "measure (\<lambda>s. length (source s) - pos s)")
    (auto intro: skip_trivia_less [OF skip_line_comment_moves] skip_trivia_less [OF skip_block_comment_moves])

declare trailing_trivia_loop.simps [simp del]

definition bebop__scan_collect_trailing_trivia :: "'m bebop__scanner \<Rightarrow> bebop_trivia_list \<times> 'm bebop__scanner" where
  "bebop__scan_collect_trailing_trivia s0 =
     (let mark = length (trivia s0); s = trailing_trivia_loop s0 in (bebop__scan_trivia_slice s mark, s))"

section \<open>Words and numbers\<close>

text \<open>A lexeme, interned in the string table of the context.\<close>

definition scan_intern :: "'m bebop_internmap \<Rightarrow> 'm bebop__scanner \<Rightarrow> byte list \<Rightarrow> (bebop_str_t \<times> 'm bebop__scanner) option" where
  "scan_intern im s str =
     (case bebop_intern_n im (intern (ctx s)) (Some str) of
        None \<Rightarrow> None
      | Some (h, t) \<Rightarrow> Some (h, s\<lparr>ctx := (ctx s)\<lparr>intern := t\<rparr>\<rparr>))"

definition slice :: "'m bebop__scanner \<Rightarrow> nat \<Rightarrow> nat \<Rightarrow> byte list" where
  "slice s start n = take n (drop start (source s))"

definition bebop__scan_identifier :: "'m bebop_internmap \<Rightarrow> 'm bebop__scanner \<Rightarrow> (bebop_token \<times> 'm bebop__scanner) option" where
  "bebop__scan_identifier im s0 =
     (let s = scan_while BEBOP_IS_IDENT_CHAR s0;
          str = slice s (pos s0) (pos s - pos s0);
          k = bebop__scan_lookup_keyword str
      in case scan_intern im s str of None \<Rightarrow> None | Some (h, s') \<Rightarrow> Some (token k (span_from s0 s) h, s'))"

function number_loop :: "'m bebop__scanner \<Rightarrow> 'm bebop__scanner" where
  "number_loop s =
     (let c = bebop__scan_peek_char s
      in if pos s < length (source s) \<and> (BEBOP_IS_IDENT_CHAR c \<or> c = 0x2E \<or> c = 0x2D)
         then if c = 0x2D \<and> (let prev = (if pos s > 0 then source s ! (pos s - 1) else 0) in prev \<noteq> 0x65 \<and> prev \<noteq> 0x45) then s
              else number_loop (bebop__scan_advance s)
         else s)"
  by pat_completeness auto

termination
  by (relation "measure (\<lambda>s. length (source s) - pos s)") (auto simp: advance_less)

declare number_loop.simps [simp del]

definition bebop__scan_number :: "'m bebop_internmap \<Rightarrow> 'm bebop__scanner \<Rightarrow> (bebop_token \<times> 'm bebop__scanner) option" where
  "bebop__scan_number im s0 =
     (let s = number_loop s0
      in case scan_intern im s (slice s (pos s0) (pos s - pos s0)) of
           None \<Rightarrow> None
         | Some (h, s') \<Rightarrow> Some (token BEBOP_TOKEN_NUMBER (span_from s0 s) h, s'))"

section \<open>String and bytes literals\<close>

definition bebop__scan_grow_buf :: "'m bebop__scanner \<Rightarrow> nat \<Rightarrow> bool \<times> nat \<times> 'm bebop__scanner" where
  "bebop__scan_grow_buf s buf_cap =
     (let new_cap = (if buf_cap = 0 then 64 else size_wrap (buf_cap * 2))
      in case on_arena (\<lambda>a. bebop__arena_alloc_n a 1 new_cap 1) (ctx s) of
           (None, c) \<Rightarrow> (False, buf_cap, scan_fail (s\<lparr>ctx := c\<rparr>) ''Failed to allocate string buffer'')
         | (Some p, c) \<Rightarrow> (True, new_cap, s\<lparr>ctx := c\<rparr>))"

text \<open>Room for one more byte, and room for the bytes of an escape sequence.\<close>

definition quoted_room :: "'m bebop__scanner \<Rightarrow> byte list \<Rightarrow> nat \<Rightarrow> bool \<times> nat \<times> 'm bebop__scanner" where
  "quoted_room s buf cap = (if length buf \<ge> cap then bebop__scan_grow_buf s cap else (True, cap, s))"

partial_function (option) escape_room :: "nat \<Rightarrow> nat \<Rightarrow> 'm bebop__scanner \<Rightarrow> (nat \<times> 'm bebop__scanner) option" where
  "escape_room need cap s =
     (if need > cap
      then case bebop__scan_grow_buf s cap of (ok, cap, s) \<Rightarrow> (if ok then escape_room need cap s else Some (cap, s))
      else Some (cap, s))"

declare escape_room.simps [code]

text \<open>What a step over a literal leaves alone: the cursor, the trivia and the diagnostics.\<close>

definition still :: "'m bebop__scanner \<Rightarrow> 'm bebop__scanner \<Rightarrow> bool" where
  "still s s' \<longleftrightarrow>
     source s' = source s \<and> pos s' = pos s \<and> line s' = line s \<and> col s' = col s \<and> trivia s' = trivia s \<and> schema s' = schema s \<and>
     (\<exists>a. intern (ctx s') = (intern (ctx s))\<lparr>iarena := a\<rparr>) \<and> (error s \<noteq> BEBOP_ERR_NONE \<longrightarrow> error s' \<noteq> BEBOP_ERR_NONE)"

lemma still_refl: "still s s"
  unfolding still_def by (auto intro: exI [of _ "iarena (intern (ctx s))"])

lemma still_trans: "still s t \<Longrightarrow> still t u \<Longrightarrow> still s u"
  by (auto simp: still_def)

lemma on_arena_intern: "on_arena f c = (r, c') \<Longrightarrow> \<exists>a. intern c' = (intern c)\<lparr>iarena := a\<rparr>"
  by (auto simp: on_arena_def split: prod.splits)

lemma scan_fail_still: "\<exists>a. intern c = (intern (ctx s))\<lparr>iarena := a\<rparr> \<Longrightarrow> still s (scan_fail (s\<lparr>ctx := c\<rparr>) m)"
  using set_error_intern [of c BEBOP_ERR_OUT_OF_MEMORY "Some m"] by (auto simp: still_def) (auto simp: scan_fail_def)

lemma grow_buf_still: "bebop__scan_grow_buf s cap = (ok, cap', s') \<Longrightarrow> still s s'"
  using scan_fail_still [OF on_arena_intern] on_arena_intern
  by (fastforce simp: bebop__scan_grow_buf_def Let_def still_def split: prod.splits option.splits)

lemma quoted_room_still: "quoted_room s buf cap = (ok, cap', s') \<Longrightarrow> still s s'"
  using grow_buf_still still_refl by (fastforce simp: quoted_room_def split: if_splits)

lemma escape_room_still:
  assumes "escape_room need cap s = Some r"
  shows "still s (snd r)"
proof (rule escape_room.raw_induct [where P = "\<lambda>need cap s r. still s (snd r)", OF _ assms])
  fix f :: "nat \<Rightarrow> nat \<Rightarrow> 'a bebop__scanner \<Rightarrow> (nat \<times> 'a bebop__scanner) option" and need cap s r
  assume IH: "\<And>need cap s r. f need cap s = Some r \<Longrightarrow> still s (snd r)"
    and body: "(if cap < need then case bebop__scan_grow_buf s cap of (ok, cap, s) \<Rightarrow> (if ok then f need cap s else Some (cap, s))
      else Some (cap, s)) = Some r"
  obtain ok c t where g: "bebop__scan_grow_buf s cap = (ok, c, t)"
    by (cases "bebop__scan_grow_buf s cap")
  show "still s (snd r)"
    using body IH [of need c t r] grow_buf_still [OF g] g by (auto simp: still_refl intro: still_trans split: if_splits)
qed

end
