(* ===== verification/Schema_Scanner.thy ===== *)
theory Schema_Scanner
  imports Schema_Cursor
begin

text \<open>
  The scanner of the schema language, second part, from \<^verbatim>\<open>bebop/src/bebop_scanner.c\<close>: string and bytes literals, raw blocks and
  punctuation, the next token with its trivia, and the loop that collects the tokens of a source.
\<close>

section \<open>String and bytes literals\<close>

lemma room_less:
  assumes "still s t" "pos s < length (source s)"
  shows "length (source t) - pos (bebop__scan_advance t) < length (source s) - pos s"
  using assms advance_less [of t] by (simp add: still_def)

lemma advance_n_source [simp]: "source (scan_advance_n n s) = source s"
  by (induction n) (simp_all add: scan_advance_n_def)

lemma advance_n_pos: "pos s \<le> pos (scan_advance_n n s)"
proof (induction n)
  case (Suc n)
  then show ?case
    using advance_pos_le [of "scan_advance_n n s"] by (simp add: scan_advance_n_def)
qed (simp add: scan_advance_n_def)

text \<open>
  The contents of a literal. The result says whether the code goes on to skip the literal after a bad escape sequence, and
  has the contents, the capacity of their buffer and the scanner.
\<close>

function quoted_loop :: "byte \<Rightarrow> byte list \<Rightarrow> nat \<Rightarrow> 'm bebop__scanner \<Rightarrow> (bool \<times> byte list \<times> nat \<times> 'm bebop__scanner) option" where
  "quoted_loop quote buf cap s =
     (if bebop__scan_peek_char s = 0 \<or> error s \<noteq> BEBOP_ERR_NONE then Some (False, buf, cap, s)
         else if bebop__scan_peek_char s = quote then
           (if bebop__scan_peek_char_at s 1 = quote
            then
              (case quoted_room (bebop__scan_advance (bebop__scan_advance s)) buf cap of
                 (ok, cap', s') \<Rightarrow> if ok then quoted_loop quote (buf @ [quote]) cap' s' else Some (False, buf, cap', s'))
            else Some (False, buf, cap, bebop__scan_advance s))
         else if bebop__scan_peek_char s = 0x5C then
           (case bebop_unescape_char (Some (drop (pos (bebop__scan_advance s)) (source s))) of
              (consumed, esc_out) \<Rightarrow>
                if consumed = 0
                then Some (True, buf, cap,
                       scan_report (bebop__scan_advance s) BEBOP_DIAG_INVALID_ESCAPE (span_from s (bebop__scan_advance s))
                         (ascii ''Invalid escape sequence''))
                else
                  (case escape_room (length buf + length esc_out) cap (bebop__scan_advance s) of
                     None \<Rightarrow> None
                   | Some (cap', s') \<Rightarrow>
                       if error s' \<noteq> BEBOP_ERR_NONE then Some (False, buf, cap', s')
                       else quoted_loop quote (buf @ esc_out) cap' (scan_advance_n consumed s')))
         else
           (case quoted_room s buf cap of
              (ok, cap', s') \<Rightarrow>
                if ok then quoted_loop quote (buf @ [if BEBOP_IS_NEWLINE (bebop__scan_peek_char s) then 0x0A else bebop__scan_peek_char s]) cap' (bebop__scan_advance s')
                else Some (False, buf, cap', s')))"
  by pat_completeness auto

termination
proof (relation "measure (\<lambda>(quote, buf, cap, s). length (source s) - pos s)", goal_cases)
  case (2 quote buf cap s ok q cap' s')
  have "quoted_room (bebop__scan_advance (bebop__scan_advance s)) buf cap = (ok, cap', s')"
    using 2 by simp
  from quoted_room_still [OF this] show ?case
    using advance_pos [OF peek_in_source, of s] advance_pos_le [of "bebop__scan_advance s"] 2 by (auto simp: still_def)
next
  case (3 quote buf cap s consumed esc_out r cap' s')
  have "escape_room (length buf + length esc_out) cap (bebop__scan_advance s) = Some (cap', s')"
    using 3 by simp
  from escape_room_still [OF this] show ?case
    using advance_pos [OF peek_in_source, of s] advance_n_pos [of s' consumed] 3 by (auto simp: still_def)
next
  case (4 quote buf cap s ok q cap' s')
  have "quoted_room s buf cap = (ok, cap', s')"
    using 4 by simp
  from quoted_room_still [OF this] show ?case
    using room_less [of s s'] peek_in_source [of s] 4 by (auto simp: still_def)
qed simp

declare quoted_loop.simps [simp del]

text \<open>After a bad escape sequence the rest of the literal is skipped.\<close>

function skip_literal_loop :: "byte \<Rightarrow> 'm bebop__scanner \<Rightarrow> 'm bebop__scanner" where
  "skip_literal_loop quote s =
     (if bebop__scan_peek_char s = 0 then s
      else if bebop__scan_peek_char s = quote \<and> bebop__scan_peek_char_at s 1 \<noteq> quote then bebop__scan_advance s
      else skip_literal_loop quote (bebop__scan_advance s))"
  by pat_completeness auto

termination
  by (relation "measure (\<lambda>(quote, s). length (source s) - pos s)") (auto intro!: advance_less peek_in_source simp del: advance_source, auto intro!: advance_less peek_in_source)

declare skip_literal_loop.simps [simp del]

text \<open>The token of a literal that was read: terminated, checked and interned.\<close>

definition quoted_finish ::
  "'m bebop_internmap \<Rightarrow> bool \<Rightarrow> 'm bebop__scanner \<Rightarrow> byte list \<Rightarrow> nat \<Rightarrow> 'm bebop__scanner \<Rightarrow> (bebop_token \<times> 'm bebop__scanner) option" where
  "quoted_finish im is_bytes s0 buf cap s =
     (if error s \<noteq> BEBOP_ERR_NONE then Some (token BEBOP_TOKEN_ERROR (span_from s0 s) BEBOP_STR_NULL, s)
      else
        (case (if length buf \<ge> cap then on_arena (\<lambda>a. bebop__arena_alloc_n a 1 (length buf + 1) 1) (ctx s) else (Some 0, ctx s)) of
           (None, c) \<Rightarrow>
             (let s = scan_fail (s\<lparr>ctx := c\<rparr>) ''Failed to allocate literal buffer''
              in Some (token BEBOP_TOKEN_ERROR (span_from s0 s) BEBOP_STR_NULL, s))
         | (Some p, c) \<Rightarrow>
             (let s = s\<lparr>ctx := c\<rparr>
              in if \<not> is_bytes \<and> length buf > 0 \<and> \<not> bebop_utf8_valid buf
                 then
                   let s = scan_report s BEBOP_DIAG_INVALID_UTF8 (span_from s0 s) (ascii ''Invalid UTF-8 encoding in string literal'')
                   in Some (token BEBOP_TOKEN_ERROR (span_from s0 s) BEBOP_STR_NULL, s)
                 else
                   (case scan_intern im s buf of
                      None \<Rightarrow> None
                    | Some (h, s') \<Rightarrow>
                        Some (token (if is_bytes then BEBOP_TOKEN_BYTES else BEBOP_TOKEN_STRING) (span_from s0 s) h, s')))))"

definition bebop__scan_quoted ::
  "'m bebop_internmap \<Rightarrow> 'm bebop__scanner \<Rightarrow> bool \<Rightarrow> (bebop_token \<times> 'm bebop__scanner) option" where
  "bebop__scan_quoted im s0 is_bytes =
     (let s = (if is_bytes then bebop__scan_advance s0 else s0);
          quote = bebop__scan_peek_char s
      in if is_bytes \<and> quote \<noteq> 0x22 \<and> quote \<noteq> 0x27 then Some (token BEBOP_TOKEN_ERROR (span_from s0 s) BEBOP_STR_NULL, s)
         else
           (case quoted_loop quote [] 0 (bebop__scan_advance s) of
              None \<Rightarrow> None
            | Some (skip, buf, cap, s) \<Rightarrow>
                if skip
                then let s = skip_literal_loop quote s in Some (token BEBOP_TOKEN_ERROR (span_from s0 s) BEBOP_STR_NULL, s)
                else quoted_finish im is_bytes s0 buf cap s))"

section \<open>Raw blocks and punctuation\<close>

function raw_level :: "'m bebop__scanner \<Rightarrow> nat \<Rightarrow> nat" where
  "raw_level s level = (if bebop__scan_peek_char_at s level = 0x3D then raw_level s (level + 1) else level)"
  by pat_completeness auto

termination
  by (relation "measure (\<lambda>(s, level). length (source s) - (pos s + level))") (auto simp: bebop__scan_peek_char_at_def split: if_splits)

declare raw_level.simps [simp del]

function closer_loop :: "'m bebop__scanner \<Rightarrow> nat \<Rightarrow> nat \<Rightarrow> nat" where
  "closer_loop s level match =
     (if match \<le> level \<and> bebop__scan_peek_char_at s match = 0x3D then closer_loop s level (match + 1) else match)"
  by pat_completeness auto

termination
  by (relation "measure (\<lambda>(s, level, match). level + 1 - match)") auto

declare closer_loop.simps [simp del]

definition at_closer :: "'m bebop__scanner \<Rightarrow> nat \<Rightarrow> bool" where
  "at_closer s level \<longleftrightarrow>
     bebop__scan_peek_char s = 0x5D \<and>
     (let match = closer_loop s level 1 in match = level + 1 \<and> bebop__scan_peek_char_at s match = 0x5D)"

text \<open>The contents of a raw block: whether its closing brackets were found, and the scanner before them.\<close>

function raw_block_loop :: "nat \<Rightarrow> 'm bebop__scanner \<Rightarrow> bool \<times> 'm bebop__scanner" where
  "raw_block_loop level s =
     (if bebop__scan_peek_char s = 0 then (False, s)
      else if at_closer s level then (True, s)
      else raw_block_loop level (bebop__scan_advance s))"
  by pat_completeness auto

termination
  by (relation "measure (\<lambda>(level, s). length (source s) - pos s)") (auto intro!: advance_less peek_in_source)

declare raw_block_loop.simps [simp del]

text \<open>The brackets that were expected, as far as the message shows them.\<close>

definition raw_closer :: "nat \<Rightarrow> string" where
  "raw_closer level = '']'' @ replicate (min level 37) CHR ''='' @ '']''"

definition scan_bracket ::
  "'m bebop_internmap \<Rightarrow> 'm bebop__scanner \<Rightarrow> 'm bebop__scanner \<Rightarrow> (bebop_token \<times> 'm bebop__scanner) option" where
  "scan_bracket im s0 s =
     (let level = raw_level s 0
      in if bebop__scan_peek_char_at s level = 0x5B
         then
           let s = scan_advance_n (level + 1) s; content_start = pos s
           in case raw_block_loop level s of
                (True, s) \<Rightarrow>
                  (let content_len = pos s - content_start;
                       s = scan_advance_n (level + 2) s
                   in case scan_intern im s (slice s content_start content_len) of
                        None \<Rightarrow> None
                      | Some (h, s') \<Rightarrow> Some (token BEBOP_TOKEN_RAW_BLOCK (span_from s0 s) h, s'))
              | (False, s) \<Rightarrow>
                  (let s = scan_report s BEBOP_DIAG_INVALID_MACRO (span_from s0 s)
                             (ascii (''Unterminated raw block: expected '' @ [CHR 0x27] @ raw_closer level @ [CHR 0x27]))
                   in Some (token BEBOP_TOKEN_ERROR (span_from s0 s) BEBOP_STR_NULL, s))
         else Some (token BEBOP_TOKEN_LBRACKET (span_from s0 s) BEBOP_STR_NULL, s))"

definition punctuation :: "(byte \<times> bebop_token_kind) list" where
  "punctuation =
     [(0x28, BEBOP_TOKEN_LPAREN), (0x29, BEBOP_TOKEN_RPAREN), (0x7B, BEBOP_TOKEN_LBRACE), (0x7D, BEBOP_TOKEN_RBRACE),
      (0x5D, BEBOP_TOKEN_RBRACKET), (0x3C, BEBOP_TOKEN_LANGLE), (0x3E, BEBOP_TOKEN_RANGLE), (0x3A, BEBOP_TOKEN_COLON),
      (0x3B, BEBOP_TOKEN_SEMICOLON), (0x2C, BEBOP_TOKEN_COMMA), (0x2E, BEBOP_TOKEN_DOT), (0x3F, BEBOP_TOKEN_QUESTION),
      (0x2F, BEBOP_TOKEN_SLASH), (0x3D, BEBOP_TOKEN_EQUALS), (0x40, BEBOP_TOKEN_AT), (0x23, BEBOP_TOKEN_HASH),
      (0x21, BEBOP_TOKEN_BANG), (0x24, BEBOP_TOKEN_DOLLAR), (0x5C, BEBOP_TOKEN_BACKSLASH), (0x60, BEBOP_TOKEN_BACKTICK),
      (0x7E, BEBOP_TOKEN_TILDE), (0x26, BEBOP_TOKEN_AMPERSAND), (0x7C, BEBOP_TOKEN_PIPE)]"

text \<open>The token of a character that starts no word, number or literal; \<open>s0\<close> stands before it and \<open>s\<close> after it.\<close>

definition scan_symbol ::
  "'m bebop_internmap \<Rightarrow> 'm bebop__scanner \<Rightarrow> 'm bebop__scanner \<Rightarrow> byte \<Rightarrow> (bebop_token \<times> 'm bebop__scanner) option" where
  "scan_symbol im s0 s c =
     (if c = 0x5B then scan_bracket im s0 s
      else if c = 0x2D then
        (if bebop__scan_peek_char s = 0x3E
         then let s = bebop__scan_advance s in Some (token BEBOP_TOKEN_ARROW (span_from s0 s) BEBOP_STR_NULL, s)
         else Some (token BEBOP_TOKEN_MINUS (span_from s0 s) BEBOP_STR_NULL, s))
      else
        (case map_of punctuation c of
           Some k \<Rightarrow> Some (token k (span_from s0 s) BEBOP_STR_NULL, s)
         | None \<Rightarrow>
             (case scan_intern im s (slice s (pos s0) 1) of
                None \<Rightarrow> None
              | Some (h, s') \<Rightarrow> Some (token BEBOP_TOKEN_ERROR (span_from s0 s) h, s'))))"

definition bebop__scan_token :: "'m bebop_internmap \<Rightarrow> 'm bebop__scanner \<Rightarrow> (bebop_token \<times> 'm bebop__scanner) option" where
  "bebop__scan_token im s =
     (let c = bebop__scan_peek_char s
      in if c = 0 then Some (token BEBOP_TOKEN_EOF (span_from s s) BEBOP_STR_NULL, s)
         else if BEBOP_IS_IDENT_START c then
           (if c = 0x62 \<and> (bebop__scan_peek_char_at s 1 = 0x22 \<or> bebop__scan_peek_char_at s 1 = 0x27)
            then bebop__scan_quoted im s True else bebop__scan_identifier im s)
         else if BEBOP_IS_DIGIT c then bebop__scan_number im s
         else if c = 0x22 \<or> c = 0x27 then bebop__scan_quoted im s False
         else scan_symbol im s (bebop__scan_advance s) c)"

section \<open>The token stream\<close>

definition bebop__scan_next :: "'m bebop_internmap \<Rightarrow> 'm bebop__scanner \<Rightarrow> (bebop_token \<times> 'm bebop__scanner) option" where
  "bebop__scan_next im s =
     (if error s \<noteq> BEBOP_ERR_NONE then Some (token BEBOP_TOKEN_EOF BEBOP_SPAN_INVALID BEBOP_STR_NULL, s)
      else
        let leading_mark = length (trivia s);
            s = bebop__scan_skip_leading_trivia s
        in if error s \<noteq> BEBOP_ERR_NONE then Some (token BEBOP_TOKEN_EOF BEBOP_SPAN_INVALID BEBOP_STR_NULL, s)
           else
             let lead = bebop__scan_trivia_slice s leading_mark
             in case bebop__scan_token im s of
                  None \<Rightarrow> None
                | Some (tok, s) \<Rightarrow>
                    let tok = tok\<lparr>leading := lead\<rparr>
                    in if kind tok \<noteq> BEBOP_TOKEN_EOF \<and> error s = BEBOP_ERR_NONE
                       then (case bebop__scan_collect_trailing_trivia s of (trail, s) \<Rightarrow> Some (tok\<lparr>trailing := trail\<rparr>, s))
                       else Some (tok, s))"

text \<open>The buffer of tokens, as the list of its elements, with its address and capacity.\<close>

partial_function (option) scan_loop ::
  "'m bebop_internmap \<Rightarrow> bebop_token list \<Rightarrow> nat option \<Rightarrow> nat \<Rightarrow> 'm bebop__scanner \<Rightarrow> (bebop_token list \<times> 'm bebop__scanner) option" where
  "scan_loop im tokens buf tok_cap s =
     (if error s \<noteq> BEBOP_ERR_NONE then Some (tokens, s)
      else
        (case bebop__scan_next im s of
           None \<Rightarrow> None
         | Some (tok, s) \<Rightarrow>
             (case (if length tokens \<ge> tok_cap
                    then
                      (case on_arena (\<lambda>a. bebop_arena_realloc a buf (tok_cap * SIZEOF_TOKEN) ((tok_cap * 2 mod 2 ^ 32) * SIZEOF_TOKEN)) (ctx s) of
                         (p, c) \<Rightarrow> (p, tok_cap * 2 mod 2 ^ 32, c))
                    else (buf, tok_cap, ctx s)) of
                (p, cap, c) \<Rightarrow>
                  if length tokens \<ge> tok_cap \<and> p = None
                  then Some (tokens, scan_fail (s\<lparr>ctx := c\<rparr>) ''Failed to allocate token buffer'')
                  else if kind tok = BEBOP_TOKEN_EOF then Some (tokens @ [tok], s\<lparr>ctx := c\<rparr>)
                  else scan_loop im (tokens @ [tok]) p cap (s\<lparr>ctx := c\<rparr>))))"

declare scan_loop.simps [code]

text \<open>The slices of trivia get their pointers when the buffer no longer moves.\<close>

definition resolve_list :: "bebop_trivia_list \<Rightarrow> bebop_trivia_list" where
  "resolve_list l = (if tl_count l > 0 then l\<lparr>items := Some (tl_off l)\<rparr> else l)"

definition resolve_token :: "bebop_token \<Rightarrow> bebop_token" where
  "resolve_token tok = tok\<lparr>leading := resolve_list (leading tok), trailing := resolve_list (trailing tok)\<rparr>"

definition bebop__scan_with_schema ::
  "'m bebop_internmap \<Rightarrow> 'm bebop_context \<Rightarrow> byte list \<Rightarrow> bebop_schema option \<Rightarrow> (bebop_token list \<times> 'm bebop__scanner) option" where
  "bebop__scan_with_schema im c src sch =
     (let s = \<lparr>source = src, pos = 0, line = 1, col = 1, ctx = c, schema = sch, trivia = [], trivia_buf = None, trivia_capacity = 0,
               error = BEBOP_ERR_NONE\<rparr>;
          tok_cap = (length src div 4 mod 2 ^ 32 + 16) mod 2 ^ 32
      in case on_arena (\<lambda>a. bebop__arena_alloc_n a SIZEOF_TOKEN tok_cap 8) c of
           (p, c) \<Rightarrow>
             let s = s\<lparr>ctx := c\<rparr>;
                 s = (if p = None then scan_fail s ''Failed to allocate token buffer'' else s)
             in (case scan_loop im [] p tok_cap s of
                   None \<Rightarrow> None
                 | Some (tokens, s) \<Rightarrow> Some (if error s = BEBOP_ERR_NONE then map resolve_token tokens else tokens, s)))"

definition bebop_scan ::
  "'m bebop_internmap \<Rightarrow> 'm bebop_context \<Rightarrow> byte list \<Rightarrow> (bebop_token list \<times> 'm bebop__scanner) option" where
  "bebop_scan im c src = bebop__scan_with_schema im c src None"

section \<open>Names\<close>

primrec bebop_token_kind_name :: "bebop_token_kind \<Rightarrow> string" where
  "bebop_token_kind_name BEBOP_TOKEN_ENUM = ''enum''"
| "bebop_token_kind_name BEBOP_TOKEN_STRUCT = ''struct''"
| "bebop_token_kind_name BEBOP_TOKEN_MESSAGE = ''message''"
| "bebop_token_kind_name BEBOP_TOKEN_MUT = ''mut''"
| "bebop_token_kind_name BEBOP_TOKEN_READONLY = ''readonly''"
| "bebop_token_kind_name BEBOP_TOKEN_MAP = ''map''"
| "bebop_token_kind_name BEBOP_TOKEN_ARRAY = ''array''"
| "bebop_token_kind_name BEBOP_TOKEN_UNION = ''union''"
| "bebop_token_kind_name BEBOP_TOKEN_SERVICE = ''service''"
| "bebop_token_kind_name BEBOP_TOKEN_STREAM = ''stream''"
| "bebop_token_kind_name BEBOP_TOKEN_IMPORT = ''import''"
| "bebop_token_kind_name BEBOP_TOKEN_EDITION = ''edition''"
| "bebop_token_kind_name BEBOP_TOKEN_PACKAGE = ''package''"
| "bebop_token_kind_name BEBOP_TOKEN_EXPORT = ''export''"
| "bebop_token_kind_name BEBOP_TOKEN_LOCAL = ''local''"
| "bebop_token_kind_name BEBOP_TOKEN_TRUE = ''true''"
| "bebop_token_kind_name BEBOP_TOKEN_FALSE = ''false''"
| "bebop_token_kind_name BEBOP_TOKEN_CONST = ''const''"
| "bebop_token_kind_name BEBOP_TOKEN_WITH = ''with''"
| "bebop_token_kind_name BEBOP_TOKEN_IDENTIFIER = ''identifier''"
| "bebop_token_kind_name BEBOP_TOKEN_STRING = ''string''"
| "bebop_token_kind_name BEBOP_TOKEN_BYTES = ''bytes''"
| "bebop_token_kind_name BEBOP_TOKEN_NUMBER = ''number''"
| "bebop_token_kind_name BEBOP_TOKEN_BLOCK_COMMENT = ''block_comment''"
| "bebop_token_kind_name BEBOP_TOKEN_LPAREN = ''(''"
| "bebop_token_kind_name BEBOP_TOKEN_RPAREN = '')''"
| "bebop_token_kind_name BEBOP_TOKEN_LBRACE = ''{''"
| "bebop_token_kind_name BEBOP_TOKEN_RBRACE = ''}''"
| "bebop_token_kind_name BEBOP_TOKEN_LBRACKET = ''[''"
| "bebop_token_kind_name BEBOP_TOKEN_RBRACKET = '']''"
| "bebop_token_kind_name BEBOP_TOKEN_LANGLE = ''<''"
| "bebop_token_kind_name BEBOP_TOKEN_RANGLE = ''>''"
| "bebop_token_kind_name BEBOP_TOKEN_COLON = '':''"
| "bebop_token_kind_name BEBOP_TOKEN_SEMICOLON = '';''"
| "bebop_token_kind_name BEBOP_TOKEN_COMMA = '',''"
| "bebop_token_kind_name BEBOP_TOKEN_DOT = ''.''"
| "bebop_token_kind_name BEBOP_TOKEN_QUESTION = ''?''"
| "bebop_token_kind_name BEBOP_TOKEN_SLASH = ''/''"
| "bebop_token_kind_name BEBOP_TOKEN_EQUALS = ''=''"
| "bebop_token_kind_name BEBOP_TOKEN_AT = ''@''"
| "bebop_token_kind_name BEBOP_TOKEN_DOLLAR = ''$''"
| "bebop_token_kind_name BEBOP_TOKEN_BACKSLASH = [CHR 0x5C]"
| "bebop_token_kind_name BEBOP_TOKEN_BACKTICK = [CHR 0x60]"
| "bebop_token_kind_name BEBOP_TOKEN_TILDE = ''~''"
| "bebop_token_kind_name BEBOP_TOKEN_AMPERSAND = ''&''"
| "bebop_token_kind_name BEBOP_TOKEN_PIPE = ''|''"
| "bebop_token_kind_name BEBOP_TOKEN_MINUS = ''-''"
| "bebop_token_kind_name BEBOP_TOKEN_ARROW = ''->''"
| "bebop_token_kind_name BEBOP_TOKEN_HASH = ''#''"
| "bebop_token_kind_name BEBOP_TOKEN_BANG = ''!''"
| "bebop_token_kind_name BEBOP_TOKEN_RAW_BLOCK = ''raw_block''"
| "bebop_token_kind_name BEBOP_TOKEN_EOF = ''EOF''"
| "bebop_token_kind_name BEBOP_TOKEN_ERROR = ''error''"

primrec bebop_trivia_kind_name :: "bebop_trivia_kind \<Rightarrow> string" where
  "bebop_trivia_kind_name BEBOP_TRIVIA_WHITESPACE = ''whitespace''"
| "bebop_trivia_kind_name BEBOP_TRIVIA_NEWLINE = ''newline''"
| "bebop_trivia_kind_name BEBOP_TRIVIA_LINE_COMMENT = ''line_comment''"
| "bebop_trivia_kind_name BEBOP_TRIVIA_BLOCK_COMMENT = ''block_comment''"
| "bebop_trivia_kind_name BEBOP_TRIVIA_DOC_COMMENT = ''doc_comment''"

text \<open>Words with a name of their own are exactly the keywords.\<close>

lemma keyword_names:
  "bebop__scan_lookup_keyword str = k \<Longrightarrow> k \<noteq> BEBOP_TOKEN_IDENTIFIER \<Longrightarrow> str = ascii (bebop_token_kind_name k)"
  by (auto simp: bebop__scan_lookup_keyword_def bebop__keywords_def split: if_splits)

end
