(* ===== verification/Schema_Scan_Steps.thy ===== *)
theory Schema_Scan_Steps
  imports Schema_Scanner
begin

text \<open>
  What one step of the scanner of \<^verbatim>\<open>bebop/src/bebop_scanner.c\<close> does: how it moves over the source, which span it gives to the trivia and the token it
  passes, and that it keeps the string table in order.
\<close>

section \<open>Lines and columns\<close>

text \<open>A line ends at a line feed, or at a carriage return that no line feed follows.\<close>

definition line_break :: "byte list \<Rightarrow> nat \<Rightarrow> bool" where
  "line_break src i \<longleftrightarrow> src ! i = 0x0A \<or> src ! i = 0x0D \<and> \<not> (i + 1 < length src \<and> src ! (i + 1) = 0x0A)"

definition line_at :: "byte list \<Rightarrow> nat \<Rightarrow> u32" where
  "line_at src n = of_nat (1 + length (filter (line_break src) [0..<n]))"

definition col_at :: "byte list \<Rightarrow> nat \<Rightarrow> u32" where
  "col_at src n = of_nat (1 + length (takeWhile (\<lambda>c. \<not> BEBOP_IS_NEWLINE c) (rev (take n src))))"

definition located :: "'m bebop__scanner \<Rightarrow> bool" where
  "located s \<longleftrightarrow> pos s \<le> length (source s) \<and> line s = line_at (source s) (pos s) \<and> col s = col_at (source s) (pos s)"

lemma line_at_Suc: "line_at src (Suc n) = line_at src n + (if line_break src n then 1 else 0)"
  by (simp add: line_at_def)

lemma col_at_Suc:
  "n < length src \<Longrightarrow> col_at src (Suc n) = (if BEBOP_IS_NEWLINE (src ! n) then 1 else col_at src n + 1)"
  by (simp add: col_at_def take_Suc_conv_app_nth)

lemma advance_located:
  assumes "located s"
  shows "located (bebop__scan_advance s)"
proof (cases "pos s < length (source s)")
  case True
  let ?n = "pos s" and ?src = "source s"
  have l: "line s = line_at ?src ?n" "col s = col_at ?src ?n"
    using assms by (simp_all add: located_def)
  consider "?src ! ?n = 0x0A" | "?src ! ?n = 0x0D" "Suc ?n < length ?src" "?src ! Suc ?n = 0x0A"
    | "?src ! ?n = 0x0D" "\<not> (Suc ?n < length ?src \<and> ?src ! Suc ?n = 0x0A)" | "\<not> BEBOP_IS_NEWLINE (?src ! ?n)"
    by (auto simp: BEBOP_IS_NEWLINE_def)
  then show ?thesis
  proof cases
    case 2
    then have "line_break ?src (Suc ?n)" "\<not> line_break ?src ?n" "BEBOP_IS_NEWLINE (?src ! Suc ?n)"
      by (simp_all add: line_break_def BEBOP_IS_NEWLINE_def)
    then have "line_at ?src (Suc (Suc ?n)) = line_at ?src ?n + 1" "col_at ?src (Suc (Suc ?n)) = 1"
      using 2(2) by (simp_all add: line_at_Suc col_at_Suc)
    then show ?thesis
      using 2 l True by (auto simp: located_def bebop__scan_advance_def Let_def)
  qed (use l True in \<open>auto simp: located_def bebop__scan_advance_def Let_def line_at_Suc col_at_Suc line_break_def BEBOP_IS_NEWLINE_def\<close>)
qed (use assms in \<open>simp add: bebop__scan_advance_def\<close>)

section \<open>Steps of the scanner\<close>

text \<open>What every step does, whether it succeeds or not.\<close>

definition moves :: "'m bebop_internmap \<Rightarrow> 'm bebop__scanner \<Rightarrow> 'm bebop__scanner \<Rightarrow> bool" where
  "moves im s s' \<longleftrightarrow>
     source s' = source s \<and> pos s \<le> pos s' \<and> (located s \<longrightarrow> located s') \<and> (\<forall>i. pos s \<le> i \<and> i < pos s' \<longrightarrow> source s ! i \<noteq> 0) \<and>
     (error s \<noteq> BEBOP_ERR_NONE \<longrightarrow> error s' \<noteq> BEBOP_ERR_NONE) \<and>
     (\<forall>ss. stores im (intern (ctx s)) ss \<longrightarrow> (\<exists>us. stores im (intern (ctx s')) (ss @ us)))"

lemma moves_refl: "moves im s s"
  by (auto simp: moves_def intro: exI [of _ "[]"])

lemma moves_trans:
  assumes "moves im s t" "moves im t u"
  shows "moves im s u"
proof -
  have "\<exists>us. stores im (intern (ctx u)) (ss @ us)" if st: "stores im (intern (ctx s)) ss" for ss
  proof -
    obtain us where "stores im (intern (ctx t)) (ss @ us)"
      using assms(1) st by (auto simp: moves_def)
    then obtain vs where "stores im (intern (ctx u)) ((ss @ us) @ vs)"
      using assms(2) unfolding moves_def by blast
    then show ?thesis
      by auto
  qed
  moreover have "source s ! i \<noteq> 0" if "pos s \<le> i" "i < pos u" for i
    using assms that by (cases "i < pos t") (auto simp: moves_def)
  ultimately show ?thesis
    using assms by (auto simp: moves_def)
qed

lemma stores_same_intern: "\<exists>a. t' = t\<lparr>iarena := a\<rparr> \<Longrightarrow> stores im t ss \<Longrightarrow> stores im t' ss"
  by (auto simp: stores_arena)

lemma still_moves: "still s s' \<Longrightarrow> moves im s s'"
  unfolding still_def moves_def located_def by (auto intro!: exI [of _ "[]"] simp: stores_arena)

lemma advance_ctx [simp]: "ctx (bebop__scan_advance s) = ctx s" "error (bebop__scan_advance s) = error s"
  "trivia (bebop__scan_advance s) = trivia s" "schema (bebop__scan_advance s) = schema s"
  by (simp_all add: bebop__scan_advance_def Let_def)

lemma advance_passes:
  assumes "pos s \<le> i" "i < pos (bebop__scan_advance s)" "bebop__scan_peek_char s \<noteq> 0"
  shows "source s ! i \<noteq> 0"
  using assms by (auto simp: bebop__scan_advance_def bebop__scan_peek_char_def Let_def less_Suc_eq split: if_splits)

lemma advance_moves: "bebop__scan_peek_char s \<noteq> 0 \<Longrightarrow> moves im s (bebop__scan_advance s)"
  using advance_pos_le [of s] advance_located [of s] advance_passes [of s]
  by (auto simp: moves_def intro: exI [of _ "[]"])

lemma scan_while_moves_im: "\<not> P 0 \<Longrightarrow> moves im s (scan_while P s) \<and> trivia (scan_while P s) = trivia s"
proof (induction P s rule: scan_while.induct)
  case (1 P s)
  show ?case
  proof (cases "pos s < length (source s) \<and> P (bebop__scan_peek_char s)")
    case True
    then have "bebop__scan_peek_char s \<noteq> 0"
      using 1(2) by metis
    then show ?thesis
      using 1(1) [OF True 1(2)] True advance_moves [of s im] moves_trans by (subst (1 2) scan_while.simps) auto
  next
    case False
    then show ?thesis
      by (subst (1 2) scan_while.simps) (auto simp: moves_refl)
  qed
qed

section \<open>Spans that cover the source\<close>

text \<open>The span of the bytes from \<open>a\<close> to \<open>b\<close>, and a sequence of such spans, none empty, from \<open>a\<close> to \<open>b\<close>.\<close>

definition piece :: "byte list \<Rightarrow> nat \<Rightarrow> nat \<Rightarrow> bebop_span" where
  "piece src a b =
     \<lparr>off = of_nat a, len = of_nat (b - a), start_line = line_at src a, start_col = col_at src a, end_line = line_at src b, end_col = col_at src b\<rparr>"

fun tiles :: "byte list \<Rightarrow> nat \<Rightarrow> bebop_span list \<Rightarrow> nat \<Rightarrow> bool" where
  "tiles src a [] b \<longleftrightarrow> a = b"
| "tiles src a (p # ps) b \<longleftrightarrow> (\<exists>c\<in>{Suc a..length src}. p = piece src a c \<and> tiles src c ps b)"

lemma tiles_append: "tiles src a (ps @ qs) c \<longleftrightarrow> (\<exists>b. tiles src a ps b \<and> tiles src b qs c)"
  by (induction ps arbitrary: a) auto

lemma span_from_piece:
  "located s0 \<Longrightarrow> located s \<Longrightarrow> source s = source s0 \<Longrightarrow> span_from s0 s = piece (source s0) (pos s0) (pos s)"
  by (simp add: span_from_def bebop__scan_make_span_def piece_def located_def)

section \<open>Trivia\<close>

text \<open>A step over trivia records it, unless memory runs out.\<close>

definition skips :: "'m bebop_internmap \<Rightarrow> 'm bebop__scanner \<Rightarrow> 'm bebop__scanner \<Rightarrow> bool" where
  "skips im s s' \<longleftrightarrow>
     moves im s s' \<and>
     (\<exists>ts. trivia s' = trivia s @ ts \<and> (located s \<and> error s' = BEBOP_ERR_NONE \<longrightarrow> tiles (source s) (pos s) (map trivia_span ts) (pos s')))"

lemma skips_moves: "skips im s s' \<Longrightarrow> moves im s s'"
  by (simp add: skips_def)

lemma skips_refl: "skips im s s"
  by (simp add: skips_def moves_refl)

lemma skips_trans:
  assumes "skips im s t" "skips im t u"
  shows "skips im s u"
proof -
  obtain ts us where t: "trivia t = trivia s @ ts" "located s \<Longrightarrow> error t = BEBOP_ERR_NONE \<Longrightarrow> tiles (source s) (pos s) (map trivia_span ts) (pos t)"
    and u: "trivia u = trivia t @ us" "located t \<Longrightarrow> error u = BEBOP_ERR_NONE \<Longrightarrow> tiles (source t) (pos t) (map trivia_span us) (pos u)"
    using assms unfolding skips_def by blast
  have m: "source t = source s" "located s \<Longrightarrow> located t" "error u = BEBOP_ERR_NONE \<Longrightarrow> error t = BEBOP_ERR_NONE"
    using assms by (auto simp: skips_def moves_def)
  show ?thesis
    unfolding skips_def using moves_trans [OF assms [THEN skips_moves]] t u m
    by (auto simp: tiles_append intro!: exI [of _ "ts @ us"])
qed

lemma trivia_push_cases:
  "moves im t (bebop__scan_trivia_push t k sp) \<and>
   (trivia (bebop__scan_trivia_push t k sp) = trivia t @ [\<lparr>trivia_kind = k, trivia_span = sp\<rparr>] \<or>
    trivia (bebop__scan_trivia_push t k sp) = trivia t \<and> error (bebop__scan_trivia_push t k sp) \<noteq> BEBOP_ERR_NONE)"
proof (cases "error t \<noteq> BEBOP_ERR_NONE \<or> length (trivia t) < trivia_capacity t")
  case True
  then show ?thesis
    by (auto simp: bebop__scan_trivia_push_def moves_def located_def intro: exI [of _ "[]"])
next
  case False
  define cap where "cap = (if trivia_capacity t = 0 then BEBOP_TRIVIA_INITIAL_CAPACITY else trivia_capacity t * 2 mod 2 ^ 32)"
  obtain p c where r: "on_arena (\<lambda>a. bebop_arena_realloc a (trivia_buf t) (trivia_capacity t * SIZEOF_TRIVIA) (cap * SIZEOF_TRIVIA)) (ctx t) = (p, c)"
    by (cases "on_arena (\<lambda>a. bebop_arena_realloc a (trivia_buf t) (trivia_capacity t * SIZEOF_TRIVIA) (cap * SIZEOF_TRIVIA)) (ctx t)")
  have body: "bebop__scan_trivia_push t k sp =
      (case p of None \<Rightarrow> scan_fail (t\<lparr>ctx := c\<rparr>) ''Failed to allocate trivia buffer''
       | Some q \<Rightarrow> t\<lparr>ctx := c, trivia_buf := Some q, trivia_capacity := cap, trivia := trivia t @ [\<lparr>trivia_kind = k, trivia_span = sp\<rparr>]\<rparr>)"
    using False r unfolding bebop__scan_trivia_push_def Let_def cap_def [symmetric] by (simp split: option.split)
  note st = on_arena_intern [OF r]
  show ?thesis
  proof (cases p)
    case None
    then show ?thesis
      using still_moves [OF scan_fail_still [OF st]] by (simp add: body)
  next
    case (Some q)
    then show ?thesis
      using st by (auto simp: body moves_def located_def stores_arena intro: exI [of _ "[]"])
  qed
qed

lemma trivia_push_skips:
  assumes "moves im s t" "trivia t = trivia s" "pos s < pos t"
  shows "skips im s (bebop__scan_trivia_push t k (span_from s t))"
proof -
  let ?u = "bebop__scan_trivia_push t k (span_from s t)"
  note c = trivia_push_cases [of im t k "span_from s t"]
  have "tiles (source s) (pos s) [span_from s t] (pos ?u)" if "located s"
    using assms that span_from_piece [of s t] by (auto simp: moves_def located_def)
  then show ?thesis
    using moves_trans [OF assms(1) conjunct1 [OF c]] c assms(2) by (auto simp: skips_def)
qed

lemma skip_whitespace_skips: "skips im s (bebop__scan_skip_whitespace s)"
proof -
  have w: "moves im s (scan_while BEBOP_IS_WHITESPACE s)" "trivia (scan_while BEBOP_IS_WHITESPACE s) = trivia s"
    using scan_while_moves_im [of BEBOP_IS_WHITESPACE im s] by (simp_all add: BEBOP_IS_WHITESPACE_def)
  have "scan_while BEBOP_IS_WHITESPACE s = s" if "\<not> pos s < pos (scan_while BEBOP_IS_WHITESPACE s)"
    using that advance_pos [of s] scan_while_moves [of BEBOP_IS_WHITESPACE "bebop__scan_advance s"]
    by (subst scan_while.simps) (auto simp: scan_while.simps [of _ s] split: if_splits)
  then show ?thesis
    using trivia_push_skips [OF w] skips_refl [of im s] by (auto simp: bebop__scan_skip_whitespace_def Let_def)
qed

lemma moves_pos: "moves im s t \<Longrightarrow> pos s \<le> pos t"
  by (simp add: moves_def)

lemma skip_newline_skips: "skips im s (snd (bebop__scan_skip_newline s))"
proof (cases "BEBOP_IS_NEWLINE (bebop__scan_peek_char s)")
  case True
  then have "bebop__scan_peek_char s \<noteq> 0"
    by auto
  from trivia_push_skips [OF advance_moves [OF this]] advance_pos [OF peek_in_source [OF this]] True show ?thesis
    by (simp add: bebop__scan_skip_newline_def Let_def)
qed (simp add: bebop__scan_skip_newline_def skips_refl)

lemma peek_at_advance:
  assumes "bebop__scan_peek_char s \<noteq> 0" "bebop__scan_peek_char s \<noteq> 0x0D"
  shows "bebop__scan_peek_char_at (bebop__scan_advance s) k = bebop__scan_peek_char_at s (Suc k)"
    "pos (bebop__scan_advance s) = Suc (pos s)"
  using assms by (auto simp: bebop__scan_peek_char_at_def bebop__scan_peek_char_def bebop__scan_advance_def Let_def split: if_splits)

lemma peek_at_0: "bebop__scan_peek_char_at s 0 = bebop__scan_peek_char s"
  by (simp add: bebop__scan_peek_char_at_def bebop__scan_peek_char_def)

lemma advance_twice:
  assumes "bebop__scan_peek_char s \<noteq> 0" "bebop__scan_peek_char s \<noteq> 0x0D" "bebop__scan_peek_char_at s 1 \<noteq> 0"
  shows "moves im s (bebop__scan_advance (bebop__scan_advance s))" "pos s < pos (bebop__scan_advance (bebop__scan_advance s))"
proof -
  have "bebop__scan_peek_char (bebop__scan_advance s) \<noteq> 0"
    using peek_at_advance(1) [OF assms(1,2), of 0] assms(3) by (simp add: peek_at_0)
  then show "moves im s (bebop__scan_advance (bebop__scan_advance s))"
    using advance_moves [OF assms(1)] advance_moves moves_trans by blast
  show "pos s < pos (bebop__scan_advance (bebop__scan_advance s))"
    using peek_at_advance(2) [OF assms(1,2)] advance_pos_le [of "bebop__scan_advance s"] by simp
qed

lemma skip_line_comment_skips: "skips im s (snd (bebop__scan_skip_line_comment s))"
proof (cases "bebop__scan_peek_char s = 0x2F \<and> bebop__scan_peek_char_at s 1 = 0x2F")
  case True
  let ?t = "scan_while (\<lambda>c. c \<noteq> 0 \<and> \<not> BEBOP_IS_NEWLINE c) (bebop__scan_advance (bebop__scan_advance s))"
  have w: "moves im (bebop__scan_advance (bebop__scan_advance s)) ?t" "trivia ?t = trivia s"
    using scan_while_moves_im [of "\<lambda>c. c \<noteq> 0 \<and> \<not> BEBOP_IS_NEWLINE c" im "bebop__scan_advance (bebop__scan_advance s)"] by simp_all
  have a: "moves im s (bebop__scan_advance (bebop__scan_advance s))" "pos s < pos (bebop__scan_advance (bebop__scan_advance s))"
    using advance_twice [of s] True by simp_all
  have "moves im s ?t" "trivia ?t = trivia s" "pos s < pos ?t"
    using moves_trans [OF a(1) w(1)] w(2) a(2) moves_pos [OF w(1)] by auto
  from trivia_push_skips [OF this] True show ?thesis
    by (simp add: bebop__scan_skip_line_comment_def Let_def)
qed (auto simp: bebop__scan_skip_line_comment_def skips_refl)

lemma add_diagnostic_intern:
  assumes "bebop__schema_add_diagnostic sch c loc m h = (sch', c')"
  shows "\<exists>a. intern c' = (intern c)\<lparr>iarena := a\<rparr>"
proof -
  have room: "\<exists>a. intern c1 = (intern c)\<lparr>iarena := a\<rparr>" if "diag_room sch c = (b, s1, c1)" for b s1 c1
    using that on_arena_intern [of _ c]
    by (fastforce simp: diag_room_def Let_def split: if_splits prod.splits option.splits intro: exI [of _ "iarena (intern c)"])
  have step: "\<exists>a. intern c2 = (intern c)\<lparr>iarena := a\<rparr>" if "on_arena f c1 = (r, c2)" "\<exists>a. intern c1 = (intern c)\<lparr>iarena := a\<rparr>" for f :: "bebop_arena \<Rightarrow> nat option \<times> bebop_arena" and c1 r c2
    using on_arena_intern [OF that(1)] that(2) by auto
  have self: "\<exists>a. intern c = (intern c)\<lparr>iarena := a\<rparr>"
    by (intro exI [of _ "iarena (intern c)"]) simp
  show ?thesis
    using assms self room step
    unfolding bebop__schema_add_diagnostic_def Let_def
    by (auto split: if_splits prod.splits bool.splits option.splits bebop_diag_severity.splits) blast+
qed

lemma scan_report_moves: "moves im s (scan_report s c sp m)"
proof (cases "schema s")
  case (Some sch)
  obtain sch' c' where r: "bebop__schema_add_diagnostic sch (ctx s) \<lparr>loc_severity = BEBOP_DIAG_ERROR, loc_code = c, loc_span = sp\<rparr> m None = (sch', c')"
    by (cases "bebop__schema_add_diagnostic sch (ctx s) \<lparr>loc_severity = BEBOP_DIAG_ERROR, loc_code = c, loc_span = sp\<rparr> m None")
  then have "\<exists>a. intern c' = (intern (ctx s))\<lparr>iarena := a\<rparr>"
    by (rule add_diagnostic_intern)
  then show ?thesis
    using Some r by (auto simp: scan_report_def moves_def located_def stores_arena intro: exI [of _ "[]"])
qed (simp add: scan_report_def moves_refl)

lemma block_comment_loop_moves_im:
  "moves im s (snd (block_comment_loop s)) \<and> trivia (snd (block_comment_loop s)) = trivia s"
proof (induction s rule: block_comment_loop.induct)
  case (1 s)
  show ?case
  proof (cases "bebop__scan_peek_char s = 0")
    case True
    then show ?thesis
      by (subst (1 2) block_comment_loop.simps) (simp add: moves_refl)
  next
    case False
    note p = peek_in_source [OF False]
    show ?thesis
    proof (cases "bebop__scan_peek_char s = 0x2A \<and> bebop__scan_peek_char_at s 1 = 0x2F")
      case True
      then show ?thesis
        using p False advance_twice(1) [of s im] by (subst (1 2) block_comment_loop.simps) simp
    next
      case more: False
      then show ?thesis
        using 1 p False moves_trans [OF advance_moves [OF False]] by (subst (1 2) block_comment_loop.simps) auto
    qed
  qed
qed

lemma skip_block_comment_skips: "skips im s (snd (bebop__scan_skip_block_comment s))"
proof (cases "bebop__scan_peek_char s = 0x2F \<and> bebop__scan_peek_char_at s 1 = 0x2A")
  case True
  obtain found t where l: "block_comment_loop (bebop__scan_advance (bebop__scan_advance s)) = (found, t)"
    by (cases "block_comment_loop (bebop__scan_advance (bebop__scan_advance s))")
  have w: "moves im (bebop__scan_advance (bebop__scan_advance s)) t" "trivia t = trivia s"
    using block_comment_loop_moves_im [of im "bebop__scan_advance (bebop__scan_advance s)"] by (simp_all add: l)
  have a: "moves im s (bebop__scan_advance (bebop__scan_advance s))" "pos s < pos (bebop__scan_advance (bebop__scan_advance s))"
    using advance_twice [of s] True by simp_all
  define t' where "t' = (if found then t else scan_report t BEBOP_DIAG_UNTERMINATED_COMMENT (span_from s t) (ascii ''Unterminated block comment''))"
  have "moves im s t'" "trivia t' = trivia s" "pos s < pos t'"
    using moves_trans [OF a(1) w(1)] moves_trans [OF _ scan_report_moves] w(2) a(2) moves_pos [OF w(1)] by (auto simp: t'_def)
  from trivia_push_skips [OF this] True show ?thesis
    by (simp add: bebop__scan_skip_block_comment_def Let_def l t'_def [symmetric])
qed (auto simp: bebop__scan_skip_block_comment_def skips_refl)

lemma skip_leading_skips: "skips im s (bebop__scan_skip_leading_trivia s)"
proof (induction s rule: bebop__scan_skip_leading_trivia.induct)
  case (1 s)
  let ?s = "bebop__scan_skip_whitespace s"
  note t = skips_trans [OF skips_trans [OF skip_whitespace_skips [of im s]]]
  show ?case
    using 1(1) [OF refl] 1(2) [OF refl] 1(3) [OF refl] t [OF skip_newline_skips] t [OF skip_line_comment_skips] t [OF skip_block_comment_skips]
      skip_whitespace_skips [of im s]
    by (subst bebop__scan_skip_leading_trivia.simps) (auto simp: Let_def)
qed

lemma trailing_skips: "skips im s (trailing_trivia_loop s)"
proof (induction s rule: trailing_trivia_loop.induct)
  case (1 s)
  note t = skips_trans [OF skips_trans [OF skip_whitespace_skips [of im s]]]
  show ?case
    using 1(1) [OF refl] 1(2) [OF refl] t [OF skip_line_comment_skips] t [OF skip_block_comment_skips]
      skips_trans [OF skip_whitespace_skips [of im s] skip_newline_skips]
    by (subst trailing_trivia_loop.simps) (auto simp: Let_def)
qed

text \<open>After leading trivia comes a token or the end.\<close>

section \<open>Tokens\<close>

text \<open>A step that leaves the cursor and the trivia where they are.\<close>

definition calm :: "'m bebop_internmap \<Rightarrow> 'm bebop__scanner \<Rightarrow> 'm bebop__scanner \<Rightarrow> bool" where
  "calm im t s \<longleftrightarrow> moves im t s \<and> trivia s = trivia t \<and> pos s = pos t"

lemma calm_refl: "calm im s s"
  by (simp add: calm_def moves_refl)

lemma still_calm: "still t s \<Longrightarrow> calm im t s"
  using still_moves by (auto simp: calm_def still_def)

lemma intern_keeps:
  assumes "internmap_ok im" "stores im t ss" "bebop_intern_n im t (Some str) = Some (h, t')"
  shows "\<exists>us. stores im t' (ss @ us)"
proof (cases "length str \<le> UINT32_MAX")
  case True
  have "interned im t ss str (h, t')"
    by (rule intern_n_interned [OF assms(2,1) True assms(3)])
  then show ?thesis
    using assms(2) by (auto simp: interned_def split: if_splits intro: exI [of _ "[]"])
next
  case False
  then show ?thesis
    using assms(2,3) by (auto simp: bebop_intern_n_def intro: exI [of _ "[]"])
qed

lemma scan_intern_calm:
  assumes "internmap_ok im" "scan_intern im t str = Some (h, s)"
  shows "calm im t s"
proof -
  obtain t' where r: "bebop_intern_n im (intern (ctx t)) (Some str) = Some (h, t')" "s = t\<lparr>ctx := (ctx t)\<lparr>intern := t'\<rparr>\<rparr>"
    using assms(2) by (auto simp: scan_intern_def split: option.splits)
  then show ?thesis
    using intern_keeps [OF assms(1) _ r(1)] by (auto simp: calm_def moves_def located_def)
qed

text \<open>What scanning a token does: the span is that of the bytes passed, and only the token of the end passes none.\<close>

definition scans_token :: "'m bebop_internmap \<Rightarrow> 'm bebop__scanner \<Rightarrow> bebop_token \<times> 'm bebop__scanner \<Rightarrow> bool" where
  "scans_token im s r \<longleftrightarrow>
     (case r of
        (tok, s') \<Rightarrow>
          moves im s s' \<and> trivia s' = trivia s \<and> leading tok = no_trivia \<and> trailing tok = no_trivia \<and>
          (located s \<longrightarrow> span tok = piece (source s) (pos s) (pos s')) \<and>
          (if kind tok = BEBOP_TOKEN_EOF then s' = s \<and> bebop__scan_peek_char s = 0 else pos s < pos s'))"

lemma token_scans:
  assumes "moves im s t" "trivia t = trivia s" "pos s < pos t" "calm im t s'" "k \<noteq> BEBOP_TOKEN_EOF"
  shows "scans_token im s (token k (span_from s t) h, s')"
proof -
  have "span_from s t = piece (source s) (pos s) (pos s')" if "located s"
    using assms(1,4) that span_from_piece [of s t] by (auto simp: moves_def calm_def)
  then show ?thesis
    using moves_trans [OF assms(1), of s'] assms by (auto simp: scans_token_def token_def calm_def)
qed

lemma keyword_not_eof: "bebop__scan_lookup_keyword str \<noteq> BEBOP_TOKEN_EOF"
  by (simp add: bebop__scan_lookup_keyword_def bebop__keywords_def)

lemma scan_while_first:
  assumes "P (bebop__scan_peek_char s)" "bebop__scan_peek_char s \<noteq> 0"
  shows "pos s < pos (scan_while P s)"
  using advance_pos [OF peek_in_source [OF assms(2)]] scan_while_moves [of P "bebop__scan_advance s"] assms peek_in_source [OF assms(2)]
  by (subst scan_while.simps) auto

lemma ident_zero: "\<not> BEBOP_IS_IDENT_CHAR 0"
  by (simp add: BEBOP_IS_IDENT_CHAR_def BEBOP_IS_IDENT_START_def BEBOP_IS_ALPHA_def BEBOP_IS_DIGIT_def)

lemma scan_identifier_scans:
  assumes "internmap_ok im" "bebop__scan_identifier im s = Some r" "BEBOP_IS_IDENT_CHAR (bebop__scan_peek_char s)"
  shows "scans_token im s r"
proof -
  let ?t = "scan_while BEBOP_IS_IDENT_CHAR s"
  have "bebop__scan_peek_char s \<noteq> 0"
    using ident_zero assms(3) by metis
  then have t: "moves im s ?t" "trivia ?t = trivia s" "pos s < pos ?t"
    using scan_while_moves_im [of BEBOP_IS_IDENT_CHAR im s] scan_while_first [of BEBOP_IS_IDENT_CHAR s] ident_zero assms(3) by auto
  obtain h s' where i: "scan_intern im ?t (slice ?t (pos s) (pos ?t - pos s)) = Some (h, s')"
      "r = (token (bebop__scan_lookup_keyword (slice ?t (pos s) (pos ?t - pos s))) (span_from s ?t) h, s')"
    using assms(2) by (auto simp: bebop__scan_identifier_def Let_def split: option.splits)
  show ?thesis
    unfolding i(2) by (rule token_scans [OF t scan_intern_calm [OF assms(1) i(1)] keyword_not_eof])
qed

lemma number_loop_moves: "moves im s (number_loop s) \<and> trivia (number_loop s) = trivia s"
proof (induction s rule: number_loop.induct)
  case (1 s)
  let ?c = "bebop__scan_peek_char s"
  let ?stop = "?c = 0x2D \<and> (let prev = (if pos s > 0 then source s ! (pos s - 1) else 0) in prev \<noteq> 0x65 \<and> prev \<noteq> 0x45)"
  show ?case
  proof (cases "pos s < length (source s) \<and> (BEBOP_IS_IDENT_CHAR ?c \<or> ?c = 0x2E \<or> ?c = 0x2D) \<and> \<not> ?stop")
    case True
    then have nz: "?c \<noteq> 0"
      using ident_zero by auto
    have "number_loop s = number_loop (bebop__scan_advance s)"
      using True unfolding number_loop.simps [of s] Let_def by auto
    moreover have "moves im (bebop__scan_advance s) (number_loop (bebop__scan_advance s)) \<and> trivia (number_loop (bebop__scan_advance s)) = trivia (bebop__scan_advance s)"
      by (rule 1 [OF refl]) (use True in auto)
    ultimately show ?thesis
      using moves_trans [OF advance_moves [OF nz]] by auto
  next
    case False
    then have "number_loop s = s"
      by (subst number_loop.simps) (auto simp: Let_def)
    then show ?thesis
      by (simp add: moves_refl)
  qed
qed

lemma scan_number_scans:
  assumes "internmap_ok im" "bebop__scan_number im s = Some r" "BEBOP_IS_DIGIT (bebop__scan_peek_char s)"
  shows "scans_token im s r"
proof -
  let ?t = "number_loop s" and ?c = "bebop__scan_peek_char s"
  have c: "BEBOP_IS_IDENT_CHAR ?c" "?c \<noteq> 0x2D" "?c \<noteq> 0"
    using assms(3) ident_zero by (auto simp: BEBOP_IS_IDENT_CHAR_def BEBOP_IS_DIGIT_def)
  have "?t = number_loop (bebop__scan_advance s)"
    using c peek_in_source [OF c(3)] by (subst number_loop.simps) (simp add: Let_def)
  then have t: "moves im s ?t" "trivia ?t = trivia s" "pos s < pos ?t"
    using number_loop_moves [of im s] moves_pos [OF conjunct1 [OF number_loop_moves [of im "bebop__scan_advance s"]]]
      advance_pos [OF peek_in_source [OF c(3)]] by auto
  obtain h s' where i: "scan_intern im ?t (slice ?t (pos s) (pos ?t - pos s)) = Some (h, s')" "r = (token BEBOP_TOKEN_NUMBER (span_from s ?t) h, s')"
    using assms(2) by (auto simp: bebop__scan_number_def Let_def split: option.splits)
  show ?thesis
    unfolding i(2) by (rule token_scans [OF t scan_intern_calm [OF assms(1) i(1)]]) simp
qed

section \<open>Literals\<close>

text \<open>The bytes of an escape sequence are in the source, and none of them is a zero or a carriage return.\<close>

definition plain :: "byte \<Rightarrow> bool" where
  "plain c \<longleftrightarrow> c \<noteq> 0 \<and> c \<noteq> 0x0D"

lemma hex_plain: "\<not> BEBOP_HEX_VALUE c < 0 \<Longrightarrow> plain c"
  by (auto simp: BEBOP_HEX_VALUE_def plain_def split: if_splits)

lemma unescape_digits_plain:
  "unescape_digits p k cp n = Some (k', cp', n') \<Longrightarrow> k \<le> i \<Longrightarrow> i < k' \<Longrightarrow> plain (p ! i)"
proof (induction p k cp n rule: unescape_digits.induct)
  case (1 p k cp n)
  show ?case
  proof (cases "i = k")
    case True
    then show ?thesis
      using "1.prems" hex_plain [of "p ! k"] unfolding unescape_digits.simps [of p k] by (auto simp: Let_def split: if_splits)
  next
    case False
    then show ?thesis
      using "1.prems" "1.IH" unfolding unescape_digits.simps [of p k] by (auto simp: Let_def split: if_splits)
  qed
qed

lemma unescape_plain:
  assumes "bebop_unescape_char (Some p) = (k, out)"
  shows "(\<forall>i<k. i < length p \<and> plain (p ! i)) \<and> length out \<le> 4"
proof -
  have len: "k \<le> length p \<and> length out \<le> 4"
    using unescape_char_bounds [of "Some p"] assms by (auto split: prod.splits)
  have "plain (p ! i)" if i: "i < k" for i
  proof -
    consider "p ! 0 = 0x75" "p \<noteq> []" | "p ! 0 = 0x78" "p \<noteq> []" | "k \<le> 1" "k = 1 \<Longrightarrow> plain (p ! 0)"
      using assms by (cases p) (auto simp: bebop_unescape_char_def Let_def plain_def split: if_splits)
    then show ?thesis
    proof cases
      case 1
      obtain j cp n where d: "unescape_digits p 2 0 0 = Some (j, cp, n)" "k = Suc j" "p ! j = 0x7D" "p ! 1 = 0x7B"
        using assms 1 i by (cases p) (auto simp: bebop_unescape_char_def Let_def split: if_splits option.splits)
      consider "i = 0" | "i = 1" | "2 \<le> i" "i < j" | "i = j"
        using i d(2) by linarith
      then show ?thesis
        using unescape_digits_plain [OF d(1)] d(3,4) 1 by cases (auto simp: plain_def)
    next
      case 2
      have d: "k = 3" "plain (p ! 1)" "plain (p ! 2)"
        using assms 2 i hex_plain by (cases p; auto simp: bebop_unescape_char_def Let_def split: if_splits)+
      consider "i = 0" | "i = 1" | "i = 2"
        using i d(1) by linarith
      then show ?thesis
        using d 2 by cases (auto simp: plain_def)
    next
      case 3
      then show ?thesis
        using i by (cases k) auto
    qed
  qed
  then show ?thesis
    using len by auto
qed

lemma advance_n_moves:
  assumes "\<forall>i<n. plain (bebop__scan_peek_char_at s i)"
  shows "moves im s (scan_advance_n n s) \<and> pos (scan_advance_n n s) = pos s + n \<and> trivia (scan_advance_n n s) = trivia s"
  using assms
proof (induction n)
  case (Suc n)
  let ?t = "scan_advance_n n s"
  have IH: "moves im s ?t" "pos ?t = pos s + n" "trivia ?t = trivia s"
    using Suc by simp_all
  have "bebop__scan_peek_char ?t = bebop__scan_peek_char_at s n"
    using IH by (simp add: bebop__scan_peek_char_def bebop__scan_peek_char_at_def)
  then have p: "bebop__scan_peek_char ?t \<noteq> 0" "bebop__scan_peek_char ?t \<noteq> 0x0D"
    using Suc.prems by (auto simp: plain_def)
  have "scan_advance_n (Suc n) s = bebop__scan_advance ?t"
    by (simp add: scan_advance_n_def)
  then show ?case
    using moves_trans [OF IH(1) advance_moves [OF p(1)]] peek_at_advance(2) [OF p] IH by simp
qed (simp add: scan_advance_n_def moves_refl)

lemma quoted_loop_moves:
  "quoted_loop q buf cap s = Some (skip, buf', cap', s') \<Longrightarrow> plain q \<Longrightarrow> moves im s s' \<and> trivia s' = trivia s"
proof (induction q buf cap s arbitrary: skip buf' cap' s' rule: quoted_loop.induct)
  case (1 q buf cap s)
  let ?c = "bebop__scan_peek_char s" and ?a = "bebop__scan_advance s"
  note res = "1.prems"(1) [unfolded quoted_loop.simps [of q buf cap s]]
  show ?case
  proof (cases "?c = 0 \<or> error s \<noteq> BEBOP_ERR_NONE")
    case True
    then show ?thesis
      using res by (auto simp: moves_refl)
  next
    case go: False
    then have nz: "?c \<noteq> 0"
      by simp
    note adv = advance_moves [OF nz, of im]
    obtain k out where u: "bebop_unescape_char (Some (drop (pos ?a) (source s))) = (k, out)"
      by (cases "bebop_unescape_char (Some (drop (pos ?a) (source s)))")
    consider (double) "?c = q" "bebop__scan_peek_char_at s 1 = q" | (close) "?c = q" "bebop__scan_peek_char_at s 1 \<noteq> q"
      | (bad) "?c \<noteq> q" "?c = 0x5C" "k = 0" | (esc) "?c \<noteq> q" "?c = 0x5C" "k \<noteq> 0" | (char) "?c \<noteq> q" "?c \<noteq> 0x5C"
      by blast
    then show ?thesis
    proof cases
      case double
      obtain ok cp t where room: "quoted_room (bebop__scan_advance ?a) buf cap = (ok, cp, t)"
        by (cases "quoted_room (bebop__scan_advance ?a) buf cap")
      have "moves im s (bebop__scan_advance ?a)"
        by (rule advance_twice(1)) (use nz double "1.prems"(2) in \<open>auto simp: plain_def\<close>)
      then have t: "moves im s t" "trivia t = trivia s"
        using moves_trans still_moves [OF quoted_room_still [OF room], of im] quoted_room_still [OF room] by (auto simp: still_def)
      show ?thesis
      proof (cases ok)
        case True
        have "moves im t s' \<and> trivia s' = trivia t"
          by (rule "1.IH"(1) [OF go double room [symmetric] refl True _ "1.prems"(2)]) (use res go double room True in simp)
        then show ?thesis
          using moves_trans [OF t(1)] t(2) by auto
      next
        case False
        then show ?thesis
          using res go double room t by simp
      qed
    next
      case close
      then show ?thesis
        using res go adv by auto
    next
      case bad
      then show ?thesis
        using res go u moves_trans [OF adv scan_report_moves] by auto
    next
      case esc
      have "escape_room (length buf + length out) cap ?a \<noteq> None"
        using res go esc u by (auto split: option.splits)
      then obtain cp t where room: "escape_room (length buf + length out) cap ?a = Some (cp, t)"
        by auto
      have st: "still ?a t"
        using escape_room_still [OF room] by simp
      then have t: "moves im s t" "trivia t = trivia s"
        using moves_trans [OF adv still_moves] by (auto simp: still_def)
      show ?thesis
      proof (cases "error t = BEBOP_ERR_NONE")
        case True
        have "\<forall>i<k. plain (bebop__scan_peek_char_at t i)"
          using unescape_plain [OF u] st by (auto simp: still_def bebop__scan_peek_char_at_def less_diff_conv add.commute)
        note n = advance_n_moves [OF this, of im]
        have "moves im (scan_advance_n k t) s' \<and> trivia s' = trivia (scan_advance_n k t)"
          by (rule "1.IH"(2) [OF go esc(1,2) u [symmetric] esc(3) room refl _ _ "1.prems"(2)]) (use res go esc u room True in auto)
        then show ?thesis
          using moves_trans [OF t(1) moves_trans [OF conjunct1 [OF n]]] t(2) n by auto
      next
        case False
        then show ?thesis
          using res go esc u room t by auto
      qed
    next
      case char
      obtain ok cp t where room: "quoted_room s buf cap = (ok, cp, t)"
        by (cases "quoted_room s buf cap")
      have st: "still s t"
        by (rule quoted_room_still [OF room])
      then have "bebop__scan_peek_char t \<noteq> 0"
        using nz by (simp add: still_def bebop__scan_peek_char_def split: if_splits)
      then have t: "moves im s (bebop__scan_advance t)" "moves im s t" "trivia t = trivia s"
        using moves_trans [OF still_moves [OF st] advance_moves] still_moves [OF st] st by (auto simp: still_def)
      show ?thesis
      proof (cases ok)
        case True
        have "moves im (bebop__scan_advance t) s' \<and> trivia s' = trivia (bebop__scan_advance t)"
          by (rule "1.IH"(3) [OF go char room [symmetric] refl True _ "1.prems"(2)]) (use res go char room True in simp)
        then show ?thesis
          using moves_trans [OF t(1)] t(3) by auto
      next
        case False
        then show ?thesis
          using res go char room t by simp
      qed
    qed
  qed
qed

lemma skip_literal_moves: "moves im s (skip_literal_loop q s) \<and> trivia (skip_literal_loop q s) = trivia s"
proof (induction q s rule: skip_literal_loop.induct)
  case (1 q s)
  show ?case
  proof (cases "bebop__scan_peek_char s = 0")
    case True
    then show ?thesis
      by (subst (1 2) skip_literal_loop.simps) (simp add: moves_refl)
  next
    case False
    note adv = advance_moves [OF False, of im]
    show ?thesis
      using 1 False adv moves_trans [OF adv]
      by (cases "bebop__scan_peek_char s = q \<and> bebop__scan_peek_char_at s 1 \<noteq> q") (subst (1 2) skip_literal_loop.simps; auto)+
  qed
qed

lemma error_token_scans:
  assumes "moves im s t" "trivia t = trivia s" "pos s < pos t"
  shows "scans_token im s (token BEBOP_TOKEN_ERROR (span_from s t) h, t)"
  by (rule token_scans [OF assms calm_refl]) simp

lemma quoted_finish_scans:
  assumes "internmap_ok im" "quoted_finish im is_bytes s0 buf cap s = Some r" "moves im s0 s" "trivia s = trivia s0" "pos s0 < pos s"
  shows "scans_token im s0 r"
proof (cases "error s = BEBOP_ERR_NONE")
  case True
  obtain p c where room: "(if length buf \<ge> cap then on_arena (\<lambda>a. bebop__arena_alloc_n a 1 (length buf + 1) 1) (ctx s) else (Some 0, ctx s)) = (p, c)"
    by (cases "if length buf \<ge> cap then on_arena (\<lambda>a. bebop__arena_alloc_n a 1 (length buf + 1) 1) (ctx s) else (Some 0, ctx s)")
  have i: "\<exists>a. intern c = (intern (ctx s))\<lparr>iarena := a\<rparr>"
    using room on_arena_intern [of _ "ctx s" p c] by (auto split: if_splits intro: exI [of _ "iarena (intern (ctx s))"])
  have st: "still s (s\<lparr>ctx := c\<rparr>)"
    using i by (auto simp: still_def)
  show ?thesis
  proof (cases p)
    case None
    let ?t = "scan_fail (s\<lparr>ctx := c\<rparr>) ''Failed to allocate literal buffer''"
    have "r = (token BEBOP_TOKEN_ERROR (span_from s0 ?t) BEBOP_STR_NULL, ?t)"
      using assms(2) True None room unfolding quoted_finish_def by (simp add: Let_def)
    moreover have "moves im s0 ?t"
      by (rule moves_trans [OF assms(3) still_moves [OF scan_fail_still [OF i]]])
    ultimately show ?thesis
      using error_token_scans [of im s0 ?t] assms(4,5) by simp
  next
    case (Some q)
    let ?t = "s\<lparr>ctx := c\<rparr>"
    have m: "moves im s0 ?t" "trivia ?t = trivia s0" "pos s0 < pos ?t"
      using moves_trans [OF assms(3) still_moves [OF st]] assms(4,5) by simp_all
    show ?thesis
    proof (cases "\<not> is_bytes \<and> length buf > 0 \<and> \<not> bebop_utf8_valid buf")
      case bad: True
      let ?u = "scan_report ?t BEBOP_DIAG_INVALID_UTF8 (span_from s0 ?t) (ascii ''Invalid UTF-8 encoding in string literal'')"
      have "r = (token BEBOP_TOKEN_ERROR (span_from s0 ?u) BEBOP_STR_NULL, ?u)"
        using assms(2) True Some room bad unfolding quoted_finish_def by (simp add: Let_def)
      then show ?thesis
        using error_token_scans [of im s0 ?u] moves_trans [OF m(1) scan_report_moves] m by simp
    next
      case False
      obtain h s' where h: "scan_intern im ?t buf = Some (h, s')"
          "r = (token (if is_bytes then BEBOP_TOKEN_BYTES else BEBOP_TOKEN_STRING) (span_from s0 ?t) h, s')"
        using assms(2) True Some room False unfolding quoted_finish_def by (auto simp: Let_def split: option.splits)
      show ?thesis
        unfolding h(2) by (rule token_scans [OF m scan_intern_calm [OF assms(1) h(1)]]) simp
    qed
  qed
next
  case False
  then show ?thesis
    using assms(2-) error_token_scans [of im s0 s] by (auto simp: quoted_finish_def)
qed

lemma scan_quoted_scans:
  assumes "internmap_ok im" "bebop__scan_quoted im s is_bytes = Some r"
    "bebop__scan_peek_char_at s (if is_bytes then 1 else 0) = 0x22 \<or> bebop__scan_peek_char_at s (if is_bytes then 1 else 0) = 0x27"
    "is_bytes \<Longrightarrow> plain (bebop__scan_peek_char s)"
  shows "scans_token im s r"
proof -
  define t where "t = (if is_bytes then bebop__scan_advance s else s)"
  define q where "q = bebop__scan_peek_char t"
  have q: "q = 0x22 \<or> q = 0x27" "moves im s t" "trivia t = trivia s"
    using assms(3,4) peek_at_advance(1) [of s 0] advance_moves [of s im]
    by (auto simp: q_def t_def peek_at_0 plain_def moves_refl split: if_splits)
  then have "bebop__scan_peek_char t \<noteq> 0" and plain: "plain q"
    by (auto simp: q_def plain_def)
  note adv = advance_moves [OF this(1), of im] and ap = advance_pos [OF peek_in_source [OF this(1)]]
  have a: "moves im s (bebop__scan_advance t)" "pos s < pos (bebop__scan_advance t)"
    using moves_trans [OF q(2) adv] ap moves_pos [OF q(2)] by auto
  have body: "bebop__scan_quoted im s is_bytes =
      (case quoted_loop q [] 0 (bebop__scan_advance t) of None \<Rightarrow> None
       | Some (skip, buf, cap, s') \<Rightarrow>
           if skip then let s'' = skip_literal_loop q s' in Some (token BEBOP_TOKEN_ERROR (span_from s s'') BEBOP_STR_NULL, s'')
           else quoted_finish im is_bytes s buf cap s')"
    using q(1) unfolding bebop__scan_quoted_def t_def [symmetric] Let_def q_def [symmetric] by auto
  then obtain skip buf cap u where l: "quoted_loop q [] 0 (bebop__scan_advance t) = Some (skip, buf, cap, u)"
    using assms(2) by (cases "quoted_loop q [] 0 (bebop__scan_advance t)") auto
  have lm: "moves im (bebop__scan_advance t) u" "trivia u = trivia t"
    using quoted_loop_moves [OF l plain, of im] by simp_all
  have u: "moves im s u" "trivia u = trivia s" "pos s < pos u"
    using moves_trans [OF a(1) lm(1)] lm(2) q(3) a(2) moves_pos [OF lm(1)] by auto
  show ?thesis
  proof (cases skip)
    case True
    let ?v = "skip_literal_loop q u"
    have sm: "moves im u ?v" "trivia ?v = trivia u"
      using skip_literal_moves [of im u q] by simp_all
    have "r = (token BEBOP_TOKEN_ERROR (span_from s ?v) BEBOP_STR_NULL, ?v)"
      using assms(2) True unfolding body l by (simp add: Let_def)
    then show ?thesis
      using error_token_scans [of im s ?v] moves_trans [OF u(1) sm(1)] sm(2) u moves_pos [OF sm(1)] by auto
  next
    case False
    then have "quoted_finish im is_bytes s buf cap u = Some r"
      using assms(2) unfolding body l by simp
    then show ?thesis
      by (rule quoted_finish_scans [OF assms(1) _ u])
  qed
qed

section \<open>Raw blocks and symbols\<close>

lemma raw_level_bounds: "level \<le> raw_level s level \<and> (\<forall>i. level \<le> i \<and> i < raw_level s level \<longrightarrow> bebop__scan_peek_char_at s i = 0x3D)"
proof (induction s level rule: raw_level.induct)
  case (1 s level)
  show ?case
  proof (cases "bebop__scan_peek_char_at s level = 0x3D")
    case True
    then have "raw_level s level = raw_level s (Suc level)"
      by (subst raw_level.simps) simp
    then show ?thesis
      using 1 [OF True] True by (metis Suc_eq_plus1 Suc_leD le_antisym not_less_eq_eq)
  next
    case False
    then show ?thesis
      by (subst (1 2) raw_level.simps) auto
  qed
qed

lemma closer_loop_bounds:
  "closer_loop s level m = level + 1 \<Longrightarrow> m \<le> i \<Longrightarrow> i \<le> level \<Longrightarrow> bebop__scan_peek_char_at s i = 0x3D"
proof (induction s level m rule: closer_loop.induct)
  case (1 s level m)
  have e: "m \<le> level \<and> bebop__scan_peek_char_at s m = 0x3D"
    using "1.prems" unfolding closer_loop.simps [of s level m] by (auto split: if_splits)
  then have "closer_loop s level (m + 1) = level + 1"
    using "1.prems"(1) by (subst (asm) closer_loop.simps) simp
  then show ?case
    using "1.IH" [OF e] "1.prems"(2,3) e by (cases "i = m") auto
qed

lemma closer_plain:
  assumes "at_closer s level" "i < level + 2"
  shows "plain (bebop__scan_peek_char_at s i)"
proof -
  consider "i = 0" | "1 \<le> i" "i \<le> level" | "i = level + 1"
    using assms(2) by linarith
  then show ?thesis
    using assms(1) closer_loop_bounds [of s level 1 i] by cases (auto simp: at_closer_def Let_def plain_def peek_at_0)
qed

lemma raw_block_loop_moves:
  "raw_block_loop level s = (b, t) \<Longrightarrow> moves im s t \<and> trivia t = trivia s \<and> (b \<longrightarrow> at_closer t level)"
proof (induction level s rule: raw_block_loop.induct)
  case (1 level s)
  show ?case
  proof (cases "bebop__scan_peek_char s = 0 \<or> at_closer s level")
    case True
    then show ?thesis
      using "1.prems" by (subst (asm) raw_block_loop.simps) (auto simp: moves_refl split: if_splits)
  next
    case False
    then have nz: "bebop__scan_peek_char s \<noteq> 0"
      by simp
    have "raw_block_loop level (bebop__scan_advance s) = (b, t)"
      using "1.prems" False by (subst (asm) raw_block_loop.simps) simp
    then show ?thesis
      using "1.IH" False moves_trans [OF advance_moves [OF nz]] by auto
  qed
qed

lemma scan_bracket_scans:
  assumes "internmap_ok im" "scan_bracket im s0 s = Some r" "moves im s0 s" "trivia s = trivia s0" "pos s0 < pos s"
  shows "scans_token im s0 r"
proof -
  define level where "level = raw_level s 0"
  show ?thesis
  proof (cases "bebop__scan_peek_char_at s level = 0x5B")
    case True
    define t where "t = scan_advance_n (level + 1) s"
    have "\<forall>i<level + 1. plain (bebop__scan_peek_char_at s i)"
      using raw_level_bounds [of 0 s] True by (auto simp: level_def less_Suc_eq plain_def)
    then have t: "moves im s t" "pos t = pos s + (level + 1)" "trivia t = trivia s"
      unfolding t_def using advance_n_moves [of "level + 1" s im] by blast+
    obtain b u where l: "raw_block_loop level t = (b, u)"
      by (cases "raw_block_loop level t")
    have u: "moves im t u" "trivia u = trivia t" "b \<Longrightarrow> at_closer u level"
      using raw_block_loop_moves [OF l, of im] by auto
    have m: "moves im s0 u" "trivia u = trivia s0" "pos s0 < pos u"
      using moves_trans [OF assms(3) moves_trans [OF t(1) u(1)]] u(2) t(2,3) assms(4,5) moves_pos [OF u(1)] by auto
    note body = assms(2) [unfolded scan_bracket_def Let_def, folded level_def, folded t_def]
    show ?thesis
    proof (cases b)
      case b: True
      define v where "v = scan_advance_n (level + 2) u"
      have "\<forall>i<level + 2. plain (bebop__scan_peek_char_at u i)"
        using closer_plain [OF u(3) [OF b]] by blast
      then have v: "moves im u v" "pos v = pos u + (level + 2)" "trivia v = trivia u"
        unfolding v_def using advance_n_moves [of "level + 2" u im] by blast+
      have n: "moves im s0 v" "trivia v = trivia s0" "pos s0 < pos v"
        using moves_trans [OF m(1) v(1)] v(2,3) m(2,3) by auto
      obtain h s' where h: "scan_intern im v (slice v (pos t) (pos u - pos t)) = Some (h, s')" "r = (token BEBOP_TOKEN_RAW_BLOCK (span_from s0 v) h, s')"
        using body True b by (auto simp: l v_def [symmetric] simp del: add_2_eq_Suc' split: option.splits)
      show ?thesis
        unfolding h(2) by (rule token_scans [OF n scan_intern_calm [OF assms(1) h(1)]]) simp
    next
      case False
      obtain c sp msg where r: "r = (token BEBOP_TOKEN_ERROR (span_from s0 (scan_report u c sp msg)) BEBOP_STR_NULL, scan_report u c sp msg)"
        using body True False by (auto simp: l)
      show ?thesis
        unfolding r using error_token_scans [of im s0 "scan_report u c sp msg"] moves_trans [OF m(1) scan_report_moves] m by simp
    qed
  next
    case False
    then have "r = (token BEBOP_TOKEN_LBRACKET (span_from s0 s) BEBOP_STR_NULL, s)"
      using assms(2) by (simp add: scan_bracket_def Let_def level_def)
    then show ?thesis
      using token_scans [OF assms(3-5) calm_refl] by simp
  qed
qed

lemma punctuation_not_eof: "map_of punctuation c = Some k \<Longrightarrow> k \<noteq> BEBOP_TOKEN_EOF"
  using map_of_SomeD by (fastforce simp: punctuation_def)

lemma scan_symbol_scans:
  assumes "internmap_ok im" "scan_symbol im s0 s c = Some r" "moves im s0 s" "trivia s = trivia s0" "pos s0 < pos s"
  shows "scans_token im s0 r"
proof -
  note here = token_scans [OF assms(3-5) calm_refl]
  consider "c = 0x5B" | "c = 0x2D" | k where "c \<noteq> 0x5B" "c \<noteq> 0x2D" "map_of punctuation c = Some k"
    | "c \<noteq> 0x5B" "c \<noteq> 0x2D" "map_of punctuation c = None"
    by fastforce
  then show ?thesis
  proof cases
    case 1
    then show ?thesis
      using assms(2) scan_bracket_scans [OF assms(1) _ assms(3-5)] by (simp add: scan_symbol_def)
  next
    case 2
    show ?thesis
    proof (cases "bebop__scan_peek_char s = 0x3E")
      case True
      then have nz: "bebop__scan_peek_char s \<noteq> 0"
        by simp
      have "r = (token BEBOP_TOKEN_ARROW (span_from s0 (bebop__scan_advance s)) BEBOP_STR_NULL, bebop__scan_advance s)"
        using assms(2) 2 True by (simp add: scan_symbol_def Let_def)
      moreover have "moves im s0 (bebop__scan_advance s)" "pos s0 < pos (bebop__scan_advance s)"
        using moves_trans [OF assms(3) advance_moves [OF nz]] assms(5) advance_pos_le [of s] by auto
      ultimately show ?thesis
        using token_scans [OF _ _ _ calm_refl, of im s0 "bebop__scan_advance s"] assms(4) by simp
    next
      case False
      then have "r = (token BEBOP_TOKEN_MINUS (span_from s0 s) BEBOP_STR_NULL, s)"
        using assms(2) 2 by (simp add: scan_symbol_def)
      then show ?thesis
        using here by simp
    qed
  next
    case 3
    then have "r = (token k (span_from s0 s) BEBOP_STR_NULL, s)"
      using assms(2) by (simp add: scan_symbol_def)
    then show ?thesis
      using here [OF punctuation_not_eof [OF 3(3)]] by simp
  next
    case 4
    then obtain h s' where h: "scan_intern im s (slice s (pos s0) 1) = Some (h, s')" "r = (token BEBOP_TOKEN_ERROR (span_from s0 s) h, s')"
      using assms(2) by (auto simp: scan_symbol_def split: option.splits)
    show ?thesis
      unfolding h(2) by (rule token_scans [OF assms(3-5) scan_intern_calm [OF assms(1) h(1)]]) simp
  qed
qed

lemma piece_empty: "located s \<Longrightarrow> span_from s s = piece (source s) (pos s) (pos s)"
  by (rule span_from_piece) simp_all

lemma scan_token_scans:
  assumes "internmap_ok im" "bebop__scan_token im s = Some r"
  shows "scans_token im s r"
proof -
  let ?c = "bebop__scan_peek_char s" and ?d = "bebop__scan_peek_char_at s 1"
  note body = assms(2) [unfolded bebop__scan_token_def Let_def]
  consider (eof) "?c = 0" | (bytes) "?c = 0x62" "?d = 0x22 \<or> ?d = 0x27" | (ident) "?c \<noteq> 0" "BEBOP_IS_IDENT_START ?c" "\<not> (?c = 0x62 \<and> (?d = 0x22 \<or> ?d = 0x27))"
    | (number) "?c \<noteq> 0" "\<not> BEBOP_IS_IDENT_START ?c" "BEBOP_IS_DIGIT ?c" | (str) "\<not> BEBOP_IS_IDENT_START ?c" "\<not> BEBOP_IS_DIGIT ?c" "?c = 0x22 \<or> ?c = 0x27"
    | (sym) "?c \<noteq> 0" "\<not> BEBOP_IS_IDENT_START ?c" "\<not> BEBOP_IS_DIGIT ?c" "\<not> (?c = 0x22 \<or> ?c = 0x27)"
    by blast
  then show ?thesis
  proof cases
    case eof
    then have "r = (token BEBOP_TOKEN_EOF (span_from s s) BEBOP_STR_NULL, s)"
      using body by simp
    then show ?thesis
      using eof piece_empty [of s] by (simp add: scans_token_def token_def moves_refl)
  next
    case bytes
    then have b: "bebop__scan_quoted im s True = Some r"
      using body by (auto simp: BEBOP_IS_IDENT_START_def BEBOP_IS_ALPHA_def)
    show ?thesis
      by (rule scan_quoted_scans [OF assms(1) b]) (use bytes in \<open>simp_all add: plain_def\<close>)
  next
    case ident
    then have b: "bebop__scan_identifier im s = Some r"
      using body by auto
    show ?thesis
      by (rule scan_identifier_scans [OF assms(1) b]) (use ident in \<open>simp add: BEBOP_IS_IDENT_CHAR_def\<close>)
  next
    case number
    then have b: "bebop__scan_number im s = Some r"
      using body by simp
    show ?thesis
      by (rule scan_number_scans [OF assms(1) b number(3)])
  next
    case str
    then have b: "bebop__scan_quoted im s False = Some r"
      using body by auto
    show ?thesis
      by (rule scan_quoted_scans [OF assms(1) b]) (use str in \<open>simp_all add: peek_at_0\<close>)
  next
    case sym
    then have b: "scan_symbol im s (bebop__scan_advance s) ?c = Some r"
      using body by simp
    show ?thesis
      by (rule scan_symbol_scans [OF assms(1) b advance_moves [OF sym(1)]]) (use advance_pos [OF peek_in_source [OF sym(1)]] in simp_all)
  qed
qed

end
