(* ===== verification/Schema_Tiling.thy ===== *)
theory Schema_Tiling
  imports Schema_Scan_Steps
begin

text \<open>
  The token stream of the scanner of \<^verbatim>\<open>bebop/src/bebop_scanner.c\<close>: its tokens and trivia cover the source without gaps and overlaps, each with the
  lines and columns of its ends, and the scan ends. A string literal without an end is accepted.
\<close>

section \<open>The scan of a token returns\<close>

text \<open>The capacity of the buffer of a literal is zero or a power of two; when it can no longer double, the allocation fails.\<close>

definition cap_ok :: "nat \<Rightarrow> bool" where
  "cap_ok cap \<longleftrightarrow> cap = 0 \<or> (\<exists>k\<le>57. cap = 2 ^ (6 + k))"

lemma alloc_none: "bebop__arena_alloc_n a sz 0 align = (None, a)"
  by (simp add: bebop__arena_alloc_n_def bebop_arena_alloc_def)

lemma grow_buf_cap:
  assumes "bebop__scan_grow_buf s cap = (ok, cap', s')" "cap_ok cap"
  shows "(ok \<longrightarrow> cap_ok cap' \<and> cap + 64 \<le> cap') \<and> (\<not> ok \<longrightarrow> error s' \<noteq> BEBOP_ERR_NONE)"
proof -
  define n where "n = (if cap = 0 then 64 else size_wrap (cap * 2))"
  have n: "n = 0 \<or> cap_ok n \<and> cap + 64 \<le> n"
  proof (cases "cap = 0")
    case True
    then show ?thesis
      by (auto simp: n_def cap_ok_def intro: exI [of _ 0])
  next
    case False
    then obtain k where k: "k \<le> 57" "cap = 2 ^ (6 + k)"
      using assms(2) by (auto simp: cap_ok_def)
    show ?thesis
    proof (cases "k = 57")
      case True
      then show ?thesis
        using k by (simp add: n_def size_wrap_def)
    next
      case False
      then have k': "k < 57"
        using k(1) by simp
      then have "(2::nat) ^ (7 + k) < 2 ^ 64"
        by (intro power_strict_increasing) simp_all
      moreover have "cap * 2 = 2 ^ (7 + k)"
        by (simp add: k(2) power_add)
      ultimately have n: "n = 2 ^ (6 + Suc k)"
        using \<open>cap \<noteq> 0\<close> by (simp add: n_def size_wrap_def power_add)
      have "(64::nat) \<le> 2 ^ (6 + k)"
        by (simp add: power_add)
      moreover have "(2::nat) ^ (6 + Suc k) = 2 ^ (6 + k) + 2 ^ (6 + k)"
        by (simp only: add_Suc_right power_Suc mult_2)
      ultimately have "cap + 64 \<le> n"
        using k(2) n by linarith
      then show ?thesis
        using n k' unfolding cap_ok_def by (metis Suc_leI)
    qed
  qed
  obtain p c where r: "on_arena (\<lambda>a. bebop__arena_alloc_n a 1 n 1) (ctx s) = (p, c)"
    by (cases "on_arena (\<lambda>a. bebop__arena_alloc_n a 1 n 1) (ctx s)")
  have "p = None" if "n = 0"
    using r that by (simp add: on_arena_def alloc_none)
  then show ?thesis
    using assms(1) n r unfolding bebop__scan_grow_buf_def Let_def n_def [symmetric] by (auto split: option.splits)
qed

lemma escape_room_total:
  assumes "cap_ok cap" "need \<le> cap + 4"
  shows "\<exists>cap' s'. escape_room need cap s = Some (cap', s') \<and> (error s' = BEBOP_ERR_NONE \<longrightarrow> cap_ok cap' \<and> need \<le> cap')"
proof -
  obtain ok cp t where g: "bebop__scan_grow_buf s cap = (ok, cp, t)"
    by (cases "bebop__scan_grow_buf s cap")
  show ?thesis
    using grow_buf_cap [OF g assms(1)] assms g by (auto simp: escape_room.simps [of need cap s] escape_room.simps [of need cp t])
qed

lemma quoted_room_cap:
  assumes "quoted_room s buf cap = (ok, cap', s')" "cap_ok cap" "length buf \<le> cap" "ok"
  shows "cap_ok cap' \<and> Suc (length buf) \<le> cap'"
  using assms grow_buf_cap [of s cap ok cap' s'] by (auto simp: quoted_room_def split: if_splits)

lemma quoted_loop_total: "cap_ok cap \<Longrightarrow> length buf \<le> cap \<Longrightarrow> quoted_loop q buf cap s \<noteq> None"
proof (induction q buf cap s rule: quoted_loop.induct)
  case (1 q buf cap s)
  let ?c = "bebop__scan_peek_char s" and ?a = "bebop__scan_advance s"
  show ?case
  proof (cases "?c = 0 \<or> error s \<noteq> BEBOP_ERR_NONE")
    case True
    then show ?thesis
      by (subst quoted_loop.simps) auto
  next
    case go: False
    obtain k out where u: "bebop_unescape_char (Some (drop (pos ?a) (source s))) = (k, out)"
      by (cases "bebop_unescape_char (Some (drop (pos ?a) (source s)))")
    obtain ok cp t where room: "quoted_room s buf cap = (ok, cp, t)"
      by (cases "quoted_room s buf cap")
    obtain ok2 cp2 t2 where room2: "quoted_room (bebop__scan_advance ?a) buf cap = (ok2, cp2, t2)"
      by (cases "quoted_room (bebop__scan_advance ?a) buf cap")
    have "length buf + length out \<le> cap + 4"
      using unescape_plain [OF u] "1.prems"(2) by simp
    then obtain cp3 t3 where room3: "escape_room (length buf + length out) cap ?a = Some (cp3, t3)"
        "error t3 = BEBOP_ERR_NONE \<longrightarrow> cap_ok cp3 \<and> length buf + length out \<le> cp3"
      using escape_room_total [OF "1.prems"(1)] by blast
    have double: "quoted_loop q (buf @ [q]) cp2 t2 \<noteq> None" if "?c = q" "bebop__scan_peek_char_at s 1 = q" ok2
      using "1.IH"(1) [OF go that(1,2) room2 [symmetric] refl that(3)] quoted_room_cap [OF room2 "1.prems" that(3)] by simp
    have esc: "quoted_loop q (buf @ out) cp3 (scan_advance_n k t3) \<noteq> None" if "?c \<noteq> q" "?c = 0x5C" "k \<noteq> 0" "error t3 = BEBOP_ERR_NONE"
      using "1.IH"(2) [OF go that(1,2) u [symmetric] that(3) room3(1) refl] room3(2) that(4) by simp
    have char: "quoted_loop q (buf @ [if BEBOP_IS_NEWLINE ?c then 0x0A else ?c]) cp (bebop__scan_advance t) \<noteq> None" if "?c \<noteq> q" "?c \<noteq> 0x5C" ok
      using "1.IH"(3) [OF go that(1,2) room [symmetric] refl that(3)] quoted_room_cap [OF room "1.prems" that(3)] by simp
    show ?thesis
      unfolding quoted_loop.simps [of q buf cap s]
      using go double esc char by (auto simp: u room room2 room3(1))
  qed
qed

text \<open>The string table of the context is in order, which every step keeps.\<close>

definition tabled :: "'m bebop_internmap \<Rightarrow> 'm bebop__scanner \<Rightarrow> bool" where
  "tabled im s \<longleftrightarrow> (\<exists>ss. stores im (intern (ctx s)) ss)"

lemma moves_tabled: "moves im s t \<Longrightarrow> tabled im s \<Longrightarrow> tabled im t"
  unfolding moves_def tabled_def by blast

lemma scan_intern_total:
  assumes "\<forall>m h i a. im_insert im m h i a \<noteq> None" "tabled im s"
  shows "scan_intern im s str \<noteq> None"
  using assms intern_n_total [of im "intern (ctx s)" _ str] by (auto simp: tabled_def scan_intern_def split: option.splits)

lemma scan_intern_some:
  assumes "\<forall>m h i a. im_insert im m h i a \<noteq> None" "tabled im s" "moves im s t"
  shows "\<exists>h s'. scan_intern im t str = Some (h, s')"
  using scan_intern_total [OF assms(1) moves_tabled [OF assms(3,2)], of str] by auto

lemma quoted_finish_total:
  assumes "\<forall>m h i a. im_insert im m h i a \<noteq> None" "tabled im s"
  shows "quoted_finish im is_bytes s0 buf cap s \<noteq> None"
proof -
  obtain p c where room: "(if length buf \<ge> cap then on_arena (\<lambda>a. bebop__arena_alloc_n a 1 (length buf + 1) 1) (ctx s) else (Some 0, ctx s)) = (p, c)"
    by (cases "if length buf \<ge> cap then on_arena (\<lambda>a. bebop__arena_alloc_n a 1 (length buf + 1) 1) (ctx s) else (Some 0, ctx s)")
  have "\<exists>a. intern c = (intern (ctx s))\<lparr>iarena := a\<rparr>"
    using room on_arena_intern [of _ "ctx s" p c] by (auto split: if_splits intro: exI [of _ "iarena (intern (ctx s))"])
  then have "still s (s\<lparr>ctx := c\<rparr>)"
    by (auto simp: still_def)
  from scan_intern_some [OF assms still_moves [OF this]] obtain h s' where "scan_intern im (s\<lparr>ctx := c\<rparr>) buf = Some (h, s')"
    by blast
  then show ?thesis
    unfolding quoted_finish_def room by (auto simp: Let_def split: option.split)
qed

lemma scan_quoted_total:
  assumes "\<forall>m h i a. im_insert im m h i a \<noteq> None" "tabled im s"
    "bebop__scan_peek_char_at s (if is_bytes then 1 else 0) = 0x22 \<or> bebop__scan_peek_char_at s (if is_bytes then 1 else 0) = 0x27"
    "is_bytes \<Longrightarrow> plain (bebop__scan_peek_char s)"
  shows "bebop__scan_quoted im s is_bytes \<noteq> None"
proof -
  define t where "t = (if is_bytes then bebop__scan_advance s else s)"
  define q where "q = bebop__scan_peek_char t"
  have q: "q = 0x22 \<or> q = 0x27" "moves im s t"
    using assms(3,4) peek_at_advance(1) [of s 0] advance_moves [of s im]
    by (auto simp: q_def t_def peek_at_0 plain_def moves_refl split: if_splits)
  then have nz: "bebop__scan_peek_char t \<noteq> 0" and plain: "plain q"
    by (auto simp: q_def plain_def)
  obtain skip buf cap u where l: "quoted_loop q [] 0 (bebop__scan_advance t) = Some (skip, buf, cap, u)"
    using quoted_loop_total [of 0 "[]" q "bebop__scan_advance t"] by (auto simp: cap_ok_def)
  have "tabled im u"
    using moves_tabled [OF moves_trans [OF q(2) moves_trans [OF advance_moves [OF nz] conjunct1 [OF quoted_loop_moves [OF l plain]]]] assms(2)] .
  then show ?thesis
    using quoted_finish_total [OF assms(1)] q(1) unfolding bebop__scan_quoted_def t_def [symmetric] Let_def q_def [symmetric]
    by (auto simp: l)
qed

lemma scan_bracket_total:
  assumes "\<forall>m h i a. im_insert im m h i a \<noteq> None" "tabled im s"
  shows "scan_bracket im s0 s \<noteq> None"
proof (cases "bebop__scan_peek_char_at s (raw_level s 0) = 0x5B")
  case True
  define level where "level = raw_level s 0"
  define t where "t = scan_advance_n (level + 1) s"
  have p: "\<forall>i<level + 1. plain (bebop__scan_peek_char_at s i)"
    using raw_level_bounds [of 0 s] True by (auto simp: level_def less_Suc_eq plain_def)
  have t: "moves im s t"
    unfolding t_def using advance_n_moves [OF p, of im] by simp
  obtain b u where l: "raw_block_loop level t = (b, u)"
    by (cases "raw_block_loop level t")
  show ?thesis
  proof (cases b)
    case b: True
    have "\<forall>i<level + 2. plain (bebop__scan_peek_char_at u i)"
      using raw_block_loop_moves [OF l] closer_plain b by blast
    then have "moves im u (scan_advance_n (level + 2) u)"
      using advance_n_moves by blast
    then have "moves im s (scan_advance_n (level + 2) u)"
      using moves_trans [OF t moves_trans [OF conjunct1 [OF raw_block_loop_moves [OF l]]]] by blast
    from scan_intern_some [OF assms this] obtain h s' where
      "scan_intern im (scan_advance_n (level + 2) u) (slice (scan_advance_n (level + 2) u) (pos t) (pos u - pos t)) = Some (h, s')"
      by blast
    then show ?thesis
      unfolding scan_bracket_def Let_def level_def [symmetric] t_def [symmetric] l using b by (simp del: add_2_eq_Suc')
  next
    case False
    then show ?thesis
      unfolding scan_bracket_def Let_def level_def [symmetric] t_def [symmetric] l by simp
  qed
qed (simp add: scan_bracket_def Let_def)

lemma scan_symbol_total:
  assumes "\<forall>m h i a. im_insert im m h i a \<noteq> None" "tabled im s"
  shows "scan_symbol im s0 s c \<noteq> None"
  using scan_bracket_total [OF assms, of s0] scan_intern_total [OF assms, of "slice s (pos s0) 1"]
  by (auto simp: scan_symbol_def Let_def split: option.split)

lemma scan_token_total:
  assumes "\<forall>m h i a. im_insert im m h i a \<noteq> None" "tabled im s"
  shows "bebop__scan_token im s \<noteq> None"
proof -
  let ?c = "bebop__scan_peek_char s"
  have "bebop__scan_identifier im s \<noteq> None"
    using scan_intern_some [OF assms conjunct1 [OF scan_while_moves_im [of BEBOP_IS_IDENT_CHAR, OF ident_zero]]] by (auto simp: bebop__scan_identifier_def Let_def split: option.splits)
  moreover have "bebop__scan_number im s \<noteq> None"
    using scan_intern_some [OF assms conjunct1 [OF number_loop_moves]] by (auto simp: bebop__scan_number_def Let_def split: option.splits)
  moreover have "scan_symbol im s (bebop__scan_advance s) ?c \<noteq> None" if "?c \<noteq> 0"
    using scan_symbol_total [OF assms(1) moves_tabled [OF advance_moves [OF that] assms(2)]] .
  moreover have "bebop__scan_quoted im s True \<noteq> None" if "?c = 0x62" "bebop__scan_peek_char_at s 1 = 0x22 \<or> bebop__scan_peek_char_at s 1 = 0x27"
    using scan_quoted_total [OF assms, of True] that by (simp add: plain_def)
  moreover have "bebop__scan_quoted im s False \<noteq> None" if "?c = 0x22 \<or> ?c = 0x27"
    using scan_quoted_total [OF assms, of False] that by (simp add: peek_at_0)
  ultimately show ?thesis
    unfolding bebop__scan_token_def Let_def by (auto split: if_split)
qed

section \<open>The token stream\<close>

text \<open>The spans of a token with its trivia, in the order of the source.\<close>

definition slice_spans :: "bebop_trivia list \<Rightarrow> bebop_trivia_list \<Rightarrow> bebop_span list" where
  "slice_spans tr l = map trivia_span (take (tl_count l) (drop (tl_off l) tr))"

definition raw_spans :: "bebop_trivia list \<Rightarrow> bebop_token \<Rightarrow> bebop_span list" where
  "raw_spans tr t = slice_spans tr (leading t) @ [span t] @ slice_spans tr (trailing t)"

lemma slice_spans_mid: "tl_off l = length xs \<Longrightarrow> tl_count l = length ys \<Longrightarrow> slice_spans (xs @ ys @ zs) l = map trivia_span ys"
  by (simp add: slice_spans_def)

lemma slice_spans_none [simp]: "slice_spans tr no_trivia = []"
  by (simp add: slice_spans_def no_trivia_def)

text \<open>What the next token is, when memory lasts.\<close>

definition next_token :: "'m bebop__scanner \<Rightarrow> bebop_token \<Rightarrow> 'm bebop__scanner \<Rightarrow> bool" where
  "next_token s tok s' \<longleftrightarrow>
     (\<forall>rest. if kind tok = BEBOP_TOKEN_EOF
        then trailing tok = no_trivia \<and> tiles (source s) (pos s) (slice_spans (trivia s' @ rest) (leading tok)) (pos s') \<and>
          span tok = piece (source s) (pos s') (pos s') \<and> bebop__scan_peek_char s' = 0
        else tiles (source s) (pos s) (raw_spans (trivia s' @ rest) tok) (pos s') \<and> pos s < pos s')"

lemma scan_next_total:
  assumes "\<forall>m h i a. im_insert im m h i a \<noteq> None" "tabled im s"
  shows "bebop__scan_next im s \<noteq> None"
proof -
  let ?t = "bebop__scan_skip_leading_trivia s"
  have "tabled im ?t"
    by (rule moves_tabled [OF skips_moves [OF skip_leading_skips] assms(2)])
  from scan_token_total [OF assms(1) this] obtain tok u where "bebop__scan_token im ?t = Some (tok, u)"
    by auto
  then show ?thesis
    by (auto simp: bebop__scan_next_def Let_def split: prod.split)
qed

lemma scan_next_tiles:
  assumes "internmap_ok im" "bebop__scan_next im s = Some (tok, s')" "located s" "error s = BEBOP_ERR_NONE"
  shows "moves im s s' \<and> (\<exists>ts. trivia s' = trivia s @ ts) \<and> (error s' = BEBOP_ERR_NONE \<longrightarrow> next_token s tok s')"
proof -
  define t where "t = bebop__scan_skip_leading_trivia s"
  have lead: "skips im s t"
    unfolding t_def by (rule skip_leading_skips)
  then obtain ls where ls: "trivia t = trivia s @ ls" "error t = BEBOP_ERR_NONE \<Longrightarrow> tiles (source s) (pos s) (map trivia_span ls) (pos t)"
    using assms(3) by (auto simp: skips_def)
  have lt: "located t" "source t = source s"
    using lead assms(3) by (auto simp: skips_def moves_def)
  show ?thesis
  proof (cases "error t = BEBOP_ERR_NONE")
    case False
    then have "s' = t"
      using assms(2,4) by (auto simp: bebop__scan_next_def Let_def t_def)
    then show ?thesis
      using False lead ls(1) by (auto simp: skips_def)
  next
    case True
    note tiles1 = ls(2) [OF True]
    obtain tk u where tk: "bebop__scan_token im t = Some (tk, u)"
      using assms(2,4) True by (cases "bebop__scan_token im t") (auto simp: bebop__scan_next_def Let_def t_def)
    have sc: "moves im t u" "trivia u = trivia t" "trailing tk = no_trivia" "span tk = piece (source s) (pos t) (pos u)"
        "kind tk = BEBOP_TOKEN_EOF \<Longrightarrow> u = t \<and> bebop__scan_peek_char t = 0" "kind tk \<noteq> BEBOP_TOKEN_EOF \<Longrightarrow> pos t < pos u"
      using scan_token_scans [OF assms(1) tk] lt by (auto simp: scans_token_def split: if_splits)
    define lead_list where "lead_list = bebop__scan_trivia_slice t (length (trivia s))"
    have off: "tl_off lead_list = length (trivia s)" "tl_count lead_list = length ls"
      using ls(1) by (simp_all add: lead_list_def bebop__scan_trivia_slice_def)
    have lspans: "slice_spans (trivia s @ ls @ zs) lead_list = map trivia_span ls" for zs
      by (rule slice_spans_mid [OF off])
    have mu: "moves im s u"
      by (rule moves_trans [OF skips_moves [OF lead] sc(1)])
    show ?thesis
    proof (cases "kind tk \<noteq> BEBOP_TOKEN_EOF \<and> error u = BEBOP_ERR_NONE")
      case False
      then have r: "tok = tk\<lparr>leading := lead_list\<rparr>" "s' = u"
        using assms(2,4) True tk unfolding bebop__scan_next_def Let_def t_def [symmetric] lead_list_def by (auto split: if_splits)
      have "next_token s tok s'" if "error u = BEBOP_ERR_NONE"
        using False that sc(3,4,5) tiles1 ls(1) by (simp add: next_token_def r lspans)
      then show ?thesis
        using r mu sc(2) ls(1) by simp
    next
      case go: True
      define v where "v = trailing_trivia_loop u"
      have trail: "skips im u v"
        unfolding v_def by (rule trailing_skips)
      have lu: "located u" "source u = source s"
        using sc(1) lt by (auto simp: moves_def)
      obtain us where us: "trivia v = trivia u @ us" "error v = BEBOP_ERR_NONE \<Longrightarrow> tiles (source s) (pos u) (map trivia_span us) (pos v)"
        using trail lu by (auto simp: skips_def)
      define trail_list where "trail_list = bebop__scan_trivia_slice v (length (trivia u))"
      have r: "tok = tk\<lparr>leading := lead_list, trailing := trail_list\<rparr>" "s' = v"
        using assms(2,4) True tk go unfolding bebop__scan_next_def Let_def t_def [symmetric] lead_list_def trail_list_def
          bebop__scan_collect_trailing_trivia_def v_def by auto
      have "tl_off trail_list = length (trivia s @ ls)" "tl_count trail_list = length us"
        using us(1) sc(2) ls(1) by (simp_all add: trail_list_def bebop__scan_trivia_slice_def)
      then have uspans: "slice_spans (trivia s @ ls @ us @ zs) trail_list = map trivia_span us" for zs
        using slice_spans_mid [of trail_list "trivia s @ ls" us zs] by simp
      have "pos u \<le> length (source s)"
        using lu by (simp add: located_def)
      then have "next_token s tok s'" if "error v = BEBOP_ERR_NONE"
        using go sc(2,4,6) tiles1 us(2) [OF that] ls(1) us(1) moves_pos [OF skips_moves [OF trail]] moves_pos [OF skips_moves [OF lead]]
        by (auto simp: next_token_def r raw_spans_def lspans uspans tiles_append intro!: exI [of _ "pos t"] bexI [of _ "pos u"])
      then show ?thesis
        using r moves_trans [OF mu skips_moves [OF trail]] us(1) sc(2) ls(1) by auto
    qed
  qed
qed

text \<open>The tokens of a source: all but the last cover it up to the position of the last, which is the token of the end.\<close>

definition covered :: "byte list \<Rightarrow> nat \<Rightarrow> bebop_trivia list \<Rightarrow> bebop_token list \<Rightarrow> nat \<Rightarrow> bool" where
  "covered src a tr toks n \<longleftrightarrow>
     (\<exists>ts eof. toks = ts @ [eof] \<and> kind eof = BEBOP_TOKEN_EOF \<and> trailing eof = no_trivia \<and> span eof = piece src n n \<and>
        (\<forall>t\<in>set ts. kind t \<noteq> BEBOP_TOKEN_EOF) \<and> tiles src a (concat (map (raw_spans tr) ts) @ slice_spans tr (leading eof)) n)"

lemma covered_last:
  assumes "next_token s tok s'" "kind tok = BEBOP_TOKEN_EOF"
  shows "covered (source s) (pos s) (trivia s') [tok] (pos s')"
  unfolding covered_def using assms(1) [unfolded next_token_def, rule_format, of "[]"] assms(2)
  by (intro exI [of _ "[]"] exI [of _ tok]) simp

lemma covered_more:
  assumes "next_token s tok s'" "kind tok \<noteq> BEBOP_TOKEN_EOF" "covered (source s) (pos s') (trivia s' @ rest) toks n"
  shows "covered (source s) (pos s) (trivia s' @ rest) (tok # toks) n"
proof -
  obtain ts eof where c: "toks = ts @ [eof]" "kind eof = BEBOP_TOKEN_EOF" "trailing eof = no_trivia" "span eof = piece (source s) n n"
      "\<forall>t\<in>set ts. kind t \<noteq> BEBOP_TOKEN_EOF" "tiles (source s) (pos s') (concat (map (raw_spans (trivia s' @ rest)) ts) @ slice_spans (trivia s' @ rest) (leading eof)) n"
    using assms(3) unfolding covered_def by blast
  have "tiles (source s) (pos s) (raw_spans (trivia s' @ rest) tok) (pos s')"
    using assms(1,2) by (simp add: next_token_def)
  then have "tiles (source s) (pos s) (concat (map (raw_spans (trivia s' @ rest)) (tok # ts)) @ slice_spans (trivia s' @ rest) (leading eof)) n"
    using c(6) tiles_append [of "source s" "pos s" "raw_spans (trivia s' @ rest) tok"] by auto
  then show ?thesis
    unfolding covered_def using c(1-5) assms(2) by (intro exI [of _ "tok # ts"] exI [of _ eof]) simp
qed

lemma scan_loop_step:
  assumes "error s = BEBOP_ERR_NONE" "bebop__scan_next im s = Some (tok, t)"
  shows "\<exists>u. still t u \<and>
    ((\<exists>p cap'. error u = error t \<and> scan_loop im toks buf cap s =
       (if kind tok = BEBOP_TOKEN_EOF then Some (toks @ [tok], u) else scan_loop im (toks @ [tok]) p cap' u)) \<or>
     error u \<noteq> BEBOP_ERR_NONE \<and> scan_loop im toks buf cap s = Some (toks, u))"
proof -
  obtain p cap' c where r: "(if length toks \<ge> cap
      then (case on_arena (\<lambda>a. bebop_arena_realloc a buf (cap * SIZEOF_TOKEN) ((cap * 2 mod 2 ^ 32) * SIZEOF_TOKEN)) (ctx t) of
              (p, c) \<Rightarrow> (p, cap * 2 mod 2 ^ 32, c))
      else (buf, cap, ctx t)) = (p, cap', c)"
    by (metis prod_cases3)
  have i: "\<exists>a. intern c = (intern (ctx t))\<lparr>iarena := a\<rparr>"
    using r on_arena_intern [of _ "ctx t"] by (auto split: if_splits prod.splits intro: exI [of _ "iarena (intern (ctx t))"])
  have body: "scan_loop im toks buf cap s =
      (if length toks \<ge> cap \<and> p = None then Some (toks, scan_fail (t\<lparr>ctx := c\<rparr>) ''Failed to allocate token buffer'')
       else if kind tok = BEBOP_TOKEN_EOF then Some (toks @ [tok], t\<lparr>ctx := c\<rparr>)
       else scan_loop im (toks @ [tok]) p cap' (t\<lparr>ctx := c\<rparr>))"
    using assms r by (subst scan_loop.simps) simp
  have st: "still t (t\<lparr>ctx := c\<rparr>)"
    using i by (auto simp: still_def)
  show ?thesis
  proof (cases "length toks \<ge> cap \<and> p = None")
    case True
    then show ?thesis
      using body scan_fail_still [OF i, of "''Failed to allocate token buffer''"]
      by (intro exI [of _ "scan_fail (t\<lparr>ctx := c\<rparr>) ''Failed to allocate token buffer''"]) simp
  next
    case False
    then have "scan_loop im toks buf cap s =
        (if kind tok = BEBOP_TOKEN_EOF then Some (toks @ [tok], t\<lparr>ctx := c\<rparr>) else scan_loop im (toks @ [tok]) p cap' (t\<lparr>ctx := c\<rparr>))"
      using body by auto
    then show ?thesis
      using st by (intro exI [of _ "t\<lparr>ctx := c\<rparr>"]) (metis bebop__scanner.select_convs(10) bebop__scanner.update_convs(5) bebop__scanner.surjective)
  qed
qed

lemma next_token_still:
  assumes "still t u" "next_token s tok t"
  shows "next_token s tok u"
proof -
  have "bebop__scan_peek_char u = bebop__scan_peek_char t"
    using assms(1) by (simp add: still_def bebop__scan_peek_char_def)
  then show ?thesis
    using assms by (simp add: next_token_def still_def)
qed

lemma scan_loop_tiles:
  assumes "internmap_ok im" "\<forall>m h i a. im_insert im m h i a \<noteq> None" "tabled im s" "located s" "error s = BEBOP_ERR_NONE"
  shows "\<exists>ts s'. scan_loop im toks buf cap s = Some (toks @ ts, s') \<and> moves im s s' \<and> (\<exists>xs. trivia s' = trivia s @ xs) \<and>
    (error s' = BEBOP_ERR_NONE \<longrightarrow> covered (source s) (pos s) (trivia s') ts (pos s') \<and> bebop__scan_peek_char s' = 0)"
  using assms(3-)
proof (induction "length (source s) - pos s" arbitrary: s toks buf cap rule: less_induct)
  case less
  obtain tok t where n: "bebop__scan_next im s = Some (tok, t)"
    using scan_next_total [OF assms(2) less.prems(1)] by auto
  obtain xs where t: "moves im s t" "trivia t = trivia s @ xs" "error t = BEBOP_ERR_NONE \<Longrightarrow> next_token s tok t"
    using scan_next_tiles [OF assms(1) n less.prems(2,3)] by auto
  obtain u p cap' where st: "still t u" and u: "(error u = error t \<and> scan_loop im toks buf cap s =
       (if kind tok = BEBOP_TOKEN_EOF then Some (toks @ [tok], u) else scan_loop im (toks @ [tok]) p cap' u)) \<or>
     error u \<noteq> BEBOP_ERR_NONE \<and> scan_loop im toks buf cap s = Some (toks, u)"
    using scan_loop_step [OF less.prems(3) n, of toks buf cap] by blast
  have mu: "moves im s u" "trivia u = trivia s @ xs" "source u = source s" "located u"
    using moves_trans [OF t(1) still_moves [OF st]] t st less.prems(2) by (auto simp: still_def moves_def)
  show ?case
  proof (cases "error u = error t \<and> error t = BEBOP_ERR_NONE \<and> scan_loop im toks buf cap s =
      (if kind tok = BEBOP_TOKEN_EOF then Some (toks @ [tok], u) else scan_loop im (toks @ [tok]) p cap' u)")
    case go: True
    have nt: "next_token s tok u"
      using next_token_still [OF st t(3)] go by simp
    show ?thesis
    proof (cases "kind tok = BEBOP_TOKEN_EOF")
      case True
      then have "bebop__scan_peek_char u = 0"
        using nt by (simp add: next_token_def)
      then show ?thesis
        using go True mu covered_last [OF nt True] by (intro exI [of _ "[tok]"] exI [of _ u]) simp
    next
      case False
      have "pos s < pos u" "pos u \<le> length (source s)"
        using nt False mu(3,4) by (auto simp: next_token_def located_def)
      then have dec: "length (source u) - pos u < length (source s) - pos s"
        using mu(3) by simp
      obtain ts s' ys where r: "scan_loop im (toks @ [tok]) p cap' u = Some ((toks @ [tok]) @ ts, s')" "moves im u s'" "trivia s' = trivia u @ ys"
          "error s' = BEBOP_ERR_NONE \<longrightarrow> covered (source u) (pos u) (trivia s') ts (pos s') \<and> bebop__scan_peek_char s' = 0"
        using less.hyps [OF dec moves_tabled [OF mu(1) less.prems(1)] mu(4), of "toks @ [tok]" p cap'] go by auto
      have "error s' = BEBOP_ERR_NONE \<longrightarrow> covered (source s) (pos s) (trivia s') (tok # ts) (pos s') \<and> bebop__scan_peek_char s' = 0"
        using covered_more [OF nt False, of ys ts "pos s'"] r(3,4) mu(3) by simp
      then show ?thesis
        using go False r(1,3) moves_trans [OF mu(1) r(2)] mu(2) by (intro exI [of _ "tok # ts"] exI [of _ s']) simp
    qed
  next
    case False
    have "error u \<noteq> BEBOP_ERR_NONE"
      using u False st by (auto simp: still_def)
    moreover have "\<exists>ts. scan_loop im toks buf cap s = Some (toks @ ts, u)"
    proof -
      have "scan_loop im (toks @ [tok]) p cap' u = Some (toks @ [tok], u)"
        using \<open>error u \<noteq> BEBOP_ERR_NONE\<close> by (subst scan_loop.simps) simp
      then show ?thesis
        using u by (auto split: if_splits intro: exI [of _ "[tok]"] exI [of _ "[]"])
    qed
    ultimately show ?thesis
      using mu by blast
  qed
qed

text \<open>The pieces of trivia that a resolved list points to.\<close>

definition list_trivia :: "bebop_trivia list \<Rightarrow> bebop_trivia_list \<Rightarrow> bebop_trivia list" where
  "list_trivia tr l = (case items l of None \<Rightarrow> [] | Some i \<Rightarrow> take (tl_count l) (drop i tr))"

definition token_spans :: "bebop_trivia list \<Rightarrow> bebop_token \<Rightarrow> bebop_span list" where
  "token_spans tr t = map trivia_span (list_trivia tr (leading t)) @ [span t] @ map trivia_span (list_trivia tr (trailing t))"

lemma resolve_spans: "map trivia_span (list_trivia tr (resolve_list l)) = slice_spans tr l"
  by (auto simp: list_trivia_def resolve_list_def slice_spans_def split: option.splits)

lemma token_spans_resolve: "token_spans tr (resolve_token t) = raw_spans tr t"
  by (simp add: token_spans_def raw_spans_def resolve_token_def resolve_spans)

lemma resolve_simps [simp]: "kind (resolve_token t) = kind t" "span (resolve_token t) = span t" "leading (resolve_token t) = resolve_list (leading t)"
  by (simp_all add: resolve_token_def)

text \<open>
  C12: the scanner. The scan of a source returns, whatever the source, unless the vendored map stops the program. When memory lasts, the result
  ends with the one token of the end, and the other tokens with their leading and trailing trivia cover the source
  up to the end or its first zero byte, in order, without a gap or an overlap, none of them empty; the span of each has
  the offset, the length, and the line and column of both ends.
\<close>

theorem scan_covers_source:
  assumes "internmap_ok im" "\<forall>m h i a. im_insert im m h i a \<noteq> None" "stores im (intern c) ss"
  shows "\<exists>toks s. bebop__scan_with_schema im c src sch = Some (toks, s) \<and>
    (error s = BEBOP_ERR_NONE \<longrightarrow>
      (\<exists>ts eof n. toks = ts @ [eof] \<and> kind eof = BEBOP_TOKEN_EOF \<and> (\<forall>t\<in>set ts. kind t \<noteq> BEBOP_TOKEN_EOF) \<and>
         n = length (takeWhile (\<lambda>b. b \<noteq> 0) src) \<and> span eof = piece src n n \<and>
         tiles src 0 (concat (map (token_spans (trivia s)) ts) @ map trivia_span (list_trivia (trivia s) (leading eof))) n))"
proof -
  define cap where "cap = (length src div 4 mod 2 ^ 32 + 16) mod 2 ^ 32"
  obtain p c' where r: "on_arena (\<lambda>a. bebop__arena_alloc_n a SIZEOF_TOKEN cap 8) c = (p, c')"
    by (cases "on_arena (\<lambda>a. bebop__arena_alloc_n a SIZEOF_TOKEN cap 8) c")
  define s0 where "s0 = \<lparr>source = src, pos = 0, line = 1, col = 1, ctx = c', schema = sch, trivia = [], trivia_buf = None, trivia_capacity = 0,
    error = BEBOP_ERR_NONE\<rparr>"
  define s1 where "s1 = (if p = None then scan_fail s0 ''Failed to allocate token buffer'' else s0)"
  have body: "bebop__scan_with_schema im c src sch = (case scan_loop im [] p cap s1 of None \<Rightarrow> None
      | Some (tokens, s) \<Rightarrow> Some (if error s = BEBOP_ERR_NONE then map resolve_token tokens else tokens, s))"
    unfolding bebop__scan_with_schema_def Let_def cap_def [symmetric] r by (simp add: s1_def s0_def)
  show ?thesis
  proof (cases p)
    case None
    then have e: "error s1 \<noteq> BEBOP_ERR_NONE"
      by (simp add: s1_def)
    then have "scan_loop im [] p cap s1 = Some ([], s1)"
      by (subst scan_loop.simps) simp
    then show ?thesis
      using body e by simp
  next
    case (Some q)
    then have s1: "s1 = s0"
      by (simp add: s1_def)
    have "located s0"
      by (simp add: s0_def located_def line_at_def col_at_def)
    moreover have "tabled im s0"
      using on_arena_intern [OF r] assms(3) by (auto simp: tabled_def s0_def stores_arena)
    moreover have "error s0 = BEBOP_ERR_NONE"
      by (simp add: s0_def)
    ultimately obtain toks s where l: "scan_loop im [] p cap s0 = Some ([] @ toks, s)" "moves im s0 s"
        "error s = BEBOP_ERR_NONE \<longrightarrow> covered (source s0) (pos s0) (trivia s) toks (pos s) \<and> bebop__scan_peek_char s = 0"
      using scan_loop_tiles [OF assms(1,2), of s0 "[]" p cap] by blast
    have src: "source s = src" "pos s \<le> length src" "\<forall>i<pos s. src ! i \<noteq> 0"
      using l(2) \<open>located s0\<close> by (auto simp: moves_def located_def s0_def)
    have res: "bebop__scan_with_schema im c src sch = Some (if error s = BEBOP_ERR_NONE then map resolve_token toks else toks, s)"
      using body l(1) s1 by simp
    show ?thesis
    proof (cases "error s = BEBOP_ERR_NONE")
      case True
      then obtain ts eof where c: "toks = ts @ [eof]" "kind eof = BEBOP_TOKEN_EOF" "span eof = piece src (pos s) (pos s)" "\<forall>t\<in>set ts. kind t \<noteq> BEBOP_TOKEN_EOF"
          "tiles src 0 (concat (map (raw_spans (trivia s)) ts) @ slice_spans (trivia s) (leading eof)) (pos s)"
        using l(3) by (auto simp: covered_def s0_def)
      have "pos s = length src \<or> src ! pos s = 0"
        using l(3) True src(1,2) by (auto simp: bebop__scan_peek_char_def split: if_splits)
      then have "takeWhile (\<lambda>b. b \<noteq> 0) src = take (pos s) src"
        using src(3) by (intro takeWhile_eq_take_P_nth) auto
      then have "length (takeWhile (\<lambda>b. b \<noteq> 0) src) = pos s"
        using src(2) by simp
      then show ?thesis
        using res True c by (auto simp: token_spans_resolve resolve_spans comp_def
            intro!: exI [of _ "map resolve_token ts"] exI [of _ "resolve_token eof"])
    next
      case False
      then show ?thesis
        using res by simp
    qed
  qed
qed

definition example_context :: "(u64 \<Rightarrow> nat option) bebop_context" where
  "example_context = \<lparr>intern = example_intern, last_error = BEBOP_ERR_NONE, error_message = None\<rparr>"

lemma example_context_stores: "stores example_internmap (intern example_context) []"
proof -
  have "bebop_intern_init example_internmap example_intern_arena 0 = Some example_intern"
    using example_intern_init by (auto simp: example_intern_def)
  from init_stores [OF example_internmap_ok this] show ?thesis
    by (simp add: example_context_def)
qed

lemma example_insert: "\<forall>m h i a. im_insert example_internmap m h i a \<noteq> None"
  by (simp add: example_internmap_def)

lemmas example_alloc = example_alloc_defs example_table(7) on_arena_def

lemmas example_chars = bebop__scan_advance_def bebop__scan_peek_char_def bebop__scan_peek_char_at_def BEBOP_IS_NEWLINE_def
  BEBOP_IS_WHITESPACE_def BEBOP_IS_IDENT_START_def BEBOP_IS_ALPHA_def BEBOP_IS_DIGIT_def

lemmas example_trivia = scan_while.simps bebop__scan_skip_leading_trivia.simps trailing_trivia_loop.simps bebop__scan_skip_whitespace_def
  bebop__scan_skip_newline_def bebop__scan_skip_line_comment_def bebop__scan_skip_block_comment_def bebop__scan_collect_trailing_trivia_def
  bebop__scan_trivia_push_def bebop__scan_trivia_slice_def bebop_arena_realloc_def realloc_in_place_def bebop_arena_malloc_def
  SIZEOF_TRIVIA_def BEBOP_TRIVIA_INITIAL_CAPACITY_def

lemma example_scan:
  "\<exists>toks s. bebop__scan_with_schema example_internmap example_context (ascii ''{ }'') None = Some (toks, s) \<and>
     error s = BEBOP_ERR_NONE \<and> length toks = 3"
  by (simp add: bebop__scan_with_schema_def example_context_def ascii_def scan_loop.simps bebop__scan_next_def bebop__scan_token_def
      scan_symbol_def punctuation_def token_def SIZEOF_TOKEN_def Let_def example_alloc example_chars example_trivia)

theorem scan_covers_source_witness:
  "\<exists>toks s. bebop__scan_with_schema example_internmap example_context (ascii ''{ }'') None = Some (toks, s) \<and> error s = BEBOP_ERR_NONE \<and>
     (\<exists>ts eof. toks = ts @ [eof] \<and> kind eof = BEBOP_TOKEN_EOF \<and> length ts = 2 \<and>
        tiles (ascii ''{ }'') 0 (concat (map (token_spans (trivia s)) ts) @ map trivia_span (list_trivia (trivia s) (leading eof))) 3)"
proof -
  obtain toks s where r: "bebop__scan_with_schema example_internmap example_context (ascii ''{ }'') None = Some (toks, s)"
    "error s = BEBOP_ERR_NONE" "length toks = 3"
    using example_scan by blast
  have "length (takeWhile (\<lambda>b. b \<noteq> 0) (ascii ''{ }'')) = 3"
    by (simp add: ascii_def)
  with scan_covers_source [OF example_internmap_ok example_insert example_context_stores, of "ascii ''{ }''" None] r(1,2)
  obtain ts eof where t: "toks = ts @ [eof]" "kind eof = BEBOP_TOKEN_EOF"
    "tiles (ascii ''{ }'') 0 (concat (map (token_spans (trivia s)) ts) @ map trivia_span (list_trivia (trivia s) (leading eof))) 3"
    by (metis option.inject prod.inject)
  then show ?thesis
    using r by fastforce
qed

section \<open>Literals without an end\<close>

lemma quoted_room_error:
  "quoted_room s buf cap = (ok, cap', t) \<Longrightarrow> error t = (if ok then error s else BEBOP_ERR_OUT_OF_MEMORY)"
  by (auto simp: quoted_room_def bebop__scan_grow_buf_def scan_fail_def Let_def split: if_splits prod.splits option.splits)

lemma quoted_loop_open:
  assumes "quoted_loop q buf cap s = Some (skip, buf', cap', s')" "error s = BEBOP_ERR_NONE"
    "\<forall>b\<in>set (drop (pos s) (source s)). plain b \<and> b \<noteq> q \<and> b \<noteq> 0x5C \<and> b \<noteq> 0x0A" "pos s \<le> length (source s)"
  shows "\<not> skip \<and> schema s' = schema s \<and> source s' = source s
    \<and> (error s' = BEBOP_ERR_NONE \<and> buf' = buf @ drop (pos s) (source s) \<and> pos s' = length (source s)
       \<or> error s' = BEBOP_ERR_OUT_OF_MEMORY)"
  using assms
proof (induction q buf cap s arbitrary: skip buf' cap' s' rule: quoted_loop.induct)
  case (1 q buf cap s)
  let ?c = "bebop__scan_peek_char s"
  note res = "1.prems"(1) [unfolded quoted_loop.simps [of q buf cap s]]
  show ?case
  proof (cases "pos s = length (source s)")
    case True
    then have "?c = 0"
      by (simp add: bebop__scan_peek_char_def)
    then show ?thesis
      using res True "1.prems"(2) by simp
  next
    case False
    then have p: "pos s < length (source s)"
      using "1.prems"(4) by simp
    then have d: "drop (pos s) (source s) = ?c # drop (Suc (pos s)) (source s)"
      by (simp add: bebop__scan_peek_char_def Cons_nth_drop_Suc)
    then have c: "?c \<noteq> 0" "?c \<noteq> 0x0D" "?c \<noteq> q" "?c \<noteq> 0x5C" "\<not> BEBOP_IS_NEWLINE ?c"
      using "1.prems"(3) by (auto simp: plain_def BEBOP_IS_NEWLINE_def)
    note e = "1.prems"(2)
    obtain ok cp t where room: "quoted_room s buf cap = (ok, cp, t)"
      by (cases "quoted_room s buf cap")
    have st: "still s t"
      by (rule quoted_room_still [OF room])
    note err = quoted_room_error [OF room]
    show ?thesis
    proof (cases ok)
      case True
      have "bebop__scan_peek_char t = ?c"
        using st by (simp add: still_def bebop__scan_peek_char_def)
      then have a: "pos (bebop__scan_advance t) = Suc (pos s)" "source (bebop__scan_advance t) = source s" "schema (bebop__scan_advance t) = schema s"
          "error (bebop__scan_advance t) = BEBOP_ERR_NONE"
        using peek_at_advance(2) [of t] c(1,2) st err True e by (simp_all add: still_def)
      have loop: "quoted_loop q (buf @ [if BEBOP_IS_NEWLINE ?c then 0x0A else ?c]) cp (bebop__scan_advance t) = Some (skip, buf', cap', s')"
        using res e c room True by simp
      have "\<not> (?c = 0 \<or> error s \<noteq> BEBOP_ERR_NONE)"
        using c(1) e by simp
      from "1.IH"(3) [OF this c(3,4) room [symmetric] refl True loop a(4)]
      show ?thesis
        using a p d c(5) "1.prems"(3) by simp
    next
      case False
      then show ?thesis
        using res e c room st err by (simp add: still_def)
    qed
  qed
qed

lemma open_string_token:
  assumes "error s = BEBOP_ERR_NONE" "pos s < length (source s)" "bebop__scan_peek_char s = q" "q = 0x22 \<or> q = 0x27"
    "bebop_utf8_valid (drop (Suc (pos s)) (source s))"
    "\<forall>b\<in>set (drop (Suc (pos s)) (source s)). b \<notin> {0, q, 0x5C, 0x0A, 0x0D}"
    "bebop__scan_token im s = Some (tok, s')"
  shows "schema s' = schema s \<and> (error s' = BEBOP_ERR_NONE \<and> kind tok = BEBOP_TOKEN_STRING \<and> pos s' = length (source s)
    \<or> error s' = BEBOP_ERR_OUT_OF_MEMORY \<and> kind tok = BEBOP_TOKEN_ERROR)"
proof -
  let ?a = "bebop__scan_advance s"
  have a: "pos ?a = Suc (pos s)" "error ?a = BEBOP_ERR_NONE"
    using peek_at_advance(2) [of s] assms(1,3,4) by auto
  have tokq: "bebop__scan_quoted im s False = Some (tok, s')"
    using assms(3,4,7) by (auto simp: bebop__scan_token_def Let_def BEBOP_IS_IDENT_START_def BEBOP_IS_ALPHA_def BEBOP_IS_DIGIT_def)
  then obtain skip buf cap u where l: "quoted_loop q [] 0 ?a = Some (skip, buf, cap, u)"
    using assms(3) by (auto simp: bebop__scan_quoted_def Let_def split: option.splits)
  have u: "\<not> skip" "schema u = schema s" "source u = source s"
      "error u = BEBOP_ERR_NONE \<and> buf = drop (Suc (pos s)) (source s) \<and> pos u = length (source s) \<or> error u = BEBOP_ERR_OUT_OF_MEMORY"
    using quoted_loop_open [OF l a(2)] a(1) assms(2,6) by (auto simp: plain_def)
  have fin: "quoted_finish im False s buf cap u = Some (tok, s')"
    using tokq l u(1) assms(3) by (auto simp: bebop__scan_quoted_def Let_def)
  show ?thesis
    using fin assms(5) u(2,4)
    by (auto simp: quoted_finish_def Let_def scan_intern_def token_def scan_fail_def split: if_splits option.splits prod.splits)
qed
text \<open>
  C34: a string literal that is never closed is accepted. When a quote, double or single, is followed to the end of the source by valid UTF-8 text
  without a zero byte, a backslash, a line break or that quote, the scanner makes that text a string token like any other and reports
  nothing: the scan returns a string token that reaches the end of the source, no diagnostic is added and no error is set. Only if memory
  for the text runs out is the token an error token, with that error set.
\<close>

theorem unterminated_string_accepted:
  assumes "\<forall>m h i a. im_insert im m h i a \<noteq> None" "tabled im s" "error s = BEBOP_ERR_NONE"
    "pos s < length (source s)" "source s ! pos s = q" "q = 0x22 \<or> q = 0x27" "bebop_utf8_valid (drop (Suc (pos s)) (source s))"
    "\<forall>b\<in>set (drop (Suc (pos s)) (source s)). b \<notin> {0, q, 0x5C, 0x0A, 0x0D}"
  shows "\<exists>tok s'. bebop__scan_token im s = Some (tok, s') \<and> schema s' = schema s
    \<and> (error s' = BEBOP_ERR_NONE \<and> kind tok = BEBOP_TOKEN_STRING \<and> pos s' = length (source s)
       \<or> error s' = BEBOP_ERR_OUT_OF_MEMORY \<and> kind tok = BEBOP_TOKEN_ERROR)"
proof -
  obtain tok s' where r: "bebop__scan_token im s = Some (tok, s')"
    using scan_token_total [OF assms(1,2)] by auto
  have "bebop__scan_peek_char s = q"
    using assms(4,5) by (simp add: bebop__scan_peek_char_def)
  from open_string_token [OF assms(3,4) this assms(6,7,8) r] r show ?thesis
    by blast
qed

definition example_scanner :: "(u64 \<Rightarrow> nat option) bebop__scanner" where
  "example_scanner =
     \<lparr>source = [0x22, 0x61, 0x62], pos = 0, line = 1, col = 1, ctx = example_context, schema = Some (fresh_schema None), trivia = [],
      trivia_buf = None, trivia_capacity = 0, error = BEBOP_ERR_NONE\<rparr>"

lemma example_literal:
  "\<exists>cap s. quoted_loop 0x22 [] 0 (bebop__scan_advance example_scanner) = Some (False, [0x61, 0x62], cap, s) \<and> error s = BEBOP_ERR_NONE \<and> 2 < cap"
  by (simp add: example_scanner_def example_context_def quoted_loop.simps [of _ "[]"] quoted_loop.simps [of _ "a # b" for a b] quoted_room_def
      bebop__scan_grow_buf_def Let_def example_alloc example_chars)

theorem unterminated_string_accepted_witness:
  "\<exists>tok s'. bebop__scan_token example_internmap example_scanner = Some (tok, s') \<and> error s' = BEBOP_ERR_NONE \<and>
     kind tok = BEBOP_TOKEN_STRING \<and> schema s' = Some (fresh_schema None) \<and> pos s' = 3"
proof -
  have v: "bebop_utf8_valid [0x61, 0x62]"
    unfolding utf8_valid_exact
    by (intro exI [of _ "[0x61, 0x62]"]) (simp add: scalar_value_def bebop_utf8_encode_def)
  have tab: "tabled example_internmap example_scanner"
    using example_context_stores by (auto simp: tabled_def example_scanner_def)
  obtain tok s' where r: "bebop__scan_token example_internmap example_scanner = Some (tok, s')"
      "schema s' = schema example_scanner"
      "error s' = BEBOP_ERR_NONE \<and> kind tok = BEBOP_TOKEN_STRING \<and> pos s' = length (source example_scanner)
        \<or> error s' = BEBOP_ERR_OUT_OF_MEMORY \<and> kind tok = BEBOP_TOKEN_ERROR"
    using unterminated_string_accepted [OF example_insert tab, of "0x22"] v by (auto simp: example_scanner_def)
  have "error s' = BEBOP_ERR_NONE"
  proof -
    obtain cap s where l: "quoted_loop 0x22 [] 0 (bebop__scan_advance example_scanner) = Some (False, [0x61, 0x62], cap, s)"
      "error s = BEBOP_ERR_NONE" "2 < cap"
      using example_literal by blast
    have q: "bebop__scan_peek_char example_scanner = 0x22"
      by (simp add: example_scanner_def bebop__scan_peek_char_def)
    have "bebop__scan_token example_internmap example_scanner = quoted_finish example_internmap False example_scanner [0x61, 0x62] cap s"
      using q l by (simp add: bebop__scan_token_def bebop__scan_quoted_def example_chars(4-))
    then show ?thesis
      using r(1) l v by (auto simp: quoted_finish_def scan_intern_def Let_def split: option.splits)
  qed
  then show ?thesis
    using r by (auto simp: example_scanner_def)
qed

end
