(* ===== verification/Spec2Isabelle.thy ===== *)
theory Spec2Isabelle
  imports Wire_Message_Roundtrip Wire_Map_Refinement Wire_Any Schema_Duration Schema_Distance Schema_Tiling
begin

text \<open>
  A verification of Bebop: of the wire runtime, \<^verbatim>\<open>src/bebop/src/bebop_wire.c\<close> with its headers \<^verbatim>\<open>bebop_wire.h\<close> and
  \<^verbatim>\<open>bebop_wire_codegen.h\<close>, and of the front of the schema compiler: its scanner \<^verbatim>\<open>src/bebop/src/bebop_scanner.c\<close>, the
  diagnostics of \<^verbatim>\<open>bebop_schema.c\<close>, and the supporting files \<^verbatim>\<open>bebop_utils.c\<close>, \<^verbatim>\<open>bebop_arena.c\<close> and
  \<^verbatim>\<open>bebop_str.c\<close> with their declarations in \<^verbatim>\<open>bebop.c\<close>. The wire format is described in
  \<^verbatim>\<open>docs/WIRE.md\<close>, the schema language in \<^verbatim>\<open>docs/GRAMMAR.md\<close>.

  \<^bold>\<open>The program.\<close> Bebop is a schema language with a binary wire format. The runtime is what generated
  encoders and decoders link against. A \<^emph>\<open>context\<close> owns an \<^emph>\<open>arena\<close> from which everything is
  allocated; a \<^emph>\<open>writer\<close> appends encoded values to a growing buffer in the arena; a \<^emph>\<open>reader\<close> is a
  cursor over an encoded buffer; \<^emph>\<open>indexed messages\<close> carry a directory of the tags that are present,
  so that a field is found without decoding the others; \<^emph>\<open>maps\<close> are open-addressing hash tables in the
  arena; an \<^emph>\<open>any\<close> is a value packed with the URL of its type. The compiler reads schemas: its scanner
  turns a text into tokens, each with the blanks and comments (its trivia) around it, reports what is wrong as
  diagnostics of the schema, and interns the text of every token in a string table; the literals are converted
  by the functions of \<^verbatim>\<open>bebop_utils.c\<close>; everything is allocated from an arena.

  \<^bold>\<open>The theories of the runtime.\<close>
  \<^item> \<open>Bebop_Prelude\<close>: machine types, result codes, little-endian encodings of words, spans of byte
    lists and the lemmas on them that all components share.
  \<^item> \<open>Wire_Bits\<close>: population count, trailing zeros (with the portable loop and its termination) and
    the little-endian loads and stores of one, two and four bytes.
  \<^item> \<open>Wire_Arena\<close>: blocks, arena and context, with the allocator callback as a parameter. An arena
    pointer is an object number and an offset; a placement of the objects gives its address. Shown:
    allocations are disjoint in memory, inside a block and off its header, and eight bytes past the
    alignment the code rounds to; everything obtained from the allocator is given back exactly once; the decode depth is
    bounded; the size check wraps around for requests close to \<open>2 ^ 64\<close>.
  \<^item> \<open>Wire_Reader\<close>: the cursor operations, all scalar reads, strings, byte spans and fixed arrays. The
    locales \<open>wire_reader\<close> and \<open>framed_reader\<close> are the contract of a read over a specification of the
    bytes it accepts; every read interprets them. Shown:
    strings are accepted exactly when they are well formed, limits confine reads and are undone, the
    portable bodies agree with the little-endian ones.
  \<^item> \<open>Wire_Writer\<close>: buffer growth and all writes. The locale \<open>wire_writer\<close> is the contract of a write
    over an encoding, \<open>wire_codec\<close> adds a reader that inverts it. Shown: writes only append, growth
    copies the contents to memory that no other allocation has, lengths are patched in place, structs and arrays of every element type round
    trip.
  \<^item> \<open>Wire_Message\<close>: the indexed message encoder, both parsers, lookup, block masks and iterator, as the
    code has them. \<open>Wire_Message_Index\<close> gives an index its meaning, the list of its tags and the
    offsets of its fields, and shows what the two parsers establish; \<open>Wire_Message_Codec\<close> does so for
    the iterator and for the directories that the encoder writes; \<open>Wire_Message_Roundtrip\<close> has the
    properties: encoding and parsing are inverse, lookups are total and inside the payload, the lazy
    parser is safe without the boundary check, iteration yields every field, the directory is the
    smallest one, messages can be read from a stream (locale \<open>index_parser\<close>), and no sequence of decoding
    calls leaves the buffer or hands out a span outside it.
  \<^item> \<open>Wire_Hash\<close>: the hash and equality functions of the key kinds; hashing reads only the key, and the
    portable multiplication is the wide one. \<open>Wire_Map\<close>: the table with probing, insertion, growth,
    removal, clearing and iteration, as the code has them. \<open>Wire_Map_Table\<close>: the invariant of a table
    over any keys with a hash that respects equality (locale \<open>map_keys\<close>) and what each operation does
    to the finite map it stands for. \<open>Wire_Map_Refinement\<close>: the interpretation on the key kinds of the
    code and the properties: a run refines the run of a finite map, insertion is total, iteration
    yields every entry once, probes stay in the table; an insertion may fail with room left.
  \<^item> \<open>Wire_Values\<close>: C strings, the text form of UUIDs and bfloat16. \<open>Wire_Any\<close>: packing, type test and
    unpacking, with the callbacks of a type as parameters; the locale \<open>any_codec\<close> is what they promise,
    and packing and unpacking are inverse.

  \<^bold>\<open>The theories of the schema compiler.\<close>
  \<^item> \<open>Schema_Text\<close>: UTF-8 and escape sequences. Shown: decoding and encoding are inverse, validation
    accepts exactly the encodings, an escape stays within its buffers.
  \<^item> \<open>Schema_Numbers\<close>: integer, floating-point and UUID literals and method identifiers. Shown: what is
    accepted and its value; the overflow test misses some overflows; UUIDs are read as the runtime
    reads them. The conversion of decimal fractions is the C library's and a parameter.
  \<^item> \<open>Schema_Time\<close>, \<open>Schema_Duration\<close>: timestamps over the Gregorian calendar, durations with units and
    fractions. Shown: day numbers count days, the documented forms parse to their values, every
    accepted literal means what its text says, no sum wraps around; a last value without a unit is dropped.
  \<^item> \<open>Schema_Distance\<close>: the edit distance is the least cost of an alignment (the restricted distance with swaps
    of neighbours), and the suggestion the closest name.
  \<^item> \<open>Schema_Arena\<close>: the compiler's arena over a memory of bytes, with the host's allocator as a
    parameter. Shown: allocations are fresh, aligned and cleared, resizing keeps the contents,
    destruction returns what was taken.
  \<^item> \<open>Schema_Intern\<close>: the string table, with the vendored hash map as a parameter. Shown: equal handles are
    equal strings, handles give back their strings, and the walk along a collision chain ends.
  \<^item> \<open>Schema_Diagnostics\<close>: the state that the scanner changes outside itself, that is the context with its string
    table and the diagnostics of a schema. Shown: the counters are exact and at most a hundred diagnostics are kept;
    an error after a hundred warnings is lost.
  \<^item> \<open>Schema_Cursor\<close>: tokens, the cursor with its line and column, trivia, words and numbers.
    \<open>Schema_Scanner\<close>: string, byte and raw literals, punctuation, one token with its trivia, and the token stream.
    \<open>Schema_Scan_Steps\<close>: what each of these does to the cursor (the relation \<open>moves\<close>) and to the tokens.
    \<open>Schema_Tiling\<close>: scanning returns, and its tokens and trivia cover the source from the first to the last byte,
    with nothing between them; a string that is never closed is accepted without a diagnostic.

  \<^bold>\<open>Conventions.\<close> A null pointer is \<open>None\<close>; an out-parameter is a cell whose new content is returned,
  so that a theorem can say it was not written; \<^verbatim>\<open>size_t\<close> is a natural number with the wrap-around
  written out where the code does not exclude it; floating-point values are their bit patterns.
  Loops are structural or come with a termination proof, so operations are total, with four exceptions.
  The insertion into a map and its growth call each other, and the model bounds the depth by fuel; two
  levels are enough, as a table that was just grown has room. The walk along a chain of the string table is
  a partial function and is shown to return. So are the growth of the buffer for escapes (\<open>escape_room\<close>) and the loop
  over the tokens (\<open>scan_loop\<close>), which is shown to end for every source. \<open>message_iterate\<close> is a client of the message iterator, whose 256
  steps exceed the 255 tags there are.

  \<^bold>\<open>Not modelled.\<close> The atomic operations of the arena under concurrent use (the model runs one thread,
  in which a compare-and-swap succeeds); of the schema compiler the parser, semantic analysis, the definitions of a
  schema and its imports, descriptors, schema printing, macros, plugins and the accessors of its public interface; the command line tool and the
  language server, which are input and output; the code generators and the code they generate.
\<close>

end
